(* ===== verification/Prelude.thy ===== *)
theory Prelude
  imports
    Complex_Main
    "HOL-Library.AList"
    "HOL-Library.Char_ord"
    "HOL-Library.List_Lexorder"
    "HOL-Library.Product_Lexorder"
    "HOL-Library.Multiset"
    "HOL-Library.Signed_Division"
begin

section \<open>Shared vocabulary: Go strings, maps, slices and machine integers\<close>

text \<open>
  What the components share.

  \<^item> A Go \<^verbatim>\<open>string\<close> is a byte list, \<^typ>\<open>string\<close>. The order on it is the
    lexicographic order on bytes (\<^verbatim>\<open>Char_ord\<close> and \<^verbatim>\<open>List_Lexorder\<close>), which is
    the order of Go's \<^verbatim>\<open><\<close> on strings.
  \<^item> A Go map is an association list whose keys are distinct (\<open>gomap_ok\<close>). Reading is
    \<^const>\<open>map_of\<close>, writing is \<^const>\<open>AList.update\<close>. Go leaves the iteration order of a
    map open; the code modelled here either sorts the keys first (\<open>sorted_keys\<close>) or computes
    something that does not depend on the order, and the components prove that where it matters.
  \<^item> \<^verbatim>\<open>sort.SliceStable\<close> and \<^verbatim>\<open>slices.SortStableFunc\<close> are \<^const>\<open>sort_key\<close>, which
    is stable. \<^verbatim>\<open>sort.Slice\<close> is modelled by it too where the keys are pairwise different,
    because the result is then determined.
  \<^item> The Go integer types are \<^typ>\<open>int\<close> with their bounds written out, and a conversion
    wraps around in two's complement (\<open>wrap32\<close>, \<open>wrap64\<close>). Go's division truncates
    towards zero: it is \<^verbatim>\<open>sdiv\<close> and \<^verbatim>\<open>smod\<close> of \<^verbatim>\<open>Signed_Division\<close>.
\<close>

subsection \<open>Types and abbreviations\<close>

type_synonym name = string
type_synonym ('k, 'v) gomap = "('k \<times> 'v) list"

abbreviation gomap_ok :: "('k, 'v) gomap \<Rightarrow> bool" where
  "gomap_ok m \<equiv> distinct (map fst m)"

abbreviation keys_of :: "('k, 'v) gomap \<Rightarrow> 'k set" where
  "keys_of m \<equiv> fst ` set m"

definition sorted_keys :: "('k::linorder, 'v) gomap \<Rightarrow> 'k list" where
  "sorted_keys m = sort (map fst m)"

text \<open>Reading a missing key of a map of numbers gives the zero value of the element type.\<close>

definition get0 :: "('k, int) gomap \<Rightarrow> 'k \<Rightarrow> int" where
  "get0 m k = (case map_of m k of None \<Rightarrow> 0 | Some v \<Rightarrow> v)"

definition max_int32 :: int where "max_int32 = 2147483647"
definition max_int64 :: int where "max_int64 = 9223372036854775807"

definition wrap32 :: "int \<Rightarrow> int" where
  "wrap32 x = (x + 2147483648) mod 4294967296 - 2147483648"

definition wrap64 :: "int \<Rightarrow> int" where
  "wrap64 x = (x + 9223372036854775808) mod 18446744073709551616 - 9223372036854775808"

abbreviation is_int32 :: "int \<Rightarrow> bool" where
  "is_int32 x \<equiv> - max_int32 - 1 \<le> x \<and> x \<le> max_int32"

abbreviation is_int64 :: "int \<Rightarrow> bool" where
  "is_int64 x \<equiv> - max_int64 - 1 \<le> x \<and> x \<le> max_int64"

named_theorems gomap_simps \<open>reading a Go map after an update\<close>
named_theorems wrap_simps \<open>machine integers inside their range\<close>

subsection \<open>Maps\<close>

lemma map_of_update_if [gomap_simps]:
  "map_of (AList.update k v m) x = (if x = k then Some v else map_of m x)"
  by (simp add: update_conv')

lemma get0_update [gomap_simps]: "get0 (AList.update k v m) x = (if x = k then v else get0 m x)"
  by (simp add: get0_def gomap_simps)

lemma keys_of_update [gomap_simps]: "keys_of (AList.update k v m) = insert k (keys_of m)"
  by (simp add: dom_update)

lemma gomap_ok_update [gomap_simps, intro]: "gomap_ok m \<Longrightarrow> gomap_ok (AList.update k v m)"
  by (rule distinct_update)

lemma map_of_eq_Some_keys: "map_of m k = Some v \<Longrightarrow> k \<in> keys_of m"
  by (metis map_of_SomeD fst_conv image_eqI)

lemma map_of_None_keys: "map_of m k = None \<longleftrightarrow> k \<notin> keys_of m"
  by (rule map_of_eq_None_iff)

lemma keys_of_map_of: "k \<in> keys_of m \<longleftrightarrow> (\<exists>v. map_of m k = Some v)"
  using map_of_None_keys [of m k] by auto

lemma map_of_fold_update:
  "map_of (fold (\<lambda>n m. AList.update n (f n) m) ns m) k = (if k \<in> set ns then Some (f k) else map_of m k)"
  by (induction ns arbitrary: m) (auto simp: gomap_simps)

text \<open>Visiting a key of a map for the first time leaves fewer unvisited keys.\<close>

lemma card_unvisited:
  assumes "map_of m k = Some v" "k \<notin> S"
  shows "card (keys_of m - insert k S) < card (keys_of m - S)"
proof -
  have "k \<in> keys_of m - S" using assms by (auto simp: map_of_eq_Some_keys)
  moreover have "keys_of m - insert k S = keys_of m - S - {k}" by auto
  ultimately show ?thesis by (metis List.finite_set card_Diff1_less finite_Diff finite_imageI)
qed

lemma set_sorted_keys [simp]: "set (sorted_keys m) = keys_of m"
  by (simp add: sorted_keys_def)

lemma sorted_sorted_keys [simp]: "sorted (sorted_keys m)"
  by (simp add: sorted_keys_def)

lemma distinct_sorted_keys [simp]: "distinct (sorted_keys m) \<longleftrightarrow> gomap_ok m"
  by (simp add: sorted_keys_def)

lemma sorted_keys_eq_iff:
  assumes "gomap_ok m" "gomap_ok m'" "keys_of m = keys_of m'"
  shows "sorted_keys m = sorted_keys m'"
proof (rule sorted_distinct_set_unique)
  show "set (sorted_keys m) = set (sorted_keys m')"
    using assms by simp
qed (use assms in simp_all)

subsection \<open>Updating one entry in place\<close>

text \<open>
  A pointer into a map's values mutates that value where it is: the entry under \<open>k\<close> is
  replaced, the other entries and the order of the list stay.
\<close>

fun map_at :: "'k \<Rightarrow> ('v \<Rightarrow> 'v) \<Rightarrow> ('k, 'v) gomap \<Rightarrow> ('k, 'v) gomap" where
  "map_at k f [] = []"
| "map_at k f ((x, v) # m) = (if x = k then (x, f v) # m else (x, v) # map_at k f m)"

lemma keys_map_at [simp]: "map fst (map_at k f m) = map fst m"
  by (induction k f m rule: map_at.induct) auto

lemma map_of_map_at [gomap_simps]:
  "map_of (map_at k f m) x = (if x = k then map_option f (map_of m x) else map_of m x)"
  by (induction k f m rule: map_at.induct) auto

lemma keys_of_map_at [simp]: "keys_of (map_at k f m) = keys_of m"
  by (metis keys_map_at list.set_map)

lemma sorted_keys_map_at [simp]: "sorted_keys (map_at k f m) = sorted_keys m"
  by (simp add: sorted_keys_def)

subsection \<open>Machine integers\<close>

lemma wrap32_id [wrap_simps]: "is_int32 x \<Longrightarrow> wrap32 x = x"
  by (simp add: wrap32_def max_int32_def)

lemma wrap64_id [wrap_simps]: "is_int64 x \<Longrightarrow> wrap64 x = x"
  by (simp add: wrap64_def max_int64_def)

lemma wrap32_range: "is_int32 (wrap32 x)"
proof -
  have "0 \<le> (x + 2147483648) mod 4294967296" "(x + 2147483648) mod 4294967296 < 4294967296"
    by simp_all
  then show ?thesis by (simp add: wrap32_def max_int32_def)
qed

lemma wrap64_range: "is_int64 (wrap64 x)"
proof -
  have "0 \<le> (x + 9223372036854775808) mod 18446744073709551616"
    "(x + 9223372036854775808) mod 18446744073709551616 < 18446744073709551616"
    by simp_all
  then show ?thesis by (simp add: wrap64_def max_int64_def)
qed

lemma sdiv_nonneg [wrap_simps]: "0 \<le> a \<Longrightarrow> 0 < b \<Longrightarrow> (a::int) sdiv b = a div b"
  by (cases "a = 0") (auto simp: signed_divide_int_def sgn_if)

lemma smod_nonneg [wrap_simps]: "0 \<le> a \<Longrightarrow> 0 < b \<Longrightarrow> (a::int) smod b = a mod b"
  by (cases "a = 0") (auto simp: signed_modulo_int_def sgn_if)

lemma mult_div_le:
  assumes "0 \<le> u" "w \<le> b" "0 < (b::int)"
  shows "u * w div b \<le> u"
proof -
  have "u * w \<le> u * b" using assms by (intro mult_left_mono) auto
  then have "u * w div b \<le> u * b div b" using assms(3) by (intro zdiv_mono1) auto
  then show ?thesis using assms(3) by simp
qed

subsection \<open>Sorted lists\<close>

lemma sort_key_set_unique:
  assumes "distinct xs" "distinct ys" "set xs = set ys" "inj_on f (set xs)"
  shows "sort_key f xs = sort_key f ys"
proof -
  have "map f (sort_key f xs) = map f (sort_key f ys)"
    using assms by (intro sorted_distinct_set_unique) (auto simp: distinct_map)
  then show ?thesis
    using assms by (intro map_inj_on [of f]) auto
qed

lemma find_unique:
  assumes "x \<in> set xs" "P x" "\<And>y. y \<in> set xs \<Longrightarrow> P y \<Longrightarrow> y = x"
  shows "find P xs = Some x"
proof (cases "find P xs")
  case None
  with assms(1,2) show ?thesis by (simp add: find_None_iff)
next
  case (Some y)
  then have "y \<in> set xs" "P y" by (auto simp: find_Some_iff)
  with Some show ?thesis by (simp add: assms(3))
qed

lemma dropWhile_shorter: "ys = dropWhile P xs \<Longrightarrow> ys = z # zs \<Longrightarrow> length zs < length xs"
  by (metis length_dropWhile_le length_Cons Suc_le_eq)

lemma find_SomeD: "find P xs = Some x \<Longrightarrow> x \<in> set xs \<and> P x"
  by (induction xs) (auto split: if_splits)

lemma find_not_None: "(\<exists>x. find P xs = Some x) \<longleftrightarrow> (\<exists>x\<in>set xs. P x)"
  using find_None_iff [of P xs] by (cases "find P xs") (auto dest: find_SomeD)

lemma find_key: "distinct (map h xs) \<Longrightarrow> find (\<lambda>x. h x = k) xs = Some x \<longleftrightarrow> x \<in> set xs \<and> h x = k"
  by (induction xs) (auto simp: image_iff)

lemma insort_key_cong: "f x = g x \<Longrightarrow> (\<And>y. y \<in> set xs \<Longrightarrow> f y = g y) \<Longrightarrow> insort_key f x xs = insort_key g x xs"
  by (induction xs) auto

lemma sort_key_cong: "(\<And>y. y \<in> set xs \<Longrightarrow> f y = g y) \<Longrightarrow> sort_key f xs = sort_key g xs"
  by (induction xs) (auto intro!: insort_key_cong)

lemma insort_key_map: "insort_key f (h x) (map h xs) = map h (insort_key (\<lambda>x. f (h x)) x xs)"
  by (induction xs) auto

lemma sort_key_map: "sort_key f (map h xs) = map h (sort_key (\<lambda>x. f (h x)) xs)"
  by (induction xs) (simp_all add: insort_key_map)

lemma map_sort_key: "map f (sort_key f xs) = sort (map f xs)"
  using sort_key_map [of "\<lambda>x. x" f xs] by simp

lemma sum_list_sort_key: "sum_list (map g (sort_key f xs)) = sum_list (map g xs)" for g :: "'a \<Rightarrow> 'b::comm_monoid_add"
  by (metis mset_map mset_sort sum_mset_sum_list)

lemma sum_list_update:
  fixes g :: "'v \<Rightarrow> rat"
  shows "gomap_ok m \<Longrightarrow> (\<Sum>c\<leftarrow>map snd (AList.update k v m). g c)
     = (\<Sum>c\<leftarrow>map snd m. g c) + g v - (case map_of m k of None \<Rightarrow> 0 | Some t \<Rightarrow> g t)"
  by (induction m) auto

lemma sum_list_of_int_mult: "(\<Sum>x\<leftarrow>xs. of_int (f x) * (k::rat)) = of_int (\<Sum>x\<leftarrow>xs. f x) * k"
  by (induction xs) (simp_all add: algebra_simps)

lemma zip_upt_map: "zip [0..<length xs] (map g xs) = map (\<lambda>i. (i, g (xs ! i))) [0..<length xs]"
  by (rule nth_equalityI) simp_all

subsection \<open>Binary search\<close>

text \<open>
  \<^verbatim>\<open>sort.Search\<close>: the smallest position at which a predicate holds, by bisection. It finds that
  position when the predicate, once true, stays true.
\<close>

function search_from :: "(nat \<Rightarrow> bool) \<Rightarrow> nat \<Rightarrow> nat \<Rightarrow> nat" where
  "search_from f i j =
     (if i < j then let h = (i + j) div 2 in if \<not> f h then search_from f (h + 1) j else search_from f i h else i)"
  by pat_completeness auto
termination
  by (relation "measure (\<lambda>(f, i, j). j - i)") auto

declare search_from.simps [simp del]

definition sort_Search :: "nat \<Rightarrow> (nat \<Rightarrow> bool) \<Rightarrow> nat" where
  "sort_Search n f = search_from f 0 n"

lemma search_from_least:
  assumes "\<And>a b. a \<le> b \<Longrightarrow> b < n \<Longrightarrow> f a \<Longrightarrow> f b" "i \<le> j" "j \<le> n" "\<And>k. k < i \<Longrightarrow> \<not> f k" "j < n \<Longrightarrow> f j"
  shows "search_from f i j \<le> n \<and> (\<forall>k < search_from f i j. \<not> f k) \<and> (search_from f i j < n \<longrightarrow> f (search_from f i j))"
  using assms
proof (induction f i j rule: search_from.induct)
  case (1 f i j)
  note mono = 1(3) and step = search_from.simps [of f i j]
  define h where "h = (i + j) div 2"
  show ?case
  proof (cases "i < j")
    case False
    then show ?thesis using 1(4-7) step by auto
  next
    case True
    then have h: "i \<le> h" "h < j" by (auto simp: h_def)
    show ?thesis
    proof (cases "f h")
      case True
      have "search_from f i j = search_from f i h" using \<open>i < j\<close> True step by (simp add: h_def [symmetric] Let_def)
      then show ?thesis using 1(2) [OF \<open>i < j\<close> h_def _ mono] True h 1(5,6) by (simp add: h_def [symmetric])
    next
      case False
      have lower: "\<not> f k" if "k < h + 1" for k using mono [of k h] False that h 1(5) by auto
      have "search_from f i j = search_from f (h + 1) j" using \<open>i < j\<close> False step by (simp add: h_def [symmetric] Let_def)
      then show ?thesis using 1(1) [OF \<open>i < j\<close> h_def False mono _ _ lower] h 1(5,7) by simp
    qed
  qed
qed

lemma sort_Search_least:
  assumes "\<And>a b. a \<le> b \<Longrightarrow> b < n \<Longrightarrow> f a \<Longrightarrow> f b"
  shows "sort_Search n f \<le> n" "k < sort_Search n f \<Longrightarrow> \<not> f k" "sort_Search n f < n \<Longrightarrow> f (sort_Search n f)"
  using search_from_least [of n f 0 n] assms by (simp_all add: sort_Search_def)

subsection \<open>Fallible steps\<close>

text \<open>A Go call that returns a value and an error is a sum; \<open>Inl\<close> is the early return of the error.\<close>

definition bindE :: "'e + 'a \<Rightarrow> ('a \<Rightarrow> 'e + 'b) \<Rightarrow> 'e + 'b" where
  "bindE m f = (case m of Inl e \<Rightarrow> Inl e | Inr x \<Rightarrow> f x)"

fun traverseE :: "('a \<Rightarrow> 'e + 'b) \<Rightarrow> 'a list \<Rightarrow> 'e + 'b list" where
  "traverseE f [] = Inr []"
| "traverseE f (x # xs) = bindE (f x) (\<lambda>y. bindE (traverseE f xs) (\<lambda>ys. Inr (y # ys)))"

lemma bindE_simps [simp]: "bindE (Inl e) f = Inl e" "bindE (Inr x) f = f x"
  by (simp_all add: bindE_def)

lemma bindE_Inr: "bindE m f = Inr y \<longleftrightarrow> (\<exists>x. m = Inr x \<and> f x = Inr y)"
  by (cases m) simp_all

lemma traverseE_Inr: "(\<And>x. x \<in> set xs \<Longrightarrow> f x = Inr (g x)) \<Longrightarrow> traverseE f xs = Inr (map g xs)"
  by (induction xs) simp_all

lemma traverseE_InrD: "traverseE f xs = Inr ys \<Longrightarrow> list_all2 (\<lambda>x y. f x = Inr y) xs ys"
  by (induction xs arbitrary: ys) (auto simp: bindE_Inr)

end
