(* ===== verification/Quantity.thy ===== *)
theory Quantity
  imports Prelude
begin

section \<open>The interface to resource quantities\<close>

text \<open>
  Budgets, capacities and shares are values of \<^verbatim>\<open>resource.Quantity\<close> of the Kubernetes API
  machinery, which is not part of the repository. The components that use it take its operations
  as a record \<open>quantity_api\<close>, and what they rely on is the locale \<open>quantity\<close>: the
  documented meaning of \<^verbatim>\<open>Add\<close>, \<^verbatim>\<open>Sub\<close>, \<^verbatim>\<open>Cmp\<close>, \<^verbatim>\<open>Sign\<close>, \<^verbatim>\<open>AsDec\<close> and
  \<^verbatim>\<open>NewDecimalQuantity\<close>, stated over the decimal number \<open>unscaled * 10 ^ (- scale)\<close> that
  an \<^verbatim>\<open>inf.Dec\<close> stands for, with its \<^verbatim>\<open>Mul\<close> and \<^verbatim>\<open>Cmp\<close>. The exact decimals at the end of the theory satisfy the
  interface, so every law can hold, and the witnesses of the components evaluate on them.
\<close>

subsection \<open>Decimals and the operations\<close>

record dec =
  unscaled :: int
  scale :: int

definition dec_val :: "dec \<Rightarrow> rat" where
  "dec_val d = of_int (unscaled d) * 10 powi (- scale d)"

record 'q quantity_api =
  q_sign :: "'q \<Rightarrow> int"
  q_add :: "'q \<Rightarrow> 'q \<Rightarrow> 'q"
  q_sub :: "'q \<Rightarrow> 'q \<Rightarrow> 'q"
  q_cmp :: "'q \<Rightarrow> 'q \<Rightarrow> int"
  q_zero :: 'q
  q_dec :: "'q \<Rightarrow> dec"
  q_format :: "'q \<Rightarrow> string"
  q_new :: "dec \<Rightarrow> string \<Rightarrow> 'q"
  d_mul :: "dec \<Rightarrow> dec \<Rightarrow> dec"
  d_cmp :: "dec \<Rightarrow> dec \<Rightarrow> int"

definition qval :: "'q quantity_api \<Rightarrow> 'q \<Rightarrow> rat" where
  "qval Q x = dec_val (q_dec Q x)"

lemma dec_val_neg_iff [simp]: "dec_val d < 0 \<longleftrightarrow> unscaled d < 0"
proof -
  have "(0::rat) < 10 powi (- scale d)" by simp
  then have "\<not> (10::rat) powi (- scale d) < 0" by linarith
  then show ?thesis by (simp add: dec_val_def mult_less_0_iff)
qed

lemma dec_val_zero_iff [simp]: "dec_val d = 0 \<longleftrightarrow> unscaled d = 0"
  by (simp add: dec_val_def)

locale quantity =
  fixes Q :: "'q quantity_api"
  assumes add_val: "qval Q (q_add Q a b) = qval Q a + qval Q b"
    and sub_val: "qval Q (q_sub Q a b) = qval Q a - qval Q b"
    and cmp_val: "q_cmp Q a b = (if qval Q a < qval Q b then - 1 else if qval Q a = qval Q b then 0 else 1)"
    and sign_val: "q_sign Q a = (if qval Q a < 0 then - 1 else if qval Q a = 0 then 0 else 1)"
    and zero_val: "qval Q (q_zero Q) = 0"
    and dec_new: "q_dec Q (q_new Q d f) = d"
    and dmul_val: "dec_val (d_mul Q x y) = dec_val x * dec_val y"
    and dcmp_val: "d_cmp Q x y = (if dec_val x < dec_val y then - 1 else if dec_val x = dec_val y then 0 else 1)"
begin

lemma cmp_less: "q_cmp Q a b < 0 \<longleftrightarrow> qval Q a < qval Q b"
  by (simp add: cmp_val)

lemma cmp_greater: "q_cmp Q a b > 0 \<longleftrightarrow> qval Q b < qval Q a"
  by (auto simp: cmp_val)

lemma cmp_eq: "q_cmp Q a b = 0 \<longleftrightarrow> qval Q a = qval Q b"
  by (auto simp: cmp_val)

lemma sign_less: "q_sign Q a < 0 \<longleftrightarrow> unscaled (q_dec Q a) < 0"
  by (simp add: sign_val qval_def)

lemma fold_add_val: "qval Q (fold (\<lambda>x acc. q_add Q acc (g x)) xs a) = qval Q a + (\<Sum>x\<leftarrow>xs. qval Q (g x))"
  by (induction xs arbitrary: a) (simp_all add: add_val)

lemma new_val: "qval Q (q_new Q d f) = dec_val d"
  by (simp add: qval_def dec_new)

end

subsection \<open>Exact decimals provide the interface\<close>

definition dec_align :: "int \<Rightarrow> dec \<Rightarrow> int" where
  "dec_align s d = unscaled d * 10 ^ nat (s - scale d)"

definition dec_add :: "dec \<Rightarrow> dec \<Rightarrow> dec" where
  "dec_add a b = (let s = max (scale a) (scale b)
     in \<lparr>unscaled = dec_align s a + dec_align s b, scale = s\<rparr>)"

definition dec_cmp :: "dec \<Rightarrow> dec \<Rightarrow> int" where
  "dec_cmp a b = (let s = max (scale a) (scale b)
     in if dec_align s a < dec_align s b then - 1
        else if dec_align s a = dec_align s b then 0 else 1)"

definition dec_sub :: "dec \<Rightarrow> dec \<Rightarrow> dec" where
  "dec_sub a b = dec_add a (b\<lparr>unscaled := - unscaled b\<rparr>)"

definition dec_mul :: "dec \<Rightarrow> dec \<Rightarrow> dec" where
  "dec_mul a b = \<lparr>unscaled = unscaled a * unscaled b, scale = scale a + scale b\<rparr>"

definition exact_api :: "(dec \<times> string) quantity_api" where
  "exact_api = \<lparr>
     q_sign = (\<lambda>(d, _). sgn (unscaled d)),
     q_add = (\<lambda>(a, f) (b, _). (dec_add a b, f)),
     q_sub = (\<lambda>(a, f) (b, _). (dec_sub a b, f)),
     q_cmp = (\<lambda>(a, _) (b, _). dec_cmp a b),
     q_zero = (\<lparr>unscaled = 0, scale = 0\<rparr>, []),
     q_dec = fst,
     q_format = snd,
     q_new = (\<lambda>d f. (d, f)),
     d_mul = dec_mul,
     d_cmp = dec_cmp\<rparr>"

abbreviation whole :: "int \<Rightarrow> dec \<times> string" where
  "whole n \<equiv> (\<lparr>unscaled = n, scale = 0\<rparr>, ''DecimalSI'')"

lemma dec_align_val:
  assumes "scale d \<le> s"
  shows "of_int (dec_align s d) = dec_val d * 10 powi s"
proof -
  have "(10::rat) ^ nat (s - scale d) = 10 powi (s - scale d)"
    using assms by (simp add: power_int_def)
  also have "\<dots> = 10 powi (- scale d) * 10 powi s"
    by (simp flip: power_int_add)
  finally show ?thesis
    by (simp add: dec_align_def dec_val_def)
qed

lemma dec_val_add: "dec_val (dec_add a b) = dec_val a + dec_val b"
proof -
  define s where "s = max (scale a) (scale b)"
  have "dec_val (dec_add a b) = of_int (dec_align s a + dec_align s b) * 10 powi (- s)"
    by (simp add: dec_add_def Let_def dec_val_def s_def)
  also have "\<dots> = (dec_val a + dec_val b) * (10 powi s * 10 powi (- s))"
    by (simp add: dec_align_val s_def algebra_simps)
  also have "(10::rat) powi s * 10 powi (- s) = 1"
    by (simp flip: power_int_add)
  finally show ?thesis by simp
qed

lemma dec_cmp_val:
  "dec_cmp a b = (if dec_val a < dec_val b then - 1 else if dec_val a = dec_val b then 0 else 1)"
proof -
  define s where "s = max (scale a) (scale b)"
  have a: "of_int (dec_align s a) = dec_val a * 10 powi s" and b: "of_int (dec_align s b) = dec_val b * 10 powi s"
    by (simp_all add: dec_align_val s_def)
  have pos: "(0::rat) < 10 powi s" by simp
  have "dec_align s a < dec_align s b \<longleftrightarrow> dec_val a < dec_val b"
    using a b pos by (metis mult_less_cancel_right_pos of_int_less_iff)
  moreover have "dec_align s a = dec_align s b \<longleftrightarrow> dec_val a = dec_val b"
    using a b pos by (metis mult_cancel_right of_int_eq_iff less_irrefl)
  ultimately show ?thesis
    by (simp add: dec_cmp_def Let_def flip: s_def)
qed

lemma dec_val_sub: "dec_val (dec_sub a b) = dec_val a - dec_val b"
  by (simp add: dec_sub_def dec_val_add) (simp add: dec_val_def)

lemma dec_val_mul: "dec_val (dec_mul a b) = dec_val a * dec_val b"
proof -
  have "(10::rat) powi (- (scale a + scale b)) = 10 powi (- scale a) * 10 powi (- scale b)"
    by (simp flip: power_int_add)
  then show ?thesis by (simp add: dec_mul_def dec_val_def)
qed

interpretation exact: quantity exact_api
proof
  fix a b :: "dec \<times> string" and d x y :: dec and f :: string
  show "qval exact_api (q_sub exact_api a b) = qval exact_api a - qval exact_api b"
    by (simp add: qval_def exact_api_def dec_val_sub split: prod.split)
  show "dec_val (d_mul exact_api x y) = dec_val x * dec_val y"
    by (simp add: exact_api_def dec_val_mul)
  show "d_cmp exact_api x y = (if dec_val x < dec_val y then - 1 else if dec_val x = dec_val y then 0 else 1)"
    by (simp add: exact_api_def dec_cmp_val)
  show "qval exact_api (q_add exact_api a b) = qval exact_api a + qval exact_api b"
    by (simp add: qval_def exact_api_def dec_val_add split: prod.split)
  show "q_cmp exact_api a b = (if qval exact_api a < qval exact_api b then - 1
      else if qval exact_api a = qval exact_api b then 0 else 1)"
    by (simp add: qval_def exact_api_def dec_cmp_val split: prod.split)
  show "q_sign exact_api a = (if qval exact_api a < 0 then - 1 else if qval exact_api a = 0 then 0 else 1)"
    by (auto simp: qval_def exact_api_def sgn_if split: prod.split)
  show "qval exact_api (q_zero exact_api) = 0"
    by (simp add: qval_def exact_api_def dec_val_def)
  show "q_dec exact_api (q_new exact_api d f) = d"
    by (simp add: exact_api_def)
qed

end
