(* ===== verification/Largest_Remainder.thy ===== *)
theory Largest_Remainder
  imports Prelude
begin

section \<open>The contract of a largest-remainder split\<close>

text \<open>
  Two parts of the system split a whole number over clusters by largest remainder: the fleet quota
  over its clusters (\<^verbatim>\<open>pkg/quota/shares\<close>) and the replica floor over the placement's
  clusters (\<^verbatim>\<open>placement/allocation\<close>). Each has code of its own, with its own number types
  and error paths. The locale \<open>largest_remainder\<close> is what both promise: every cluster gets the
  floor of its proportional part, and the units the floors leave over go, one each, to the first
  clusters of a ranking by falling remainder. From it the locale derives once what the callers rely
  on: the parts add up exactly, no part is further than one unit from the exact proportion, a
  cluster without weight gets nothing, and a larger weight never gets the smaller part.
\<close>

subsection \<open>Floors, remainders and what is left over\<close>

definition lr_basis :: "'c list \<Rightarrow> ('c \<Rightarrow> int) \<Rightarrow> int" where
  "lr_basis cs w = (\<Sum>c\<leftarrow>cs. w c)"

definition lr_floor :: "int \<Rightarrow> 'c list \<Rightarrow> ('c \<Rightarrow> int) \<Rightarrow> 'c \<Rightarrow> int" where
  "lr_floor u cs w c = u * w c div lr_basis cs w"

definition lr_rem :: "int \<Rightarrow> 'c list \<Rightarrow> ('c \<Rightarrow> int) \<Rightarrow> 'c \<Rightarrow> int" where
  "lr_rem u cs w c = u * w c mod lr_basis cs w"

definition lr_left :: "int \<Rightarrow> 'c list \<Rightarrow> ('c \<Rightarrow> int) \<Rightarrow> int" where
  "lr_left u cs w = u - (\<Sum>c\<leftarrow>cs. lr_floor u cs w c)"

lemma lr_floor_rem: "u * w c = lr_floor u cs w c * lr_basis cs w + lr_rem u cs w c"
  unfolding lr_floor_def lr_rem_def by (rule div_mult_mod_eq [symmetric])

lemma sum_list_mult_left: "(\<Sum>c\<leftarrow>cs. (k::int) * f c) = k * (\<Sum>c\<leftarrow>cs. f c)"
  by (induction cs) (simp_all add: algebra_simps)

lemma sum_list_const_bound:
  fixes f :: "'c \<Rightarrow> int"
  assumes "\<And>c. c \<in> set cs \<Longrightarrow> f c \<le> k"
  shows "(\<Sum>c\<leftarrow>cs. f c) \<le> int (length cs) * k"
  using assms
proof (induction cs)
  case (Cons c cs)
  then have "f c \<le> k" "(\<Sum>c\<leftarrow>cs. f c) \<le> int (length cs) * k" by simp_all
  then show ?case by (simp add: algebra_simps)
qed simp

lemma lr_left_rems:
  assumes "0 < lr_basis cs w"
  shows "lr_left u cs w * lr_basis cs w = (\<Sum>c\<leftarrow>cs. lr_rem u cs w c)"
proof -
  let ?B = "lr_basis cs w"
  have "u * ?B = (\<Sum>c\<leftarrow>cs. u * w c)"
    by (simp add: lr_basis_def sum_list_mult_left)
  also have "\<dots> = (\<Sum>c\<leftarrow>cs. ?B * lr_floor u cs w c + lr_rem u cs w c)"
    by (simp add: lr_floor_def lr_rem_def)
  also have "\<dots> = ?B * (\<Sum>c\<leftarrow>cs. lr_floor u cs w c) + (\<Sum>c\<leftarrow>cs. lr_rem u cs w c)"
    by (simp add: sum_list_addf sum_list_mult_left)
  finally show ?thesis
    by (simp add: lr_left_def algebra_simps)
qed

lemma lr_left_nonneg:
  assumes "0 < lr_basis cs w"
  shows "0 \<le> lr_left u cs w"
proof -
  have "0 \<le> (\<Sum>c\<leftarrow>cs. lr_rem u cs w c)"
    using assms by (intro sum_list_nonneg) (auto simp: lr_rem_def)
  with lr_left_rems [OF assms, of u] show ?thesis
    using assms by (metis mult_less_0_iff not_less)
qed

lemma lr_left_less:
  assumes "0 < lr_basis cs w"
  shows "lr_left u cs w < int (length cs)"
proof -
  let ?B = "lr_basis cs w"
  have "lr_rem u cs w c \<le> ?B - 1" for c
    using assms by (simp add: lr_rem_def)
  then have "lr_left u cs w * ?B \<le> int (length cs) * (?B - 1)"
    unfolding lr_left_rems [OF assms] by (intro sum_list_const_bound) auto
  moreover have "0 < int (length cs)"
    using assms by (cases cs) (auto simp: lr_basis_def)
  ultimately have "lr_left u cs w * ?B < int (length cs) * ?B"
    unfolding right_diff_distrib by linarith
  then show ?thesis
    using assms by (rule_tac mult_right_less_imp_less [of _ "lr_basis cs w"]) simp_all
qed

lemma lr_floor_nonneg: "0 \<le> u \<Longrightarrow> 0 \<le> w c \<Longrightarrow> 0 \<le> lr_basis cs w \<Longrightarrow> 0 \<le> lr_floor u cs w c"
  by (simp add: lr_floor_def div_int_pos_iff)

lemma lr_rem_positive_of_winner:
  assumes B: "0 < lr_basis cs w" and perm: "mset rk = mset cs"
    and srt: "sorted_wrt (\<lambda>a b. lr_rem u cs w b \<le> lr_rem u cs w a) rk"
    and win: "c \<in> set (take (nat (lr_left u cs w)) rk)"
  shows "0 < lr_rem u cs w c"
proof (rule ccontr)
  let ?r = "lr_rem u cs w" and ?L = "lr_left u cs w"
  assume "\<not> 0 < ?r c"
  moreover have nn: "0 \<le> ?r x" for x using B by (simp add: lr_rem_def)
  ultimately have c0: "?r c = 0" by (meson antisym not_less)
  obtain i where i: "i < nat ?L" "i < length rk" "rk ! i = c"
    using win by (auto simp: in_set_conv_nth)
  have rest: "?r x = 0" if x: "x \<in> set (drop i rk)" for x
  proof -
    obtain j where "j < length rk - i" "x = rk ! (i + j)"
      using x by (auto simp: in_set_conv_nth)
    then have "?r x \<le> ?r c"
      using srt i by (cases "j = 0") (auto simp: sorted_wrt_iff_nth_less)
    with nn [of x] c0 show ?thesis by simp
  qed
  have lt: "?r x \<le> lr_basis cs w - 1" for x using B by (simp add: lr_rem_def)
  have "(\<Sum>x\<leftarrow>cs. ?r x) = (\<Sum>x\<leftarrow>rk. ?r x)"
    using perm by (metis mset_map sum_mset_sum_list)
  also have "\<dots> = (\<Sum>x\<leftarrow>take i rk. ?r x) + (\<Sum>x\<leftarrow>drop i rk. ?r x)"
    by (metis append_take_drop_id map_append sum_list_append)
  also have "(\<Sum>x\<leftarrow>drop i rk. ?r x) = 0"
    using rest by (simp cong: map_cong)
  also have "(\<Sum>x\<leftarrow>take i rk. ?r x) \<le> int i * (lr_basis cs w - 1)"
    using sum_list_const_bound [of "take i rk" ?r "lr_basis cs w - 1"] lt i by simp
  finally have "?L * lr_basis cs w \<le> int i * (lr_basis cs w - 1)"
    by (simp add: lr_left_rems [OF B])
  also have "\<dots> \<le> int i * lr_basis cs w" by (simp add: algebra_simps)
  finally have "?L \<le> int i" using B by simp
  with i(1) show False by simp
qed

subsection \<open>The contract and its consequences\<close>

locale largest_remainder =
  fixes valid :: "'i \<Rightarrow> bool"
    and clusters :: "'i \<Rightarrow> 'c list"
    and weight :: "'i \<Rightarrow> 'c \<Rightarrow> int"
    and units :: "'i \<Rightarrow> int"
    and ranking :: "'i \<Rightarrow> 'c list"
    and portion :: "'i \<Rightarrow> 'c \<Rightarrow> int"
  assumes distinct_clusters: "valid i \<Longrightarrow> distinct (clusters i)"
    and weight_nonneg: "valid i \<Longrightarrow> c \<in> set (clusters i) \<Longrightarrow> 0 \<le> weight i c"
    and units_nonneg: "valid i \<Longrightarrow> 0 \<le> units i"
    and basis_pos: "valid i \<Longrightarrow> 0 < lr_basis (clusters i) (weight i)"
    and ranking_perm: "valid i \<Longrightarrow> mset (ranking i) = mset (clusters i)"
    and ranking_sorted: "valid i \<Longrightarrow> sorted_wrt (\<lambda>a b. lr_rem (units i) (clusters i) (weight i) b
           \<le> lr_rem (units i) (clusters i) (weight i) a) (ranking i)"
    and portion_def: "valid i \<Longrightarrow> c \<in> set (clusters i) \<Longrightarrow>
      portion i c = lr_floor (units i) (clusters i) (weight i) c
        + (if c \<in> set (take (nat (lr_left (units i) (clusters i) (weight i))) (ranking i)) then 1 else 0)"
begin

lemma distinct_ranking: "valid i \<Longrightarrow> distinct (ranking i)"
  by (metis distinct_clusters mset_eq_imp_distinct_iff ranking_perm)

lemma set_ranking: "valid i \<Longrightarrow> set (ranking i) = set (clusters i)"
  by (metis ranking_perm set_mset_mset)

lemma weight_le_basis: "valid i \<Longrightarrow> c \<in> set (clusters i) \<Longrightarrow> weight i c \<le> lr_basis (clusters i) (weight i)"
  unfolding lr_basis_def by (intro member_le_sum_list) (auto simp: weight_nonneg)

lemma left_winners:
  assumes "valid i"
  shows "int (length (take (nat (lr_left (units i) (clusters i) (weight i))) (ranking i)))
       = lr_left (units i) (clusters i) (weight i)"
proof -
  have "length (ranking i) = length (clusters i)"
    using ranking_perm [OF assms] by (metis size_mset)
  then show ?thesis
    using lr_left_nonneg [OF basis_pos [OF assms], of "units i"]
      lr_left_less [OF basis_pos [OF assms], of "units i"]
    by simp
qed

theorem portions_sum:
  assumes v: "valid i"
  shows "(\<Sum>c\<leftarrow>clusters i. portion i c) = units i"
proof -
  let ?L = "lr_left (units i) (clusters i) (weight i)"
  let ?W = "take (nat ?L) (ranking i)"
  let ?f = "lr_floor (units i) (clusters i) (weight i)"
  have "(\<Sum>c\<leftarrow>clusters i. portion i c) = (\<Sum>c\<leftarrow>clusters i. ?f c + (if c \<in> set ?W then 1 else 0))"
    using portion_def [OF v] by (intro arg_cong [of _ _ sum_list] map_cong) auto
  also have "\<dots> = (\<Sum>c\<leftarrow>clusters i. ?f c) + (\<Sum>c\<leftarrow>clusters i. if c \<in> set ?W then 1 else 0)"
    by (rule sum_list_addf)
  also have "(\<Sum>c\<leftarrow>clusters i. if c \<in> set ?W then 1 else (0::int)) = int (card (set (clusters i) \<inter> set ?W))"
    by (simp add: sum_list_distinct_conv_sum_set distinct_clusters v Int_def flip: sum.inter_filter)
  also have "set (clusters i) \<inter> set ?W = set ?W"
    using set_ranking [OF v] set_take_subset by fastforce
  also have "int (card (set ?W)) = ?L"
    using left_winners [OF v] distinct_ranking [OF v] by (simp add: distinct_card)
  finally show ?thesis by (simp add: lr_left_def)
qed

theorem portion_near_quota:
  assumes v: "valid i" and c: "c \<in> set (clusters i)"
  shows "units i * weight i c - lr_basis (clusters i) (weight i) < portion i c * lr_basis (clusters i) (weight i)"
    and "portion i c * lr_basis (clusters i) (weight i) < units i * weight i c + lr_basis (clusters i) (weight i)"
proof -
  let ?B = "lr_basis (clusters i) (weight i)"
  let ?q = "lr_floor (units i) (clusters i) (weight i) c"
  let ?r = "lr_rem (units i) (clusters i) (weight i) c"
  have qr: "units i * weight i c = ?q * ?B + ?r" by (rule lr_floor_rem)
  have r: "0 \<le> ?r" "?r < ?B" using basis_pos [OF v] by (simp_all add: lr_rem_def)
  have p: "portion i c = ?q \<or> portion i c = ?q + 1 \<and> 0 < ?r"
    using portion_def [OF v c]
      lr_rem_positive_of_winner [OF basis_pos [OF v] ranking_perm [OF v] ranking_sorted [OF v]]
    by auto
  then show "units i * weight i c - ?B < portion i c * ?B" and "portion i c * ?B < units i * weight i c + ?B"
    using qr r by (auto simp: algebra_simps)
qed

theorem portion_nonneg: "valid i \<Longrightarrow> c \<in> set (clusters i) \<Longrightarrow> 0 \<le> portion i c"
  using basis_pos [of i] by (simp add: portion_def lr_floor_nonneg units_nonneg weight_nonneg)

theorem portion_le_units:
  assumes v: "valid i" and c: "c \<in> set (clusters i)"
  shows "portion i c \<le> units i"
proof -
  have "portion i c \<le> (\<Sum>x\<leftarrow>clusters i. portion i x)"
    using c portion_nonneg [OF v] by (intro member_le_sum_list) auto
  then show ?thesis by (simp add: portions_sum [OF v])
qed

theorem portion_zero_weight:
  assumes v: "valid i" and c: "c \<in> set (clusters i)" and w: "weight i c = 0"
  shows "portion i c = 0"
proof -
  have "portion i c * lr_basis (clusters i) (weight i) < lr_basis (clusters i) (weight i)"
    using portion_near_quota(2) [OF v c] w by simp
  then have "portion i c < 1"
    using basis_pos [OF v] by (metis mult_1 mult_less_cancel_right_pos)
  then show ?thesis using portion_nonneg [OF v c] by simp
qed

theorem portion_monotone:
  assumes v: "valid i" and c: "c \<in> set (clusters i)" and d: "d \<in> set (clusters i)"
    and w: "weight i c < weight i d"
  shows "portion i c \<le> portion i d"
proof -
  let ?B = "lr_basis (clusters i) (weight i)" and ?u = "units i"
  let ?q = "lr_floor ?u (clusters i) (weight i)" and ?r = "lr_rem ?u (clusters i) (weight i)"
  let ?n = "nat (lr_left ?u (clusters i) (weight i))"
  have B: "0 < ?B" by (rule basis_pos [OF v])
  have le: "?u * weight i c \<le> ?u * weight i d"
    using w units_nonneg [OF v] by (intro mult_left_mono) auto
  then have qle: "?q c \<le> ?q d"
    unfolding lr_floor_def using B by (intro zdiv_mono1) auto
  show ?thesis
  proof (cases "?q c = ?q d \<and> ?u \<noteq> 0")
    case False
    show ?thesis
    proof (cases "?u = 0")
      case True
      then show ?thesis
        using portion_nonneg [OF v] portion_le_units [OF v] c d by (metis order_trans)
    next
      case nz: False
      with False qle have "?q c + 1 \<le> ?q d" by auto
      then show ?thesis by (simp add: portion_def v c d)
    qed
  next
    case True
    then have "?u * weight i c < ?u * weight i d"
      using w units_nonneg [OF v] by (intro mult_strict_left_mono) auto
    moreover have "?u * weight i x = ?q x * ?B + ?r x" for x
      by (rule lr_floor_rem)
    ultimately have rlt: "?r c < ?r d" using True by simp
    have "d \<in> set (take ?n (ranking i))" if cw: "c \<in> set (take ?n (ranking i))"
    proof -
      obtain k where k: "k < ?n" "k < length (ranking i)" "ranking i ! k = c"
        using cw by (auto simp: in_set_conv_nth)
      obtain l where l: "l < length (ranking i)" "ranking i ! l = d"
        using d set_ranking [OF v] by (metis in_set_conv_nth)
      have "l < k"
      proof (rule ccontr)
        assume "\<not> l < k"
        then have "k < l \<or> k = l" by linarith
        then have "?r d \<le> ?r c"
          using sorted_wrt_nth_less [OF ranking_sorted [OF v], of k l] k l by auto
        with rlt show False by simp
      qed
      then have "l < ?n" "l < length (ranking i)" using k by simp_all
      then have "take ?n (ranking i) ! l \<in> set (take ?n (ranking i))" by (intro nth_mem) simp
      then show ?thesis using \<open>l < ?n\<close> l by simp
    qed
    then show ?thesis using True by (simp add: portion_def v c d)
  qed
qed

end

end
