(* ===== verification/Quota_Shares.thy ===== *)
theory Quota_Shares
  imports Quantity Largest_Remainder
begin

section \<open>Splitting a fleet allowance into cluster shares (pkg/quota/shares)\<close>

text \<open>
  \<^verbatim>\<open>pkg/quota/shares/shares.go\<close>: \<open>Proportional\<close> splits one fleet-wide nominal over the
  clusters in proportion to their capacities, exactly and in the unit the nominal was written in.
  \<open>Sum\<close> adds shares up. The error type lists the error returns in the order of the code;
  \<open>PortionsExhausted\<close> is the index panic of \<^verbatim>\<open>portions[0]\<close>, which is proved not to
  happen.
\<close>

subsection \<open>Data\<close>

record 'q weight =
  w_cluster :: name
  w_capacity :: 'q

record 'q share =
  s_cluster :: name
  s_nominal :: 'q

datatype 'q share_error =
    NoClusters
  | NegativeTotal 'q
  | UnnamedWeight
  | DuplicateCluster name
  | NegativeCapacity name 'q
  | ZeroBasis
  | PortionsExhausted

subsection \<open>Operations\<close>

definition decScale :: "'q quantity_api \<Rightarrow> 'q \<Rightarrow> int" where
  "decScale Q q = scale (q_dec Q q)"

definition unitsAt :: "'q quantity_api \<Rightarrow> 'q \<Rightarrow> int \<Rightarrow> int" where
  "unitsAt Q q s =
     (let d = q_dec Q q; shift = wrap32 (s - scale d)
      in if shift > 0 then unscaled d * 10 ^ nat shift else unscaled d)"

definition quantityAt :: "'q quantity_api \<Rightarrow> int \<Rightarrow> int \<Rightarrow> string \<Rightarrow> 'q" where
  "quantityAt Q units s format = q_new Q \<lparr>unscaled = units, scale = s\<rparr> format"

text \<open>The validation loop over the weights, with the set of names seen so far.\<close>

fun checkWeights :: "'q quantity_api \<Rightarrow> name list \<Rightarrow> 'q weight list \<Rightarrow> 'q share_error option" where
  "checkWeights Q seen [] = None"
| "checkWeights Q seen (w # ws) =
     (if w_cluster w = [] then Some UnnamedWeight
      else if w_cluster w \<in> set seen then Some (DuplicateCluster (w_cluster w))
      else if q_sign Q (w_capacity w) < 0 then Some (NegativeCapacity (w_cluster w) (w_capacity w))
      else checkWeights Q (w_cluster w # seen) ws)"

text \<open>The largest scale any capacity needs, starting from zero.\<close>

fun weightScaleFrom :: "'q quantity_api \<Rightarrow> int \<Rightarrow> 'q weight list \<Rightarrow> int" where
  "weightScaleFrom Q acc [] = acc"
| "weightScaleFrom Q acc (w # ws) =
     weightScaleFrom Q (if decScale Q (w_capacity w) > acc then decScale Q (w_capacity w) else acc) ws"

text \<open>The loop that hands out the leftover units: one to the head of the sorted portions each time.\<close>

function distribute :: "int \<Rightarrow> (nat \<times> int) list \<Rightarrow> int list \<Rightarrow> int list option" where
  "distribute leftover portions assigned =
     (if leftover > 0 then
        (case portions of
           [] \<Rightarrow> None
         | (i, r) # rest \<Rightarrow> distribute (leftover - 1) rest (assigned[i := assigned ! i + 1]))
      else Some assigned)"
  by pat_completeness auto
termination
  by (relation "measure (\<lambda>(l, ps, a). length ps)") auto

declare distribute.simps [simp del]

definition sortPortions :: "'q weight list \<Rightarrow> (nat \<times> int) list \<Rightarrow> (nat \<times> int) list" where
  "sortPortions ws portions = sort_key (\<lambda>(i, r). (- r, w_cluster (ws ! i))) portions"

definition Proportional :: "'q quantity_api \<Rightarrow> 'q \<Rightarrow> 'q weight list \<Rightarrow> 'q share_error + 'q share list" where
  "Proportional Q tot ws =
     (if ws = [] then Inl NoClusters
      else if q_sign Q tot < 0 then Inl (NegativeTotal tot)
      else case checkWeights Q [] ws of
        Some e \<Rightarrow> Inl e
      | None \<Rightarrow>
         (let s = decScale Q tot;
              units = unitsAt Q tot s;
              weightScale = weightScaleFrom Q 0 ws;
              weighted = map (\<lambda>w. unitsAt Q (w_capacity w) weightScale) ws;
              basis = sum_list weighted
          in if basis = 0 then Inl ZeroBasis
             else
               let assigned = map (\<lambda>v. units * v sdiv basis) weighted;
                   placed = sum_list assigned;
                   portions = zip [0..<length ws] (map (\<lambda>v. units * v smod basis) weighted)
               in case distribute (units - placed) (sortPortions ws portions) assigned of
                    None \<Rightarrow> Inl PortionsExhausted
                  | Some final \<Rightarrow>
                      Inr (sort_key s_cluster
                        (map2 (\<lambda>w a. \<lparr>s_cluster = w_cluster w,
                                      s_nominal = quantityAt Q a s (q_format Q tot)\<rparr>) ws final))))"

definition Sum :: "'q quantity_api \<Rightarrow> 'q share list \<Rightarrow> 'q" where
  "Sum Q shares = fold (\<lambda>s tot. q_add Q tot (s_nominal s)) shares (q_zero Q)"


subsection \<open>The reference split\<close>

text \<open>
  What the code computes, written without indices: the whole units of each cluster, the ranking of
  the clusters, and the share of one cluster.
\<close>

definition total_units :: "'q quantity_api \<Rightarrow> 'q \<Rightarrow> int" where
  "total_units Q tot = unitsAt Q tot (decScale Q tot)"

definition weight_units :: "'q quantity_api \<Rightarrow> 'q weight list \<Rightarrow> 'q weight \<Rightarrow> int" where
  "weight_units Q ws w = unitsAt Q (w_capacity w) (weightScaleFrom Q 0 ws)"

definition share_ranking :: "'q quantity_api \<Rightarrow> 'q \<Rightarrow> 'q weight list \<Rightarrow> 'q weight list" where
  "share_ranking Q tot ws =
     sort_key (\<lambda>w. (- lr_rem (total_units Q tot) ws (weight_units Q ws) w, w_cluster w)) ws"

definition share_units :: "'q quantity_api \<Rightarrow> 'q \<Rightarrow> 'q weight list \<Rightarrow> 'q weight \<Rightarrow> int" where
  "share_units Q tot ws w =
     lr_floor (total_units Q tot) ws (weight_units Q ws) w
     + (if w \<in> set (take (nat (lr_left (total_units Q tot) ws (weight_units Q ws))) (share_ranking Q tot ws))
        then 1 else 0)"

definition reference_split :: "'q quantity_api \<Rightarrow> 'q \<Rightarrow> 'q weight list \<Rightarrow> 'q share list" where
  "reference_split Q tot ws =
     sort_key s_cluster
       (map (\<lambda>w. \<lparr>s_cluster = w_cluster w,
                   s_nominal = quantityAt Q (share_units Q tot ws w) (decScale Q tot) (q_format Q tot)\<rparr>) ws)"

text \<open>The inputs the split accepts.\<close>

definition weights_ok :: "'q quantity_api \<Rightarrow> 'q weight list \<Rightarrow> bool" where
  "weights_ok Q ws \<longleftrightarrow> distinct (map w_cluster ws) \<and> [] \<notin> w_cluster ` set ws
     \<and> (\<forall>w\<in>set ws. 0 \<le> q_sign Q (w_capacity w))"

definition split_ok :: "'q quantity_api \<Rightarrow> 'q \<Rightarrow> 'q weight list \<Rightarrow> bool" where
  "split_ok Q tot ws \<longleftrightarrow> quantity Q \<and> 0 \<le> q_sign Q tot \<and> weights_ok Q ws
     \<and> 0 < lr_basis ws (weight_units Q ws)"

subsection \<open>Validation\<close>

lemma checkWeights_None:
  "checkWeights Q seen ws = None \<longleftrightarrow>
     weights_ok Q ws \<and> set seen \<inter> w_cluster ` set ws = {}"
  by (induction Q seen ws rule: checkWeights.induct) (auto simp: weights_ok_def not_less)

lemma total_units_unscaled: "total_units Q tot = unscaled (q_dec Q tot)"
  by (simp add: total_units_def unitsAt_def decScale_def wrap32_def Let_def)

lemma unitsAt_sign: "0 \<le> unscaled (q_dec Q q) \<Longrightarrow> 0 \<le> unitsAt Q q s"
  by (simp add: unitsAt_def Let_def)

context quantity
begin

lemma sign_nonneg: "0 \<le> q_sign Q q \<longleftrightarrow> 0 \<le> unscaled (q_dec Q q)"
  using sign_less [of q] by linarith

lemma weight_units_nonneg: "weights_ok Q ws \<Longrightarrow> w \<in> set ws \<Longrightarrow> 0 \<le> weight_units Q ws w"
  by (simp add: weights_ok_def weight_units_def unitsAt_sign sign_nonneg)

lemma basis_nonneg: "weights_ok Q ws \<Longrightarrow> 0 \<le> lr_basis ws (weight_units Q ws)"
  unfolding lr_basis_def by (intro sum_list_nonneg) (auto simp: weight_units_nonneg)

end

subsection \<open>Handing out the leftover units\<close>

lemma distribute_Some:
  assumes "distinct (map fst ps)" "\<forall>p\<in>set ps. fst p < length a" "L \<le> int (length ps)"
  shows "distribute L ps a
       = Some (map (\<lambda>k. a ! k + (if k \<in> fst ` set (take (nat L) ps) then 1 else 0)) [0..<length a])"
  using assms
proof (induction L ps a rule: distribute.induct)
  case (1 L ps a)
  show ?case
  proof (cases "L > 0")
    case False
    then show ?thesis by (simp add: distribute.simps map_nth)
  next
    case True
    then obtain i r rest where ps: "ps = (i, r) # rest"
      using "1.prems"(3) by (cases ps) auto
    let ?a = "a[i := a ! i + 1]"
    have i: "i < length a" "i \<notin> fst ` set rest"
      using "1.prems" by (auto simp: ps)
    have n: "nat L = Suc (nat (L - 1))" using True by simp
    have "distribute L ps a = distribute (L - 1) rest ?a"
      using True by (simp add: ps distribute.simps [of L])
    also have "\<dots> = Some (map (\<lambda>k. ?a ! k + (if k \<in> fst ` set (take (nat (L - 1)) rest) then 1 else 0)) [0..<length ?a])"
      using "1.IH" [OF True ps refl] "1.prems" by (simp add: ps)
    also have "\<dots> = Some (map (\<lambda>k. a ! k + (if k \<in> fst ` set (take (nat L) ps) then 1 else 0)) [0..<length a])"
      using i set_take_subset [of "nat (L - 1)" rest]
      by (auto simp: ps n nth_list_update)
    finally show ?thesis .
  qed
qed

subsection \<open>The code computes the reference split\<close>

context quantity
begin

lemma sorted_portions:
  "share_ranking Q tot ws = map (\<lambda>p. ws ! fst p) (sortPortions ws
     (map (\<lambda>i. (i, lr_rem (total_units Q tot) ws (weight_units Q ws) (ws ! i))) [0..<length ws]))"
  (is "_ = map ?h (sortPortions ws ?ps)")
proof -
  let ?key = "\<lambda>w. (- lr_rem (total_units Q tot) ws (weight_units Q ws) w, w_cluster w)"
  have ws: "ws = map ?h ?ps" by (simp add: comp_def map_nth)
  have "sort_key ?key (map ?h ?ps) = map ?h (sort_key (\<lambda>p. ?key (?h p)) ?ps)"
    by (rule sort_key_map)
  also have "sort_key (\<lambda>p. ?key (?h p)) ?ps = sortPortions ws ?ps"
    unfolding sortPortions_def by (rule sort_key_cong) auto
  finally show ?thesis
    unfolding share_ranking_def using ws by simp
qed

lemma final_units:
  assumes ok: "split_ok Q tot ws"
  defines "u \<equiv> total_units Q tot" and "wu \<equiv> weight_units Q ws"
  shows "distribute (lr_left u ws wu)
           (sortPortions ws (map (\<lambda>i. (i, lr_rem u ws wu (ws ! i))) [0..<length ws]))
           (map (lr_floor u ws wu) ws)
       = Some (map (share_units Q tot ws) ws)"
proof -
  let ?ps = "sortPortions ws (map (\<lambda>i. (i, lr_rem u ws wu (ws ! i))) [0..<length ws])"
  let ?L = "lr_left u ws wu"
  have idx: "set (map fst ?ps) = {0..<length ws}" "distinct (map fst ?ps)" "length ?ps = length ws"
    by (auto simp: sortPortions_def distinct_map inj_on_def image_comp comp_def)
  have less: "\<forall>p\<in>set ?ps. fst p < length (map (lr_floor u ws wu) ws)"
    by (auto simp: sortPortions_def)
  have B: "0 < lr_basis ws wu" using ok by (simp add: split_ok_def wu_def)
  have dws: "distinct ws" using ok by (simp add: split_ok_def weights_ok_def distinct_map)
  have "k \<in> fst ` set (take (nat ?L) ?ps) \<longleftrightarrow> ws ! k \<in> set (take (nat ?L) (share_ranking Q tot ws))"
    if k: "k < length ws" for k
  proof -
    have "fst p < length ws" if "p \<in> set (take (nat ?L) ?ps)" for p
      using that less by (auto dest: in_set_takeD)
    then show ?thesis
      using k dws by (auto simp: sorted_portions u_def wu_def take_map nth_eq_iff_index_eq image_iff)
  qed
  then show ?thesis
    using distribute_Some [OF idx(2) less, of ?L] lr_left_less [OF B, of u] idx(3)
    by (auto simp: share_units_def u_def wu_def intro!: nth_equalityI)
qed

end

lemma Proportional_reference:
  assumes "split_ok Q tot ws"
  shows "Proportional Q tot ws = Inr (reference_split Q tot ws)"
proof -
  let ?u = "total_units Q tot" and ?wu = "weight_units Q ws"
  let ?B = "lr_basis ws ?wu"
  have q: "quantity Q" and w: "weights_ok Q ws" and t: "0 \<le> q_sign Q tot" and B: "0 < ?B"
    using assms by (simp_all add: split_ok_def)
  have u: "0 \<le> ?u" using t quantity.sign_nonneg [OF q] by (simp add: total_units_unscaled)
  have ne: "ws \<noteq> []" using B by (auto simp: lr_basis_def)
  have weighted: "map (\<lambda>w. unitsAt Q (w_capacity w) (weightScaleFrom Q 0 ws)) ws = map ?wu ws"
    by (simp add: weight_units_def)
  have fl: "map (\<lambda>v. ?u * v sdiv ?B) (map ?wu ws) = map (lr_floor ?u ws ?wu) ws"
    using u B quantity.weight_units_nonneg [OF q w]
    by (auto simp: lr_floor_def wrap_simps)
  have rm: "map (\<lambda>v. ?u * v smod ?B) (map ?wu ws) = map (lr_rem ?u ws ?wu) ws"
    using u B quantity.weight_units_nonneg [OF q w]
    by (auto simp: lr_rem_def wrap_simps)
  have bas: "sum_list (map ?wu ws) = ?B" by (simp add: lr_basis_def)
  have chk: "checkWeights Q [] ws = None" using w by (simp add: checkWeights_None)
  have left: "?u - sum_list (map (lr_floor ?u ws ?wu) ws) = lr_left ?u ws ?wu"
    by (simp add: lr_left_def)
  have "Proportional Q tot ws =
     (case distribute (lr_left ?u ws ?wu) (sortPortions ws (zip [0..<length ws] (map (lr_rem ?u ws ?wu) ws)))
        (map (lr_floor ?u ws ?wu) ws) of
        None \<Rightarrow> Inl PortionsExhausted
      | Some final \<Rightarrow> Inr (sort_key s_cluster (map2 (\<lambda>w a. \<lparr>s_cluster = w_cluster w,
            s_nominal = quantityAt Q a (decScale Q tot) (q_format Q tot)\<rparr>) ws final)))"
    unfolding Proportional_def Let_def total_units_def [symmetric] weighted bas fl rm left chk
    using ne t B by simp
  also have "\<dots> = Inr (reference_split Q tot ws)"
    unfolding zip_upt_map quantity.final_units [OF q assms]
    by (simp add: reference_split_def zip_map2 zip_same_conv_map comp_def)
  finally show ?thesis .
qed

lemma basis_pos_iff:
  assumes "quantity Q" "weights_ok Q ws"
  shows "0 < lr_basis ws (weight_units Q ws) \<longleftrightarrow> (\<exists>w\<in>set ws. 0 < unscaled (q_dec Q (w_capacity w)))"
proof -
  have nn: "\<forall>w\<in>set ws. 0 \<le> weight_units Q ws w"
    using quantity.weight_units_nonneg [OF assms] by blast
  have pos: "0 < weight_units Q ws w \<longleftrightarrow> 0 < unscaled (q_dec Q (w_capacity w))" for w
    by (simp add: weight_units_def unitsAt_def Let_def zero_less_mult_iff)
  have "0 < (\<Sum>w\<leftarrow>xs. f w) \<longleftrightarrow> (\<exists>w\<in>set xs. 0 < f w)" if "\<forall>w\<in>set xs. 0 \<le> f w"
    for f :: "'a weight \<Rightarrow> int" and xs
    using that
  proof (induction xs)
    case (Cons x xs)
    then have "0 \<le> f x" "0 \<le> (\<Sum>w\<leftarrow>xs. f w)" by (auto intro!: sum_list_nonneg)
    with Cons show ?case by auto
  qed simp
  from this [OF nn] show ?thesis by (simp add: lr_basis_def pos)
qed

lemma Proportional_Inr_iff:
  assumes q: "quantity Q"
  shows "(\<exists>out. Proportional Q tot ws = Inr out) \<longleftrightarrow> split_ok Q tot ws"
proof
  assume "split_ok Q tot ws"
  then show "\<exists>out. Proportional Q tot ws = Inr out" by (simp add: Proportional_reference)
next
  assume "\<exists>out. Proportional Q tot ws = Inr out"
  then obtain out where out: "Proportional Q tot ws = Inr out" ..
  have t: "0 \<le> q_sign Q tot"
    using out by (rule_tac ccontr) (simp add: Proportional_def split: if_splits)
  have chk: "checkWeights Q [] ws = None"
    using out t by (cases "checkWeights Q [] ws") (simp_all add: Proportional_def split: if_splits)
  then have w: "weights_ok Q ws" by (simp add: checkWeights_None)
  have B: "lr_basis ws (weight_units Q ws) \<noteq> 0"
    using out t chk by (rule_tac notI)
      (simp add: Proportional_def Let_def lr_basis_def weight_units_def split: if_splits)
  with quantity.basis_nonneg [OF q w] show "split_ok Q tot ws"
    using q t w by (simp add: split_ok_def)
qed

lemma Proportional_Inr:
  assumes "quantity Q" "Proportional Q tot ws = Inr out"
  shows "split_ok Q tot ws" and "out = reference_split Q tot ws"
  using Proportional_Inr_iff [OF assms(1), of tot ws] Proportional_reference [of Q tot ws] assms(2) by auto

subsection \<open>The split keeps the contract\<close>

text \<open>
  One call as a record, and what the contract speaks about: the units a cluster gets are read off
  the result of the code.
\<close>

record 'q split_call =
  sc_api :: "'q quantity_api"
  sc_total :: 'q
  sc_weights :: "'q weight list"

definition call_ok :: "'q split_call \<Rightarrow> bool" where
  "call_ok i = split_ok (sc_api i) (sc_total i) (sc_weights i)"

definition call_weight :: "'q split_call \<Rightarrow> 'q weight \<Rightarrow> int" where
  "call_weight i = weight_units (sc_api i) (sc_weights i)"

definition call_units :: "'q split_call \<Rightarrow> int" where
  "call_units i = total_units (sc_api i) (sc_total i)"

definition call_ranking :: "'q split_call \<Rightarrow> 'q weight list" where
  "call_ranking i = share_ranking (sc_api i) (sc_total i) (sc_weights i)"

definition call_portion :: "'q split_call \<Rightarrow> 'q weight \<Rightarrow> int" where
  "call_portion i w =
     (case Proportional (sc_api i) (sc_total i) (sc_weights i) of
        Inl _ \<Rightarrow> 0
      | Inr out \<Rightarrow> (case find (\<lambda>s. s_cluster s = w_cluster w) out of
                      None \<Rightarrow> 0
                    | Some s \<Rightarrow> unscaled (q_dec (sc_api i) (s_nominal s))))"

lemmas call_defs = call_ok_def call_weight_def call_units_def call_ranking_def

lemma call_portion_units:
  assumes ok: "call_ok i" and w: "w \<in> set (sc_weights i)"
  shows "call_portion i w = share_units (sc_api i) (sc_total i) (sc_weights i) w"
proof -
  let ?Q = "sc_api i" and ?tot = "sc_total i" and ?ws = "sc_weights i"
  have inj: "inj_on w_cluster (set ?ws)"
    using ok by (simp add: call_ok_def split_ok_def weights_ok_def distinct_map)
  have "find (\<lambda>s. s_cluster s = w_cluster w) (reference_split ?Q ?tot ?ws) =
      Some \<lparr>s_cluster = w_cluster w,
        s_nominal = quantityAt ?Q (share_units ?Q ?tot ?ws w) (decScale ?Q ?tot) (q_format ?Q ?tot)\<rparr>"
    using w by (intro find_unique) (auto simp: reference_split_def dest: inj_onD [OF inj])
  then show ?thesis
    using ok quantity.dec_new [of ?Q]
    by (simp add: call_portion_def call_ok_def Proportional_reference quantityAt_def split_ok_def)
qed

lemma share_ranking_sorted:
  "sorted_wrt (\<lambda>a b. lr_rem (total_units Q tot) ws (weight_units Q ws) b
     \<le> lr_rem (total_units Q tot) ws (weight_units Q ws) a) (share_ranking Q tot ws)"
proof -
  have "sorted (map (\<lambda>w. (- lr_rem (total_units Q tot) ws (weight_units Q ws) w, w_cluster w))
      (share_ranking Q tot ws))"
    unfolding share_ranking_def by (rule sorted_sort_key)
  then show ?thesis
    unfolding sorted_map by (rule sorted_wrt_mono_rel [rotated]) auto
qed

interpretation shares: largest_remainder call_ok sc_weights call_weight call_units call_ranking call_portion
proof
  fix i :: "'q split_call" and w
  assume ok: "call_ok i"
  then have s: "split_ok (sc_api i) (sc_total i) (sc_weights i)" by (simp add: call_ok_def)
  then have q: "quantity (sc_api i)" and wok: "weights_ok (sc_api i) (sc_weights i)"
    by (simp_all add: split_ok_def)
  show "distinct (sc_weights i)" using wok by (simp add: weights_ok_def distinct_map)
  show "0 < lr_basis (sc_weights i) (call_weight i)" using s by (simp add: split_ok_def call_defs)
  show "mset (call_ranking i) = mset (sc_weights i)" by (simp add: call_defs share_ranking_def)
  show "sorted_wrt (\<lambda>a b. lr_rem (call_units i) (sc_weights i) (call_weight i) b
      \<le> lr_rem (call_units i) (sc_weights i) (call_weight i) a) (call_ranking i)"
    by (simp add: call_defs share_ranking_sorted)
  show "0 \<le> call_units i"
    using s quantity.sign_nonneg [OF q, of "sc_total i"]
    by (simp add: call_defs split_ok_def total_units_unscaled)
  assume w: "w \<in> set (sc_weights i)"
  show "0 \<le> call_weight i w"
    using quantity.weight_units_nonneg [OF q wok w] by (simp add: call_defs)
  show "call_portion i w = lr_floor (call_units i) (sc_weights i) (call_weight i) w
      + (if w \<in> set (take (nat (lr_left (call_units i) (sc_weights i) (call_weight i))) (call_ranking i))
         then 1 else 0)"
    by (simp only: call_portion_units [OF ok w] share_units_def call_defs)
qed

subsection \<open>Values of the shares\<close>

lemma weightScaleFrom_Max: "weightScaleFrom Q acc ws = Max (insert acc ((\<lambda>w. decScale Q (w_capacity w)) ` set ws))"
proof (induction Q acc ws rule: weightScaleFrom.induct)
  case (2 Q acc w ws)
  let ?s = "\<lambda>w. decScale Q (w_capacity w)"
  have "weightScaleFrom Q acc (w # ws) = Max (insert (max acc (?s w)) (?s ` set ws))"
    using 2 by (simp add: max_def)
  also have "\<dots> = Max (insert acc (?s ` set (w # ws)))"
    by (cases "ws = []") (simp_all add: Max_insert max.assoc)
  finally show ?case .
qed simp

lemma nominal_val:
  "quantity Q \<Longrightarrow> qval Q (quantityAt Q u s f) = of_int u * 10 powi (- s)"
  by (simp add: quantityAt_def quantity.new_val dec_val_def)

lemma weight_units_val:
  assumes w: "w \<in> set ws" and b: "\<forall>w\<in>set ws. \<bar>decScale Q (w_capacity w)\<bar> \<le> 1000000000"
  shows "of_int (weight_units Q ws w) = qval Q (w_capacity w) * 10 powi (weightScaleFrom Q 0 ws)"
proof -
  let ?S = "weightScaleFrom Q 0 ws" and ?d = "q_dec Q (w_capacity w)"
  have le: "scale ?d \<le> ?S" using w by (simp add: weightScaleFrom_Max decScale_def)
  have ub: "?S \<le> 1000000000" "0 \<le> ?S" using b by (auto simp: weightScaleFrom_Max abs_le_iff)
  have "\<bar>scale ?d\<bar> \<le> 1000000000" using b w by (simp add: decScale_def)
  then have "wrap32 (?S - scale ?d) = ?S - scale ?d"
    using ub le by (intro wrap32_id) (simp add: max_int32_def)
  then have "weight_units Q ws w = dec_align ?S ?d"
    using le by (simp add: weight_units_def unitsAt_def Let_def dec_align_def)
  then show ?thesis using dec_align_val [OF le] by (simp add: qval_def)
qed

subsection \<open>The sum of a split\<close>

lemma Sum_val: "quantity Q \<Longrightarrow> qval Q (Sum Q out) = (\<Sum>s\<leftarrow>out. qval Q (s_nominal s))"
  by (simp add: Sum_def quantity.fold_add_val quantity.zero_val)

lemma Proportional_values:
  assumes q: "quantity Q" and out: "Proportional Q tot ws = Inr out"
  shows "(\<Sum>s\<leftarrow>out. qval Q (s_nominal s)) = qval Q tot"
proof -
  have ok: "split_ok Q tot ws" and o: "out = reference_split Q tot ws"
    using Proportional_Inr [OF q out] by simp_all
  let ?call = "\<lparr>sc_api = Q, sc_total = tot, sc_weights = ws\<rparr>"
  have units: "(\<Sum>w\<leftarrow>ws. share_units Q tot ws w) = total_units Q tot"
    using shares.portions_sum [of ?call] ok call_portion_units [of ?call]
    by (simp add: call_defs cong: map_cong)
  have "(\<Sum>s\<leftarrow>out. qval Q (s_nominal s)) = (\<Sum>w\<leftarrow>ws. of_int (share_units Q tot ws w) * 10 powi (- decScale Q tot))"
    by (simp add: o reference_split_def sum_list_sort_key nominal_val [OF q] comp_def)
  also have "\<dots> = of_int (\<Sum>w\<leftarrow>ws. share_units Q tot ws w) * 10 powi (- decScale Q tot)"
    by (rule sum_list_of_int_mult)
  also have "\<dots> = qval Q tot"
    by (simp add: units total_units_unscaled qval_def dec_val_def decScale_def)
  finally show ?thesis .
qed

subsection \<open>Properties\<close>

text \<open>
  C13: the shares add up to the total exactly. Whatever the weights, a successful
  \<^const>\<open>Proportional\<close> loses and gains nothing: the sum of the shares, computed by
  \<^const>\<open>Sum\<close>, has the value of the total.
\<close>

theorem Proportional_exact:
  assumes q: "quantity Q" and out: "Proportional Q tot ws = Inr out"
  shows "qval Q (Sum Q out) = qval Q tot"
  using Proportional_values [OF assms] by (simp add: Sum_val [OF q])

theorem Proportional_exact_witness:
  "\<exists>out. Proportional exact_api (whole 4)
     [\<lparr>w_cluster = ''b'', w_capacity = whole 1\<rparr>, \<lparr>w_cluster = ''a'', w_capacity = whole 1\<rparr>,
      \<lparr>w_cluster = ''c'', w_capacity = whole 1\<rparr>] = Inr out
   \<and> map s_nominal out = [whole 2, whole 1, whole 1]
   \<and> qval exact_api (Sum exact_api out) = 4"
proof -
  let ?out = "[\<lparr>s_cluster = ''a'', s_nominal = whole 2\<rparr>, \<lparr>s_cluster = ''b'', s_nominal = whole 1\<rparr>,
      \<lparr>s_cluster = ''c'', s_nominal = whole 1\<rparr>]"
  have out: "Proportional exact_api (whole 4)
     [\<lparr>w_cluster = ''b'', w_capacity = whole 1\<rparr>, \<lparr>w_cluster = ''a'', w_capacity = whole 1\<rparr>,
      \<lparr>w_cluster = ''c'', w_capacity = whole 1\<rparr>] = Inr ?out"
    by code_simp
  have "qval exact_api (Sum exact_api ?out) = qval exact_api (whole 4)"
    by (rule Proportional_exact [OF exact.quantity_axioms out])
  also have "\<dots> = 4" by (simp add: qval_def exact_api_def dec_val_def)
  finally show ?thesis using out by auto
qed

text \<open>
  C33: the split fails only for the documented reasons. It returns shares exactly when there is a
  cluster, the total is not negative, every weight names a different non-empty cluster, no capacity
  is negative and some capacity is positive. In particular the leftover loop never runs out of
  portions.
\<close>

theorem Proportional_succeeds_iff:
  assumes q: "quantity Q"
  shows "(\<exists>out. Proportional Q tot ws = Inr out) \<longleftrightarrow>
     0 \<le> qval Q tot \<and> distinct (map w_cluster ws) \<and> [] \<notin> w_cluster ` set ws
     \<and> (\<forall>w\<in>set ws. 0 \<le> qval Q (w_capacity w)) \<and> (\<exists>w\<in>set ws. 0 < qval Q (w_capacity w))"
proof -
  have nn: "0 \<le> qval Q x \<longleftrightarrow> 0 \<le> q_sign Q x" for x
    by (simp add: quantity.sign_val [OF q] not_less)
  have pos: "0 < qval Q x \<longleftrightarrow> 0 < unscaled (q_dec Q x)" if "0 \<le> q_sign Q x" for x
    using that dec_val_zero_iff [of "q_dec Q x"] dec_val_neg_iff [of "q_dec Q x"]
    unfolding qval_def by (metis linorder_neqE_linordered_idom not_less_iff_gr_or_eq)
  have "split_ok Q tot ws \<longleftrightarrow> 0 \<le> q_sign Q tot \<and> weights_ok Q ws
      \<and> (\<exists>w\<in>set ws. 0 < unscaled (q_dec Q (w_capacity w)))"
    using basis_pos_iff [OF q, of ws] q by (auto simp: split_ok_def)
  then show ?thesis
    unfolding Proportional_Inr_iff [OF q] weights_ok_def nn using pos by (auto simp: Bex_def)
qed

theorem Proportional_succeeds_iff_witness:
  "\<exists>out. Proportional exact_api (whole 0) [\<lparr>w_cluster = ''a'', w_capacity = whole 3\<rparr>] = Inr out"
  unfolding Proportional_succeeds_iff [OF exact.quantity_axioms]
  by (simp add: qval_def exact_api_def dec_val_def)

text \<open>
  The split does not depend on the order in which the clusters are listed. Two calls with the
  same weights in another order return the same list of shares, remainders included.
\<close>

lemma Proportional_order_independent:
  assumes q: "quantity Q" and perm: "mset ws' = mset ws" and out: "Proportional Q tot ws = Inr out"
  shows "Proportional Q tot ws' = Inr out"
proof -
  have ok: "split_ok Q tot ws" and o: "out = reference_split Q tot ws"
    using Proportional_Inr [OF q out] by simp_all
  have s: "set ws' = set ws" using perm by (metis set_mset_mset)
  have d: "distinct (map w_cluster ws)" "distinct (map w_cluster ws')"
    using ok perm by (auto simp: split_ok_def weights_ok_def) (metis mset_eq_imp_distinct_iff mset_map)
  have wu: "weight_units Q ws' = weight_units Q ws"
    by (simp add: weight_units_def weightScaleFrom_Max s fun_eq_iff)
  have sums: "(\<Sum>w\<leftarrow>ws'. f w) = (\<Sum>w\<leftarrow>ws. f w)" for f :: "'a weight \<Rightarrow> int"
    using perm by (metis mset_map sum_mset_sum_list)
  have basis: "lr_basis ws' w = lr_basis ws w" for w by (simp add: lr_basis_def sums)
  have lr: "lr_floor u ws' w = lr_floor u ws w" "lr_rem u ws' w = lr_rem u ws w"
    "lr_left u ws' w = lr_left u ws w" for u w
    by (simp_all add: lr_floor_def lr_rem_def lr_left_def basis fun_eq_iff sums)
  have rk: "share_ranking Q tot ws' = share_ranking Q tot ws"
    unfolding share_ranking_def wu lr using d s
    by (intro sort_key_set_unique) (auto simp: distinct_map inj_on_def)
  have su: "share_units Q tot ws' = share_units Q tot ws"
    by (simp add: share_units_def wu lr rk fun_eq_iff)
  have "reference_split Q tot ws' = reference_split Q tot ws"
    unfolding reference_split_def su using d s
    by (intro sort_key_set_unique) (auto simp: distinct_map inj_on_def)
  moreover have "split_ok Q tot ws'"
    using ok d s by (simp add: split_ok_def weights_ok_def wu basis)
  ultimately show ?thesis by (simp add: Proportional_reference o)
qed

text \<open>
  Every share is within one unit of the exact proportion, where the unit is the one the total
  was written in. The scales are assumed to fit
  the 32-bit subtraction of the code, which quantities of the API are far from leaving.
\<close>

lemma Proportional_near_proportion:
  assumes q: "quantity Q" and out: "Proportional Q tot ws = Inr out"
    and b: "\<forall>w\<in>set ws. \<bar>decScale Q (w_capacity w)\<bar> \<le> 1000000000"
    and w: "w \<in> set ws" and s: "s \<in> set out" "s_cluster s = w_cluster w"
  defines "cap \<equiv> (\<lambda>w. qval Q (w_capacity w))"
  shows "\<bar>qval Q (s_nominal s) * (\<Sum>w\<leftarrow>ws. cap w) - qval Q tot * cap w\<bar>
           < 10 powi (- decScale Q tot) * (\<Sum>w\<leftarrow>ws. cap w)"
proof -
  have ok: "split_ok Q tot ws" and o: "out = reference_split Q tot ws"
    using Proportional_Inr [OF q out] by simp_all
  let ?call = "\<lparr>sc_api = Q, sc_total = tot, sc_weights = ws\<rparr>"
  let ?K = "(10::rat) powi (weightScaleFrom Q 0 ws)" and ?p = "share_units Q tot ws w"
  let ?C = "\<Sum>w\<leftarrow>ws. cap w" and ?t = "10 powi (- decScale Q tot) :: rat"
  have nom: "qval Q (s_nominal s) = of_int ?p * ?t"
    using s w ok by (auto simp: o reference_split_def nominal_val [OF q] split_ok_def weights_ok_def
        distinct_map dest: inj_onD)
  have wu: "of_int (weight_units Q ws w) = cap w * ?K" if "w \<in> set ws" for w
    using weight_units_val [OF that b] by (simp add: cap_def)
  have "(of_int (lr_basis ws (weight_units Q ws)) :: rat) = (\<Sum>w\<leftarrow>ws. cap w * ?K)"
    using wu sum_list_of_int_mult [of "weight_units Q ws" 1 ws]
    by (simp add: lr_basis_def cong: map_cong)
  also have "\<dots> = ?C * ?K" by (simp add: sum_list_mult_const)
  finally have B: "of_int (lr_basis ws (weight_units Q ws)) = ?C * ?K" .
  have "total_units Q tot * weight_units Q ws w - lr_basis ws (weight_units Q ws)
      < ?p * lr_basis ws (weight_units Q ws)"
    and "?p * lr_basis ws (weight_units Q ws)
      < total_units Q tot * weight_units Q ws w + lr_basis ws (weight_units Q ws)"
    using shares.portion_near_quota [of ?call w] ok w call_portion_units [of ?call w]
    by (simp_all add: call_defs)
  then have "of_int (total_units Q tot) * (cap w * ?K) - ?C * ?K < of_int ?p * (?C * ?K)"
    and "of_int ?p * (?C * ?K) < of_int (total_units Q tot) * (cap w * ?K) + ?C * ?K"
    unfolding B [symmetric] wu [OF w, symmetric] by (simp_all flip: of_int_mult of_int_add of_int_diff)
  then have "(of_int (total_units Q tot) * cap w - ?C) * ?K < (of_int ?p * ?C) * ?K"
    and "(of_int ?p * ?C) * ?K < (of_int (total_units Q tot) * cap w + ?C) * ?K"
    by (simp_all add: algebra_simps)
  moreover have K: "0 < ?K" by simp
  ultimately have near: "\<bar>of_int ?p * ?C - of_int (total_units Q tot) * cap w\<bar> < ?C"
    by (simp add: abs_less_iff)
  have tot: "qval Q tot = of_int (total_units Q tot) * ?t"
    by (simp add: qval_def dec_val_def total_units_unscaled decScale_def)
  have "\<bar>qval Q (s_nominal s) * ?C - qval Q tot * cap w\<bar>
      = \<bar>?t * (of_int ?p * ?C - of_int (total_units Q tot) * cap w)\<bar>"
    by (simp add: nom tot algebra_simps)
  also have "\<dots> = ?t * \<bar>of_int ?p * ?C - of_int (total_units Q tot) * cap w\<bar>"
    by (simp add: abs_mult)
  also have "\<dots> < ?t * ?C" using near by simp
  finally show ?thesis .
qed

end
