(* ===== verification/Go_Strings.thy ===== *)
theory Go_Strings
  imports Prelude
begin

section \<open>Strings and decimal numerals\<close>

text \<open>
  The functions of Go's \<^verbatim>\<open>strconv\<close> and \<^verbatim>\<open>strings\<close> the components share: decimal
  numerals and joining. A numeral is never empty, consists of digits, and determines its number.
\<close>

definition digit :: "nat \<Rightarrow> char" where
  "digit d = char_of (48 + d)"

fun Itoa_nat :: "nat \<Rightarrow> string" where
  "Itoa_nat n = (if n < 10 then [digit n] else Itoa_nat (n div 10) @ [digit (n mod 10)])"

declare Itoa_nat.simps [simp del]

definition Itoa :: "int \<Rightarrow> string" where
  "Itoa i = (if i < 0 then CHR ''-'' # Itoa_nat (nat (- i)) else Itoa_nat (nat i))"

definition is_digit :: "char \<Rightarrow> bool" where
  "is_digit c \<longleftrightarrow> 48 \<le> (of_char c :: nat) \<and> (of_char c :: nat) \<le> 57"

definition digit_val :: "char \<Rightarrow> nat" where
  "digit_val c = of_char c - 48"

definition Atoi_nat :: "string \<Rightarrow> nat" where
  "Atoi_nat s = foldl (\<lambda>a c. 10 * a + digit_val c) 0 s"

fun Join :: "string list \<Rightarrow> string \<Rightarrow> string" where
  "Join [] sep = []"
| "Join [x] sep = x"
| "Join (x # y # xs) sep = x @ sep @ Join (y # xs) sep"

lemma digit_val_digit [simp]: "d < 10 \<Longrightarrow> digit_val (digit d) = d"
  by (simp add: digit_val_def digit_def)

lemma is_digit_digit [simp]: "d < 10 \<Longrightarrow> is_digit (digit d)"
  by (simp add: is_digit_def digit_def)

lemma Itoa_nat_digits: "c \<in> set (Itoa_nat n) \<Longrightarrow> is_digit c"
proof (induction n rule: Itoa_nat.induct)
  case (1 n)
  then show ?case by (subst (asm) (2) Itoa_nat.simps) (auto split: if_splits)
qed

lemma Itoa_nat_nonempty [simp]: "Itoa_nat n \<noteq> []"
  by (subst Itoa_nat.simps) simp

lemma Atoi_snoc: "Atoi_nat (s @ [c]) = 10 * Atoi_nat s + digit_val c"
  by (simp add: Atoi_nat_def)

lemma Atoi_Itoa [simp]: "Atoi_nat (Itoa_nat n) = n"
proof (induction n rule: Itoa_nat.induct)
  case (1 n)
  show ?case
  proof (cases "n < 10")
    case True
    then show ?thesis by (simp add: Itoa_nat.simps [of n]) (simp add: Atoi_nat_def)
  next
    case False
    then have "Atoi_nat (Itoa_nat n) = 10 * Atoi_nat (Itoa_nat (n div 10)) + n mod 10"
      by (subst Itoa_nat.simps) (simp add: Atoi_snoc)
    then show ?thesis using 1 [OF False] by simp
  qed
qed

lemma Itoa_nat_inj [simp]: "Itoa_nat m = Itoa_nat n \<longleftrightarrow> m = n"
  by (metis Atoi_Itoa)

text \<open>A digit string without a superfluous leading zero is the numeral of its value.\<close>

abbreviation read_digits :: "nat \<Rightarrow> string \<Rightarrow> nat" where
  "read_digits \<equiv> foldl (\<lambda>a c. 10 * a + digit_val c)"

definition plain_numeral :: "string \<Rightarrow> bool" where
  "plain_numeral s \<longleftrightarrow> s \<noteq> [] \<and> list_all is_digit s \<and> (length s > 1 \<longrightarrow> hd s \<noteq> CHR ''0'')"

lemma digit_of_val [simp]: "is_digit c \<Longrightarrow> digit (digit_val c) = c"
  by (simp add: is_digit_def digit_def digit_val_def)

lemma digit_val_less [simp]: "is_digit c \<Longrightarrow> digit_val c < 10"
  unfolding is_digit_def digit_val_def by linarith

lemma digit_val_zero: "is_digit c \<Longrightarrow> digit_val c = 0 \<Longrightarrow> c = CHR ''0''"
proof -
  assume "is_digit c" "digit_val c = 0"
  then have "char_of (48 :: nat) = c" using digit_of_val [of c] by (simp add: digit_def)
  moreover have "char_of (48 :: nat) = CHR ''0''" by code_simp
  ultimately show ?thesis by simp
qed

lemma read_digits_ge: "v \<le> read_digits v s"
proof (induction s arbitrary: v)
  case (Cons c s)
  have "v \<le> 10 * v + digit_val c" by simp
  also have "\<dots> \<le> read_digits (10 * v + digit_val c) s" by (rule Cons.IH)
  finally show ?case by simp
qed simp

lemma Atoi_pos: "s \<noteq> [] \<Longrightarrow> list_all is_digit s \<Longrightarrow> hd s \<noteq> CHR ''0'' \<Longrightarrow> 0 < Atoi_nat s"
proof (cases s)
  case (Cons c cs)
  assume "list_all is_digit s" "hd s \<noteq> CHR ''0''"
  then have "0 < digit_val c" using Cons digit_val_zero [of c] by auto
  also have "digit_val c \<le> read_digits (digit_val c) cs" by (rule read_digits_ge)
  finally show ?thesis using Cons by (simp add: Atoi_nat_def)
qed simp

lemma Itoa_nat_Atoi: "plain_numeral s \<Longrightarrow> Itoa_nat (Atoi_nat s) = s"
proof (induction s rule: rev_induct)
  case Nil
  then show ?case by (simp add: plain_numeral_def)
next
  case (snoc c s)
  have c: "is_digit c" using snoc.prems by (simp add: plain_numeral_def)
  show ?case
  proof (cases "s = []")
    case True
    then show ?thesis using c by (simp add: Atoi_nat_def Itoa_nat.simps)
  next
    case False
    then have s: "list_all is_digit s" "hd s \<noteq> CHR ''0''" using snoc.prems by (auto simp: plain_numeral_def hd_append)
    then have "0 < Atoi_nat s" using Atoi_pos False by blast
    then have "\<not> 10 * Atoi_nat s + digit_val c < 10" by simp
    moreover have "(10 * Atoi_nat s + digit_val c) div 10 = Atoi_nat s" "(10 * Atoi_nat s + digit_val c) mod 10 = digit_val c"
      using digit_val_less [OF c] by simp_all
    ultimately have "Itoa_nat (Atoi_nat (s @ [c])) = Itoa_nat (Atoi_nat s) @ [c]"
      using c by (subst Itoa_nat.simps) (simp add: Atoi_snoc)
    then show ?thesis using snoc.IH s False by (simp add: plain_numeral_def)
  qed
qed

lemma hd_Itoa_nat: "0 < n \<Longrightarrow> hd (Itoa_nat n) \<noteq> CHR ''0''"
proof (induction n rule: Itoa_nat.induct)
  case (1 n)
  show ?case
  proof (cases "n < 10")
    case True
    have "digit_val (digit n) = n" using True by simp
    moreover have "digit_val (CHR ''0'') = 0" by (simp add: digit_val_def)
    ultimately have "digit n \<noteq> CHR ''0''" using 1(2) by (cases "digit n = CHR ''0''") simp_all
    then show ?thesis using True by (simp add: Itoa_nat.simps [of n])
  next
    case False
    then have "hd (Itoa_nat n) = hd (Itoa_nat (n div 10))" by (simp add: Itoa_nat.simps [of n])
    then show ?thesis using 1(1) [OF False] False by simp
  qed
qed

lemma plain_numeral_Itoa: "plain_numeral (Itoa_nat n)"
proof -
  have "hd (Itoa_nat n) \<noteq> CHR ''0''" if "length (Itoa_nat n) > 1"
    using that hd_Itoa_nat [of n] by (cases "n = 0") (auto simp: Itoa_nat.simps [of 0])
  then show ?thesis using Itoa_nat_digits [of _ n] by (auto simp: plain_numeral_def list_all_iff)
qed

lemma not_digit [simp]: "\<not> is_digit (CHR ''-'')" "\<not> is_digit (CHR '','')"
  by (simp_all add: is_digit_def)

subsection \<open>Splitting\<close>

text \<open>\<^verbatim>\<open>strings.Split\<close> and \<^verbatim>\<open>strings.SplitN\<close> at a one-byte separator.\<close>

fun Split :: "char \<Rightarrow> string \<Rightarrow> string list" where
  "Split sep [] = [[]]"
| "Split sep (c # cs) = (if c = sep then [] # Split sep cs else (c # hd (Split sep cs)) # tl (Split sep cs))"

fun SplitN :: "char \<Rightarrow> string \<Rightarrow> nat \<Rightarrow> string list" where
  "SplitN sep cs 0 = []"
| "SplitN sep cs (Suc 0) = [cs]"
| "SplitN sep cs (Suc (Suc n)) =
     (case dropWhile (\<lambda>c. c \<noteq> sep) cs of
        [] \<Rightarrow> [cs]
      | _ # rest \<Rightarrow> takeWhile (\<lambda>c. c \<noteq> sep) cs # SplitN sep rest (Suc n))"

lemma Split_nonempty [simp]: "Split sep cs \<noteq> []"
  by (cases cs) simp_all

lemma Join_Cons: "xs \<noteq> [] \<Longrightarrow> Join (x # xs) sep = x @ sep @ Join xs sep"
  by (cases xs) simp_all

lemma Join_Split: "Join (Split sep cs) [sep] = cs"
proof (induction cs)
  case (Cons c cs)
  obtain x xs where x: "Split sep cs = x # xs" by (cases "Split sep cs") simp_all
  show ?case using Cons x by (cases xs) (simp_all add: Join_Cons)
qed simp

lemma Split_no_sep: "x \<in> set (Split sep cs) \<Longrightarrow> sep \<notin> set x"
proof (induction cs arbitrary: x)
  case (Cons c cs)
  obtain y ys where y: "Split sep cs = y # ys" by (cases "Split sep cs") simp_all
  show ?case using Cons y by (auto split: if_splits)
qed simp

lemma Split_append: "sep \<notin> set x \<Longrightarrow> Split sep (x @ sep # cs) = x # Split sep cs"
  by (induction x) auto

lemma Split_single: "sep \<notin> set x \<Longrightarrow> Split sep x = [x]"
  by (induction x) auto

lemma Split_Join: "xs \<noteq> [] \<Longrightarrow> (\<And>x. x \<in> set xs \<Longrightarrow> sep \<notin> set x) \<Longrightarrow> Split sep (Join xs [sep]) = xs"
proof (induction xs)
  case (Cons x xs)
  show ?case
  proof (cases "xs = []")
    case True
    then show ?thesis using Cons.prems Split_single [of sep x] by simp
  next
    case False
    then have "Join (x # xs) [sep] = x @ sep # Join xs [sep]" by (simp add: Join_Cons)
    then show ?thesis using Cons.IH [OF False] Cons.prems by (simp add: Split_append)
  qed
qed simp

text \<open>
  \<^verbatim>\<open>strconv.ParseInt\<close> and \<^verbatim>\<open>strconv.ParseUint\<close> in base ten, on strings of digits: the callers
  have checked that there is no sign. \<open>limit\<close> is the largest value of the result type.
\<close>

definition ParseDecimal :: "int \<Rightarrow> string \<Rightarrow> int option" where
  "ParseDecimal limit s =
     (if s = [] \<or> \<not> list_all is_digit s then None
      else if int (Atoi_nat s) > limit then None else Some (int (Atoi_nat s)))"

subsection \<open>Parsers and printers\<close>

text \<open>
  What a parser with a canonical form promises: it accepts exactly the printed forms of the well-formed
  values. Index sets, topologies and versions are printed and parsed under this contract.
\<close>

locale codec =
  fixes enc :: "'a \<Rightarrow> 'w" and dec :: "'w \<Rightarrow> 'e + 'a" and ok :: "'a \<Rightarrow> bool"
  assumes dec_enc: "ok x \<Longrightarrow> dec (enc x) = Inr x"
    and enc_dec: "dec w = Inr x \<Longrightarrow> ok x \<and> enc x = w"
begin

lemma enc_inj: "ok x \<Longrightarrow> ok y \<Longrightarrow> enc x = enc y \<longleftrightarrow> x = y"
  using dec_enc by (metis sum.inject(2))

lemma dec_iff: "dec w = Inr x \<longleftrightarrow> ok x \<and> enc x = w"
  using dec_enc enc_dec by blast

lemma dec_inj: "dec w = Inr x \<Longrightarrow> dec w' = Inr x \<Longrightarrow> w = w'"
  using enc_dec by blast

end

lemma Join_chars: "c \<noteq> sep \<Longrightarrow> c \<in> set (Join xs [sep]) \<longleftrightarrow> (\<exists>x\<in>set xs. c \<in> set x)"
  by (induction xs "[sep]" rule: Join.induct) auto

lemma cut_at:
  "dropWhile (\<lambda>c. c \<noteq> sep) cs = [] \<longleftrightarrow> sep \<notin> set cs"
  "sep \<notin> set x \<Longrightarrow> takeWhile (\<lambda>c. c \<noteq> sep) (x @ sep # cs) = x"
  "sep \<notin> set x \<Longrightarrow> dropWhile (\<lambda>c. c \<noteq> sep) (x @ sep # cs) = sep # cs"
  by (auto simp: takeWhile_append dropWhile_append)

lemma cut_parts:
  assumes "dropWhile (\<lambda>c. c \<noteq> sep) cs = d # rest"
  shows "cs = takeWhile (\<lambda>c. c \<noteq> sep) cs @ sep # rest" "sep \<notin> set (takeWhile (\<lambda>c. c \<noteq> sep) cs)"
proof -
  have "d = sep" using hd_dropWhile [of "\<lambda>c. c \<noteq> sep" cs] unfolding assms by simp
  then show "cs = takeWhile (\<lambda>c. c \<noteq> sep) cs @ sep # rest"
    using takeWhile_dropWhile_id [of "\<lambda>c. c \<noteq> sep" cs] unfolding assms by simp
  show "sep \<notin> set (takeWhile (\<lambda>c. c \<noteq> sep) cs)" using set_takeWhileD by fastforce
qed

lemma cut_unique: "sep \<notin> set a \<Longrightarrow> sep \<notin> set a' \<Longrightarrow> a @ sep # b = a' @ sep # b' \<longleftrightarrow> a = a' \<and> b = b'"
  using cut_at(2,3) [of sep a b] cut_at(2,3) [of sep a' b'] by auto

lemma SplitN_none: "sep \<notin> set cs \<Longrightarrow> SplitN sep cs (Suc (Suc n)) = [cs]"
proof -
  assume "sep \<notin> set cs"
  then have d: "dropWhile (\<lambda>c. c \<noteq> sep) cs = []" by (simp only: cut_at(1) not_False_eq_True)
  show ?thesis unfolding SplitN.simps(3) d by simp
qed

lemma SplitN_some: "sep \<notin> set a \<Longrightarrow> SplitN sep (a @ sep # b) (Suc (Suc n)) = a # SplitN sep b (Suc n)"
  by (simp add: cut_at)

lemma SplitN_3:
  "SplitN sep cs 3 = xs \<longleftrightarrow> (sep \<notin> set cs \<and> xs = [cs]) \<or> (\<exists>a b. sep \<notin> set a \<and> sep \<notin> set b \<and> cs = a @ sep # b \<and> xs = [a, b])
     \<or> (\<exists>a b r. sep \<notin> set a \<and> sep \<notin> set b \<and> cs = a @ sep # b @ sep # r \<and> xs = [a, b, r])"
proof (cases "sep \<in> set cs")
  case False
  then show ?thesis using SplitN_none [OF False, of 1] by (auto simp: numeral_3_eq_3)
next
  case True
  then obtain a b where cs: "cs = a @ sep # b" "sep \<notin> set a" by (meson split_list_first)
  have three: "SplitN sep cs 3 = a # SplitN sep b (Suc (Suc 0))" unfolding cs(1) numeral_3_eq_3 by (rule SplitN_some [OF cs(2)])
  show ?thesis
  proof (cases "sep \<in> set b")
    case False
    have "SplitN sep cs 3 = [a, b]" unfolding three SplitN_none [OF False] ..
    then show ?thesis using cs False cut_unique [OF cs(2)] by auto
  next
    case True
    then obtain c r where b: "b = c @ sep # r" "sep \<notin> set c" by (meson split_list_first)
    have "SplitN sep cs 3 = [a, c, r]" unfolding three b(1) SplitN_some [OF b(2)] by simp
    then show ?thesis using cs b cut_unique [OF cs(2)] cut_unique [OF b(2)] by auto
  qed
qed

end
