(* ===== verification/Quota_Violation.thy ===== *)
theory Quota_Violation
  imports Go_Strings Quantity
begin

section \<open>Violations of the quota tree (pkg/quota/tree/violation.go)\<close>

text \<open>
  A violation is one broken invariant of the quota tree, attributed to a node. Reasons are the
  strings of the API constants \<^verbatim>\<open>AcceleratorQuotaReason*\<close>. A message is kept as the format
  it is rendered with and its arguments (\<open>message\<close>), because rendering a quantity is code of the
  API machinery; \<^verbatim>\<open>String\<close> and \<^verbatim>\<open>Error\<close> take the rendering as a parameter.
\<close>

subsection \<open>Data\<close>

abbreviation ParentMissing :: string where "ParentMissing \<equiv> ''ParentMissing''"
abbreviation ParentCycle :: string where "ParentCycle \<equiv> ''ParentCycle''"
abbreviation Unreachable :: string where "Unreachable \<equiv> ''Unreachable''"
abbreviation DuplicateNode :: string where "DuplicateNode \<equiv> ''DuplicateNode''"
abbreviation NodeKindInvalid :: string where "NodeKindInvalid \<equiv> ''NodeKindInvalid''"
abbreviation DepthExceeded :: string where "DepthExceeded \<equiv> ''DepthExceeded''"
abbreviation ContainmentViolated :: string where "ContainmentViolated \<equiv> ''ContainmentViolated''"
abbreviation ShareUnresolved :: string where "ShareUnresolved \<equiv> ''ShareUnresolved''"

datatype 'q message =
    NoMessage
  | NameTwice
  | PointsAtItself
  | DoesNotResolve name
  | InsideCycle name
  | FormsCycle string
  | OnlyRootOmits name
  | AncestorUnresolved name
  | LevelsBelow nat int
  | UnknownRole string
  | ParentIsLeaf name
  | NeedsBudget
  | MustNotSet string
  | LeafOnlyFields string
  | ChildrenTotal string 'q 'q

record 'q violation =
  Node :: name
  VReason :: string
  Subject :: string
  VMessage :: "'q message"

definition zero_violation :: "'q violation" where
  "zero_violation = \<lparr>Node = [], VReason = [], Subject = [], VMessage = NoMessage\<rparr>"

definition violation :: "name \<Rightarrow> string \<Rightarrow> string \<Rightarrow> 'q message \<Rightarrow> 'q violation" where
  "violation n r s m = \<lparr>Node = n, VReason = r, Subject = s, VMessage = m\<rparr>"

definition Key :: "'q violation \<Rightarrow> string \<times> string \<times> string" where
  "Key v = (Node v, VReason v, Subject v)"

definition reasonRank :: "(string, int) gomap" where
  "reasonRank = [(ParentMissing, 0), (ParentCycle, 1), (Unreachable, 2), (DuplicateNode, 3),
     (NodeKindInvalid, 4), (DepthExceeded, 5), (ContainmentViolated, 6), (ShareUnresolved, 7)]"

definition rankOf :: "string \<Rightarrow> int" where
  "rankOf r = (case map_of reasonRank r of Some k \<Rightarrow> k | None \<Rightarrow> int (length reasonRank))"

subsection \<open>Operations\<close>

definition violation_String :: "('q message \<Rightarrow> string) \<Rightarrow> 'q violation \<Rightarrow> string" where
  "violation_String render v = (if Node v = [] then render (VMessage v) else Node v @ '': '' @ render (VMessage v))"

fun Error :: "('q message \<Rightarrow> string) \<Rightarrow> 'q violation list \<Rightarrow> string" where
  "Error render [] = []"
| "Error render [v] = violation_String render v"
| "Error render vs = Itoa (int (length vs)) @ '' invariants violated: '' @ Join (map (violation_String render) vs) ''; ''"

definition OrNil :: "'q violation list \<Rightarrow> 'q violation list option" where
  "OrNil vs = (if vs = [] then None else Some vs)"

definition For :: "'q violation list \<Rightarrow> name \<Rightarrow> 'q violation list" where
  "For vs n = filter (\<lambda>v. Node v = n) vs"

fun primaryFrom :: "'q violation option \<Rightarrow> 'q violation list \<Rightarrow> 'q violation option" where
  "primaryFrom best [] = best"
| "primaryFrom best (v # vs) =
     primaryFrom (case best of None \<Rightarrow> Some v
                  | Some b \<Rightarrow> if rankOf (VReason v) < rankOf (VReason b) then Some v else Some b) vs"

definition Primary :: "'q violation list \<Rightarrow> 'q violation" where
  "Primary vs = (case primaryFrom None vs of None \<Rightarrow> zero_violation | Some v \<Rightarrow> v)"

definition Diff :: "'q violation list \<Rightarrow> 'q violation list \<Rightarrow> 'q violation list" where
  "Diff vs before = (let seen = map Key before in filter (\<lambda>v. Key v \<notin> set seen) vs)"

definition violation_Nodes :: "'q violation list \<Rightarrow> name list" where
  "violation_Nodes vs = sort (remdups (filter (\<lambda>n. n \<noteq> []) (map Node vs)))"

definition sorted_violations :: "'q violation list \<Rightarrow> 'q violation list" where
  "sorted_violations vs = sort_key (\<lambda>v. (Node v, rankOf (VReason v), Subject v)) vs"

subsection \<open>Lemmas\<close>

lemma violation_sel [simp]:
  "Node (violation n r s m) = n" "VReason (violation n r s m) = r"
  "Subject (violation n r s m) = s" "VMessage (violation n r s m) = m"
  by (simp_all add: violation_def)

lemma mset_sorted_violations [simp]: "mset (sorted_violations vs) = mset vs"
  by (simp add: sorted_violations_def)

lemma set_sorted_violations [simp]: "set (sorted_violations vs) = set vs"
  by (simp add: sorted_violations_def)

lemma sorted_violations_Nil [simp]: "sorted_violations vs = [] \<longleftrightarrow> vs = []"
  using set_sorted_violations [of vs] by (metis set_empty)

lemma set_violation_Nodes [simp]: "set (violation_Nodes vs) = Node ` set vs - {[]}"
  by (auto simp: violation_Nodes_def)

lemma distinct_violation_Nodes [simp]: "distinct (violation_Nodes vs)"
  by (simp add: violation_Nodes_def)

lemma primaryFrom_Some:
  assumes "primaryFrom (Some b) vs = r"
  shows "\<exists>p. r = Some p \<and> p \<in> insert b (set vs) \<and> (\<forall>v\<in>insert b (set vs). rankOf (VReason p) \<le> rankOf (VReason v))"
  using assms by (induction vs arbitrary: b) (auto split: if_splits, (force split: if_splits)+)

lemma Primary_best:
  assumes "vs \<noteq> []"
  shows "Primary vs \<in> set vs" and "v \<in> set vs \<Longrightarrow> rankOf (VReason (Primary vs)) \<le> rankOf (VReason v)"
proof -
  from assms obtain b us where vs: "vs = b # us" by (cases vs) auto
  from primaryFrom_Some [of b us, OF refl] obtain p where
    "primaryFrom None vs = Some p" "p \<in> insert b (set us)" "\<forall>v\<in>insert b (set us). rankOf (VReason p) \<le> rankOf (VReason v)"
    by (auto simp: vs)
  then show "Primary vs \<in> set vs" and "v \<in> set vs \<Longrightarrow> rankOf (VReason (Primary vs)) \<le> rankOf (VReason v)"
    by (auto simp: Primary_def vs)
qed

lemma Diff_Nil_iff: "Diff vs before = [] \<longleftrightarrow> Key ` set vs \<subseteq> Key ` set before"
  by (auto simp: Diff_def filter_empty_conv)

lemma Diff_Nil_before [simp]: "Diff vs [] = vs"
  by (simp add: Diff_def)

end
