(* ===== verification/Parent_Chain.thy ===== *)
theory Parent_Chain
  imports Prelude
begin

section \<open>Chains of parent references\<close>

text \<open>
  Several components hold objects that name a parent: quota nodes and serving runtimes. The chain of
  parents from an object ends, or runs into a cycle. \<open>climb p k x\<close> is the object \<open>k\<close> steps up;
  the locale \<open>parent_chain\<close> is what the walks rely on: finitely many objects, and a resolved
  reference names one of them.
\<close>

fun climb :: "('a \<Rightarrow> 'a option) \<Rightarrow> nat \<Rightarrow> 'a \<Rightarrow> 'a option" where
  "climb p 0 x = Some x"
| "climb p (Suc k) x = (case p x of None \<Rightarrow> None | Some y \<Rightarrow> climb p k y)"

definition chain_ends :: "('a \<Rightarrow> 'a option) \<Rightarrow> 'a \<Rightarrow> bool" where
  "chain_ends p x \<longleftrightarrow> (\<exists>k. climb p k x = None)"

lemma climb_add: "climb p (j + k) x = (case climb p j x of None \<Rightarrow> None | Some y \<Rightarrow> climb p k y)"
  by (induction j arbitrary: x) (auto split: option.split)

lemma climb_snoc: "climb p (Suc k) x = (case climb p k x of None \<Rightarrow> None | Some y \<Rightarrow> p y)"
  using climb_add [of p k 1 x] by (auto split: option.split)

lemma climb_None_mono: "climb p j x = None \<Longrightarrow> j \<le> k \<Longrightarrow> climb p k x = None"
  using climb_add [of p j "k - j" x] by simp

lemma climb_Some_mono: "climb p k x = Some y \<Longrightarrow> j \<le> k \<Longrightarrow> \<exists>z. climb p j x = Some z"
  using climb_None_mono [of p j x k] by (cases "climb p j x") auto

lemma climb_loop_iter: "climb p d y = Some y \<Longrightarrow> climb p (m * d) y = Some y"
  by (induction m) (simp_all add: climb_add)

lemma climb_repeat:
  assumes "climb p i x = Some y" "climb p j x = Some y" "i < j"
  shows "climb p k x \<noteq> None"
proof
  assume none: "climb p k x = None"
  have "climb p (j - i) y = Some y" using climb_add [of p i "j - i" x] assms by simp
  then have "climb p (k * (j - i)) y = Some y" by (rule climb_loop_iter)
  then have "climb p (i + k * (j - i)) x = Some y" using climb_add [of p i "k * (j - i)" x] assms(1) by simp
  moreover have "k * 1 \<le> k * (j - i)" using assms(3) by (intro mult_le_mono2) simp
  then have "k \<le> i + k * (j - i)" by linarith
  ultimately show False using climb_None_mono [OF none] by (metis option.distinct(1))
qed

text \<open>A chain that reaches an object without a parent reaches it after one number of steps only.\<close>

lemma climb_top_unique:
  assumes "climb p j x = Some r" "climb p k x = Some r" "p r = None"
  shows "j = k"
proof -
  have False if "climb p i x = Some r" "climb p l x = Some r" "i < l" for i l
  proof -
    have "climb p (Suc i) x = None" using climb_snoc [of p i x] that(1) assms(3) by simp
    then show False using climb_None_mono [of p "Suc i" x l] that by simp
  qed
  then show ?thesis using assms(1,2) by (metis nat_neq_iff)
qed

lemma climb_top_ends: "climb p k x = Some r \<Longrightarrow> p r = None \<Longrightarrow> chain_ends p x"
  unfolding chain_ends_def by (rule exI [of _ "Suc k"]) (simp add: climb_snoc del: climb.simps)

lemma chain_ends_top:
  assumes "chain_ends p x"
  shows "\<exists>k r. climb p k x = Some r \<and> p r = None"
proof -
  obtain k where k: "climb p k x = None" "\<And>j. j < k \<Longrightarrow> climb p j x \<noteq> None"
    using assms exists_least_iff [of "\<lambda>k. climb p k x = None"] unfolding chain_ends_def by auto
  then obtain j where j: "k = Suc j" by (cases k) auto
  then obtain r where r: "climb p j x = Some r" using k(2) [of j] by auto
  have "p r = None" using climb_snoc [of p j x] k(1) j r by simp
  with r show ?thesis by blast
qed

lemma climb_fun_cong:
  assumes "\<And>y. p y = q y"
  shows "climb p k x = climb q k x"
proof -
  have "p = q" using assms by (rule ext)
  then show ?thesis by simp
qed

locale parent_chain =
  fixes parent :: "'a \<Rightarrow> 'a option" and V :: "'a set"
  assumes finite_V: "finite V"
    and resolved: "parent x = Some y \<Longrightarrow> y \<in> V"
begin

lemma climb_in: "climb parent k x = Some y \<Longrightarrow> x \<in> V \<Longrightarrow> y \<in> V"
  using resolved by (induction k arbitrary: x) (auto split: option.splits)

text \<open>Within as many steps as there are objects, the chain has ended or has met an object twice.\<close>

lemma ends_or_repeats:
  assumes "x \<in> V"
  shows "climb parent (card V) x = None \<or> (\<exists>i j y. i < j \<and> j \<le> card V \<and> climb parent i x = Some y \<and> climb parent j x = Some y)"
proof (rule disjCI)
  assume nr: "\<not> (\<exists>i j y. i < j \<and> j \<le> card V \<and> climb parent i x = Some y \<and> climb parent j x = Some y)"
  show "climb parent (card V) x = None"
  proof (rule ccontr)
    assume "climb parent (card V) x \<noteq> None"
    then have some: "\<exists>y. climb parent k x = Some y" if "k \<le> card V" for k
      using climb_Some_mono that by fastforce
    let ?f = "\<lambda>k. the (climb parent k x)"
    have "inj_on ?f {0..card V}"
    proof (rule inj_onI)
      fix i j assume ij: "i \<in> {0..card V}" "j \<in> {0..card V}" "?f i = ?f j"
      with some have "climb parent i x = climb parent j x" by (metis atLeastAtMost_iff option.sel)
      with nr some ij show "i = j" by (metis atLeastAtMost_iff nat_neq_iff)
    qed
    moreover have "?f ` {0..card V} \<subseteq> V"
    proof (rule image_subsetI)
      fix k assume "k \<in> {0..card V}"
      then obtain y where "climb parent k x = Some y" using some by auto
      then show "?f k \<in> V" using climb_in assms by simp
    qed
    ultimately have "card {0..card V} \<le> card V"
      using card_inj_on_le finite_V by blast
    then show False by simp
  qed
qed

lemma chain_length:
  assumes "x \<in> V" "chain_ends parent x"
  shows "climb parent (card V) x = None"
  using ends_or_repeats [OF assms(1)] assms(2) climb_repeat unfolding chain_ends_def by metis

end

end
