(* ===== verification/Quota_Tree.thy ===== *)
theory Quota_Tree
  imports Quota_Violation Parent_Chain
begin

section \<open>The quota tree (pkg/quota/tree/tree.go)\<close>

text \<open>
  An AcceleratorQuota is one node of the fleet quota tree. \<open>Build\<close> assembles a list of them
  into a tree and reports every invariant the list violates; it always returns the tree.

  A Go \<^verbatim>\<open>*Node\<close> is the node's name: \<^verbatim>\<open>Build\<close> creates one node per name and every
  pointer it stores points at one of them. Writing through a pointer is \<open>map_at\<close> on the node map.
  \<^verbatim>\<open>Depth\<close> only takes the values -1 and the distances 0, 1, 2, ...; it is a
  \<^typ>\<open>nat option\<close>, with \<^const>\<open>None\<close> for -1.
\<close>

subsection \<open>Data\<close>

record 'q budget =
  ResourceName :: string
  ResourceFlavor :: string
  Policy :: string
  Nominal :: 'q
  BorrowingLimit :: "'q option"
  LendingLimit :: "'q option"
  PerCluster :: "(name \<times> 'q) list"

record 'q quota =
  QName :: name
  Role :: string
  ParentRef :: "name option"
  PriorityTier :: string
  Distribution :: "string option"
  Budgets :: "'q budget list"
  QUID :: string
  QGeneration :: int

record options =
  RootName :: name
  MaxDepth :: int

record 'q node =
  Quota :: "'q quota"
  Parent :: "name option"
  Children :: "name list"
  Depth :: "nat option"

record 'q tree =
  Root :: "name option"
  nodes :: "(name, 'q node) gomap"

datatype tree_error = ErrRootNameUnset

abbreviation RoleCohort :: string where "RoleCohort \<equiv> ''Cohort''"
abbreviation RoleClusterQueue :: string where "RoleClusterQueue \<equiv> ''ClusterQueue''"

definition maxRenderedCyclePath :: nat where "maxRenderedCyclePath = 8"

subsection \<open>Reading the tree\<close>

definition Name :: "'q node \<Rightarrow> name" where "Name n = QName (Quota n)"

definition IsLeaf :: "'q node \<Rightarrow> bool" where "IsLeaf n \<longleftrightarrow> Role (Quota n) = RoleClusterQueue"

definition Reachable :: "'q node \<Rightarrow> bool" where "Reachable n \<longleftrightarrow> Depth n \<noteq> None"

definition lookup :: "'q tree \<Rightarrow> name \<Rightarrow> 'q node option" where
  "lookup t n = map_of (nodes t) n"

definition Len :: "'q tree \<Rightarrow> nat" where "Len t = length (nodes t)"

definition Nodes :: "'q tree \<Rightarrow> 'q node list" where
  "Nodes t = map snd (sort_key fst (nodes t))"

definition Leaves :: "'q tree \<Rightarrow> 'q node list" where
  "Leaves t = filter IsLeaf (Nodes t)"

definition parentOf :: "'q tree \<Rightarrow> name \<Rightarrow> name option" where
  "parentOf t n = (case lookup t n of None \<Rightarrow> None | Some nd \<Rightarrow> Parent nd)"

function ancestorsFrom :: "'q tree \<Rightarrow> name list \<Rightarrow> name option \<Rightarrow> name list" where
  "ancestorsFrom t seen cur =
     (case cur of None \<Rightarrow> []
      | Some p \<Rightarrow>
          if p \<in> set seen then []
          else (case lookup t p of None \<Rightarrow> []
                | Some nd \<Rightarrow> p # ancestorsFrom t (p # seen) (Parent nd)))"
  by pat_completeness auto
termination
  by (relation "measure (\<lambda>(t, seen, cur). card (keys_of (nodes t) - set seen))")
    (auto simp: lookup_def intro: card_unvisited)

declare ancestorsFrom.simps [simp del]

definition Ancestors :: "'q tree \<Rightarrow> 'q node \<Rightarrow> name list" where
  "Ancestors t n = rev (ancestorsFrom t [Name n] (Parent n))"

function walk :: "'q tree \<Rightarrow> name list \<Rightarrow> name list \<Rightarrow> name list" where
  "walk t [] out = out"
| "walk t (n # stack) out =
     (if n \<in> set out then walk t stack out
      else (case lookup t n of None \<Rightarrow> walk t stack out
            | Some nd \<Rightarrow> walk t (Children nd @ stack) (out @ [n])))"
  by pat_completeness auto
termination
  by (relation "measures [\<lambda>(t, stack, out). card (keys_of (nodes t) - set out), \<lambda>(t, stack, out). length stack]")
    (auto simp: lookup_def intro: card_unvisited)

definition Subtree :: "'q tree \<Rightarrow> name \<Rightarrow> name list" where
  "Subtree t n = (case lookup t n of None \<Rightarrow> [] | Some _ \<Rightarrow> walk t [n] [])"

definition ownFrozen :: "'q violation list \<Rightarrow> (name, 'q violation) gomap" where
  "ownFrozen vs = fold (\<lambda>n m. AList.update n (Primary (For vs n)) m) (violation_Nodes vs) []"

definition inheritFrozen :: "'q violation \<Rightarrow> name list \<Rightarrow> (name, 'q violation) gomap \<Rightarrow> (name, 'q violation) gomap" where
  "inheritFrozen cause ds m = fold (\<lambda>d m. if map_of m d \<noteq> None then m else AList.update d cause m) ds m"

definition frozenCause :: "(name, 'q violation) gomap \<Rightarrow> name \<Rightarrow> 'q violation" where
  "frozenCause m n = (case map_of m n of Some v \<Rightarrow> v | None \<Rightarrow> zero_violation)"

definition Frozen :: "'q tree \<Rightarrow> 'q violation list \<Rightarrow> (name, 'q violation) gomap" where
  "Frozen t vs = fold (\<lambda>n m. inheritFrozen (frozenCause m n) (Subtree t n) m) (violation_Nodes vs) (ownFrozen vs)"

subsection \<open>Linking\<close>

fun addQuotas :: "'q quota list \<Rightarrow> (name, 'q node) gomap \<Rightarrow> 'q violation list \<Rightarrow> (name, 'q node) gomap \<times> 'q violation list" where
  "addQuotas [] m vs = (m, vs)"
| "addQuotas (q # qs) m vs =
     (if map_of m (QName q) \<noteq> None
      then addQuotas qs m (vs @ [violation (QName q) DuplicateNode [] NameTwice])
      else addQuotas qs (AList.update (QName q) \<lparr>Quota = q, Parent = None, Children = [], Depth = None\<rparr> m) vs)"

definition linkNode :: "'q node \<Rightarrow> (name, 'q node) gomap \<times> 'q violation list \<Rightarrow> (name, 'q node) gomap \<times> 'q violation list" where
  "linkNode n st =
     (case st of (m, vs) \<Rightarrow>
       (case ParentRef (Quota n) of
          None \<Rightarrow> (m, vs)
        | Some ref \<Rightarrow>
            if ref = Name n then (m, vs @ [violation (Name n) ParentCycle (Name n) PointsAtItself])
            else if map_of m ref = None then (m, vs @ [violation (Name n) ParentMissing ref (DoesNotResolve ref)])
            else (map_at ref (\<lambda>p. p\<lparr>Children := Children p @ [Name n]\<rparr>)
                    (map_at (Name n) (\<lambda>c. c\<lparr>Parent := Some ref\<rparr>) m), vs)))"

definition sortChildren :: "(name, 'q node) gomap \<Rightarrow> (name, 'q node) gomap" where
  "sortChildren m = map (\<lambda>(k, n). (k, n\<lparr>Children := sort (Children n)\<rparr>)) m"

function cycleFrom :: "'q tree \<Rightarrow> name list \<Rightarrow> name option \<Rightarrow> name list option" where
  "cycleFrom t path cur =
     (case cur of None \<Rightarrow> None
      | Some n \<Rightarrow>
          if n \<in> set path then Some (dropWhile (\<lambda>x. x \<noteq> n) path @ [n])
          else (case lookup t n of None \<Rightarrow> None
                | Some nd \<Rightarrow> cycleFrom t (path @ [n]) (Parent nd)))"
  by pat_completeness auto
termination
  by (relation "measure (\<lambda>(t, path, cur). card (keys_of (nodes t) - set path))")
    (auto simp: lookup_def intro: card_unvisited)

declare cycleFrom.simps [simp del]

definition cycleMembers :: "'q tree \<Rightarrow> 'q node \<Rightarrow> name list option" where
  "cycleMembers t n = cycleFrom t [] (Some (Name n))"

definition renderPath :: "name list \<Rightarrow> string" where
  "renderPath names =
     (if length names > maxRenderedCyclePath
      then Join (take maxRenderedCyclePath names) '' -> '' @ '' -> ... ('' @ Itoa (int (length names - maxRenderedCyclePath)) @ '' more)''
      else Join names '' -> '')"

definition reportCycle :: "'q tree \<Rightarrow> 'q node \<Rightarrow> name list \<times> 'q violation list \<Rightarrow> name list \<times> 'q violation list" where
  "reportCycle t n st =
     (case st of (rendered, vs) \<Rightarrow>
       (case cycleMembers t n of
          None \<Rightarrow> (rendered, vs)
        | Some ms \<Rightarrow>
            let cid = fold min (tl ms) (hd ms)
            in if cid \<in> set rendered then (rendered, vs @ [violation (Name n) ParentCycle cid (InsideCycle cid)])
               else (cid # rendered, vs @ [violation (Name n) ParentCycle cid (FormsCycle (renderPath ms))])))"

definition reportCycles :: "'q tree \<Rightarrow> 'q violation list" where
  "reportCycles t = snd (fold (reportCycle t) (Nodes t) ([], []))"

definition linkParents :: "'q tree \<Rightarrow> 'q tree \<times> 'q violation list" where
  "linkParents t =
     (let (m, vs) = fold linkNode (Nodes t) (nodes t, []);
          t' = t\<lparr>nodes := sortChildren m\<rparr>
      in (t', vs @ reportCycles t'))"

subsection \<open>The root and the depths\<close>

definition incDepth :: "nat option \<Rightarrow> nat option" where
  "incDepth d = (case d of None \<Rightarrow> Some 0 | Some k \<Rightarrow> Some (Suc k))"

definition visitChild :: "nat option \<Rightarrow> name \<Rightarrow> (name, 'q node) gomap \<times> name list \<Rightarrow> (name, 'q node) gomap \<times> name list" where
  "visitChild d c st =
     (case st of (m, queue) \<Rightarrow>
       (case map_of m c of
          None \<Rightarrow> (m, queue)
        | Some nd \<Rightarrow> if Depth nd \<noteq> None then (m, queue)
                     else (map_at c (\<lambda>n. n\<lparr>Depth := incDepth d\<rparr>) m, queue @ [c])))"

definition unplaced :: "(name, 'q node) gomap \<Rightarrow> nat" where
  "unplaced m = length (filter (\<lambda>e. Depth (snd e) = None) m)"

lemma unplaced_map_at:
  assumes "map_of m c = Some nd" "Depth nd = None"
  shows "Suc (unplaced (map_at c (\<lambda>n. n\<lparr>Depth := incDepth d\<rparr>) m)) = unplaced m"
  using assms by (induction m) (auto simp: unplaced_def incDepth_def split: if_splits option.splits)

lemma visitChild_measure:
  assumes "visitChild d c (m, queue) = (m', queue')"
  shows "2 * unplaced m' + length queue' \<le> 2 * unplaced m + length queue"
proof (cases "\<exists>nd. map_of m c = Some nd \<and> Depth nd = None")
  case True
  then obtain nd where nd: "map_of m c = Some nd" "Depth nd = None" by blast
  then show ?thesis using assms unplaced_map_at [OF nd, of d] by (auto simp: visitChild_def)
next
  case False
  then show ?thesis using assms by (auto simp: visitChild_def split: option.splits)
qed

lemma visitChildren_measure:
  "fold (visitChild d) cs (m, queue) = (m', queue') \<Longrightarrow> 2 * unplaced m' + length queue' \<le> 2 * unplaced m + length queue"
proof (induction cs arbitrary: m queue)
  case (Cons c cs)
  obtain m1 q1 where 1: "visitChild d c (m, queue) = (m1, q1)" by fastforce
  show ?case using Cons.IH [of m1 q1] Cons.prems visitChild_measure [OF 1] 1 by simp
qed simp

function assignDepthLoop :: "(name, 'q node) gomap \<Rightarrow> name list \<Rightarrow> (name, 'q node) gomap" where
  "assignDepthLoop m [] = m"
| "assignDepthLoop m (n # queue) =
     (case map_of m n of
        None \<Rightarrow> assignDepthLoop m queue
      | Some nd \<Rightarrow> (case fold (visitChild (Depth nd)) (Children nd) (m, queue) of (m', queue') \<Rightarrow> assignDepthLoop m' queue'))"
  by pat_completeness auto
termination
proof (relation "measure (\<lambda>(m, queue). 2 * unplaced m + length queue)")
  fix m :: "(name, 'q node) gomap" and n queue nd m' queue'
  assume "(m', queue') = fold (visitChild (Depth nd)) (Children nd) (m, queue)"
  then have "fold (visitChild (Depth nd)) (Children nd) (m, queue) = (m', queue')" by simp
  from visitChildren_measure [OF this]
  show "((m', queue'), m, n # queue) \<in> measure (\<lambda>(m, queue). 2 * unplaced m + length queue)" by simp
qed simp_all

definition assignDepth :: "(name, 'q node) gomap \<Rightarrow> name \<Rightarrow> (name, 'q node) gomap" where
  "assignDepth m rt = assignDepthLoop (map_at rt (\<lambda>n. n\<lparr>Depth := Some 0\<rparr>) m) [rt]"

definition rootStep :: "name \<Rightarrow> 'q node \<Rightarrow> name option \<times> 'q violation list \<Rightarrow> name option \<times> 'q violation list" where
  "rootStep rootName n st =
     (case st of (rt, vs) \<Rightarrow>
       if ParentRef (Quota n) \<noteq> None then (rt, vs)
       else if Name n = rootName then (Some (Name n), vs)
       else (rt, vs @ [violation (Name n) ParentMissing rootName (OnlyRootOmits rootName)]))"

definition resolveRoot :: "'q tree \<Rightarrow> name \<Rightarrow> 'q tree \<times> 'q violation list" where
  "resolveRoot t rootName =
     (let (rt, vs) = fold (rootStep rootName) (Nodes t) (Root t, [])
      in (case rt of None \<Rightarrow> (t\<lparr>Root := None\<rparr>, vs)
          | Some r \<Rightarrow> (t\<lparr>Root := Some r, nodes := assignDepth (nodes t) r\<rparr>, vs)))"

subsection \<open>The checks\<close>

definition unreachableCause :: "'q tree \<Rightarrow> name list \<Rightarrow> 'q node \<Rightarrow> name" where
  "unreachableCause t faulted n =
     (case find (\<lambda>a. a \<in> set faulted) (Ancestors t n) of None \<Rightarrow> Name n | Some a \<Rightarrow> a)"

definition checkUnreachable :: "'q tree \<Rightarrow> 'q violation list \<Rightarrow> 'q violation list" where
  "checkUnreachable t found =
     (let faulted = violation_Nodes found
      in map (\<lambda>n. violation (Name n) Unreachable (unreachableCause t faulted n)
                    (AncestorUnresolved (unreachableCause t faulted n)))
           (filter (\<lambda>n. \<not> Reachable n \<and> Name n \<notin> set faulted) (Nodes t)))"

definition checkDepth :: "'q tree \<Rightarrow> int \<Rightarrow> 'q violation list" where
  "checkDepth t maxDepth =
     (if maxDepth \<le> 0 then []
      else List.map_filter (\<lambda>n. case Depth n of
             None \<Rightarrow> None
           | Some d \<Rightarrow> if int d > maxDepth then Some (violation (Name n) DepthExceeded [] (LevelsBelow d maxDepth)) else None)
           (Nodes t))"

definition budgetKey :: "string \<Rightarrow> string \<Rightarrow> string" where
  "budgetKey resource flavor = resource @ '' on '' @ flavor"

definition keyOf :: "'q budget \<Rightarrow> string" where
  "keyOf b = budgetKey (ResourceName b) (ResourceFlavor b)"

definition carriesLeafOnlyFields :: "'q budget \<Rightarrow> bool" where
  "carriesLeafOnlyFields b \<longleftrightarrow> Policy b \<noteq> [] \<or> BorrowingLimit b \<noteq> None \<or> LendingLimit b \<noteq> None \<or> PerCluster b \<noteq> []"

definition checkClusterQueueNode :: "'q node \<Rightarrow> 'q violation list" where
  "checkClusterQueueNode n =
     map (\<lambda>c. violation c NodeKindInvalid (Name n) (ParentIsLeaf (Name n))) (Children n)
     @ (if Budgets (Quota n) = [] then [violation (Name n) NodeKindInvalid [] NeedsBudget] else [])"

definition cohortSets :: "'q quota \<Rightarrow> string list" where
  "cohortSets q = (if PriorityTier q \<noteq> [] then [''priorityTier''] else []) @ (if Distribution q \<noteq> None then [''distribution''] else [])"

definition checkCohortNode :: "'q node \<Rightarrow> 'q violation list" where
  "checkCohortNode n =
     (let set = cohortSets (Quota n)
      in (if set \<noteq> [] then [violation (Name n) NodeKindInvalid (Join set '','') (MustNotSet (Join set '', ''))] else [])
         @ map (\<lambda>b. violation (Name n) NodeKindInvalid (keyOf b) (LeafOnlyFields (keyOf b)))
             (filter carriesLeafOnlyFields (Budgets (Quota n))))"

definition checkNodeKind :: "'q tree \<Rightarrow> 'q violation list" where
  "checkNodeKind t = concat (map (\<lambda>n.
     if Role (Quota n) = RoleClusterQueue then checkClusterQueueNode n
     else if Role (Quota n) = RoleCohort then checkCohortNode n
     else [violation (Name n) NodeKindInvalid [] (UnknownRole (Role (Quota n)))]) (Nodes t))"

definition addNominal :: "'q quantity_api \<Rightarrow> 'q budget \<Rightarrow> (string, 'q) gomap \<Rightarrow> (string, 'q) gomap" where
  "addNominal Q b totals =
     (case map_of totals (keyOf b) of
        Some cur \<Rightarrow> AList.update (keyOf b) (q_add Q cur (Nominal b)) totals
      | None \<Rightarrow> AList.update (keyOf b) (Nominal b) totals)"

definition childNodes :: "'q tree \<Rightarrow> 'q node \<Rightarrow> 'q node list" where
  "childNodes t n = List.map_filter (lookup t) (Children n)"

definition childSums :: "'q quantity_api \<Rightarrow> 'q tree \<Rightarrow> 'q node \<Rightarrow> (string, 'q) gomap" where
  "childSums Q t n = fold (addNominal Q) (concat (map (\<lambda>c. Budgets (Quota c)) (childNodes t n))) []"

definition checkNodeContainment :: "'q quantity_api \<Rightarrow> 'q tree \<Rightarrow> 'q node \<Rightarrow> 'q violation list" where
  "checkNodeContainment Q t n =
     (if IsLeaf n \<or> Children n = [] \<or> Budgets (Quota n) = [] then []
      else let totals = childSums Q t n
           in List.map_filter (\<lambda>b. case map_of totals (keyOf b) of
                  None \<Rightarrow> None
                | Some s \<Rightarrow> if q_cmp Q (Nominal b) s < 0
                            then Some (violation (Name n) ContainmentViolated (keyOf b) (ChildrenTotal (keyOf b) (Nominal b) s))
                            else None) (Budgets (Quota n)))"

definition checkContainment :: "'q quantity_api \<Rightarrow> 'q tree \<Rightarrow> 'q violation list" where
  "checkContainment Q t = concat (map (checkNodeContainment Q t) (Nodes t))"

definition Build :: "'q quantity_api \<Rightarrow> 'q quota list \<Rightarrow> options \<Rightarrow> tree_error + 'q tree \<times> 'q violation list" where
  "Build Q quotas opts =
     (if RootName opts = [] then Inl ErrRootNameUnset
      else
        let (m, vs0) = addQuotas quotas [] [];
            (t1, vs1) = linkParents \<lparr>Root = None, nodes = m\<rparr>;
            (t2, vs2) = resolveRoot t1 (RootName opts);
            found = vs0 @ vs1 @ vs2
        in Inr (t2, sorted_violations (found @ checkUnreachable t2 found @ checkDepth t2 (MaxDepth opts)
             @ checkNodeKind t2 @ checkContainment Q t2)))"

subsection \<open>Proposed sets\<close>

fun spliceFrom :: "'q quota list \<Rightarrow> 'q quota \<Rightarrow> 'q quota list \<times> bool" where
  "spliceFrom [] q = ([], False)"
| "spliceFrom (x # xs) q =
     (let (out, replaced) = spliceFrom xs q
      in if QName x = QName q then (q # out, True) else (x # out, replaced))"

definition Splice :: "'q quota list \<Rightarrow> 'q quota \<Rightarrow> 'q quota list" where
  "Splice existing incoming =
     (let (out, replaced) = spliceFrom existing incoming in if replaced then out else out @ [incoming])"

definition Without :: "'q quota list \<Rightarrow> name \<Rightarrow> 'q quota list" where
  "Without existing n = filter (\<lambda>q. QName q \<noteq> n) existing"

end
