(* ===== verification/Quota_Tree_Build.thy ===== *)
theory Quota_Tree_Build
  imports Quota_Tree
begin

section \<open>What Build computes\<close>

text \<open>
  The tree \<open>Build\<close> returns, in closed form over the input list: the node of a name holds the
  first quota of that name, its parent is the resolved reference, its children are the nodes that
  refer to it, and its depth is the length of its parent chain up to the reserved root.
\<close>

subsection \<open>The input as a graph\<close>

definition quotaOf :: "'q quota list \<Rightarrow> name \<Rightarrow> 'q quota option" where
  "quotaOf qs n = find (\<lambda>q. QName q = n) qs"

definition refParent :: "'q quota list \<Rightarrow> name \<Rightarrow> name option" where
  "refParent qs n =
     (case quotaOf qs n of None \<Rightarrow> None
      | Some q \<Rightarrow> (case ParentRef q of None \<Rightarrow> None
                   | Some p \<Rightarrow> if p \<noteq> n \<and> quotaOf qs p \<noteq> None then Some p else None))"

definition quotaNames :: "'q quota list \<Rightarrow> name list" where
  "quotaNames qs = sort (remdups (map QName qs))"

definition kids :: "'q quota list \<Rightarrow> name \<Rightarrow> name list" where
  "kids qs n = filter (\<lambda>c. refParent qs c = Some n) (quotaNames qs)"

definition hasRoot :: "'q quota list \<Rightarrow> name \<Rightarrow> bool" where
  "hasRoot qs rt \<longleftrightarrow> (\<exists>q. quotaOf qs rt = Some q \<and> ParentRef q = None)"

definition placed :: "'q quota list \<Rightarrow> name \<Rightarrow> name \<Rightarrow> nat \<Rightarrow> bool" where
  "placed qs rt n d \<longleftrightarrow> hasRoot qs rt \<and> climb (refParent qs) d n = Some rt"

definition nodeAt :: "'q quota list \<Rightarrow> (name \<Rightarrow> nat option) \<Rightarrow> name \<Rightarrow> 'q node option" where
  "nodeAt qs dep n = map_option (\<lambda>q. \<lparr>Quota = q, Parent = refParent qs n, Children = kids qs n, Depth = dep n\<rparr>) (quotaOf qs n)"

definition shape :: "'q quota list \<Rightarrow> (name \<Rightarrow> nat option) \<Rightarrow> (name, 'q node) gomap \<Rightarrow> bool" where
  "shape qs dep m \<longleftrightarrow> gomap_ok m \<and> (\<forall>n. map_of m n = nodeAt qs dep n)"

lemma quotaOf_QName: "quotaOf qs n = Some q \<Longrightarrow> QName q = n \<and> q \<in> set qs"
  by (auto simp: quotaOf_def find_Some_iff)

lemma quotaOf_None: "quotaOf qs n = None \<longleftrightarrow> n \<notin> QName ` set qs"
  by (auto simp: quotaOf_def find_None_iff)

lemma set_quotaNames [simp]: "set (quotaNames qs) = QName ` set qs"
  by (simp add: quotaNames_def)

lemma quotaOf_Some: "n \<in> QName ` set qs \<longleftrightarrow> (\<exists>q. quotaOf qs n = Some q)"
  using quotaOf_None [of qs n] by auto

lemma refParent_Some:
  "refParent qs n = Some p \<longleftrightarrow> (\<exists>q. quotaOf qs n = Some q \<and> ParentRef q = Some p \<and> p \<noteq> n \<and> p \<in> QName ` set qs)"
  using quotaOf_None [of qs p] by (cases "quotaOf qs n") (auto simp: refParent_def split: option.split)

lemma set_kids [simp]: "set (kids qs n) = {c. refParent qs c = Some n}"
  by (auto simp: kids_def refParent_Some quotaOf_Some)

lemma sorted_quotaNames [simp]: "sorted (quotaNames qs)" "distinct (quotaNames qs)"
  by (simp_all add: quotaNames_def)

lemma sorted_kids [simp]: "sorted (kids qs n)" "distinct (kids qs n)"
  by (simp_all add: kids_def sorted_filter [of "\<lambda>x. x", simplified])

interpretation ref: parent_chain "refParent qs" "QName ` set qs" for qs :: "'q quota list"
  by unfold_locales (auto simp: refParent_Some)

subsection \<open>Adding the quotas\<close>

definition freshNode :: "'q quota \<Rightarrow> 'q node" where
  "freshNode q = \<lparr>Quota = q, Parent = None, Children = [], Depth = None\<rparr>"

lemma addQuotas_map:
  "map_of (fst (addQuotas qs m vs)) n = (case map_of m n of Some nd \<Rightarrow> Some nd | None \<Rightarrow> map_option freshNode (quotaOf qs n))"
  by (induction qs m vs rule: addQuotas.induct)
    (auto simp: quotaOf_def freshNode_def gomap_simps split: option.split)

lemma addQuotas_ok: "gomap_ok m \<Longrightarrow> gomap_ok (fst (addQuotas qs m vs))"
  by (induction qs m vs rule: addQuotas.induct) (auto simp: gomap_simps)

lemma addQuotas_distinct:
  "snd (addQuotas qs m vs) = [] \<longleftrightarrow> vs = [] \<and> distinct (map QName qs) \<and> QName ` set qs \<inter> keys_of m = {}"
proof (induction qs m vs rule: addQuotas.induct)
  case (2 q qs m vs)
  show ?case
  proof (cases "map_of m (QName q) = None")
    case True
    then have "QName q \<notin> keys_of m" by (simp add: map_of_None_keys)
    then show ?thesis using True 2(2) [of ] by (auto simp: keys_of_update)
  next
    case False
    then have "QName q \<in> keys_of m" by (simp add: map_of_None_keys)
    then show ?thesis using False 2(1) by auto
  qed
qed simp

lemma addQuotas_keys: "keys_of (fst (addQuotas qs [] [])) = QName ` set qs"
proof -
  have "n \<in> keys_of (fst (addQuotas qs [] [])) \<longleftrightarrow> n \<in> QName ` set qs" for n
    using addQuotas_map [of qs "[]" "[]" n] quotaOf_None [of qs n] map_of_None_keys [of "fst (addQuotas qs [] [])" n]
    by auto
  then show ?thesis by blast
qed

lemma sorted_pairs_unique:
  assumes "gomap_ok m" "\<And>n. map_of m n = f n"
  shows "map snd (sort_key fst m) = map (\<lambda>n. the (f n)) (sort (map fst m))"
proof -
  have "\<And>e. e \<in> set (sort_key fst m) \<Longrightarrow> snd e = the (f (fst e))"
    using assms by (metis map_of_is_SomeI option.sel prod.collapse set_sort)
  then have "map snd (sort_key fst m) = map (\<lambda>n. the (f n)) (map fst (sort_key fst m))" by simp
  also have "map fst (sort_key fst m) = sort (map fst m)" by (rule map_sort_key)
  finally show ?thesis .
qed

text \<open>The nodes of a tree in name order, one per quota name.\<close>

lemma Nodes_by_name:
  assumes "gomap_ok (nodes t)" "\<And>n. lookup t n = f n" "keys_of (nodes t) = QName ` set qs"
  shows "Nodes t = map (\<lambda>n. the (f n)) (quotaNames qs)"
proof -
  have "sort (map fst (nodes t)) = quotaNames qs"
    by (rule sorted_distinct_set_unique) (use assms in simp_all)
  then show ?thesis using sorted_pairs_unique [of "nodes t" f] assms by (simp add: Nodes_def lookup_def)
qed

subsection \<open>Linking the parents\<close>

definition linkedUpto :: "'q quota list \<Rightarrow> name list \<Rightarrow> name \<Rightarrow> 'q node option" where
  "linkedUpto qs P n = map_option (\<lambda>q. \<lparr>Quota = q, Parent = (if n \<in> set P then refParent qs n else None),
     Children = filter (\<lambda>c. refParent qs c = Some n) P, Depth = None\<rparr>) (quotaOf qs n)"

definition linkFault :: "'q quota list \<Rightarrow> name \<Rightarrow> 'q violation option" where
  "linkFault qs n =
     (case quotaOf qs n of None \<Rightarrow> None
      | Some q \<Rightarrow> (case ParentRef q of None \<Rightarrow> None
         | Some ref \<Rightarrow> if ref = n then Some (violation n ParentCycle n PointsAtItself)
             else if quotaOf qs ref = None then Some (violation n ParentMissing ref (DoesNotResolve ref))
             else None))"

lemma linkFault_None:
  "linkFault qs n = None \<longleftrightarrow> (\<forall>q ref. quotaOf qs n = Some q \<longrightarrow> ParentRef q = Some ref \<longrightarrow> refParent qs n = Some ref)"
  by (auto simp: linkFault_def refParent_def split: option.split)

lemma linkNode_step:
  assumes q: "quotaOf qs n = Some q" "Quota nd = q" and n: "n \<notin> set P"
    and m: "\<And>k. map_of m k = linkedUpto qs P k" and st: "linkNode nd (m, vs) = (m', vs')"
  shows "map_of m' k = linkedUpto qs (P @ [n]) k" "map fst m' = map fst m"
    "vs' = vs @ (case linkFault qs n of None \<Rightarrow> [] | Some v \<Rightarrow> [v])"
proof -
  have nm: "Name nd = n" using q quotaOf_QName [of qs n q] by (simp add: Name_def)
  have mref: "map_of m r = None \<longleftrightarrow> quotaOf qs r = None" for r by (simp add: m linkedUpto_def)
  have old: "linkedUpto qs (P @ [n]) k = linkedUpto qs P k" if "refParent qs n = None"
    using that by (auto simp: linkedUpto_def)
  consider "ParentRef q = None" | "ParentRef q = Some n"
    | ref where "ParentRef q = Some ref" "ref \<noteq> n" "quotaOf qs ref = None"
    | ref where "ParentRef q = Some ref" "ref \<noteq> n" "quotaOf qs ref \<noteq> None" by (cases "ParentRef q") auto
  then have "map_of m' k = linkedUpto qs (P @ [n]) k \<and> map fst m' = map fst m
    \<and> vs' = vs @ (case linkFault qs n of None \<Rightarrow> [] | Some v \<Rightarrow> [v])"
  proof cases
    case 1
    then have "refParent qs n = None" using q by (simp add: refParent_def)
    then show ?thesis using st 1 q m old by (auto simp: linkNode_def linkFault_def)
  next
    case 2
    then have "refParent qs n = None" using q by (simp add: refParent_def)
    then show ?thesis using st 2 q m old nm by (auto simp: linkNode_def linkFault_def)
  next
    case (3 ref)
    then have "refParent qs n = None" using q by (simp add: refParent_def)
    then show ?thesis using st 3 q m old nm mref [of ref] by (auto simp: linkNode_def linkFault_def)
  next
    case (4 ref)
    then have rp: "refParent qs n = Some ref" using q by (simp add: refParent_def)
    have m': "m' = map_at ref (\<lambda>p. p\<lparr>Children := Children p @ [n]\<rparr>) (map_at n (\<lambda>c. c\<lparr>Parent := Some ref\<rparr>) m)"
      and vs': "vs' = vs" using st 4 q nm mref [of ref] by (auto simp: linkNode_def)
    have "map_of m' k = linkedUpto qs (P @ [n]) k"
      using 4 rp n q by (auto simp: m' gomap_simps m linkedUpto_def option.map_comp comp_def split: option.split)
    then show ?thesis using 4 q by (simp add: vs' m' linkFault_def)
  qed
  then show "map_of m' k = linkedUpto qs (P @ [n]) k" "map fst m' = map fst m"
    "vs' = vs @ (case linkFault qs n of None \<Rightarrow> [] | Some v \<Rightarrow> [v])" by blast+
qed

lemma fold_linkNode:
  assumes "\<And>k. map_of m k = linkedUpto qs P k" "distinct (P @ ns)" "set ns \<subseteq> QName ` set qs"
    and "\<And>n. n \<in> set ns \<Longrightarrow> Quota (g n) = the (quotaOf qs n)"
    and "fold linkNode (map g ns) (m, vs) = (m', vs')"
  shows "(\<forall>k. map_of m' k = linkedUpto qs (P @ ns) k) \<and> map fst m' = map fst m
    \<and> vs' = vs @ List.map_filter (linkFault qs) ns"
  using assms
proof (induction ns arbitrary: P m vs)
  case Nil
  then show ?case by (simp add: map_filter_simps)
next
  case (Cons n ns)
  obtain m1 vs1 where 1: "linkNode (g n) (m, vs) = (m1, vs1)" by fastforce
  obtain q where q: "quotaOf qs n = Some q" using Cons.prems(3) by (auto simp: quotaOf_Some)
  then have qg: "Quota (g n) = q" using Cons.prems(4) [of n] by simp
  have "n \<notin> set P" using Cons.prems(2) by simp
  note s = linkNode_step [OF q qg this Cons.prems(1) 1]
  have "(\<forall>k. map_of m' k = linkedUpto qs ((P @ [n]) @ ns) k) \<and> map fst m' = map fst m1
    \<and> vs' = vs1 @ List.map_filter (linkFault qs) ns"
    by (rule Cons.IH) (use s(1) Cons.prems 1 in auto)
  then show ?case using s by (auto simp: map_filter_simps split: option.splits)
qed

definition linkFaults :: "'q quota list \<Rightarrow> 'q violation list" where
  "linkFaults qs = List.map_filter (linkFault qs) (quotaNames qs)"

text \<open>The tree after linking: every node without a depth.\<close>

lemma linkParents_shape:
  assumes t: "nodes t = fst (addQuotas qs [] [])" and l: "linkParents t = (t', vs)"
  shows "shape qs (\<lambda>_. None) (nodes t')" "Root t' = Root t" "keys_of (nodes t') = QName ` set qs"
    "vs = linkFaults qs @ reportCycles t'"
proof -
  have fresh: "lookup t n = map_option freshNode (quotaOf qs n)" for n
    by (simp add: lookup_def t addQuotas_map)
  have ok: "gomap_ok (nodes t)" by (simp add: t addQuotas_ok)
  have keys: "keys_of (nodes t) = QName ` set qs" by (simp add: t addQuotas_keys)
  define g where "g n = the (map_option freshNode (quotaOf qs n))" for n
  have N: "Nodes t = map g (quotaNames qs)"
    unfolding g_def by (rule Nodes_by_name [OF ok fresh keys])
  obtain m' vs' where f: "fold linkNode (map g (quotaNames qs)) (nodes t, []) = (m', vs')" by fastforce
  have "(\<forall>k. map_of m' k = linkedUpto qs ([] @ quotaNames qs) k) \<and> map fst m' = map fst (nodes t)
    \<and> vs' = [] @ List.map_filter (linkFault qs) (quotaNames qs)"
  proof (rule fold_linkNode [OF _ _ _ _ f])
    show "map_of (nodes t) k = linkedUpto qs [] k" for k
      using fresh [of k] by (simp add: lookup_def linkedUpto_def freshNode_def [abs_def])
    show "Quota (g n) = the (quotaOf qs n)" if "n \<in> set (quotaNames qs)" for n
      using that by (auto simp: g_def freshNode_def quotaOf_Some)
  qed simp_all
  then have m': "\<And>k. map_of m' k = linkedUpto qs (quotaNames qs) k" "map fst m' = map fst (nodes t)"
    "vs' = linkFaults qs" by (simp_all add: linkFaults_def)
  have t': "t' = t\<lparr>nodes := sortChildren m'\<rparr>" and vs: "vs = vs' @ reportCycles t'"
    using l f N by (auto simp: linkParents_def Let_def)
  have fst: "map fst (sortChildren m') = map fst m'" by (simp add: sortChildren_def case_prod_beta comp_def)
  have "map_of (sortChildren m') k = map_option (\<lambda>n. n\<lparr>Children := sort (Children n)\<rparr>) (map_of m' k)" for k
    by (simp add: sortChildren_def map_of_map)
  then have "map_of (nodes t') k = nodeAt qs (\<lambda>_. None) k" for k
    using quotaOf_Some [of k qs] by (cases "quotaOf qs k")
      (auto simp: t' m' linkedUpto_def nodeAt_def kids_def sorted_sort_id sorted_filter [of "\<lambda>x. x", simplified])
  then show "shape qs (\<lambda>_. None) (nodes t')" using ok fst m'(2) by (simp add: shape_def t')
  show "Root t' = Root t" by (simp add: t')
  show "keys_of (nodes t') = QName ` set qs"
    using keys fst m'(2) by (metis t' list.set_map select_convs(2) surjective update_convs(2))
  show "vs = linkFaults qs @ reportCycles t'" using vs m'(3) by simp
qed

subsection \<open>Cycles\<close>

lemma shape_lookup: "shape qs dep (nodes t) \<Longrightarrow> lookup t n = nodeAt qs dep n"
  by (simp add: shape_def lookup_def)

lemma shape_keys: "shape qs dep m \<Longrightarrow> keys_of m = QName ` set qs"
proof -
  assume s: "shape qs dep m"
  have "n \<in> keys_of m \<longleftrightarrow> n \<in> QName ` set qs" for n
    using s map_of_None_keys [of m n] quotaOf_None [of qs n] by (auto simp: shape_def nodeAt_def)
  then show ?thesis by blast
qed

lemma shape_Nodes:
  assumes "shape qs dep (nodes t)"
  shows "Nodes t = map (\<lambda>n. the (nodeAt qs dep n)) (quotaNames qs)"
  using assms shape_lookup [OF assms] shape_keys [OF assms] by (intro Nodes_by_name) (simp_all add: shape_def)

lemma nodeAt_sel:
  assumes "n \<in> QName ` set qs"
  shows "Name (the (nodeAt qs dep n)) = n" "Quota (the (nodeAt qs dep n)) = the (quotaOf qs n)"
    "Parent (the (nodeAt qs dep n)) = refParent qs n" "Children (the (nodeAt qs dep n)) = kids qs n"
    "Depth (the (nodeAt qs dep n)) = dep n"
  using assms by (auto simp: nodeAt_def quotaOf_Some Name_def dest: quotaOf_QName)

text \<open>
  The walk of \<open>cycleMembers\<close>: after \<open>length path\<close> steps it has listed the chain so far. It finds a
  cycle exactly when the chain of parents does not end.
\<close>

lemma cycleFrom_chain:
  assumes sh: "shape qs dep (nodes t)" and x: "x \<in> QName ` set qs"
    and path: "\<And>k. k < length path \<Longrightarrow> climb (refParent qs) k x = Some (path ! k)"
    and cur: "climb (refParent qs) (length path) x = cur"
  shows "cycleFrom t path cur = None \<longleftrightarrow> chain_ends (refParent qs) x"
  using sh path cur
proof (induction t path cur rule: cycleFrom.induct [case_names step])
  case (step t path cur)
  show ?case
  proof (cases cur)
    case None
    then have "chain_ends (refParent qs) x" using step.prems(3) by (auto simp: chain_ends_def)
    then show ?thesis using None by (simp add: cycleFrom.simps)
  next
    case (Some n)
    show ?thesis
    proof (cases "n \<in> set path")
      case True
      then obtain i where i: "i < length path" "path ! i = n" by (auto simp: in_set_conv_nth)
      then have "climb (refParent qs) k x \<noteq> None" for k
        using climb_repeat [of "refParent qs" i x n "length path"] step.prems(2) [OF i(1)] step.prems(3) Some by simp
      then show ?thesis using True Some by (simp add: cycleFrom.simps [of t path] chain_ends_def)
    next
      case False
      have "n \<in> QName ` set qs" using ref.climb_in [of qs "length path" x n] step.prems(3) Some x by simp
      then obtain nd where nd: "lookup t n = Some nd" "Parent nd = refParent qs n"
        using shape_lookup [OF step.prems(1)] by (auto simp: nodeAt_def quotaOf_Some)
      have "cycleFrom t (path @ [n]) (Parent nd) = None \<longleftrightarrow> chain_ends (refParent qs) x"
      proof (rule step.IH [OF Some False nd(1) step.prems(1)])
        show "climb (refParent qs) (length (path @ [n])) x = Parent nd"
          using climb_snoc [of "refParent qs" "length path" x] step.prems(3) Some nd(2) by (simp del: climb.simps)
        show "climb (refParent qs) k x = Some ((path @ [n]) ! k)" if "k < length (path @ [n])" for k
          using that step.prems(2) [of k] step.prems(3) Some by (cases "k < length path") (auto simp: nth_append less_Suc_eq)
      qed
      then show ?thesis using Some False nd(1) by (simp add: cycleFrom.simps [of t path])
    qed
  qed
qed

lemma cycleMembers_None:
  assumes "shape qs dep (nodes t)" "n \<in> QName ` set qs"
  shows "cycleMembers t (the (nodeAt qs dep n)) = None \<longleftrightarrow> chain_ends (refParent qs) n"
  using cycleFrom_chain [OF assms, of "[]"] nodeAt_sel(1) [OF assms(2)] by (simp add: cycleMembers_def)

lemma reportCycle_fold:
  "fold (reportCycle t) ns (r, vs) = (r', vs') \<Longrightarrow>
    map (\<lambda>v. (Node v, VReason v)) vs' = map (\<lambda>v. (Node v, VReason v)) vs
      @ map (\<lambda>n. (Name n, ParentCycle)) (filter (\<lambda>n. cycleMembers t n \<noteq> None) ns)"
proof (induction ns arbitrary: r vs)
  case (Cons n ns)
  obtain r1 vs1 where 1: "reportCycle t n (r, vs) = (r1, vs1)" by fastforce
  have "map (\<lambda>v. (Node v, VReason v)) vs1 = map (\<lambda>v. (Node v, VReason v)) vs
      @ (if cycleMembers t n \<noteq> None then [(Name n, ParentCycle)] else [])"
    using 1 by (auto simp: reportCycle_def Let_def split: option.splits if_splits)
  moreover have "map (\<lambda>v. (Node v, VReason v)) vs' = map (\<lambda>v. (Node v, VReason v)) vs1
      @ map (\<lambda>n. (Name n, ParentCycle)) (filter (\<lambda>n. cycleMembers t n \<noteq> None) ns)"
    using Cons.IH [of r1 vs1] Cons.prems 1 by simp
  ultimately show ?case by simp
qed simp

lemma reportCycles_Nil:
  assumes sh: "shape qs dep (nodes t)"
  shows "reportCycles t = [] \<longleftrightarrow> (\<forall>n\<in>QName ` set qs. chain_ends (refParent qs) n)"
proof -
  obtain r vs where f: "fold (reportCycle t) (Nodes t) ([], []) = (r, vs)" by fastforce
  have "length vs = length (filter (\<lambda>n. cycleMembers t n \<noteq> None) (Nodes t))"
    using arg_cong [OF reportCycle_fold [OF f], of length] by simp
  then have "vs = [] \<longleftrightarrow> filter (\<lambda>n. cycleMembers t n \<noteq> None) (Nodes t) = []"
    unfolding length_0_conv [symmetric] by simp
  moreover have "reportCycles t = vs" by (simp add: reportCycles_def f)
  ultimately show ?thesis
    using cycleMembers_None [OF sh] by (simp add: filter_empty_conv shape_Nodes [OF sh])
qed

subsection \<open>Depths\<close>

lemma shape_map_at:
  assumes "shape qs dep m"
  shows "shape qs (dep(c := d)) (map_at c (\<lambda>n. n\<lparr>Depth := d\<rparr>) m)"
  using assms by (auto simp: shape_def gomap_simps nodeAt_def option.map_comp comp_def)

text \<open>One node's turn: its unplaced children get the next depth and join the queue.\<close>

lemma visitChild_shape:
  assumes "shape qs dep m" "visitChild (Some d) c (m, queue) = (m', queue')" "c \<in> QName ` set qs"
  shows "shape qs (if dep c = None then dep(c := Some (Suc d)) else dep) m'
    \<and> queue' = (if dep c = None then queue @ [c] else queue)"
proof -
  obtain nd where "map_of m c = Some nd" "Depth nd = dep c"
    using assms(1,3) by (auto simp: shape_def nodeAt_def quotaOf_Some)
  then show ?thesis
    using assms shape_map_at [OF assms(1)] by (auto simp: visitChild_def incDepth_def split: if_splits)
qed

lemma visitChildren_shape:
  assumes "shape qs dep m" "fold (visitChild (Some d)) cs (m, queue) = (m', queue')" "set cs \<subseteq> QName ` set qs"
  shows "\<exists>dep'. shape qs dep' m' \<and> (\<forall>n. dep' n = (if n \<in> set cs \<and> dep n = None then Some (Suc d) else dep n))
    \<and> set queue' = set queue \<union> {n \<in> set cs. dep n = None}"
  using assms
proof (induction cs arbitrary: dep m queue)
  case (Cons c cs)
  obtain m1 q1 where 1: "visitChild (Some d) c (m, queue) = (m1, q1)" by fastforce
  let ?dep1 = "if dep c = None then dep(c := Some (Suc d)) else dep"
  have s1: "shape qs ?dep1 m1" "q1 = (if dep c = None then queue @ [c] else queue)"
    using visitChild_shape [OF Cons.prems(1) 1] Cons.prems(3) by simp_all
  have f: "fold (visitChild (Some d)) cs (m1, q1) = (m', queue')" using Cons.prems(2) 1 by simp
  from Cons.IH [OF s1(1) f] Cons.prems(3) obtain dep' where
    sh: "shape qs dep' m'" and dep': "\<forall>n. dep' n = (if n \<in> set cs \<and> ?dep1 n = None then Some (Suc d) else ?dep1 n)"
    and q: "set queue' = set q1 \<union> {n \<in> set cs. ?dep1 n = None}" by auto
  have "dep' n = (if n \<in> set (c # cs) \<and> dep n = None then Some (Suc d) else dep n)" for n
    using spec [OF dep', of n] by (cases "dep c = None"; cases "n = c") simp_all
  moreover have "set queue' = set queue \<union> {n \<in> set (c # cs). dep n = None}"
    unfolding q s1(2) by (cases "dep c = None") auto
  ultimately show ?case using sh by blast
qed auto

definition depth_inv :: "'q quota list \<Rightarrow> name \<Rightarrow> (name \<Rightarrow> nat option) \<Rightarrow> name set \<Rightarrow> bool" where
  "depth_inv qs rt dep queue \<longleftrightarrow>
     (\<forall>n d. dep n = Some d \<longrightarrow> climb (refParent qs) d n = Some rt)
     \<and> (\<forall>n\<in>queue. dep n \<noteq> None)
     \<and> (\<forall>n. dep n \<noteq> None \<longrightarrow> n \<in> queue \<or> (\<forall>c. refParent qs c = Some n \<longrightarrow> dep c \<noteq> None))
     \<and> dep rt = Some 0"

lemma depth_inv_visit:
  assumes inv: "depth_inv qs rt dep (insert n queue)" and d: "dep n = Some d"
    and dep': "\<forall>k. dep' k = (if refParent qs k = Some n \<and> dep k = None then Some (Suc d) else dep k)"
  shows "depth_inv qs rt dep' (queue \<union> {k. refParent qs k = Some n \<and> dep k = None})"
proof -
  have "climb (refParent qs) d n = Some rt" using inv d by (simp add: depth_inv_def)
  then have "climb (refParent qs) k' k = Some rt" if "dep' k = Some k'" for k k'
    using that inv dep' by (auto simp: depth_inv_def split: if_splits)
  moreover have "k \<in> queue \<union> {k. refParent qs k = Some n \<and> dep k = None} \<or> (\<forall>c. refParent qs c = Some k \<longrightarrow> dep' c \<noteq> None)"
    if "dep' k \<noteq> None" for k
    using that inv dep' by (cases "k = n") (auto simp: depth_inv_def split: if_splits)
  ultimately show ?thesis
    using inv dep' by (auto simp: depth_inv_def)
qed

lemma assignDepthLoop_shape:
  assumes "shape qs dep m" "depth_inv qs rt dep (set queue)"
  shows "\<exists>dep'. shape qs dep' (assignDepthLoop m queue) \<and> depth_inv qs rt dep' {}"
  using assms
proof (induction m queue arbitrary: dep rule: assignDepthLoop.induct)
  case (1 m)
  then show ?case by auto
next
  case (2 m n queue)
  from 2(4) obtain d where d: "dep n = Some d" by (auto simp: depth_inv_def)
  show ?case
  proof (cases "map_of m n")
    case None
    then have "quotaOf qs n = None" using 2(3) by (simp add: shape_def nodeAt_def)
    then have "refParent qs c \<noteq> Some n" for c using quotaOf_None [of qs n] by (auto simp: refParent_Some)
    then have "depth_inv qs rt dep (set queue)" using 2(4) by (auto simp: depth_inv_def)
    then show ?thesis using 2(1) [OF None 2(3)] None by simp
  next
    case (Some nd)
    then have nd: "Depth nd = Some d" "Children nd = kids qs n"
      using 2(3) d by (auto simp: shape_def nodeAt_def)
    obtain m' queue' where f: "fold (visitChild (Some d)) (kids qs n) (m, queue) = (m', queue')" by fastforce
    have sub: "set (kids qs n) \<subseteq> QName ` set qs" by (auto simp: refParent_Some quotaOf_Some)
    from visitChildren_shape [OF 2(3) f sub] obtain dep' where
      s: "shape qs dep' m'" and dep': "\<forall>k. dep' k = (if refParent qs k = Some n \<and> dep k = None then Some (Suc d) else dep k)"
      and q: "set queue' = set queue \<union> {k. refParent qs k = Some n \<and> dep k = None}" by auto
    have "depth_inv qs rt dep (insert n (set queue))" using 2(4) by simp
    from depth_inv_visit [OF this d dep'] have "depth_inv qs rt dep' (set queue')" using q by simp
    from 2(2) [OF Some _ s this] f nd Some show ?thesis by simp
  qed
qed

lemma depth_inv_done:
  assumes "depth_inv qs rt dep {}" "refParent qs rt = None"
  shows "dep n = Some d \<longleftrightarrow> climb (refParent qs) d n = Some rt"
proof
  assume "climb (refParent qs) d n = Some rt"
  then show "dep n = Some d"
  proof (induction d arbitrary: n)
    case 0
    then show ?case using assms(1) by (simp add: depth_inv_def)
  next
    case (Suc d)
    then obtain p where p: "refParent qs n = Some p" "climb (refParent qs) d p = Some rt" by (auto split: option.splits)
    then have "dep p = Some d" by (simp add: Suc.IH)
    then obtain k where k: "dep n = Some k" using assms(1) p(1) by (force simp: depth_inv_def)
    then have "climb (refParent qs) k n = Some rt" using assms(1) by (simp add: depth_inv_def)
    then have "k = Suc d" using climb_top_unique [OF _ Suc.prems assms(2)] by blast
    then show ?case using k by simp
  qed
qed (use assms(1) in \<open>simp add: depth_inv_def\<close>)

subsection \<open>The root\<close>

definition rootFaults :: "'q quota list \<Rightarrow> name \<Rightarrow> 'q violation list" where
  "rootFaults qs rt = map (\<lambda>n. violation n ParentMissing rt (OnlyRootOmits rt))
     (filter (\<lambda>n. ParentRef (the (quotaOf qs n)) = None \<and> n \<noteq> rt) (quotaNames qs))"

lemma fold_rootStep:
  assumes "\<And>n. n \<in> set ns \<Longrightarrow> Name (g n) = n \<and> Quota (g n) = the (quotaOf qs n)"
  shows "fold (rootStep rt) (map g ns) (r, vs) =
    (if \<exists>n\<in>set ns. n = rt \<and> ParentRef (the (quotaOf qs n)) = None then Some rt else r,
     vs @ map (\<lambda>n. violation n ParentMissing rt (OnlyRootOmits rt))
       (filter (\<lambda>n. ParentRef (the (quotaOf qs n)) = None \<and> n \<noteq> rt) ns))"
  using assms by (induction ns arbitrary: r vs) (auto simp: rootStep_def)

lemma hasRoot_refParent: "hasRoot qs rt \<Longrightarrow> refParent qs rt = None"
  by (auto simp: hasRoot_def refParent_def)

lemma resolveRoot_shape:
  assumes sh: "shape qs (\<lambda>_. None) (nodes t)" and rt: "Root t = None"
    and r: "resolveRoot t rn = (t', vs)"
  shows "\<exists>dep. shape qs dep (nodes t') \<and> (\<forall>n d. dep n = Some d \<longleftrightarrow> placed qs rn n d)"
    "Root t' = (if hasRoot qs rn then Some rn else None)" "vs = rootFaults qs rn"
proof -
  have f: "fold (rootStep rn) (Nodes t) (Root t, []) =
    (if hasRoot qs rn then Some rn else None, rootFaults qs rn)"
    unfolding shape_Nodes [OF sh] using quotaOf_Some [of rn qs]
    by (subst fold_rootStep) (simp_all add: nodeAt_sel, auto simp: rt rootFaults_def hasRoot_def)
  show "vs = rootFaults qs rn" "Root t' = (if hasRoot qs rn then Some rn else None)"
    using r f by (auto simp: resolveRoot_def split: if_splits)
  show "\<exists>dep. shape qs dep (nodes t') \<and> (\<forall>n d. dep n = Some d \<longleftrightarrow> placed qs rn n d)"
  proof (cases "hasRoot qs rn")
    case True
    then have t': "nodes t' = assignDepth (nodes t) rn" using r f by (auto simp: resolveRoot_def)
    note top = hasRoot_refParent [OF True]
    have "shape qs ((\<lambda>_. None)(rn := Some 0)) (map_at rn (\<lambda>n. n\<lparr>Depth := Some 0\<rparr>) (nodes t))"
      by (rule shape_map_at [OF sh])
    moreover have "depth_inv qs rn ((\<lambda>_. None)(rn := Some 0)) (set [rn])" by (auto simp: depth_inv_def)
    ultimately obtain dep where "shape qs dep (nodes t')" "depth_inv qs rn dep {}"
      using assignDepthLoop_shape unfolding t' assignDepth_def by blast
    then show ?thesis using depth_inv_done [OF _ top] True by (auto simp: placed_def)
  next
    case False
    then have "nodes t' = nodes t" using r f by (auto simp: resolveRoot_def)
    then show ?thesis using sh False by (auto simp: placed_def)
  qed
qed

text \<open>The tree and the list of violations, before the checks are read.\<close>

lemma Build_parts:
  assumes "RootName opts \<noteq> []"
  obtains t t1 dep found where
    "Build Q qs opts = Inr (t, sorted_violations (found @ checkUnreachable t found
        @ checkDepth t (MaxDepth opts) @ checkNodeKind t @ checkContainment Q t))"
    "found = snd (addQuotas qs [] []) @ (linkFaults qs @ reportCycles t1) @ rootFaults qs (RootName opts)"
    "shape qs (\<lambda>_. None) (nodes t1)" "shape qs dep (nodes t)"
    "\<And>n d. dep n = Some d \<longleftrightarrow> placed qs (RootName opts) n d"
    "Root t = (if hasRoot qs (RootName opts) then Some (RootName opts) else None)"
proof -
  obtain m vs0 where a: "addQuotas qs [] [] = (m, vs0)" by fastforce
  obtain t1 vs1 where l: "linkParents \<lparr>Root = None, nodes = m\<rparr> = (t1, vs1)" by fastforce
  obtain t vs2 where r: "resolveRoot t1 (RootName opts) = (t, vs2)" by fastforce
  have m: "nodes \<lparr>Root = None, nodes = m\<rparr> = fst (addQuotas qs [] [])" by (simp add: a)
  note ls = linkParents_shape [OF m l]
  have "Root t1 = None" using ls(2) by simp
  note rs = resolveRoot_shape [OF ls(1) this r]
  from rs(1) obtain dep where dep: "shape qs dep (nodes t)" "\<And>n d. dep n = Some d \<longleftrightarrow> placed qs (RootName opts) n d" by blast
  let ?found = "vs0 @ vs1 @ vs2"
  have "Build Q qs opts = Inr (t, sorted_violations (?found @ checkUnreachable t ?found
        @ checkDepth t (MaxDepth opts) @ checkNodeKind t @ checkContainment Q t))"
    using assms by (simp add: Build_def a l r Let_def)
  moreover have "?found = snd (addQuotas qs [] []) @ (linkFaults qs @ reportCycles t1) @ rootFaults qs (RootName opts)"
    by (simp add: a ls(4) rs(3))
  ultimately show ?thesis using that ls(1) dep rs(2) by blast
qed

end
