(* ===== verification/Quota_Tree_Spec.thy ===== *)
theory Quota_Tree_Spec
  imports Quota_Tree_Build
begin

section \<open>Build against the specification of a sound quota set\<close>

text \<open>
  The contract of the quota tree, stated on the list of AcceleratorQuotas alone, and the theorem that
  \<open>Build\<close> reports no violation exactly on the lists that satisfy it.
\<close>

subsection \<open>The specification\<close>

definition childBudgets :: "'q quota list \<Rightarrow> name \<Rightarrow> string \<Rightarrow> 'q budget list" where
  "childBudgets qs n k = filter (\<lambda>b. keyOf b = k) (concat (map Budgets (filter (\<lambda>c. ParentRef c = Some n) qs)))"

definition kind_ok :: "'q quota \<Rightarrow> bool" where
  "kind_ok q \<longleftrightarrow> (Role q = RoleClusterQueue \<and> Budgets q \<noteq> [])
     \<or> (Role q = RoleCohort \<and> PriorityTier q = [] \<and> Distribution q = None
        \<and> (\<forall>b\<in>set (Budgets q). \<not> carriesLeafOnlyFields b))"

definition contained :: "'q quantity_api \<Rightarrow> 'q quota list \<Rightarrow> 'q quota \<Rightarrow> bool" where
  "contained Q qs q \<longleftrightarrow> (\<forall>b\<in>set (Budgets q). childBudgets qs (QName q) (keyOf b) \<noteq> [] \<longrightarrow>
     (\<Sum>c\<leftarrow>childBudgets qs (QName q) (keyOf b). qval Q (Nominal c)) \<le> qval Q (Nominal b))"

definition sound_set :: "'q quantity_api \<Rightarrow> name \<Rightarrow> int \<Rightarrow> 'q quota list \<Rightarrow> bool" where
  "sound_set Q rt maxDepth qs \<longleftrightarrow> distinct (map QName qs)
     \<and> (\<forall>q\<in>set qs. (\<exists>d. placed qs rt (QName q) d \<and> (0 < maxDepth \<longrightarrow> int d \<le> maxDepth)))
     \<and> (\<forall>q\<in>set qs. kind_ok q)
     \<and> (\<forall>q\<in>set qs. \<forall>c\<in>set qs. ParentRef c = Some (QName q) \<longrightarrow> Role q = RoleCohort)
     \<and> (\<forall>q\<in>set qs. contained Q qs q)"

lemma quotaOf_distinct: "distinct (map QName qs) \<Longrightarrow> q \<in> set qs \<Longrightarrow> quotaOf qs (QName q) = Some q"
  unfolding quotaOf_def by (rule find_unique) (auto simp: distinct_map inj_on_def)

subsection \<open>Structure\<close>

lemma linkFaults_Nil:
  "linkFaults qs = [] \<longleftrightarrow> (\<forall>n q ref. quotaOf qs n = Some q \<longrightarrow> ParentRef q = Some ref \<longrightarrow> refParent qs n = Some ref)"
proof -
  have "linkFaults qs = [] \<longleftrightarrow> (\<forall>n\<in>QName ` set qs. linkFault qs n = None)"
    by (auto simp: linkFaults_def List.map_filter_def filter_empty_conv)
  also have "\<dots> \<longleftrightarrow> (\<forall>n. linkFault qs n = None)"
    by (metis linkFault_None quotaOf_None option.distinct(1))
  finally show ?thesis by (simp add: linkFault_None)
qed

lemma rootFaults_Nil:
  "rootFaults qs rt = [] \<longleftrightarrow> (\<forall>n q. quotaOf qs n = Some q \<longrightarrow> ParentRef q = None \<longrightarrow> n = rt)"
proof -
  have "rootFaults qs rt = [] \<longleftrightarrow> (\<forall>n. n \<in> QName ` set qs \<longrightarrow> ParentRef (the (quotaOf qs n)) = None \<longrightarrow> n = rt)"
    by (auto simp: rootFaults_def filter_empty_conv)
  then show ?thesis unfolding quotaOf_Some by auto
qed

definition all_placed :: "'q quota list \<Rightarrow> name \<Rightarrow> bool" where
  "all_placed qs rt \<longleftrightarrow> (\<forall>n\<in>QName ` set qs. \<exists>d. placed qs rt n d)"

lemma all_placedD:
  assumes "all_placed qs rt" "quotaOf qs n = Some q"
  obtains d where "hasRoot qs rt" "climb (refParent qs) d n = Some rt"
proof -
  have "n \<in> QName ` set qs" using assms(2) quotaOf_Some by blast
  then show ?thesis using assms(1) that unfolding all_placed_def placed_def by blast
qed

lemma all_placed_refParent:
  assumes "all_placed qs rt" "quotaOf qs n = Some q"
  shows "refParent qs n = ParentRef q"
proof (cases "ParentRef q")
  case None
  then show ?thesis using assms(2) by (simp add: refParent_def)
next
  case (Some ref)
  obtain d where d: "hasRoot qs rt" "climb (refParent qs) d n = Some rt"
    using all_placedD [OF assms] by blast
  then have "d \<noteq> 0" using Some assms(2) by (cases d) (auto simp: hasRoot_def)
  then obtain x where "refParent qs n = Some x" using d(2) by (cases d) (auto split: option.splits)
  then show ?thesis using assms(2) by (auto simp: refParent_Some)
qed

text \<open>
  The parent references are sound exactly when every chain of parents climbs to the reserved root:
  no reference dangles or loops, and no other node omits it.
\<close>

lemma structure_iff:
  assumes "shape qs (\<lambda>_. None) (nodes t)"
  shows "linkFaults qs @ reportCycles t @ rootFaults qs rt = [] \<longleftrightarrow> all_placed qs rt"
proof
  assume "linkFaults qs @ reportCycles t @ rootFaults qs rt = []"
  then have l: "\<And>n q ref. quotaOf qs n = Some q \<Longrightarrow> ParentRef q = Some ref \<Longrightarrow> refParent qs n = Some ref"
    and c: "\<And>n. n \<in> QName ` set qs \<Longrightarrow> chain_ends (refParent qs) n"
    and r: "\<And>n q. quotaOf qs n = Some q \<Longrightarrow> ParentRef q = None \<Longrightarrow> n = rt"
    by (auto simp: linkFaults_Nil reportCycles_Nil [OF assms] rootFaults_Nil)
  show "all_placed qs rt"
    unfolding all_placed_def
  proof
    fix n assume n: "n \<in> QName ` set qs"
    from chain_ends_top [OF c [OF n]] obtain k x where
      k: "climb (refParent qs) k n = Some x" "refParent qs x = None" by blast
    then obtain q where q: "quotaOf qs x = Some q" using ref.climb_in [OF k(1) n] by (auto simp: quotaOf_Some)
    then have "ParentRef q = None" using l [OF q] k(2) by (cases "ParentRef q") auto
    with q r k(1) show "\<exists>d. placed qs rt n d" by (auto simp: placed_def hasRoot_def)
  qed
next
  assume p: "all_placed qs rt"
  have "refParent qs n = Some ref" if "quotaOf qs n = Some q" "ParentRef q = Some ref" for n q ref
    using all_placed_refParent [OF p] that by simp
  moreover have "chain_ends (refParent qs) n" if "n \<in> QName ` set qs" for n
    using p that hasRoot_refParent climb_top_ends by (fastforce simp: all_placed_def placed_def)
  moreover have "n = rt" if q: "quotaOf qs n = Some q" "ParentRef q = None" for n q
  proof -
    obtain d where d: "climb (refParent qs) d n = Some rt"
      using all_placedD [OF p q(1)] by blast
    have "refParent qs n = None" using q by (simp add: refParent_def)
    then show ?thesis using d by (cases d) auto
  qed
  ultimately show "linkFaults qs @ reportCycles t @ rootFaults qs rt = []"
    by (simp add: linkFaults_Nil reportCycles_Nil [OF assms] rootFaults_Nil)
qed

subsection \<open>The checks\<close>

lemma checkUnreachable_placed:
  assumes "shape qs dep (nodes t)" "\<And>n d. dep n = Some d \<longleftrightarrow> placed qs rt n d" "all_placed qs rt"
  shows "checkUnreachable t found = []"
proof -
  have "Reachable nd" if nd: "nd \<in> set (Nodes t)" for nd
  proof -
    obtain n where n: "n \<in> QName ` set qs" "nd = the (nodeAt qs dep n)"
      using nd unfolding shape_Nodes [OF assms(1)] by auto
    then obtain d where "dep n = Some d" using assms(2,3) by (auto simp: all_placed_def)
    then show ?thesis using nodeAt_sel(5) [OF n(1), of dep] n(2) by (simp add: Reachable_def)
  qed
  then show ?thesis by (auto simp: checkUnreachable_def filter_empty_conv)
qed

lemma checkDepth_Nil:
  assumes "shape qs dep (nodes t)"
  shows "checkDepth t md = [] \<longleftrightarrow> (0 < md \<longrightarrow> (\<forall>n\<in>QName ` set qs. \<forall>d. dep n = Some d \<longrightarrow> int d \<le> md))"
proof -
  have dep: "Depth (the (nodeAt qs dep n)) = dep n" if "n \<in> QName ` set qs" for n
    using that by (rule nodeAt_sel)
  show ?thesis
    unfolding checkDepth_def shape_Nodes [OF assms]
    by (auto simp: List.map_filter_def filter_empty_conv dep not_le split: option.split if_splits) (meson not_le)
qed

lemma checkNodeKind_Nil:
  assumes "shape qs dep (nodes t)"
  shows "checkNodeKind t = [] \<longleftrightarrow> (\<forall>n\<in>QName ` set qs. kind_ok (the (quotaOf qs n))
    \<and> (Role (the (quotaOf qs n)) = RoleClusterQueue \<longrightarrow> kids qs n = []))"
proof -
  have "checkClusterQueueNode (the (nodeAt qs dep n)) = [] \<longleftrightarrow> kids qs n = [] \<and> Budgets (the (quotaOf qs n)) \<noteq> []"
    "checkCohortNode (the (nodeAt qs dep n)) = [] \<longleftrightarrow> PriorityTier (the (quotaOf qs n)) = []
      \<and> Distribution (the (quotaOf qs n)) = None \<and> (\<forall>b\<in>set (Budgets (the (quotaOf qs n))). \<not> carriesLeafOnlyFields b)"
    if "n \<in> QName ` set qs" for n
    using nodeAt_sel [OF that, of dep]
    by (auto simp: checkClusterQueueNode_def checkCohortNode_def cohortSets_def Let_def filter_empty_conv)
  then have "(if Role (Quota (the (nodeAt qs dep n))) = RoleClusterQueue then checkClusterQueueNode (the (nodeAt qs dep n))
       else if Role (Quota (the (nodeAt qs dep n))) = RoleCohort then checkCohortNode (the (nodeAt qs dep n))
       else [violation (Name (the (nodeAt qs dep n))) NodeKindInvalid [] (UnknownRole (Role (Quota (the (nodeAt qs dep n)))))]) = []
     \<longleftrightarrow> kind_ok (the (quotaOf qs n)) \<and> (Role (the (quotaOf qs n)) = RoleClusterQueue \<longrightarrow> kids qs n = [])"
    if "n \<in> QName ` set qs" for n
    using that nodeAt_sel(2) [OF that, of dep] by (simp add: kind_ok_def conj_commute)
  then show ?thesis
    by (simp only: checkNodeKind_def shape_Nodes [OF assms] concat_eq_Nil_conv set_map set_quotaNames) blast
qed

lemma fold_addNominal:
  assumes "quantity Q"
  shows "case map_of (fold (addNominal Q) bs m) k of
      None \<Rightarrow> map_of m k = None \<and> filter (\<lambda>b. keyOf b = k) bs = []
    | Some s \<Rightarrow> (map_of m k \<noteq> None \<or> filter (\<lambda>b. keyOf b = k) bs \<noteq> [])
        \<and> qval Q s = (case map_of m k of None \<Rightarrow> 0 | Some a \<Rightarrow> qval Q a)
            + (\<Sum>b\<leftarrow>filter (\<lambda>b. keyOf b = k) bs. qval Q (Nominal b))"
proof (induction bs arbitrary: m)
  case Nil
  then show ?case by (simp split: option.split)
next
  case (Cons b bs)
  have "map_of (addNominal Q b m) k = (if keyOf b = k
      then Some (case map_of m k of None \<Rightarrow> Nominal b | Some a \<Rightarrow> q_add Q a (Nominal b)) else map_of m k)"
    by (auto simp: addNominal_def gomap_simps split: option.split)
  then show ?case
    using Cons.IH [of "addNominal Q b m"] quantity.add_val [OF assms]
    by (auto split: option.splits if_splits)
qed

definition childNodeBudgets :: "'q tree \<Rightarrow> 'q node \<Rightarrow> string \<Rightarrow> 'q budget list" where
  "childNodeBudgets t n k = filter (\<lambda>b. keyOf b = k) (concat (map (\<lambda>c. Budgets (Quota c)) (childNodes t n)))"

lemma childSums_val:
  assumes "quantity Q"
  shows "map_of (childSums Q t n) k = None \<longleftrightarrow> childNodeBudgets t n k = []"
    and "map_of (childSums Q t n) k = Some s \<Longrightarrow> qval Q s = (\<Sum>b\<leftarrow>childNodeBudgets t n k. qval Q (Nominal b))"
  using fold_addNominal [OF assms(1), where m = "[]" and k = k and bs = "concat (map (\<lambda>c. Budgets (Quota c)) (childNodes t n))"]
  unfolding childSums_def childNodeBudgets_def by (simp_all split: option.splits)

lemma kids_perm:
  assumes "all_placed qs rt" "distinct (map QName qs)"
  shows "mset (map (\<lambda>c. the (quotaOf qs c)) (kids qs n)) = mset (filter (\<lambda>c. ParentRef c = Some n) qs)"
proof -
  let ?cs = "filter (\<lambda>c. ParentRef c = Some n) qs"
  have q: "quotaOf qs (QName c) = Some c" if "c \<in> set qs" for c using quotaOf_distinct assms(2) that by blast
  have "refParent qs c = Some n \<longleftrightarrow> (\<exists>q\<in>set qs. QName q = c \<and> ParentRef q = Some n)" for c
  proof
    assume "refParent qs c = Some n"
    then show "\<exists>q\<in>set qs. QName q = c \<and> ParentRef q = Some n" by (auto simp: refParent_Some dest: quotaOf_QName)
  next
    assume "\<exists>q\<in>set qs. QName q = c \<and> ParentRef q = Some n"
    then show "refParent qs c = Some n" using all_placed_refParent [OF assms(1)] q by force
  qed
  then have "set (kids qs n) = set (map QName ?cs)" by force
  moreover have "distinct (map QName ?cs)" using assms(2) by (rule distinct_map_filter)
  ultimately have "mset (kids qs n) = mset (map QName ?cs)"
    using set_eq_iff_mset_eq_distinct [of "kids qs n" "map QName ?cs"] by simp
  then have "image_mset (\<lambda>c. the (quotaOf qs c)) (mset (kids qs n)) = image_mset (\<lambda>c. the (quotaOf qs c)) (mset (map QName ?cs))"
    by simp
  also have "\<dots> = mset (map (\<lambda>c. the (quotaOf qs (QName c))) ?cs)" by (simp add: image_mset.compositionality comp_def)
  also have "map (\<lambda>c. the (quotaOf qs (QName c))) ?cs = ?cs" by (rule map_idI) (simp add: q)
  finally show ?thesis by simp
qed

lemma sum_list_mset_cong: "mset xs = mset ys \<Longrightarrow> (\<Sum>x\<leftarrow>xs. f x) = (\<Sum>x\<leftarrow>ys. f x :: 'b::comm_monoid_add)"
  unfolding sum_mset_sum_list [symmetric] mset_map by simp

lemma mset_concat_cong: "mset xs = mset ys \<Longrightarrow> mset (concat (map f xs)) = mset (concat (map f ys))"
  using sum_list_mset_cong [of xs ys "\<lambda>x. mset (f x)"] by (simp add: mset_concat comp_def)

lemma childNodes_shape:
  assumes "shape qs dep (nodes t)" "n \<in> QName ` set qs"
  shows "map (\<lambda>c. Budgets (Quota c)) (childNodes t (the (nodeAt qs dep n)))
    = map Budgets (map (\<lambda>c. the (quotaOf qs c)) (kids qs n))"
proof -
  have "lookup t c = Some (the (nodeAt qs dep c)) \<and> Quota (the (nodeAt qs dep c)) = the (quotaOf qs c)"
    if "c \<in> set (kids qs n)" for c
    using that shape_lookup [OF assms(1)] by (auto simp: refParent_Some nodeAt_def)
  then have "map (\<lambda>c. Budgets (Quota c)) (List.map_filter (lookup t) (kids qs n))
      = map Budgets (map (\<lambda>c. the (quotaOf qs c)) (kids qs n))"
    by (induction "kids qs n") (auto simp: map_filter_def)
  then show ?thesis using nodeAt_sel(4) [OF assms(2), of dep] by (simp add: childNodes_def)
qed

lemma childNodeBudgets_perm:
  assumes "shape qs dep (nodes t)" "all_placed qs rt" "distinct (map QName qs)" "n \<in> QName ` set qs"
  shows "mset (childNodeBudgets t (the (nodeAt qs dep n)) k) = mset (childBudgets qs n k)"
  unfolding childNodeBudgets_def childBudgets_def childNodes_shape [OF assms(1,4)]
  using mset_concat_cong [OF kids_perm [OF assms(2,3), of n], of Budgets] by simp

lemma checkNodeContainment_Nil:
  assumes q: "quantity Q" and sh: "shape qs dep (nodes t)" and pl: "all_placed qs rt"
    and d: "distinct (map QName qs)" and n: "n \<in> QName ` set qs"
  shows "checkNodeContainment Q t (the (nodeAt qs dep n)) = []
    \<longleftrightarrow> Role (the (quotaOf qs n)) = RoleClusterQueue \<or> contained Q qs (the (quotaOf qs n))"
proof -
  let ?nd = "the (nodeAt qs dep n)" and ?q = "the (quotaOf qs n)"
  note sel = nodeAt_sel [OF n, of dep]
  have name: "QName ?q = n" using n by (auto simp: quotaOf_Some dest: quotaOf_QName)
  have perm: "mset (childNodeBudgets t ?nd k) = mset (childBudgets qs n k)" for k
    by (rule childNodeBudgets_perm [OF sh pl d n])
  then have nil: "childNodeBudgets t ?nd k = [] \<longleftrightarrow> childBudgets qs n k = []" for k
    by (metis mset_zero_iff_right)
  have total: "(\<Sum>b\<leftarrow>childNodeBudgets t ?nd k. qval Q (Nominal b)) = (\<Sum>b\<leftarrow>childBudgets qs n k. qval Q (Nominal b))" for k
    using perm [of k] by (rule sum_list_mset_cong)
  have kidless: "contained Q qs ?q" if "kids qs n = []"
  proof -
    have "childNodeBudgets t ?nd k = []" for k
      using childNodes_shape [OF sh n] that by (simp add: childNodeBudgets_def)
    then show ?thesis using nil by (simp add: contained_def name)
  qed
  have each: "(case map_of (childSums Q t ?nd) (keyOf b) of None \<Rightarrow> False | Some s \<Rightarrow> q_cmp Q (Nominal b) s < 0)
    \<longleftrightarrow> childBudgets qs n (keyOf b) \<noteq> [] \<and> qval Q (Nominal b) < (\<Sum>c\<leftarrow>childBudgets qs n (keyOf b). qval Q (Nominal c))" for b
    using childSums_val [OF q, of t ?nd "keyOf b"] quantity.cmp_less [OF q, of "Nominal b"] nil [of "keyOf b"] total [of "keyOf b"]
    by (cases "map_of (childSums Q t ?nd) (keyOf b)") auto
  have "checkNodeContainment Q t ?nd = [] \<longleftrightarrow> IsLeaf ?nd \<or> kids qs n = [] \<or> Budgets ?q = [] \<or>
    (\<forall>b\<in>set (Budgets ?q). \<not> (case map_of (childSums Q t ?nd) (keyOf b) of None \<Rightarrow> False | Some s \<Rightarrow> q_cmp Q (Nominal b) s < 0))"
    by (auto simp: checkNodeContainment_def Let_def List.map_filter_def filter_empty_conv sel split: option.splits if_splits)
  also have "\<dots> \<longleftrightarrow> IsLeaf ?nd \<or> kids qs n = [] \<or> contained Q qs ?q"
    unfolding each contained_def name by (auto simp: not_less)
  finally show ?thesis using kidless by (auto simp: IsLeaf_def sel)
qed

lemma checkContainment_Nil:
  assumes "quantity Q" "shape qs dep (nodes t)" "all_placed qs rt" "distinct (map QName qs)"
  shows "checkContainment Q t = [] \<longleftrightarrow> (\<forall>q\<in>set qs. Role q = RoleClusterQueue \<or> contained Q qs q)"
proof -
  have "checkContainment Q t = [] \<longleftrightarrow> (\<forall>n\<in>QName ` set qs. checkNodeContainment Q t (the (nodeAt qs dep n)) = [])"
    by (simp add: checkContainment_def shape_Nodes [OF assms(2)])
  also have "\<dots> \<longleftrightarrow> (\<forall>n\<in>QName ` set qs. Role (the (quotaOf qs n)) = RoleClusterQueue \<or> contained Q qs (the (quotaOf qs n)))"
    using checkNodeContainment_Nil [OF assms] by blast
  also have "\<dots> \<longleftrightarrow> (\<forall>q\<in>set qs. Role q = RoleClusterQueue \<or> contained Q qs q)"
    using quotaOf_distinct [OF assms(4)] by simp
  finally show ?thesis .
qed

lemma kind_ok_role: "kind_ok q \<Longrightarrow> Role q = RoleClusterQueue \<or> Role q = RoleCohort"
  by (auto simp: kind_ok_def)

lemma checkNodeKind_spec:
  assumes sh: "shape qs dep (nodes t)" and pl: "all_placed qs rt" and d: "distinct (map QName qs)"
  shows "checkNodeKind t = [] \<longleftrightarrow> (\<forall>q\<in>set qs. kind_ok q)
    \<and> (\<forall>q\<in>set qs. \<forall>c\<in>set qs. ParentRef c = Some (QName q) \<longrightarrow> Role q = RoleCohort)"
proof -
  have kids: "kids qs n = [] \<longleftrightarrow> (\<forall>c\<in>set qs. ParentRef c \<noteq> Some n)" for n
  proof -
    have "length (kids qs n) = length (filter (\<lambda>c. ParentRef c = Some n) qs)"
      using mset_eq_length [OF kids_perm [OF pl d, of n]] by simp
    then have "kids qs n = [] \<longleftrightarrow> filter (\<lambda>c. ParentRef c = Some n) qs = []"
      unfolding length_0_conv [symmetric] by simp
    then show ?thesis by (simp add: filter_empty_conv)
  qed
  have "checkNodeKind t = [] \<longleftrightarrow> (\<forall>q\<in>set qs. kind_ok q \<and> (Role q = RoleClusterQueue \<longrightarrow> kids qs (QName q) = []))"
    using checkNodeKind_Nil [OF sh] quotaOf_distinct [OF d] by simp
  then show ?thesis unfolding kids using kind_ok_role by fastforce
qed

lemma childless_contained:
  "(\<forall>c\<in>set qs. ParentRef c \<noteq> Some (QName q)) \<Longrightarrow> contained Q qs q"
proof -
  assume "\<forall>c\<in>set qs. ParentRef c \<noteq> Some (QName q)"
  then have "filter (\<lambda>c. ParentRef c = Some (QName q)) qs = []" by (simp add: filter_empty_conv)
  then show ?thesis by (simp add: contained_def childBudgets_def)
qed

subsection \<open>Build decides the specification\<close>

lemma placed_unique: "placed qs rt n d \<Longrightarrow> placed qs rt n d' \<Longrightarrow> d = d'"
  using climb_top_unique hasRoot_refParent unfolding placed_def by metis

lemma depth_bound_iff:
  assumes "all_placed qs rt"
  shows "(0 < md \<longrightarrow> (\<forall>n\<in>QName ` set qs. \<forall>d. placed qs rt n d \<longrightarrow> int d \<le> md))
    \<longleftrightarrow> (\<forall>q\<in>set qs. \<exists>d. placed qs rt (QName q) d \<and> (0 < md \<longrightarrow> int d \<le> md))"
    (is "?l \<longleftrightarrow> ?r")
proof
  assume ?l
  then show ?r using assms unfolding all_placed_def by blast
next
  assume r: ?r
  show ?l
  proof (intro impI ballI allI)
    fix n d assume "0 < md" "n \<in> QName ` set qs" "placed qs rt n d"
    then obtain d' where "placed qs rt n d'" "int d' \<le> md" using r by blast
    then show "int d \<le> md" using placed_unique [OF \<open>placed qs rt n d\<close>] by blast
  qed
qed

lemma Build_decides:
  assumes q: "quantity Q" and rt: "RootName opts \<noteq> []"
  shows "\<exists>t vs. Build Q qs opts = Inr (t, vs) \<and> (vs = [] \<longleftrightarrow> sound_set Q (RootName opts) (MaxDepth opts) qs)"
proof -
  let ?rt = "RootName opts" and ?md = "MaxDepth opts"
  obtain t t1 dep found where b: "Build Q qs opts = Inr (t, sorted_violations (found @ checkUnreachable t found
        @ checkDepth t ?md @ checkNodeKind t @ checkContainment Q t))"
    and found: "found = snd (addQuotas qs [] []) @ (linkFaults qs @ reportCycles t1) @ rootFaults qs ?rt"
    and sh1: "shape qs (\<lambda>_. None) (nodes t1)" and sh: "shape qs dep (nodes t)"
    and dep: "\<And>n d. dep n = Some d \<longleftrightarrow> placed qs ?rt n d"
    and "Root t = (if hasRoot qs ?rt then Some ?rt else None)"
    by (rule Build_parts [OF rt, where Q = Q and qs = qs]) (rule that)
  have f: "found = [] \<longleftrightarrow> distinct (map QName qs) \<and> all_placed qs ?rt"
    using structure_iff [OF sh1, of ?rt] by (simp add: found addQuotas_distinct)
  have "found @ checkUnreachable t found @ checkDepth t ?md @ checkNodeKind t @ checkContainment Q t = []
    \<longleftrightarrow> sound_set Q ?rt ?md qs"
  proof (cases "distinct (map QName qs) \<and> all_placed qs ?rt")
    case True
    then have d: "distinct (map QName qs)" and pl: "all_placed qs ?rt" by blast+
    have depth: "checkDepth t ?md = [] \<longleftrightarrow> (\<forall>q\<in>set qs. \<exists>d. placed qs ?rt (QName q) d \<and> (0 < ?md \<longrightarrow> int d \<le> ?md))"
      unfolding checkDepth_Nil [OF sh] dep by (rule depth_bound_iff [OF pl])
    have leaf: "(\<forall>q\<in>set qs. Role q = RoleClusterQueue \<or> contained Q qs q) \<longleftrightarrow> (\<forall>q\<in>set qs. contained Q qs q)"
      if "\<forall>q\<in>set qs. \<forall>c\<in>set qs. ParentRef c = Some (QName q) \<longrightarrow> Role q = RoleCohort"
      using that childless_contained [of qs _ Q] by force
    have "found = []" "checkUnreachable t found = []"
      using f True checkUnreachable_placed [OF sh dep pl] by blast+
    then show ?thesis
      using d leaf unfolding sound_set_def append_is_Nil_conv depth checkNodeKind_spec [OF sh pl d]
        checkContainment_Nil [OF q sh pl d] by blast
  next
    case False
    then show ?thesis using f by (auto simp: sound_set_def all_placed_def)
  qed
  then show ?thesis using b by simp
qed

text \<open>
  C3: \<open>Build\<close> reports no violation exactly when the AcceleratorQuotas form a sound tree: names are
  unique, every chain of parents climbs to the reserved root within the depth bound, every node is
  shaped as its role demands, only a Cohort has children, and no Cohort budget is below the total of
  its children's budgets of the same resource and flavor.
\<close>

theorem Build_refines_spec:
  assumes "quantity Q" and "RootName opts \<noteq> []"
  shows "\<exists>t vs. Build Q qs opts = Inr (t, vs) \<and> (vs = [] \<longleftrightarrow> sound_set Q (RootName opts) (MaxDepth opts) qs)"
  using assms by (rule Build_decides)

text \<open>A small fleet: a root, one organisation, two teams.\<close>

definition tpu :: "int \<Rightarrow> (dec \<times> string) budget" where
  "tpu k = \<lparr>ResourceName = ''google.com/tpu'', ResourceFlavor = ''tpu7x'', Policy = [], Nominal = whole k,
     BorrowingLimit = None, LendingLimit = None, PerCluster = []\<rparr>"

definition cohort :: "name \<Rightarrow> name option \<Rightarrow> int \<Rightarrow> (dec \<times> string) quota" where
  "cohort n p k = \<lparr>QName = n, Role = RoleCohort, ParentRef = p, PriorityTier = [], Distribution = None, Budgets = [tpu k], QUID = n @ ''-uid'', QGeneration = 1\<rparr>"

definition leaf :: "name \<Rightarrow> name option \<Rightarrow> int \<Rightarrow> (dec \<times> string) quota" where
  "leaf n p k = \<lparr>QName = n, Role = RoleClusterQueue, ParentRef = p, PriorityTier = [], Distribution = None, Budgets = [tpu k], QUID = n @ ''-uid'', QGeneration = 1\<rparr>"

definition fleetOptions :: options where
  "fleetOptions = \<lparr>RootName = ''root'', MaxDepth = 5\<rparr>"

definition healthyFleet :: "(dec \<times> string) quota list" where
  "healthyFleet = [cohort ''root'' None 128, cohort ''org'' (Some ''root'') 100,
     leaf ''team-a'' (Some ''org'') 60, leaf ''team-b'' (Some ''org'') 40]"

theorem Build_refines_spec_witness:
  "(\<exists>t. Build exact_api healthyFleet fleetOptions = Inr (t, [])) \<and> sound_set exact_api ''root'' 5 healthyFleet"
proof -
  have r: "RootName fleetOptions \<noteq> []" by code_simp
  have e: "(case Build exact_api healthyFleet fleetOptions of Inl _ \<Rightarrow> False | Inr (t, vs) \<Rightarrow> vs = [])" by code_simp
  obtain t vs where b: "Build exact_api healthyFleet fleetOptions = Inr (t, vs)"
    and s: "vs = [] \<longleftrightarrow> sound_set exact_api (RootName fleetOptions) (MaxDepth fleetOptions) healthyFleet"
    using Build_refines_spec [OF exact.quantity_axioms r, of healthyFleet] by blast
  then have "vs = []" using e by simp
  then show ?thesis using b s by (simp add: fleetOptions_def)
qed

end
