(* ===== verification/Quota_Tree_Walk.thy ===== *)
theory Quota_Tree_Walk
  imports Quota_Tree_Spec
begin

section \<open>Subtrees, freezing and unreachable nodes\<close>

text \<open>
  What a controller relies on when a fleet is broken: \<open>Depth\<close> is the distance to the root,
  every node without a position carries a violation, \<open>Subtree\<close> lists exactly the descendants with
  parents first, and \<open>Frozen\<close> freezes a node exactly when it or one of its ancestors violates.
\<close>

subsection \<open>Subtree\<close>

definition descendants :: "'q quota list \<Rightarrow> name \<Rightarrow> name set" where
  "descendants qs n = {x. x \<in> QName ` set qs \<and> (\<exists>k. climb (refParent qs) k x = Some n)}"

definition parentsFirst :: "'q quota list \<Rightarrow> name \<Rightarrow> name list \<Rightarrow> bool" where
  "parentsFirst qs n xs \<longleftrightarrow> (\<forall>ys x zs. xs = ys @ x # zs \<longrightarrow> x = n \<or> (\<exists>p\<in>set ys. refParent qs x = Some p))"

definition walk_inv :: "'q quota list \<Rightarrow> name \<Rightarrow> name list \<Rightarrow> name list \<Rightarrow> bool" where
  "walk_inv qs n stack out \<longleftrightarrow> distinct out \<and> set out \<union> set stack \<subseteq> descendants qs n \<and> n \<in> set out \<union> set stack
     \<and> (\<forall>x\<in>set out. \<forall>c. refParent qs c = Some x \<longrightarrow> c \<in> set out \<union> set stack)
     \<and> (\<forall>x\<in>set stack. x = n \<or> (\<exists>p\<in>set out. refParent qs x = Some p)) \<and> parentsFirst qs n out"

lemma parentsFirst_snoc:
  assumes "parentsFirst qs n out" "x = n \<or> (\<exists>p\<in>set out. refParent qs x = Some p)"
  shows "parentsFirst qs n (out @ [x])"
  unfolding parentsFirst_def
proof (intro allI impI)
  fix ys y zs assume e: "out @ [x] = ys @ y # zs"
  show "y = n \<or> (\<exists>p\<in>set ys. refParent qs y = Some p)"
  proof (cases zs rule: rev_cases)
    case Nil
    then show ?thesis using e assms(2) by simp
  next
    case (snoc zs' z)
    then have "out = ys @ y # zs'" using e by simp
    then show ?thesis using assms(1) by (auto simp: parentsFirst_def)
  qed
qed

lemma descendants_child: "x \<in> descendants qs n \<Longrightarrow> refParent qs c = Some x \<Longrightarrow> c \<in> descendants qs n"
proof -
  assume "x \<in> descendants qs n" and c: "refParent qs c = Some x"
  then obtain k where "climb (refParent qs) k x = Some n" by (auto simp: descendants_def)
  then have "climb (refParent qs) (Suc k) c = Some n" using c by simp
  moreover have "c \<in> QName ` set qs" using c by (auto simp: refParent_Some quotaOf_Some)
  ultimately show ?thesis unfolding descendants_def by blast
qed

lemma walk_inv_visit:
  assumes "walk_inv qs n (x # stack) out" "x \<notin> set out"
  shows "walk_inv qs n (kids qs x @ stack) (out @ [x])"
proof -
  have "x \<in> descendants qs n" using assms(1) by (simp add: walk_inv_def)
  then have "set (kids qs x) \<subseteq> descendants qs n" using descendants_child by auto
  moreover have "parentsFirst qs n (out @ [x])"
    using assms(1) by (intro parentsFirst_snoc) (auto simp: walk_inv_def)
  ultimately show ?thesis using assms unfolding walk_inv_def by auto
qed

lemma walk_inv_skip: "walk_inv qs n (x # stack) out \<Longrightarrow> x \<in> set out \<Longrightarrow> walk_inv qs n stack out"
  unfolding walk_inv_def by auto

lemma walk_inv_end:
  assumes "shape qs dep (nodes t)" "walk_inv qs n stack out"
  shows "walk_inv qs n [] (walk t stack out)"
  using assms
proof (induction t stack out rule: walk.induct)
  case (2 t x stack out)
  show ?case
  proof (cases "x \<in> set out")
    case True
    then show ?thesis using 2(1) [OF True 2(4) walk_inv_skip [OF 2(5) True]] by simp
  next
    case False
    have "x \<in> QName ` set qs" using 2(5) by (auto simp: walk_inv_def descendants_def)
    then obtain nd where nd: "lookup t x = Some nd" "Children nd = kids qs x"
      using shape_lookup [OF 2(4)] by (auto simp: nodeAt_def quotaOf_Some)
    have "walk_inv qs n (Children nd @ stack) (out @ [x])"
      unfolding nd(2) by (rule walk_inv_visit [OF 2(5) False])
    from 2(3) [OF False nd(1) 2(4) this] show ?thesis using False nd(1) by simp
  qed
qed simp

lemma walk_inv_done:
  assumes "walk_inv qs n [] out"
  shows "set out = descendants qs n"
proof
  show "set out \<subseteq> descendants qs n" using assms by (simp add: walk_inv_def)
  show "descendants qs n \<subseteq> set out"
  proof
    fix x assume "x \<in> descendants qs n"
    then obtain k where "climb (refParent qs) k x = Some n" by (auto simp: descendants_def)
    then show "x \<in> set out"
    proof (induction k arbitrary: x)
      case 0
      then show ?case using assms by (simp add: walk_inv_def)
    next
      case (Suc k)
      then obtain y where "refParent qs x = Some y" "climb (refParent qs) k y = Some n" by (auto split: option.splits)
      then show ?case using Suc.IH [of y] assms by (auto simp: walk_inv_def)
    qed
  qed
qed

lemma Subtree_shape:
  assumes sh: "shape qs dep (nodes t)" and n: "n \<in> QName ` set qs"
  shows "set (Subtree t n) = descendants qs n" "distinct (Subtree t n)" "parentsFirst qs n (Subtree t n)"
proof -
  have "n \<in> descendants qs n" using n by (simp add: descendants_def exI [of _ 0])
  then have "walk_inv qs n [n] []" by (auto simp: walk_inv_def parentsFirst_def)
  from walk_inv_end [OF sh this] have inv: "walk_inv qs n [] (walk t [n] [])" .
  moreover have "Subtree t n = walk t [n] []"
    using n shape_lookup [OF sh, of n] by (auto simp: Subtree_def nodeAt_def quotaOf_Some)
  ultimately show "set (Subtree t n) = descendants qs n" "distinct (Subtree t n)" "parentsFirst qs n (Subtree t n)"
    using walk_inv_done [OF inv] by (simp_all add: walk_inv_def)
qed

lemma Build_shape:
  assumes "Build Q qs opts = Inr (t, vs)"
  obtains dep where "shape qs dep (nodes t)" "\<And>n d. dep n = Some d \<longleftrightarrow> placed qs (RootName opts) n d"
proof -
  have "RootName opts \<noteq> []" using assms by (auto simp: Build_def)
  from Build_parts [OF this, where Q = Q and qs = qs] that assms show ?thesis
    by (metis Pair_inject sum.inject(2))
qed

text \<open>
  \<open>Subtree\<close> of a node of the tree lists exactly the node and its descendants, each once, and
  every parent before its children, which is the order a materializer creates in.
\<close>

lemma Subtree_descendants:
  assumes "Build Q qs opts = Inr (t, vs)" and "n \<in> QName ` set qs"
  shows "set (Subtree t n) = descendants qs n \<and> distinct (Subtree t n) \<and> parentsFirst qs n (Subtree t n)"
proof -
  from assms(1) obtain dep where "shape qs dep (nodes t)" by (rule Build_shape)
  then show ?thesis using Subtree_shape [OF _ assms(2)] by blast
qed

subsection \<open>Positions\<close>

text \<open>
  In the tree \<open>Build\<close> returns, the depth of a node is the number of steps from it up to the
  reserved root, and every node without a position carries a violation of its own, so no such node
  materializes.
\<close>

lemma Build_positions:
  assumes b: "Build Q qs opts = Inr (t, vs)" and n: "lookup t n = Some nd"
  shows "(\<forall>d. Depth nd = Some d \<longleftrightarrow> placed qs (RootName opts) n d) \<and> (Depth nd = None \<longrightarrow> n \<in> Node ` set vs)"
proof -
  have rt: "RootName opts \<noteq> []" using b by (auto simp: Build_def)
  obtain t' t1 dep found where b': "Build Q qs opts = Inr (t', sorted_violations (found @ checkUnreachable t' found
        @ checkDepth t' (MaxDepth opts) @ checkNodeKind t' @ checkContainment Q t'))"
    and "found = snd (addQuotas qs [] []) @ (linkFaults qs @ reportCycles t1) @ rootFaults qs (RootName opts)"
    and "shape qs (\<lambda>_. None) (nodes t1)" and sh: "shape qs dep (nodes t')"
    and dep: "\<And>n d. dep n = Some d \<longleftrightarrow> placed qs (RootName opts) n d"
    and "Root t' = (if hasRoot qs (RootName opts) then Some (RootName opts) else None)"
    by (rule Build_parts [OF rt, where Q = Q and qs = qs]) (rule that)
  have t: "t' = t" and vs: "set vs = set (found @ checkUnreachable t found
        @ checkDepth t (MaxDepth opts) @ checkNodeKind t @ checkContainment Q t)"
    using b b' by auto
  have nd: "nodeAt qs dep n = Some nd" using n shape_lookup [OF sh] t by simp
  then have m: "n \<in> QName ` set qs" by (auto simp: nodeAt_def quotaOf_Some)
  note sel = nodeAt_sel [OF m, of dep, unfolded nd option.sel]
  have "n \<in> Node ` set vs" if "Depth nd = None"
  proof (cases "n \<in> Node ` set found")
    case True
    then show ?thesis by (auto simp: vs)
  next
    case False
    have "nd \<in> set (Nodes t)" using nd m sh t by (force simp: shape_Nodes)
    then have "n \<in> Name ` {m \<in> set (Nodes t). \<not> Reachable m \<and> Name m \<notin> set (violation_Nodes found)}"
      using False that sel(1) by (intro image_eqI [of _ _ nd]) (auto simp: Reachable_def)
    then have "n \<in> Node ` set (checkUnreachable t found)"
      by (simp add: checkUnreachable_def Let_def image_image del: set_violation_Nodes)
    then show ?thesis by (auto simp: vs)
  qed
  then show ?thesis using dep sel(5) by simp
qed

definition brokenFleet :: "(dec \<times> string) quota list" where
  "brokenFleet = healthyFleet @ [cohort ''lost'' (Some ''ghost'') 8, leaf ''orphan'' (Some ''lost'') 8]"

subsection \<open>Freezing\<close>

lemma map_of_ownFrozen:
  "map_of (ownFrozen vs) n = (if n \<in> set (violation_Nodes vs) then Some (Primary (For vs n)) else None)"
  unfolding ownFrozen_def by (subst map_of_fold_update) simp

lemma map_of_inheritFrozen:
  "map_of (inheritFrozen c ds m) k = (case map_of m k of Some v \<Rightarrow> Some v | None \<Rightarrow> if k \<in> set ds then Some c else None)"
  unfolding inheritFrozen_def by (induction ds arbitrary: m) (auto simp: gomap_simps split: option.split)

lemma fold_inheritFrozen:
  assumes "\<And>n. n \<in> set ns \<Longrightarrow> map_of m n = Some (f n)"
  shows "map_of (fold (\<lambda>n m. inheritFrozen (frozenCause m n) (Subtree t n) m) ns m) k =
    (case map_of m k of Some v \<Rightarrow> Some v
     | None \<Rightarrow> map_option f (find (\<lambda>n. k \<in> set (Subtree t n)) ns))"
  using assms
proof (induction ns arbitrary: m)
  case (Cons n ns)
  let ?m = "inheritFrozen (frozenCause m n) (Subtree t n) m"
  have c: "frozenCause m n = f n" using Cons.prems [of n] by (simp add: frozenCause_def)
  have "map_of ?m x = Some (f x)" if "x \<in> set ns" for x
    using Cons.prems [of x] that by (simp add: map_of_inheritFrozen)
  from Cons.IH [OF this] show ?case
    by (auto simp: map_of_inheritFrozen c split: option.split)
qed (simp split: option.split)

lemma map_of_Frozen:
  "map_of (Frozen t vs) k = (if k \<in> set (violation_Nodes vs) then Some (Primary (For vs k))
     else map_option (\<lambda>a. Primary (For vs a)) (find (\<lambda>a. k \<in> set (Subtree t a)) (violation_Nodes vs)))"
  unfolding Frozen_def
  by (subst fold_inheritFrozen [where f = "\<lambda>a. Primary (For vs a)"]) (auto simp: map_of_ownFrozen)

lemma Subtree_iff:
  assumes sh: "shape qs dep (nodes t)"
  shows "k \<in> set (Subtree t a) \<longleftrightarrow> k \<in> descendants qs a"
proof (cases "a \<in> QName ` set qs")
  case True
  then show ?thesis using Subtree_shape(1) [OF sh] by simp
next
  case False
  then have "quotaOf qs a = None" by (simp add: quotaOf_None)
  then have "Subtree t a = []" using shape_lookup [OF sh, of a] by (simp add: Subtree_def nodeAt_def)
  moreover have "k \<notin> descendants qs a" using ref.climb_in [of qs _ k a] False by (auto simp: descendants_def)
  ultimately show ?thesis by simp
qed

text \<open>
  C25: \<open>Frozen\<close> freezes a node of the tree exactly when the node or one of its ancestors carries a
  violation. A violating node reports the violation of its own that ranks first, any other frozen node
  reports that of a violating ancestor, and no descendant of a frozen node is clear.
\<close>

theorem Frozen_iff:
  assumes b: "Build Q qs opts = Inr (t, vs)" and n: "n \<in> QName ` set qs"
  shows "(map_of (Frozen t ws) n \<noteq> None \<longleftrightarrow> (\<exists>a\<in>set (violation_Nodes ws). n = a \<or> n \<in> descendants qs a))
    \<and> (n \<in> set (violation_Nodes ws) \<longrightarrow> map_of (Frozen t ws) n = Some (Primary (For ws n)))
    \<and> (\<forall>v. map_of (Frozen t ws) n = Some v \<longrightarrow> n \<notin> set (violation_Nodes ws) \<longrightarrow>
         (\<exists>a\<in>set (violation_Nodes ws). n \<in> descendants qs a \<and> v = Primary (For ws a)))
    \<and> (\<forall>c. map_of (Frozen t ws) n \<noteq> None \<longrightarrow> c \<in> descendants qs n \<longrightarrow> map_of (Frozen t ws) c \<noteq> None)"
proof -
  from b obtain dep where sh: "shape qs dep (nodes t)" by (rule Build_shape)
  have f: "map_of (Frozen t ws) k = (if k \<in> set (violation_Nodes ws) then Some (Primary (For ws k))
     else map_option (\<lambda>a. Primary (For ws a)) (find (\<lambda>a. k \<in> descendants qs a) (violation_Nodes ws)))" for k
    unfolding map_of_Frozen Subtree_iff [OF sh] ..
  have iff: "map_of (Frozen t ws) k \<noteq> None \<longleftrightarrow> (\<exists>a\<in>set (violation_Nodes ws). k = a \<or> k \<in> descendants qs a)" for k
    unfolding f by (auto simp: find_not_None simp del: set_violation_Nodes)
  have self: "n \<in> descendants qs n" using n by (simp add: descendants_def exI [of _ 0])
  have trans: "c \<in> descendants qs a" if cn: "c \<in> descendants qs n" and na: "n \<in> descendants qs a" for c a
  proof -
    obtain j k where "climb (refParent qs) j c = Some n" "climb (refParent qs) k n = Some a"
      using cn na by (auto simp: descendants_def)
    then have "climb (refParent qs) (j + k) c = Some a" by (simp add: climb_add)
    then show ?thesis using cn unfolding descendants_def by blast
  qed
  have "map_of (Frozen t ws) c \<noteq> None" if "map_of (Frozen t ws) n \<noteq> None" "c \<in> descendants qs n" for c
    using that unfolding iff using trans by blast
  moreover have "\<exists>a\<in>set (violation_Nodes ws). n \<in> descendants qs a \<and> v = Primary (For ws a)"
    if "map_of (Frozen t ws) n = Some v" "n \<notin> set (violation_Nodes ws)" for v
    using that unfolding f by (auto dest: find_SomeD simp del: set_violation_Nodes)
  ultimately show ?thesis using iff f by simp
qed

theorem Frozen_iff_witness:
  "\<exists>t vs. Build exact_api brokenFleet fleetOptions = Inr (t, vs) \<and> map_of (Frozen t vs) ''orphan'' \<noteq> None"
proof -
  have "case Build exact_api brokenFleet fleetOptions of Inl _ \<Rightarrow> False
    | Inr (t, vs) \<Rightarrow> ''orphan'' \<in> set (violation_Nodes vs)" by code_simp
  then obtain t vs where b: "Build exact_api brokenFleet fleetOptions = Inr (t, vs)"
    and o: "''orphan'' \<in> set (violation_Nodes vs)" by (auto split: sum.splits)
  have "''orphan'' \<in> QName ` set brokenFleet" by code_simp
  then show ?thesis using Frozen_iff [OF b] b o by blast
qed

text \<open>
  An inherited cause is not always the nearest ancestor's, as the comment of \<^verbatim>\<open>Frozen\<close> says: the
  violating nodes are visited in name order, and the first whose subtree holds the node wins. Below,
  both \<open>a\<close> and its child \<open>b\<close> violate, and the leaf \<open>c\<close> under \<open>b\<close> reports the cause of \<open>a\<close>.
\<close>

definition nestedFleet :: "(dec \<times> string) quota list" where
  "nestedFleet = [cohort ''root'' None 128, cohort ''a'' (Some ''root'') 8, cohort ''b'' (Some ''a'') 16, leaf ''c'' (Some ''b'') 32]"

lemma Frozen_not_nearest:
  "case Build exact_api nestedFleet fleetOptions of Inl _ \<Rightarrow> False
   | Inr (t, vs) \<Rightarrow> violation_Nodes vs = [''a'', ''b''] \<and> parentOf t ''c'' = Some ''b''
       \<and> map_of (Frozen t vs) ''c'' = Some (Primary (For vs ''a'')) \<and> Node (Primary (For vs ''a'')) = ''a''"
  by code_simp

subsection \<open>The healthy fleet\<close>

lemma healthy_leaf:
  obtains t nd where "Build exact_api healthyFleet fleetOptions = Inr (t, [])"
    "lookup t ''team-b'' = Some nd" "IsLeaf nd" "Quota nd = leaf ''team-b'' (Some ''org'') 40"
proof -
  have "case Build exact_api healthyFleet fleetOptions of Inl _ \<Rightarrow> False
    | Inr (t, vs) \<Rightarrow> vs = [] \<and> (case lookup t ''team-b'' of None \<Rightarrow> False | Some nd \<Rightarrow> IsLeaf nd \<and> Quota nd = leaf ''team-b'' (Some ''org'') 40)" by code_simp
  then show thesis using that by (auto split: sum.splits option.splits)
qed

lemma healthy_cohort:
  obtains t vs nd where "Build exact_api healthyFleet fleetOptions = Inr (t, vs)"
    "lookup t ''org'' = Some nd" "\<not> IsLeaf nd" "Quota nd = cohort ''org'' (Some ''root'') 100"
proof -
  have "case Build exact_api healthyFleet fleetOptions of Inl _ \<Rightarrow> False
    | Inr (t, vs) \<Rightarrow> (case lookup t ''org'' of None \<Rightarrow> False | Some nd \<Rightarrow> \<not> IsLeaf nd \<and> Quota nd = cohort ''org'' (Some ''root'') 100)" by code_simp
  then show thesis using that by (auto split: sum.splits option.splits)
qed

end
