(* ===== verification/Quota_Admission.thy ===== *)
theory Quota_Admission
  imports Quota_Tree_Walk
begin

section \<open>The admission webhook (pkg/webhook/admission/acceleratorquota/validator.go)\<close>

text \<open>
  \<open>Handle\<close> judges a write by the tree it would produce: it lists the live nodes, splices in the
  object under review or removes the deleted one, builds both trees, and denies the write when the
  proposed tree has a violation the live one lacks. Listing and decoding are the API machinery's; their
  results are arguments. The last part runs a sequence of requests against the store.
\<close>

subsection \<open>The handler\<close>

datatype operation = Create | Update | Delete | Connect

record request =
  Operation :: operation
  ReqName :: name

datatype ('e, 'q) response = Allowed | Denied "'q violation list" | Errored int "'e + tree_error"

definition proposedSet :: "(request \<Rightarrow> 'e + 'q quota) \<Rightarrow> request \<Rightarrow> 'q quota list \<Rightarrow> 'e + 'q quota list" where
  "proposedSet decode req live =
     (if Operation req = Delete then Inr (Without live (ReqName req))
      else case decode req of Inl e \<Rightarrow> Inl e | Inr incoming \<Rightarrow> Inr (Splice live incoming))"

definition Handle :: "'q quantity_api \<Rightarrow> options \<Rightarrow> (request \<Rightarrow> 'e + 'q quota) \<Rightarrow> 'e + 'q quota list \<Rightarrow> request \<Rightarrow> ('e, 'q) response" where
  "Handle Q opts decode listed req =
     (if Operation req \<notin> {Create, Update, Delete} then Allowed
      else case listed of
        Inl e \<Rightarrow> Errored 500 (Inl e)
      | Inr live \<Rightarrow>
          (case proposedSet decode req live of
             Inl e \<Rightarrow> Errored 400 (Inl e)
           | Inr proposed \<Rightarrow>
               (case Build Q live opts of
                  Inl e \<Rightarrow> Errored 500 (Inr e)
                | Inr (_, before) \<Rightarrow>
                    (case Build Q proposed opts of
                       Inl e \<Rightarrow> Errored 500 (Inr e)
                     | Inr (_, after) \<Rightarrow>
                         let newly = Diff after before
                         in if newly \<noteq> [] then Denied newly else Allowed))))"

subsection \<open>Proposed sets\<close>

lemma spliceFrom_eq:
  "spliceFrom xs q = (map (\<lambda>x. if QName x = QName q then q else x) xs, QName q \<in> QName ` set xs)"
  by (induction xs) (auto simp: Let_def)

lemma Splice_eq:
  "Splice xs q = (if QName q \<in> QName ` set xs then map (\<lambda>x. if QName x = QName q then q else x) xs else xs @ [q])"
proof -
  have "QName q \<notin> QName ` set xs \<Longrightarrow> map (\<lambda>x. if QName x = QName q then q else x) xs = xs"
    by (rule map_idI) (metis imageI)
  then show ?thesis by (auto simp: Splice_def spliceFrom_eq)
qed

text \<open>
  After splicing a node in, looking a name up in the set gives the new node for its name and what
  was there before for every other name; after removing a node its name is gone and every other name
  is as before. Neither makes a name occur twice.
\<close>

lemma Splice_Without_lookup:
  "quotaOf (Splice qs q) n = (if n = QName q then Some q else quotaOf qs n)
   \<and> quotaOf (Without qs k) n = (if n = k then None else quotaOf qs n)
   \<and> (distinct (map QName (Splice qs q)) \<longleftrightarrow> distinct (map QName qs))
   \<and> QName ` set (Splice qs q) = insert (QName q) (QName ` set qs)
   \<and> QName ` set (Without qs k) = QName ` set qs - {k}"
proof -
  let ?r = "\<lambda>x. if QName x = QName q then q else x"
  have names: "map QName (map ?r xs) = map QName xs" for xs by (induction xs) auto
  have rep: "quotaOf (map ?r xs) m = (if m = QName q \<and> QName q \<in> QName ` set xs then Some q else quotaOf xs m)" for xs m
    by (induction xs) (auto simp: quotaOf_def)
  have app: "quotaOf (xs @ [q]) m = (case quotaOf xs m of Some x \<Rightarrow> Some x | None \<Rightarrow> if m = QName q then Some q else None)" for xs m
    by (induction xs) (auto simp: quotaOf_def)
  have "quotaOf (Splice qs q) n = (if n = QName q then Some q else quotaOf qs n)"
    using quotaOf_None [of qs "QName q"] by (simp add: Splice_eq rep app split: option.split) auto
  moreover have "quotaOf (Without qs k) n = (if n = k then None else quotaOf qs n)"
    by (induction qs) (auto simp: quotaOf_def Without_def)
  moreover have "distinct (map QName (Splice qs q)) \<longleftrightarrow> distinct (map QName qs)"
    by (cases "QName q \<in> QName ` set qs") (simp_all add: Splice_eq names del: map_map)
  moreover have "QName ` set (Splice qs q) = insert (QName q) (QName ` set qs)"
    by (auto simp: Splice_eq)
  moreover have "QName ` set (Without qs k) = QName ` set qs - {k}"
    by (auto simp: Without_def)
  ultimately show ?thesis by blast
qed

subsection \<open>Verdicts\<close>

lemma Handle_Allowed:
  assumes "Operation req \<in> {Create, Update, Delete}" "proposedSet decode req live = Inr proposed"
    and "Build Q live opts = Inr (t, before)" "Build Q proposed opts = Inr (t', after)"
  shows "Handle Q opts decode (Inr live) req = (if Key ` set after \<subseteq> Key ` set before then Allowed else Denied (Diff after before))"
  using assms Diff_Nil_iff [of after before] by (auto simp: Handle_def Let_def)

text \<open>
  A write is judged by what it adds. It is allowed exactly when every violation of the proposed
  tree, identified by node, reason and subject, is already one of the live tree, and otherwise denied
  with the list of the new ones. So a write that only removes violations is always admitted.
\<close>

lemma Handle_judges_additions:
  assumes "RootName opts \<noteq> []" and "Operation req \<in> {Create, Update, Delete}"
    and "proposedSet decode req live = Inr proposed"
  shows "\<exists>t before t' after. Build Q live opts = Inr (t, before) \<and> Build Q proposed opts = Inr (t', after)
    \<and> Handle Q opts decode (Inr live) req = (if Key ` set after \<subseteq> Key ` set before then Allowed else Denied (Diff after before))
    \<and> set (Diff after before) = {v \<in> set after. Key v \<notin> Key ` set before}"
proof -
  have "\<exists>t vs. Build Q qs opts = Inr (t, vs)" for qs
    using assms(1) by (simp add: Build_def Let_def split: prod.splits)
  then obtain t before t' after where b: "Build Q live opts = Inr (t, before)" "Build Q proposed opts = Inr (t', after)"
    by meson
  have "set (Diff after before) = {v \<in> set after. Key v \<notin> Key ` set before}" by (simp add: Diff_def)
  then show ?thesis using b Handle_Allowed [OF assms(2,3) b] by blast
qed

definition overrunFleet :: "(dec \<times> string) quota list" where
  "overrunFleet = [cohort ''root'' None 128, cohort ''org'' (Some ''root'') 10, leaf ''bad'' (Some ''org'') 99]"

definition writeBad :: request where "writeBad = \<lparr>Operation = Update, ReqName = ''bad''\<rparr>"

text \<open>Shrinking an overrun that exists already is admitted.\<close>

text \<open>
  The comparison by key does not see the size of an overrun: growing one that exists already is
  admitted too, although the write makes the tree worse.
\<close>

lemma Handle_admits_worse_overrun:
  "Handle exact_api fleetOptions (\<lambda>_. Inr (leaf ''bad'' (Some ''org'') 120) :: unit + _) (Inr overrunFleet) writeBad = Allowed"
  by code_simp

subsection \<open>Serial admission\<close>

inductive admission_step :: "'q quantity_api \<Rightarrow> options \<Rightarrow> (request \<Rightarrow> 'e + 'q quota) \<Rightarrow> 'q quota list \<Rightarrow> request \<Rightarrow> 'q quota list \<Rightarrow> bool"
  for Q opts decode where
  admitted: "Operation req \<in> {Create, Update, Delete} \<Longrightarrow> Handle Q opts decode (Inr live) req = Allowed \<Longrightarrow>
     proposedSet decode req live = Inr live' \<Longrightarrow> admission_step Q opts decode live req live'"
| untouched: "Operation req = Connect \<or> Handle Q opts decode (Inr live) req \<noteq> Allowed \<Longrightarrow> admission_step Q opts decode live req live"

inductive admission_run :: "'q quantity_api \<Rightarrow> options \<Rightarrow> (request \<Rightarrow> 'e + 'q quota) \<Rightarrow> 'q quota list \<Rightarrow> request list \<Rightarrow> 'q quota list \<Rightarrow> bool"
  for Q opts decode where
  run_nil: "admission_run Q opts decode live [] live"
| run_cons: "admission_step Q opts decode live req live1 \<Longrightarrow> admission_run Q opts decode live1 reqs live2 \<Longrightarrow>
     admission_run Q opts decode live (req # reqs) live2"

inductive_cases admission_run_NilE [elim!]: "admission_run Q opts decode live [] live'"
inductive_cases admission_run_ConsE [elim]: "admission_run Q opts decode live (req # reqs) live'"

lemma Build_violations:
  assumes "quantity Q" "Build Q qs opts = Inr (t, vs)"
  shows "vs = [] \<longleftrightarrow> sound_set Q (RootName opts) (MaxDepth opts) qs"
proof -
  have "RootName opts \<noteq> []" using assms(2) by (auto simp: Build_def)
  from Build_decides [OF assms(1) this, of qs] show ?thesis using assms(2) by auto
qed

lemma admission_step_sound:
  assumes q: "quantity Q" and st: "admission_step Q opts decode live req live'"
    and s: "sound_set Q (RootName opts) (MaxDepth opts) live"
  shows "sound_set Q (RootName opts) (MaxDepth opts) live'"
  using st
proof (cases rule: admission_step.cases)
  case admitted
  from admitted(1,2,3) obtain t before t' after where b: "Build Q live opts = Inr (t, before)" "Build Q live' opts = Inr (t', after)"
    by (fastforce simp: Handle_def split: sum.splits prod.splits if_splits)
  have "before = []" using Build_violations [OF q b(1)] s by simp
  then have "after = []" using Handle_Allowed [OF admitted(1,3) b] admitted(2) by (auto split: if_splits)
  then show ?thesis using Build_violations [OF q b(2)] by simp
qed (use s in simp)

text \<open>
  C5: Requests that are admitted one after the other keep the tree sound: from a sound set of nodes,
  every run of the webhook over any sequence of creations, updates, deletions and other requests ends
  in a sound set.
\<close>

theorem admission_keeps_sound:
  assumes "quantity Q" and "admission_run Q opts decode live reqs live'"
    and "sound_set Q (RootName opts) (MaxDepth opts) live"
  shows "sound_set Q (RootName opts) (MaxDepth opts) live'"
  using assms(2,3) by (induction rule: admission_run.induct) (auto intro: admission_step_sound [OF assms(1)])

theorem admission_keeps_sound_witness:
  "sound_set exact_api ''root'' 5 (Splice healthyFleet (leaf ''team-b'' (Some ''org'') 20))"
proof -
  let ?d = "\<lambda>_. Inr (leaf ''team-b'' (Some ''org'') 20) :: unit + _"
  let ?r = "\<lparr>Operation = Update, ReqName = ''team-b''\<rparr>"
  have e: "(case Build exact_api healthyFleet fleetOptions of Inl _ \<Rightarrow> False | Inr (t, vs) \<Rightarrow> vs = [])" by code_simp
  then obtain t where "Build exact_api healthyFleet fleetOptions = Inr (t, [])" by (auto split: sum.splits prod.splits)
  then have s: "sound_set exact_api (RootName fleetOptions) (MaxDepth fleetOptions) healthyFleet"
    using Build_violations [OF exact.quantity_axioms] by blast
  have "Handle exact_api fleetOptions ?d (Inr healthyFleet) ?r = Allowed" by code_simp
  then have "admission_step exact_api fleetOptions ?d healthyFleet ?r (Splice healthyFleet (leaf ''team-b'' (Some ''org'') 20))"
    by (intro admission_step.admitted) (simp_all add: proposedSet_def)
  then have "admission_run exact_api fleetOptions ?d healthyFleet [?r] (Splice healthyFleet (leaf ''team-b'' (Some ''org'') 20))"
    by (rule admission_run.run_cons) (rule admission_run.run_nil)
  from admission_keeps_sound [OF exact.quantity_axioms this s] show ?thesis by (simp add: fleetOptions_def)
qed

end
