(* ===== verification/Quota_Capacity.thy ===== *)
theory Quota_Capacity
  imports Quantity
begin

section \<open>Summing the hardware of a cluster (pkg/quota/capacity/capacity.go)\<close>

text \<open>
  \<open>Sum\<close> totals the accelerators of a list of nodes per (resource, flavor) pair. A node belongs to
  the flavor whose labels it matches most specifically; a node with no flavor, or with two that
  are equally specific, is reported as unattributed.

  The totals are a Go map from the pair to a \<^verbatim>\<open>*Capacity\<close>; writing through the pointer is
  \<open>map_at\<close> on the map. The totals are sorted by their pair and the pairs are different, so the
  order the map is iterated in does not matter. \<^verbatim>\<open>Quantity.IsZero\<close> is \<^verbatim>\<open>Sign() == 0\<close>,
  and \<^verbatim>\<open>DeepCopy\<close> is the identity on values.
\<close>

subsection \<open>Data\<close>

record 'q cluster_node =
  n_Name :: name
  n_Labels :: "(string, string) gomap"
  n_Unschedulable :: bool
  n_Conditions :: "(string \<times> string) list"
  n_Allocatable :: "(string, 'q) gomap"

record flavor =
  f_Name :: name
  f_UID :: string
  f_NodeLabels :: "(string, string) gomap"

record 'q capacity =
  c_ResourceName :: string
  c_ResourceFlavor :: string
  c_Allocatable :: 'q
  c_Unavailable :: 'q
  c_Nodes :: int
  c_UnavailableNodes :: int

record 'q unattributed =
  u_Node :: name
  u_ResourceName :: string
  u_Quantity :: 'q
  u_Reason :: string

record 'q capacity_result =
  r_Capacities :: "'q capacity list"
  r_Unattributed :: "'q unattributed list"

datatype capacity_error = UnnamedFlavor | DuplicateFlavor name

abbreviation ReasonNoFlavor :: string where "ReasonNoFlavor \<equiv> ''NoMatchingFlavor''"
abbreviation ReasonAmbiguous :: string where "ReasonAmbiguous \<equiv> ''AmbiguousFlavor''"

type_synonym 'q chip = "string \<times> 'q"

subsection \<open>Operations\<close>

fun checkFlavors :: "name list \<Rightarrow> flavor list \<Rightarrow> capacity_error option" where
  "checkFlavors seen [] = None"
| "checkFlavors seen (f # fs) =
     (if f_Name f = [] then Some UnnamedFlavor
      else if f_Name f \<in> set seen then Some (DuplicateFlavor (f_Name f))
      else checkFlavors (f_Name f # seen) fs)"

definition validateFlavors :: "flavor list \<Rightarrow> capacity_error option" where
  "validateFlavors fs = checkFlavors [] fs"

text \<open>\<^verbatim>\<open>node.Labels[k]\<close> is the empty string for a label the node does not carry.\<close>

definition labelOf :: "'q cluster_node \<Rightarrow> string \<Rightarrow> string" where
  "labelOf n k = (case map_of (n_Labels n) k of None \<Rightarrow> [] | Some v \<Rightarrow> v)"

definition matchesLabels :: "'q cluster_node \<Rightarrow> (string, string) gomap \<Rightarrow> bool" where
  "matchesLabels n want \<longleftrightarrow> (\<forall>(k, v) \<in> set want. labelOf n k = v)"

fun matchLoop :: "'q cluster_node \<Rightarrow> flavor list \<Rightarrow> name \<times> int \<times> bool \<Rightarrow> name \<times> int \<times> bool" where
  "matchLoop n [] st = st"
| "matchLoop n (f # fs) (best, bestLabels, tied) =
     (if \<not> matchesLabels n (f_NodeLabels f) then matchLoop n fs (best, bestLabels, tied)
      else (let k = int (length (f_NodeLabels f))
            in if k > bestLabels then matchLoop n fs (f_Name f, k, False)
               else if k = bestLabels then matchLoop n fs (best, bestLabels, True)
               else matchLoop n fs (best, bestLabels, tied)))"

definition match :: "'q cluster_node \<Rightarrow> flavor list \<Rightarrow> name \<times> string" where
  "match n fs =
     (case matchLoop n fs ([], - 1, False) of (best, bestLabels, tied) \<Rightarrow>
        if best = [] then ([], ReasonNoFlavor)
        else if tied then ([], ReasonAmbiguous)
        else (best, []))"

definition available :: "'q cluster_node \<Rightarrow> bool" where
  "available n =
     (if n_Unschedulable n then False
      else (case find (\<lambda>(ty, st). ty = ''Ready'') (n_Conditions n) of
              None \<Rightarrow> False
            | Some (ty, st) \<Rightarrow> st = ''True''))"

definition acceleratorsOf :: "'q quantity_api \<Rightarrow> 'q cluster_node \<Rightarrow> string list \<Rightarrow> 'q chip list" where
  "acceleratorsOf Q n wanted =
     sort_key fst (filter (\<lambda>(r, q). q_sign Q q \<noteq> 0 \<and> r \<in> set wanted) (n_Allocatable n))"

definition zero_capacity :: "'q quantity_api \<Rightarrow> string \<Rightarrow> string \<Rightarrow> 'q capacity" where
  "zero_capacity Q r fl = \<lparr>c_ResourceName = r, c_ResourceFlavor = fl, c_Allocatable = q_zero Q,
     c_Unavailable = q_zero Q, c_Nodes = 0, c_UnavailableNodes = 0\<rparr>"

definition addChip :: "'q quantity_api \<Rightarrow> bool \<Rightarrow> 'q \<Rightarrow> 'q capacity \<Rightarrow> 'q capacity" where
  "addChip Q usable q t =
     (if usable then t\<lparr>c_Allocatable := q_add Q (c_Allocatable t) q, c_Nodes := c_Nodes t + 1\<rparr>
      else t\<lparr>c_Unavailable := q_add Q (c_Unavailable t) q, c_UnavailableNodes := c_UnavailableNodes t + 1\<rparr>)"

type_synonym 'q totals = "(string \<times> string, 'q capacity) gomap"

fun addNode :: "'q quantity_api \<Rightarrow> 'q chip list \<Rightarrow> string \<Rightarrow> bool \<Rightarrow> 'q totals \<Rightarrow> 'q totals" where
  "addNode Q [] fl usable m = m"
| "addNode Q ((r, q) # chips) fl usable m =
     (let t = (case map_of m (r, fl) of None \<Rightarrow> zero_capacity Q r fl | Some t \<Rightarrow> t)
      in addNode Q chips fl usable (AList.update (r, fl) (addChip Q usable q t) m))"

definition unattributedChips :: "name \<Rightarrow> 'q chip list \<Rightarrow> string \<Rightarrow> 'q unattributed list" where
  "unattributedChips n chips reason =
     map (\<lambda>(r, q). \<lparr>u_Node = n, u_ResourceName = r, u_Quantity = q, u_Reason = reason\<rparr>) chips"

definition sortedResult :: "'q totals \<Rightarrow> 'q unattributed list \<Rightarrow> 'q capacity_result" where
  "sortedResult m un =
     \<lparr>r_Capacities = sort_key (\<lambda>c. (c_ResourceName c, c_ResourceFlavor c)) (map snd m),
      r_Unattributed = sort_key (\<lambda>u. (u_Node u, u_ResourceName u)) un\<rparr>"

definition sumNode :: "'q quantity_api \<Rightarrow> string list \<Rightarrow> flavor list \<Rightarrow> 'q cluster_node
    \<Rightarrow> 'q totals \<times> 'q unattributed list \<Rightarrow> 'q totals \<times> 'q unattributed list" where
  "sumNode Q wanted fs n st =
     (case st of (m, un) \<Rightarrow>
        let chips = acceleratorsOf Q n wanted
        in if chips = [] then (m, un)
           else (case match n fs of (fl, reason) \<Rightarrow>
                   if fl = [] then (m, un @ unattributedChips (n_Name n) chips reason)
                   else (addNode Q chips fl (available n) m, un)))"

definition Sum :: "'q quantity_api \<Rightarrow> 'q cluster_node list \<Rightarrow> flavor list \<Rightarrow> string list \<Rightarrow> capacity_error + 'q capacity_result" where
  "Sum Q ns fs wanted =
     (if wanted = [] then Inr \<lparr>r_Capacities = [], r_Unattributed = []\<rparr>
      else case validateFlavors fs of
        Some e \<Rightarrow> Inl e
      | None \<Rightarrow> (case fold (sumNode Q wanted fs) ns ([], []) of (m, un) \<Rightarrow> Inr (sortedResult m un)))"

text \<open>
  \<^verbatim>\<open>capacity/fingerprint.go\<close> identifies the configured mapping by the hex SHA-256 digest of its JSON,
  both of which are the parameter \<open>digest\<close>. An absent and an empty label map are the same
  association list, so the loop that replaces the one by the other is the identity here.
\<close>

definition MappingFingerprint :: "(string list \<Rightarrow> flavor list \<Rightarrow> string) \<Rightarrow> string list \<Rightarrow> flavor list \<Rightarrow> string" where
  "MappingFingerprint digest resources flavors =
     digest (remdups_adj (sort resources)) (sort_key f_Name flavors)"

subsection \<open>Which flavor owns a node\<close>

text \<open>The contract of \<open>match\<close>: the flavor that matches and has more labels than every other match.\<close>

definition owns :: "flavor list \<Rightarrow> 'q cluster_node \<Rightarrow> flavor \<Rightarrow> bool" where
  "owns fs n f \<longleftrightarrow> f \<in> set fs \<and> matchesLabels n (f_NodeLabels f)
     \<and> (\<forall>g\<in>set fs. g \<noteq> f \<and> matchesLabels n (f_NodeLabels g) \<longrightarrow> length (f_NodeLabels g) < length (f_NodeLabels f))"

abbreviation matches :: "'q cluster_node \<Rightarrow> flavor \<Rightarrow> bool" where
  "matches n f \<equiv> matchesLabels n (f_NodeLabels f)"

lemma checkFlavors_None:
  "checkFlavors seen fs = None \<longleftrightarrow> distinct (map f_Name fs) \<and> [] \<notin> f_Name ` set fs \<and> f_Name ` set fs \<inter> set seen = {}"
  by (induction fs arbitrary: seen) auto

lemma validateFlavors_None: "validateFlavors fs = None \<longleftrightarrow> distinct (map f_Name fs) \<and> [] \<notin> f_Name ` set fs"
  by (simp add: validateFlavors_def checkFlavors_None)

lemma sorted_distinct_adj: "sorted xs \<Longrightarrow> distinct_adj xs \<Longrightarrow> distinct xs"
proof (induction xs)
  case (Cons x xs)
  then show ?case by (cases xs) (auto simp: distinct_adj_Cons)
qed simp

text \<open>The fingerprint depends on the resources and on the flavors as sets.\<close>

lemma MappingFingerprint_order:
  assumes "set rs = set rs'" "validateFlavors fs = None" "validateFlavors fs' = None" "set fs = set fs'"
  shows "MappingFingerprint digest rs fs = MappingFingerprint digest rs' fs'"
proof -
  have "remdups_adj (sort rs) = remdups_adj (sort rs')"
    using assms(1) by (intro sorted_distinct_set_unique) (simp_all add: sorted_distinct_adj)
  moreover have "sort_key f_Name fs = sort_key f_Name fs'"
    using assms(2-4) by (intro sort_key_set_unique) (simp_all add: validateFlavors_None distinct_map)
  ultimately show ?thesis by (simp add: MappingFingerprint_def)
qed

lemma owns_unique: "owns fs n f \<Longrightarrow> owns fs n g \<Longrightarrow> f = g"
  unfolding owns_def by (metis less_asym)

text \<open>
  The state of the loop after the flavors \<open>ds\<close>: nothing has matched yet, or the best is a longest
  match and \<open>tied\<close> says whether another flavor is as long.
\<close>

definition longest :: "'q cluster_node \<Rightarrow> flavor list \<Rightarrow> flavor \<Rightarrow> bool" where
  "longest n ds f \<longleftrightarrow> f \<in> set ds \<and> matches n f
     \<and> (\<forall>g\<in>set ds. matches n g \<longrightarrow> length (f_NodeLabels g) \<le> length (f_NodeLabels f))"

definition rivals :: "'q cluster_node \<Rightarrow> flavor list \<Rightarrow> flavor \<Rightarrow> bool" where
  "rivals n ds f \<longleftrightarrow> (\<exists>g\<in>set ds. g \<noteq> f \<and> matches n g \<and> length (f_NodeLabels g) = length (f_NodeLabels f))"

definition match_inv :: "'q cluster_node \<Rightarrow> flavor list \<Rightarrow> name \<times> int \<times> bool \<Rightarrow> bool" where
  "match_inv n ds st \<longleftrightarrow>
     (\<forall>f\<in>set ds. \<not> matches n f) \<and> st = ([], - 1, False)
     \<or> (\<exists>f. longest n ds f \<and> st = (f_Name f, int (length (f_NodeLabels f)), rivals n ds f))"

lemma match_inv_skip: "match_inv n ds st \<Longrightarrow> \<not> matches n f \<Longrightarrow> match_inv n (ds @ [f]) st"
  unfolding match_inv_def longest_def rivals_def by auto

lemma match_inv_longer:
  assumes "match_inv n ds (b, k, t)" "matches n f" "f \<notin> set ds" "int (length (f_NodeLabels f)) > k"
  shows "match_inv n (ds @ [f]) (f_Name f, int (length (f_NodeLabels f)), False)"
proof -
  have "length (f_NodeLabels g) < length (f_NodeLabels f)" if "g \<in> set ds" "matches n g" for g
    using assms(1,4) that unfolding match_inv_def longest_def by force
  note shorter = this
  have "longest n (ds @ [f]) f" using assms(2) shorter by (auto simp: longest_def less_imp_le)
  moreover have "\<not> rivals n (ds @ [f]) f" using shorter by (fastforce simp: rivals_def)
  ultimately show ?thesis unfolding match_inv_def by blast
qed

lemma match_inv_within:
  assumes "match_inv n ds (b, k, t)" "matches n f" "f \<notin> set ds" "int (length (f_NodeLabels f)) \<le> k"
  shows "match_inv n (ds @ [f]) (b, k, t \<or> int (length (f_NodeLabels f)) = k)"
proof -
  obtain h where h: "longest n ds h" "b = f_Name h" "k = int (length (f_NodeLabels h))" "t = rivals n ds h"
    using assms(1,4) unfolding match_inv_def by auto
  then have "longest n (ds @ [f]) h" using assms(4) by (auto simp: longest_def)
  moreover have "f \<noteq> h" using h(1) assms(3) by (auto simp: longest_def)
  then have "rivals n (ds @ [f]) h \<longleftrightarrow> t \<or> int (length (f_NodeLabels f)) = k"
    using h(3,4) assms(2) by (auto simp: rivals_def)
  ultimately show ?thesis using h(2,3) unfolding match_inv_def by auto
qed

lemma matchLoop_inv:
  "match_inv n ds st \<Longrightarrow> distinct (ds @ fs) \<Longrightarrow> match_inv n (ds @ fs) (matchLoop n fs st)"
proof (induction fs arbitrary: ds st)
  case (Cons f fs)
  obtain b k t where st: "st = (b, k, t)" by (cases st)
  have f: "f \<notin> set ds" and d: "distinct ((ds @ [f]) @ fs)" using Cons.prems(2) by auto
  note inv = Cons.prems(1) [unfolded st]
  note IH = Cons.IH [OF _ d, unfolded append_assoc append_Cons append_Nil]
  consider "\<not> matches n f" | "matches n f" "int (length (f_NodeLabels f)) > k"
    | "matches n f" "int (length (f_NodeLabels f)) \<le> k" by linarith
  then show ?case
  proof cases
    case 1
    then show ?thesis using IH [OF match_inv_skip [OF inv 1]] st by simp
  next
    case 2
    then show ?thesis using IH [OF match_inv_longer [OF inv 2(1) f 2(2)]] st by simp
  next
    case 3
    then show ?thesis using IH [OF match_inv_within [OF inv 3(1) f 3(2)]] st by (auto simp: Let_def)
  qed
qed simp

lemma match_cases:
  assumes "validateFlavors fs = None"
  obtains f where "owns fs n f" "match n fs = (f_Name f, [])" "f_Name f \<noteq> []"
    | reason where "\<not> (\<exists>f. owns fs n f)" "match n fs = ([], reason)" "reason \<noteq> []"
proof -
  have v: "distinct fs" "inj_on f_Name (set fs)" "[] \<notin> f_Name ` set fs"
    using assms by (auto simp: validateFlavors_None distinct_map)
  have "match_inv n [] ([], - 1, False)" by (simp add: match_inv_def)
  from matchLoop_inv [OF this, of fs] v(1) have inv: "match_inv n fs (matchLoop n fs ([], - 1, False))" by simp
  then consider "\<forall>f\<in>set fs. \<not> matches n f" "matchLoop n fs ([], - 1, False) = ([], - 1, False)"
    | f where "longest n fs f" "matchLoop n fs ([], - 1, False) = (f_Name f, int (length (f_NodeLabels f)), rivals n fs f)"
    unfolding match_inv_def by blast
  then show thesis
  proof cases
    case 1
    then show ?thesis using that(2) [of ReasonNoFlavor] by (auto simp: match_def owns_def)
  next
    case 2
    then have f: "f \<in> set fs" "f_Name f \<noteq> []" using v(3) by (auto simp: longest_def image_iff)
    show ?thesis
    proof (cases "rivals n fs f")
      case True
      have "\<not> owns fs n g" for g
        using True 2(1) unfolding longest_def rivals_def owns_def by (metis leD less_irrefl)
      then show ?thesis using that(2) [of ReasonAmbiguous] 2(2) True f by (auto simp: match_def)
    next
      case False
      have "owns fs n f" using False 2(1) unfolding longest_def rivals_def owns_def by (metis le_neq_implies_less)
      then show ?thesis using that(1) 2(2) False f by (auto simp: match_def)
    qed
  qed
qed

lemma match_owner:
  assumes v: "validateFlavors fs = None" and f: "f \<in> set fs"
  shows "fst (match n fs) = f_Name f \<longleftrightarrow> owns fs n f"
proof -
  have inj: "inj_on f_Name (set fs)" using v by (simp add: validateFlavors_None distinct_map)
  have ne: "f_Name f \<noteq> []" using v f by (metis validateFlavors_None image_eqI)
  show ?thesis
  proof (rule match_cases [OF v, of n])
    fix g assume g: "owns fs n g" "match n fs = (f_Name g, [])"
    then have "g \<in> set fs" by (simp add: owns_def)
    then have "f_Name g = f_Name f \<longleftrightarrow> g = f" using inj f by (auto dest: inj_onD)
    then show ?thesis using g owns_unique [OF g(1), of f] by auto
  next
    fix reason assume "\<not> (\<exists>f. owns fs n f)" "match n fs = ([], reason)"
    then show ?thesis using ne by auto
  qed
qed

lemma match_orphan: "validateFlavors fs = None \<Longrightarrow> fst (match n fs) = [] \<longleftrightarrow> \<not> (\<exists>f. owns fs n f)"
  by (rule match_cases [of fs n]) auto

subsection \<open>The chips of a node\<close>

definition chipOf :: "'q quantity_api \<Rightarrow> string list \<Rightarrow> string \<Rightarrow> 'q cluster_node \<Rightarrow> rat" where
  "chipOf Q wanted r n =
     (case map_of (n_Allocatable n) r of None \<Rightarrow> 0 | Some q \<Rightarrow> if r \<in> set wanted then qval Q q else 0)"

definition chipsNamed :: "string \<Rightarrow> 'q chip list \<Rightarrow> 'q chip list" where
  "chipsNamed r chips = filter (\<lambda>c. fst c = r) chips"

definition chips_val :: "'q quantity_api \<Rightarrow> string \<Rightarrow> 'q chip list \<Rightarrow> rat" where
  "chips_val Q r chips = (\<Sum>c\<leftarrow>chipsNamed r chips. qval Q (snd c))"

lemma chipsNamed_gomap:
  "gomap_ok m \<Longrightarrow> chipsNamed r m = (case map_of m r of None \<Rightarrow> [] | Some q \<Rightarrow> [(r, q)])"
proof (induction m)
  case (Cons e m)
  have "fst e = r \<Longrightarrow> filter (\<lambda>c. fst c = r) m = []" using Cons.prems by (auto simp: filter_empty_conv image_iff)
  then show ?case using Cons by (cases e) (auto simp: chipsNamed_def)
qed (simp add: chipsNamed_def)

lemma chipsNamed_acceleratorsOf:
  assumes "gomap_ok (n_Allocatable n)"
  shows "chipsNamed r (acceleratorsOf Q n wanted) =
    (case map_of (n_Allocatable n) r of None \<Rightarrow> []
     | Some q \<Rightarrow> if q_sign Q q \<noteq> 0 \<and> r \<in> set wanted then [(r, q)] else [])"
proof -
  have "chipsNamed r (acceleratorsOf Q n wanted)
      = sort_key fst (filter (\<lambda>(r, q). q_sign Q q \<noteq> 0 \<and> r \<in> set wanted) (chipsNamed r (n_Allocatable n)))"
    by (simp add: chipsNamed_def acceleratorsOf_def filter_sort conj_commute)
  then show ?thesis by (simp add: chipsNamed_gomap [OF assms] split: option.split)
qed

subsection \<open>Totals\<close>

definition totalAt :: "'q quantity_api \<Rightarrow> 'q totals \<Rightarrow> string \<times> string \<Rightarrow> 'q capacity" where
  "totalAt Q m k = (case map_of m k of None \<Rightarrow> zero_capacity Q (fst k) (snd k) | Some t \<Rightarrow> t)"

definition totals_ok :: "'q totals \<Rightarrow> bool" where
  "totals_ok m \<longleftrightarrow> gomap_ok m \<and> (\<forall>k c. map_of m k = Some c \<longrightarrow> k = (c_ResourceName c, c_ResourceFlavor c))"

definition installed_val :: "'q quantity_api \<Rightarrow> 'q capacity \<Rightarrow> rat" where
  "installed_val Q c = qval Q (c_Allocatable c) + qval Q (c_Unavailable c)"

definition resource_val :: "'q quantity_api \<Rightarrow> string \<Rightarrow> 'q capacity list \<Rightarrow> rat" where
  "resource_val Q r cs = (\<Sum>c\<leftarrow>filter (\<lambda>c. c_ResourceName c = r) cs. installed_val Q c)"

lemma addNode_Cons:
  "addNode Q ((r, q) # chips) fl usable m
   = addNode Q chips fl usable (AList.update (r, fl) (addChip Q usable q (totalAt Q m (r, fl))) m)"
  by (simp add: totalAt_def Let_def cong: option.case_cong)

declare addNode.simps(2) [simp del]

lemma totalAt_update: "totalAt Q (AList.update k c m) k' = (if k' = k then c else totalAt Q m k')"
  by (simp add: totalAt_def gomap_simps)

lemma totals_ok_totalAt: "totals_ok m \<Longrightarrow> c_ResourceName (totalAt Q m k) = fst k \<and> c_ResourceFlavor (totalAt Q m k) = snd k"
  by (cases "map_of m k"; cases k) (force simp: totals_ok_def totalAt_def zero_capacity_def)+

lemma addChip_key [simp]:
  "c_ResourceName (addChip Q usable q t) = c_ResourceName t" "c_ResourceFlavor (addChip Q usable q t) = c_ResourceFlavor t"
  by (simp_all add: addChip_def)

lemma totals_ok_addChip:
  "totals_ok m \<Longrightarrow> totals_ok (AList.update k (addChip Q usable q (totalAt Q m k)) m)"
  using totals_ok_totalAt [of m Q k] by (auto simp: totals_ok_def gomap_simps)

lemma addNode_ok: "totals_ok m \<Longrightarrow> totals_ok (addNode Q chips fl usable m)"
  by (induction chips arbitrary: m) (auto simp: addNode_Cons totals_ok_addChip)

lemma resource_val_if: "resource_val Q r cs = (\<Sum>c\<leftarrow>cs. if c_ResourceName c = r then installed_val Q c else 0)"
  by (simp add: resource_val_def sum_list_map_filter')

context quantity
begin

lemma installed_addChip: "installed_val Q (addChip Q usable q t) = installed_val Q t + qval Q q"
  by (simp add: installed_val_def addChip_def add_val)

lemma installed_zero: "installed_val Q (zero_capacity Q r fl) = 0"
  by (simp add: installed_val_def zero_capacity_def zero_val)

lemma chips_val_acceleratorsOf:
  assumes "gomap_ok (n_Allocatable n)"
  shows "chips_val Q r (acceleratorsOf Q n wanted) = chipOf Q wanted r n"
    and "length (chipsNamed r (acceleratorsOf Q n wanted)) = (if chipOf Q wanted r n = 0 then 0 else 1)"
  by (auto simp: chips_val_def chipOf_def chipsNamed_acceleratorsOf [OF assms] sign_val split: option.split)

lemma addNode_figures:
  "qval Q (c_Allocatable (totalAt Q (addNode Q chips fl usable m) (r, g)))
     = qval Q (c_Allocatable (totalAt Q m (r, g))) + (if g = fl \<and> usable then chips_val Q r chips else 0)"
  "qval Q (c_Unavailable (totalAt Q (addNode Q chips fl usable m) (r, g)))
     = qval Q (c_Unavailable (totalAt Q m (r, g))) + (if g = fl \<and> \<not> usable then chips_val Q r chips else 0)"
  "c_Nodes (totalAt Q (addNode Q chips fl usable m) (r, g))
     = c_Nodes (totalAt Q m (r, g)) + (if g = fl \<and> usable then int (length (chipsNamed r chips)) else 0)"
  "c_UnavailableNodes (totalAt Q (addNode Q chips fl usable m) (r, g))
     = c_UnavailableNodes (totalAt Q m (r, g)) + (if g = fl \<and> \<not> usable then int (length (chipsNamed r chips)) else 0)"
  by (induction chips arbitrary: m)
    (auto simp: addNode_Cons totalAt_update addChip_def add_val chips_val_def chipsNamed_def)

lemma addNode_resource:
  "totals_ok m \<Longrightarrow> resource_val Q r (map snd (addNode Q chips fl usable m)) = resource_val Q r (map snd m) + chips_val Q r chips"
proof (induction chips arbitrary: m)
  case (Cons c chips)
  obtain r' q where c: "c = (r', q)" by (cases c)
  have k: "c_ResourceName (totalAt Q m (r', fl)) = r'" using totals_ok_totalAt [OF Cons.prems, of Q "(r', fl)"] by simp
  have "(case map_of m (r', fl) of None \<Rightarrow> 0 | Some t \<Rightarrow> if c_ResourceName t = r then installed_val Q t else 0)
      = (if r' = r then installed_val Q (totalAt Q m (r', fl)) else 0)"
    using k by (auto simp: totalAt_def installed_zero split: option.splits)
  moreover have "gomap_ok m" using Cons.prems by (simp add: totals_ok_def)
  ultimately have "resource_val Q r (map snd (AList.update (r', fl) (addChip Q usable q (totalAt Q m (r', fl))) m))
      = resource_val Q r (map snd m) + (if r' = r then qval Q q else 0)"
    by (simp add: resource_val_if sum_list_update k installed_addChip del: map_map)
  then show ?case using Cons.IH [OF totals_ok_addChip [OF Cons.prems]]
    by (simp add: c addNode_Cons chips_val_def chipsNamed_def)
qed (simp add: chips_val_def chipsNamed_def)

end

subsection \<open>The whole sum\<close>

definition loose_val :: "'q quantity_api \<Rightarrow> string \<Rightarrow> 'q unattributed list \<Rightarrow> rat" where
  "loose_val Q r un = (\<Sum>u\<leftarrow>filter (\<lambda>u. u_ResourceName u = r) un. qval Q (u_Quantity u))"

lemma loose_val_append: "loose_val Q r (xs @ ys) = loose_val Q r xs + loose_val Q r ys"
  by (simp add: loose_val_def)

lemma loose_val_chips: "loose_val Q r (unattributedChips n chips reason) = chips_val Q r chips"
  by (simp add: loose_val_def unattributedChips_def chips_val_def chipsNamed_def filter_map o_def case_prod_beta)

lemma sumNode_alt:
  "sumNode Q wanted fs n (m, un) =
     (if fst (match n fs) = []
      then (m, un @ unattributedChips (n_Name n) (acceleratorsOf Q n wanted) (snd (match n fs)))
      else (addNode Q (acceleratorsOf Q n wanted) (fst (match n fs)) (available n) m, un))"
  by (simp add: sumNode_def Let_def unattributedChips_def split: prod.split)

text \<open>What the totals hold after the nodes \<open>ns\<close>, per pair and in all.\<close>

definition counted :: "'q quantity_api \<Rightarrow> string list \<Rightarrow> string \<Rightarrow> 'q cluster_node list \<Rightarrow> rat" where
  "counted Q wanted r ns = (\<Sum>n\<leftarrow>ns. chipOf Q wanted r n)"

definition carrierCount :: "'q quantity_api \<Rightarrow> string list \<Rightarrow> string \<Rightarrow> 'q cluster_node list \<Rightarrow> int" where
  "carrierCount Q wanted r ns = int (length (filter (\<lambda>n. chipOf Q wanted r n \<noteq> 0) ns))"

definition figures :: "'q quantity_api \<Rightarrow> string list \<Rightarrow> string \<Rightarrow> 'q cluster_node list \<Rightarrow> 'q cluster_node list \<Rightarrow> 'q capacity \<Rightarrow> bool" where
  "figures Q wanted r up down c \<longleftrightarrow>
     qval Q (c_Allocatable c) = counted Q wanted r up \<and> c_Nodes c = carrierCount Q wanted r up
     \<and> qval Q (c_Unavailable c) = counted Q wanted r down \<and> c_UnavailableNodes c = carrierCount Q wanted r down"

definition sum_inv :: "'q quantity_api \<Rightarrow> string list \<Rightarrow> flavor list \<Rightarrow> 'q cluster_node list \<Rightarrow> 'q totals \<times> 'q unattributed list \<Rightarrow> bool" where
  "sum_inv Q wanted fs ns st \<longleftrightarrow>
     (case st of (m, un) \<Rightarrow> totals_ok m
        \<and> (\<forall>r. \<forall>f\<in>set fs. figures Q wanted r (filter (\<lambda>n. owns fs n f \<and> available n) ns)
              (filter (\<lambda>n. owns fs n f \<and> \<not> available n) ns) (totalAt Q m (r, f_Name f)))
        \<and> (\<forall>r. loose_val Q r un = counted Q wanted r (filter (\<lambda>n. \<not> (\<exists>f. owns fs n f)) ns))
        \<and> (\<forall>r. resource_val Q r (map snd m) + counted Q wanted r (filter (\<lambda>n. \<not> (\<exists>f. owns fs n f)) ns)
              = counted Q wanted r ns))"

lemma counted_simps [simp]:
  "counted Q wanted r [] = 0" "counted Q wanted r (ns @ [n]) = counted Q wanted r ns + chipOf Q wanted r n"
  by (simp_all add: counted_def)

lemma carrierCount_simps [simp]:
  "carrierCount Q wanted r [] = 0"
  "carrierCount Q wanted r (ns @ [n]) = carrierCount Q wanted r ns + (if chipOf Q wanted r n = 0 then 0 else 1)"
  by (simp_all add: carrierCount_def)

context quantity
begin

lemma sum_inv_step:
  assumes inv: "sum_inv Q wanted fs ns (m, un)" and v: "validateFlavors fs = None" and n: "gomap_ok (n_Allocatable n)"
  shows "sum_inv Q wanted fs (ns @ [n]) (sumNode Q wanted fs n (m, un))"
proof (cases "fst (match n fs) = []")
  case True
  then have "\<not> owns fs n f" for f using match_orphan [OF v, of n] by blast
  then show ?thesis using inv True
    by (simp add: sumNode_alt sum_inv_def loose_val_append loose_val_chips chips_val_acceleratorsOf [OF n])
next
  case False
  then have own: "(\<forall>f. \<not> owns fs n f) = False" using match_orphan [OF v, of n] by blast
  have "figures Q wanted r (filter (\<lambda>n. owns fs n f \<and> available n) (ns @ [n]))
      (filter (\<lambda>n. owns fs n f \<and> \<not> available n) (ns @ [n]))
      (totalAt Q (addNode Q (acceleratorsOf Q n wanted) (fst (match n fs)) (available n) m) (r, f_Name f))"
    if f: "f \<in> set fs" for r f
  proof -
    have "f_Name f = fst (match n fs) \<longleftrightarrow> owns fs n f" using match_owner [OF v f, of n] by auto
    moreover have "figures Q wanted r (filter (\<lambda>n. owns fs n f \<and> available n) ns)
        (filter (\<lambda>n. owns fs n f \<and> \<not> available n) ns) (totalAt Q m (r, f_Name f))"
      using inv f by (simp add: sum_inv_def)
    ultimately show ?thesis
      by (simp add: figures_def addNode_figures chips_val_acceleratorsOf [OF n])
  qed
  then show ?thesis using inv False
    by (simp add: own sumNode_alt sum_inv_def addNode_ok addNode_resource chips_val_acceleratorsOf [OF n] add.assoc add.commute)
qed

lemma sum_inv_fold:
  assumes v: "validateFlavors fs = None" and ok: "\<forall>n\<in>set ns. gomap_ok (n_Allocatable n)"
  shows "sum_inv Q wanted fs ns (fold (sumNode Q wanted fs) ns ([], []))"
  using ok
proof (induction ns rule: rev_induct)
  case Nil
  show ?case
    by (simp add: sum_inv_def totals_ok_def figures_def totalAt_def zero_capacity_def zero_val loose_val_def resource_val_def)
next
  case (snoc n ns)
  then show ?case using sum_inv_step [OF _ v, of wanted ns _ _ n]
    by (cases "fold (sumNode Q wanted fs) ns ([], [])") simp
qed

end

subsection \<open>Reading the result\<close>

definition capacityOf :: "'q quantity_api \<Rightarrow> 'q capacity_result \<Rightarrow> string \<Rightarrow> string \<Rightarrow> 'q capacity" where
  "capacityOf Q res r fl =
     (case find (\<lambda>c. c_ResourceName c = r \<and> c_ResourceFlavor c = fl) (r_Capacities res) of
        None \<Rightarrow> zero_capacity Q r fl | Some c \<Rightarrow> c)"

definition pairs_of :: "'q capacity_result \<Rightarrow> (string \<times> string) list" where
  "pairs_of res = map (\<lambda>c. (c_ResourceName c, c_ResourceFlavor c)) (r_Capacities res)"

lemma totals_pairs: "totals_ok m \<Longrightarrow> map (\<lambda>c. (c_ResourceName c, c_ResourceFlavor c)) (map snd m) = map fst m"
  by (auto simp: totals_ok_def)

lemma pairs_sortedResult: "totals_ok m \<Longrightarrow> sorted (pairs_of (sortedResult m un)) \<and> distinct (pairs_of (sortedResult m un))"
  by (simp add: pairs_of_def sortedResult_def map_sort_key totals_pairs del: map_map) (simp add: totals_ok_def)

lemma capacityOf_sortedResult:
  assumes ok: "totals_ok m"
  shows "capacityOf Q (sortedResult m un) r fl = totalAt Q m (r, fl)"
proof -
  let ?P = "\<lambda>c. c_ResourceName c = r \<and> c_ResourceFlavor c = fl"
  have set: "set (r_Capacities (sortedResult m un)) = snd ` set m" by (simp add: sortedResult_def)
  have key: "(k, c) \<in> set m \<Longrightarrow> k = (c_ResourceName c, c_ResourceFlavor c) \<and> map_of m k = Some c" for k c
    using ok unfolding totals_ok_def by (metis map_of_is_SomeI)
  show ?thesis
  proof (cases "find ?P (r_Capacities (sortedResult m un))")
    case None
    then have "map_of m (r, fl) = None"
      using key set by (force simp: find_None_iff map_of_eq_None_iff)
    then show ?thesis using None by (simp add: capacityOf_def totalAt_def)
  next
    case (Some c)
    then have "c \<in> snd ` set m" "?P c" using find_SomeD [OF Some] set by auto
    then have "map_of m (r, fl) = Some c" using key by force
    then show ?thesis using Some by (simp add: capacityOf_def totalAt_def)
  qed
qed

lemma resource_val_sorted: "resource_val Q r (r_Capacities (sortedResult m un)) = resource_val Q r (map snd m)"
  by (simp add: resource_val_def sortedResult_def filter_sort sum_list_sort_key del: map_map)

lemma loose_val_sorted: "loose_val Q r (r_Unattributed (sortedResult m un)) = loose_val Q r un"
  by (simp add: loose_val_def sortedResult_def filter_sort sum_list_sort_key)

lemma Sum_result:
  assumes "quantity Q" "wanted \<noteq> []" "validateFlavors fs = None" "\<forall>n\<in>set ns. gomap_ok (n_Allocatable n)"
  obtains m un where "Sum Q ns fs wanted = Inr (sortedResult m un)" "sum_inv Q wanted fs ns (m, un)"
proof -
  obtain m un where st: "fold (sumNode Q wanted fs) ns ([], []) = (m, un)" by (cases "fold (sumNode Q wanted fs) ns ([], [])")
  then have "sum_inv Q wanted fs ns (m, un)"
    using quantity.sum_inv_fold [OF assms(1,3,4), of wanted] by simp
  moreover have "Sum Q ns fs wanted = Inr (sortedResult m un)" using assms(2,3) st by (simp add: Sum_def)
  ultimately show thesis using that by blast
qed

text \<open>
  C16: \<open>Sum\<close> gives each (resource, flavor) pair exactly the hardware of the nodes that flavor owns.
  The result is sorted and has one totalAt per pair. For every flavor, the allocatable total and the
  node count are those of the available nodes whose most specific flavor it is, and the
  unavailable figures those of its cordoned or not ready nodes. What is reported as unattributed is
  the hardware of the nodes that have no most specific flavor.
\<close>

theorem Sum_attributes:
  assumes "quantity Q" "wanted \<noteq> []" "validateFlavors fs = None" "\<forall>n\<in>set ns. gomap_ok (n_Allocatable n)"
  shows "\<exists>res. Sum Q ns fs wanted = Inr res \<and> sorted (pairs_of res) \<and> distinct (pairs_of res)
    \<and> (\<forall>r. \<forall>f\<in>set fs. figures Q wanted r (filter (\<lambda>n. owns fs n f \<and> available n) ns)
          (filter (\<lambda>n. owns fs n f \<and> \<not> available n) ns) (capacityOf Q res r (f_Name f)))
    \<and> (\<forall>r. loose_val Q r (r_Unattributed res) = counted Q wanted r (filter (\<lambda>n. \<not> (\<exists>f. owns fs n f)) ns))"
proof -
  obtain m un where r: "Sum Q ns fs wanted = Inr (sortedResult m un)" and inv: "sum_inv Q wanted fs ns (m, un)"
    by (rule Sum_result [OF assms])
  then have ok: "totals_ok m" by (simp add: sum_inv_def)
  show ?thesis using inv
    by (intro exI [of _ "sortedResult m un"])
      (simp add: r pairs_sortedResult [OF ok] capacityOf_sortedResult [OF ok] loose_val_sorted sum_inv_def)
qed

text \<open>
  C24: No accelerator is lost and none is counted twice. For every configured resource, the allocatable
  and unavailable totals over all flavors together with the unattributed quantities are what the
  nodes advertise.
\<close>

theorem Sum_conserves:
  assumes "quantity Q" "wanted \<noteq> []" "validateFlavors fs = None" "\<forall>n\<in>set ns. gomap_ok (n_Allocatable n)"
  shows "\<exists>res. Sum Q ns fs wanted = Inr res
    \<and> (\<forall>r. resource_val Q r (r_Capacities res) + loose_val Q r (r_Unattributed res) = counted Q wanted r ns)"
proof -
  obtain m un where r: "Sum Q ns fs wanted = Inr (sortedResult m un)" and inv: "sum_inv Q wanted fs ns (m, un)"
    by (rule Sum_result [OF assms])
  then show ?thesis
    by (intro exI [of _ "sortedResult m un"]) (simp add: r resource_val_sorted loose_val_sorted sum_inv_def)
qed

subsection \<open>A small cluster\<close>

definition tpuFlavor :: flavor where
  "tpuFlavor = \<lparr>f_Name = ''tpu-v5'', f_UID = ''1'', f_NodeLabels = [(''pool'', ''tpu'')]\<rparr>"

definition anyFlavor :: flavor where
  "anyFlavor = \<lparr>f_Name = ''any'', f_UID = ''2'', f_NodeLabels = []\<rparr>"

definition tpuNode :: "name \<Rightarrow> bool \<Rightarrow> int \<Rightarrow> (dec \<times> string) cluster_node" where
  "tpuNode n cordoned k = \<lparr>n_Name = n, n_Labels = [(''pool'', ''tpu'')], n_Unschedulable = cordoned,
     n_Conditions = [(''Ready'', ''True'')], n_Allocatable = [(''cpu'', whole 64), (''google.com/tpu'', whole k)]\<rparr>"

definition smallCluster :: "(dec \<times> string) cluster_node list" where
  "smallCluster = [tpuNode ''a'' False 4, tpuNode ''b'' True 8]"

lemmas smallCluster_defs = smallCluster_def tpuNode_def tpuFlavor_def anyFlavor_def

theorem Sum_attributes_witness:
  "\<exists>res. Sum exact_api smallCluster [anyFlavor, tpuFlavor] [''google.com/tpu''] = Inr res
    \<and> qval exact_api (c_Allocatable (capacityOf exact_api res ''google.com/tpu'' ''tpu-v5'')) = 4
    \<and> qval exact_api (c_Unavailable (capacityOf exact_api res ''google.com/tpu'' ''tpu-v5'')) = 8"
proof -
  have "owns [anyFlavor, tpuFlavor] n tpuFlavor" if "n \<in> set smallCluster" for n
    using that by (auto simp: owns_def smallCluster_defs matchesLabels_def labelOf_def)
  then have "filter (\<lambda>n. owns [anyFlavor, tpuFlavor] n tpuFlavor \<and> available n) smallCluster = [tpuNode ''a'' False 4]"
    "filter (\<lambda>n. owns [anyFlavor, tpuFlavor] n tpuFlavor \<and> \<not> available n) smallCluster = [tpuNode ''b'' True 8]"
    by (simp_all add: smallCluster_def) (simp_all add: tpuNode_def available_def)
  then show ?thesis
    using Sum_attributes [OF exact.quantity_axioms, of "[''google.com/tpu'']" "[anyFlavor, tpuFlavor]" smallCluster]
    by (force simp: smallCluster_defs validateFlavors_None figures_def counted_def chipOf_def qval_def exact_api_def dec_val_def)
qed

theorem Sum_conserves_witness:
  "\<exists>res. Sum exact_api smallCluster [anyFlavor, tpuFlavor] [''google.com/tpu''] = Inr res
    \<and> resource_val exact_api ''google.com/tpu'' (r_Capacities res) + loose_val exact_api ''google.com/tpu'' (r_Unattributed res) = 12"
proof -
  have "counted exact_api [''google.com/tpu''] ''google.com/tpu'' smallCluster = 12"
    by (simp add: smallCluster_defs counted_def chipOf_def qval_def exact_api_def dec_val_def)
  then show ?thesis
    using Sum_conserves [OF exact.quantity_axioms, of "[''google.com/tpu'']" "[anyFlavor, tpuFlavor]" smallCluster]
    by (force simp: smallCluster_defs validateFlavors_None)
qed

end
