(* ===== verification/Quota_Highwater.thy ===== *)
theory Quota_Highwater
  imports Quota_Capacity
begin

section \<open>The high-water mark of capacity (pkg/quota/capacity/highwater.go)\<close>

text \<open>
  \<open>Track\<close> folds one observation into a running mark: growth is followed at once, a drop only when it
  exceeds the band, a percentage of the mark. \<open>TrackAll\<close> does so for every (resource, flavor) pair
  of a reading and carries the pairs that stopped reporting. The comparison against the band is
  made on decimals, \<^verbatim>\<open>observed * 100\<close> against \<^verbatim>\<open>mark * (100 - band)\<close>.
\<close>

subsection \<open>Operations\<close>

record 'q mark =
  m_ResourceName :: string
  m_ResourceFlavor :: string
  m_Allocatable :: 'q
  m_HighWaterMark :: 'q

definition Track :: "'q quantity_api \<Rightarrow> 'q \<Rightarrow> 'q \<Rightarrow> int \<Rightarrow> 'q" where
  "Track Q mark observed bandPercent =
     (if q_cmp Q observed mark \<ge> 0 then observed
      else if bandPercent \<le> 0 then observed
      else if bandPercent \<ge> 100 then mark
      else
        let scaled = d_mul Q (q_dec Q observed) \<lparr>unscaled = 100, scale = 0\<rparr>;
            threshold = d_mul Q (q_dec Q mark) \<lparr>unscaled = 100 - bandPercent, scale = 0\<rparr>
        in if d_cmp Q scaled threshold < 0 then observed else mark)"

definition installed :: "'q quantity_api \<Rightarrow> 'q capacity \<Rightarrow> 'q" where
  "installed Q c = q_add Q (c_Allocatable c) (c_Unavailable c)"

definition addMark :: "'q mark \<Rightarrow> (string \<times> string, 'q) gomap \<times> (string \<times> string) list
    \<Rightarrow> (string \<times> string, 'q) gomap \<times> (string \<times> string) list" where
  "addMark p st =
     (case st of (marks, order) \<Rightarrow>
        let k = (m_ResourceName p, m_ResourceFlavor p)
        in if map_of marks k \<noteq> None then (marks, order)
           else (AList.update k (m_HighWaterMark p) marks, order @ [k]))"

definition markAt :: "'q quantity_api \<Rightarrow> (string \<times> string, 'q) gomap \<Rightarrow> string \<times> string \<Rightarrow> 'q" where
  "markAt Q marks k = (case map_of marks k of None \<Rightarrow> q_zero Q | Some q \<Rightarrow> q)"

definition TrackAll :: "'q quantity_api \<Rightarrow> 'q mark list \<Rightarrow> 'q capacity list \<Rightarrow> int \<Rightarrow> 'q mark list" where
  "TrackAll Q previous observed bandPercent =
     (case fold addMark previous ([], []) of (marks, order) \<Rightarrow>
        let tracked = map (\<lambda>c. \<lparr>m_ResourceName = c_ResourceName c, m_ResourceFlavor = c_ResourceFlavor c,
                 m_Allocatable = c_Allocatable c,
                 m_HighWaterMark = Track Q (markAt Q marks (c_ResourceName c, c_ResourceFlavor c)) (installed Q c) bandPercent\<rparr>)
              observed;
            seen = map (\<lambda>c. (c_ResourceName c, c_ResourceFlavor c)) observed;
            carried = map (\<lambda>k. \<lparr>m_ResourceName = fst k, m_ResourceFlavor = snd k, m_Allocatable = q_zero Q,
                 m_HighWaterMark = markAt Q marks k\<rparr>)
              (filter (\<lambda>k. k \<notin> set seen \<and> q_sign Q (markAt Q marks k) \<noteq> 0) order)
        in sort_key (\<lambda>m. (m_ResourceName m, m_ResourceFlavor m)) (tracked @ carried))"

subsection \<open>One mark\<close>

lemma dec_val_whole: "dec_val \<lparr>unscaled = k, scale = 0\<rparr> = of_int k"
  by (simp add: dec_val_def)

context quantity
begin

text \<open>What \<open>Track\<close> decides, over the values.\<close>

lemma Track_val:
  "Track Q mark observed band =
     (if qval Q mark \<le> qval Q observed \<or> band \<le> 0 then observed
      else if band \<ge> 100 \<or> of_int (100 - band) * qval Q mark \<le> 100 * qval Q observed then mark
      else observed)"
  by (auto simp: Track_def cmp_val dcmp_val dmul_val dec_val_whole Let_def mult.commute simp flip: qval_def)

lemma Track_choice: "Track Q mark observed band = mark \<or> Track Q mark observed band = observed"
  by (simp add: Track_val)

lemma Track_ge: "qval Q observed \<le> qval Q (Track Q mark observed band)"
  by (simp add: Track_val)

lemma Track_within:
  assumes "0 \<le> qval Q observed" "0 \<le> band" "band < 100"
  shows "of_int (100 - band) * qval Q (Track Q mark observed band) \<le> 100 * qval Q observed"
proof -
  have "of_int (100 - band) * qval Q observed \<le> 100 * qval Q observed"
    using assms by (intro mult_right_mono) auto
  then show ?thesis using assms by (simp add: Track_val)
qed

lemma Track_holds:
  assumes "0 < band" "of_int (100 - band) * qval Q mark \<le> 100 * qval Q observed"
  shows "qval Q (Track Q mark observed band) = max (qval Q mark) (qval Q observed)"
  using assms by (simp add: Track_val)

end

definition track_run :: "'q quantity_api \<Rightarrow> int \<Rightarrow> 'q \<Rightarrow> 'q list \<Rightarrow> 'q" where
  "track_run Q band mark obs = fold (\<lambda>o' m. Track Q m o' band) obs mark"

definition within_band :: "'q quantity_api \<Rightarrow> int \<Rightarrow> rat \<Rightarrow> 'q list \<Rightarrow> bool" where
  "within_band Q band peak obs \<longleftrightarrow> (\<forall>x\<in>set obs. of_int (100 - band) * peak \<le> 100 * qval Q x)"

definition peak_of :: "'q quantity_api \<Rightarrow> 'q \<Rightarrow> 'q list \<Rightarrow> rat" where
  "peak_of Q mark obs = fold (\<lambda>x. max (qval Q x)) obs (qval Q mark)"

lemma peak_of_simps [simp]:
  "peak_of Q mark [] = qval Q mark" "peak_of Q mark (obs @ [x]) = max (qval Q x) (peak_of Q mark obs)"
  by (simp_all add: peak_of_def)

lemma track_run_snoc [simp]:
  "track_run Q band mark [] = mark" "track_run Q band mark (obs @ [x]) = Track Q (track_run Q band mark obs) x band"
  by (simp_all add: track_run_def)

context quantity
begin

lemma track_run_peak:
  assumes "0 < band" "band < 100"
  shows "within_band Q band (peak_of Q mark obs) obs \<Longrightarrow> qval Q (track_run Q band mark obs) = peak_of Q mark obs"
proof (induction obs rule: rev_induct)
  case (snoc x obs)
  let ?p = "peak_of Q mark obs"
  have "of_int (100 - band) * ?p \<le> of_int (100 - band) * max (qval Q x) ?p"
    using assms by (intro mult_left_mono) auto
  then have "of_int (100 - band) * ?p \<le> 100 * qval Q y" if "y \<in> set (obs @ [x])" for y
    using snoc.prems that by (force simp: within_band_def)
  then have "within_band Q band ?p obs" "of_int (100 - band) * ?p \<le> 100 * qval Q x" by (simp_all add: within_band_def)
  then show ?case using snoc.IH Track_holds [OF assms(1)] by (simp add: max.commute)
qed simp

lemma track_run_member: "track_run Q band mark obs \<in> set (mark # obs)"
proof (induction obs rule: rev_induct)
  case (snoc x obs)
  then show ?case using Track_choice [of "track_run Q band mark obs" x band] by auto
qed simp

end

text \<open>
  C32: A run of observations moves the mark only to a value that was observed, never below the last
  observation, and never above it by more than the band. Dips that stay inside the band of the
  peak do not lower the mark, however many follow each other: the mark is then the peak of all
  observations.
\<close>

theorem Track_run:
  assumes Q: "quantity Q" and band: "0 < band" "band < 100" and obs: "obs \<noteq> []" "\<forall>x\<in>set obs. 0 \<le> qval Q x"
  shows "track_run Q band mark obs \<in> set (mark # obs)
    \<and> qval Q (last obs) \<le> qval Q (track_run Q band mark obs)
    \<and> of_int (100 - band) * qval Q (track_run Q band mark obs) \<le> 100 * qval Q (last obs)
    \<and> (within_band Q band (peak_of Q mark obs) obs \<longrightarrow> qval Q (track_run Q band mark obs) = peak_of Q mark obs)"
proof -
  obtain ys y where y: "obs = ys @ [y]" using obs(1) by (cases obs rule: rev_cases) auto
  show ?thesis
    using quantity.track_run_member [OF Q, of band mark obs] quantity.track_run_peak [OF Q band, of mark obs]
      quantity.Track_ge [OF Q, of y "track_run Q band mark ys" band]
      quantity.Track_within [OF Q, of y band "track_run Q band mark ys"] band obs(2)
    by (simp add: y)
qed

subsection \<open>All the pairs\<close>

definition mark_pair :: "'q mark \<Rightarrow> string \<times> string" where
  "mark_pair m = (m_ResourceName m, m_ResourceFlavor m)"

definition cap_pair :: "'q capacity \<Rightarrow> string \<times> string" where
  "cap_pair c = (c_ResourceName c, c_ResourceFlavor c)"

definition prevMark :: "'q quantity_api \<Rightarrow> 'q mark list \<Rightarrow> string \<times> string \<Rightarrow> 'q" where
  "prevMark Q ms k = (case find (\<lambda>m. mark_pair m = k) ms of None \<Rightarrow> q_zero Q | Some m \<Rightarrow> m_HighWaterMark m)"

text \<open>What a pass leaves for the pair \<open>k\<close>.\<close>

definition tracked_mark :: "'q quantity_api \<Rightarrow> 'q mark list \<Rightarrow> 'q capacity list \<Rightarrow> int \<Rightarrow> string \<times> string \<Rightarrow> 'q mark option" where
  "tracked_mark Q previous observed band k =
     (case find (\<lambda>c. cap_pair c = k) observed of
        Some c \<Rightarrow> Some \<lparr>m_ResourceName = fst k, m_ResourceFlavor = snd k, m_Allocatable = c_Allocatable c,
                       m_HighWaterMark = Track Q (prevMark Q previous k) (installed Q c) band\<rparr>
      | None \<Rightarrow> if q_sign Q (prevMark Q previous k) = 0 then None
                else Some \<lparr>m_ResourceName = fst k, m_ResourceFlavor = snd k, m_Allocatable = q_zero Q,
                           m_HighWaterMark = prevMark Q previous k\<rparr>)"

lemma addMark_fold:
  assumes "fold addMark previous ([], []) = (marks, order)"
  shows "markAt Q marks k = prevMark Q previous k" "distinct order" "set order = keys_of marks" "keys_of marks = mark_pair ` set previous"
proof -
  have "(\<forall>k. map_of marks k = map_option m_HighWaterMark (find (\<lambda>m. mark_pair m = k) previous))
      \<and> distinct order \<and> set order = keys_of marks \<and> keys_of marks = mark_pair ` set previous"
    using assms
  proof (induction previous arbitrary: marks order rule: rev_induct)
    case (snoc p ps)
    obtain ms od where st: "fold addMark ps ([], []) = (ms, od)" by (cases "fold addMark ps ([], [])")
    have f: "find P (ps @ [p]) = (case find P ps of None \<Rightarrow> if P p then Some p else None | Some x \<Rightarrow> Some x)" for P
      by (induction ps) auto
    note IH = snoc.IH [OF st]
    have step: "addMark p (ms, od) = (marks, order)" using snoc.prems st by simp
    show ?case
    proof (cases "map_of ms (mark_pair p)")
      case None
      then have "marks = AList.update (mark_pair p) (m_HighWaterMark p) ms" "order = od @ [mark_pair p]"
        using step by (auto simp: addMark_def mark_pair_def Let_def)
      moreover have "mark_pair p \<notin> keys_of ms" using None by (simp add: map_of_None_keys)
      ultimately show ?thesis using IH None
        by (auto simp: gomap_simps f split: option.splits)
    next
      case (Some q)
      then have "marks = ms" "order = od" using step by (auto simp: addMark_def mark_pair_def Let_def)
      moreover have "mark_pair p \<in> keys_of ms" using Some by (rule map_of_eq_Some_keys)
      ultimately show ?thesis using IH Some by (auto simp: f find_None_iff split: option.splits)
    qed
  qed simp
  then have m: "map_of marks k = map_option m_HighWaterMark (find (\<lambda>m. mark_pair m = k) previous)"
    and "distinct order" "set order = keys_of marks" "keys_of marks = mark_pair ` set previous" by blast+
  moreover have "markAt Q marks k = prevMark Q previous k"
    by (simp add: markAt_def prevMark_def m split: option.split)
  ultimately show "markAt Q marks k = prevMark Q previous k" "distinct order" "set order = keys_of marks" "keys_of marks = mark_pair ` set previous"
    by simp_all
qed

lemma TrackAll_parts:
  obtains tracked carried where "TrackAll Q previous observed band = sort_key mark_pair (tracked @ carried)"
    "map mark_pair tracked = map cap_pair observed" "distinct (map mark_pair carried)"
    "set tracked = {m. \<exists>c\<in>set observed. m = \<lparr>m_ResourceName = c_ResourceName c, m_ResourceFlavor = c_ResourceFlavor c,
        m_Allocatable = c_Allocatable c, m_HighWaterMark = Track Q (prevMark Q previous (cap_pair c)) (installed Q c) band\<rparr>}"
    "set carried = {m. mark_pair m \<in> mark_pair ` set previous \<and> mark_pair m \<notin> cap_pair ` set observed
        \<and> q_sign Q (m_HighWaterMark m) \<noteq> 0 \<and> m_Allocatable m = q_zero Q \<and> m_HighWaterMark m = prevMark Q previous (mark_pair m)}"
proof -
  obtain marks order where st: "fold addMark previous ([], []) = (marks, order)" by (cases "fold addMark previous ([], [])")
  note am = addMark_fold [OF st]
  define tracked where "tracked = map (\<lambda>c. \<lparr>m_ResourceName = c_ResourceName c, m_ResourceFlavor = c_ResourceFlavor c,
      m_Allocatable = c_Allocatable c, m_HighWaterMark = Track Q (prevMark Q previous (cap_pair c)) (installed Q c) band\<rparr>) observed"
  define keep where "keep = filter (\<lambda>k. k \<notin> cap_pair ` set observed \<and> q_sign Q (prevMark Q previous k) \<noteq> 0) order"
  define carried where "carried = map (\<lambda>k. \<lparr>m_ResourceName = fst k, m_ResourceFlavor = snd k, m_Allocatable = q_zero Q,
      m_HighWaterMark = prevMark Q previous k\<rparr>) keep"
  show thesis
  proof
    show "TrackAll Q previous observed band = sort_key mark_pair (tracked @ carried)"
      by (simp add: TrackAll_def st am(1) tracked_def carried_def keep_def cap_pair_def mark_pair_def [abs_def] Let_def)
    show "map mark_pair tracked = map cap_pair observed"
      by (simp add: tracked_def mark_pair_def cap_pair_def)
    have "map mark_pair carried = keep" by (simp add: carried_def mark_pair_def o_def)
    then show "distinct (map mark_pair carried)" using am(2) by (simp add: keep_def)
    show "set tracked = {m. \<exists>c\<in>set observed. m = \<lparr>m_ResourceName = c_ResourceName c, m_ResourceFlavor = c_ResourceFlavor c,
        m_Allocatable = c_Allocatable c, m_HighWaterMark = Track Q (prevMark Q previous (cap_pair c)) (installed Q c) band\<rparr>}"
      by (auto simp: tracked_def)
    have "m \<in> set carried" if "mark_pair m \<in> set keep" "m_Allocatable m = q_zero Q" "m_HighWaterMark m = prevMark Q previous (mark_pair m)" for m
      using that unfolding carried_def set_map by (intro image_eqI [of _ _ "mark_pair m"]) (auto simp: mark_pair_def)
    then show "set carried = {m. mark_pair m \<in> mark_pair ` set previous \<and> mark_pair m \<notin> cap_pair ` set observed
        \<and> q_sign Q (m_HighWaterMark m) \<noteq> 0 \<and> m_Allocatable m = q_zero Q \<and> m_HighWaterMark m = prevMark Q previous (mark_pair m)}"
      by (auto simp: carried_def keep_def mark_pair_def am(3,4) [unfolded mark_pair_def])
  qed
qed

lemma prevMark_unknown: "quantity Q \<Longrightarrow> k \<notin> mark_pair ` set previous \<Longrightarrow> q_sign Q (prevMark Q previous k) = 0"
  by (auto simp: prevMark_def quantity.sign_val quantity.zero_val split: option.split dest: find_SomeD)

text \<open>
  A pass over a reading with one entry per pair leaves one mark per pair, sorted. A pair that
  reported gets its new allocatable total and its previous mark folded with what is installed,
  schedulable or parked. A pair that stopped reporting keeps its mark, with nothing allocatable,
  until the mark is zero.
\<close>

lemma TrackAll_marks:
  assumes Q: "quantity Q" and d: "distinct (map cap_pair observed)"
  shows "sorted (map mark_pair (TrackAll Q previous observed band)) \<and> distinct (map mark_pair (TrackAll Q previous observed band))
    \<and> find (\<lambda>m. mark_pair m = k) (TrackAll Q previous observed band) = tracked_mark Q previous observed band k"
proof -
  obtain tracked carried where out: "TrackAll Q previous observed band = sort_key mark_pair (tracked @ carried)"
    and tp: "map mark_pair tracked = map cap_pair observed" and dc: "distinct (map mark_pair carried)"
    and ts: "set tracked = {m. \<exists>c\<in>set observed. m = \<lparr>m_ResourceName = c_ResourceName c, m_ResourceFlavor = c_ResourceFlavor c,
        m_Allocatable = c_Allocatable c, m_HighWaterMark = Track Q (prevMark Q previous (cap_pair c)) (installed Q c) band\<rparr>}"
    and cs: "set carried = {m. mark_pair m \<in> mark_pair ` set previous \<and> mark_pair m \<notin> cap_pair ` set observed
        \<and> q_sign Q (m_HighWaterMark m) \<noteq> 0 \<and> m_Allocatable m = q_zero Q \<and> m_HighWaterMark m = prevMark Q previous (mark_pair m)}"
    by (rule TrackAll_parts)
  have "mark_pair ` set tracked = cap_pair ` set observed" using tp by (metis list.set_map)
  then have dist: "distinct (map mark_pair (tracked @ carried))" using tp dc d cs by auto
  have fd: "find (\<lambda>m. mark_pair m = k) (sort_key mark_pair (tracked @ carried)) = Some m \<longleftrightarrow> m \<in> set tracked \<union> set carried \<and> mark_pair m = k" for m
    using find_key [of mark_pair "sort_key mark_pair (tracked @ carried)" k m] dist by (simp add: map_sort_key)
  have "find (\<lambda>m. mark_pair m = k) (sort_key mark_pair (tracked @ carried)) = tracked_mark Q previous observed band k"
  proof (cases "find (\<lambda>c. cap_pair c = k) observed")
    case (Some c)
    then have "c \<in> set observed" "cap_pair c = k" using find_SomeD [OF Some] by auto
    then show ?thesis unfolding tracked_mark_def Some option.case
      by (subst fd) (auto simp: ts mark_pair_def cap_pair_def)
  next
    case None
    then have k: "k \<notin> cap_pair ` set observed" by (auto simp: find_None_iff)
    let ?m = "\<lparr>m_ResourceName = fst k, m_ResourceFlavor = snd k, m_Allocatable = q_zero Q, m_HighWaterMark = prevMark Q previous k\<rparr>"
    have pm: "mark_pair ?m = k" by (simp add: mark_pair_def)
    show ?thesis
    proof (cases "q_sign Q (prevMark Q previous k) = 0")
      case True
      have "m \<notin> set tracked \<union> set carried" if "mark_pair m = k" for m
        using that True k by (auto simp: ts cs mark_pair_def cap_pair_def image_iff)
      then have "find (\<lambda>m. mark_pair m = k) (sort_key mark_pair (tracked @ carried)) = None"
        by (auto simp: find_None_iff)
      then show ?thesis using True None by (simp add: tracked_mark_def)
    next
      case False
      then have "k \<in> mark_pair ` set previous" using prevMark_unknown [OF Q, of k previous] by blast
      then have "?m \<in> set carried" using False k by (simp add: cs pm)
      then show ?thesis using False None fd [of ?m] pm by (simp add: tracked_mark_def)
    qed
  qed
  then show ?thesis using dist by (simp add: out map_sort_key)
qed

theorem Track_run_witness:
  "track_run exact_api 10 (whole 100) [whole 95, whole 91, whole 93] = whole 100"
proof -
  have "within_band exact_api 10 (peak_of exact_api (whole 100) [whole 95, whole 91, whole 93]) [whole 95, whole 91, whole 93]"
    "\<forall>x\<in>set [whole 95, whole 91, whole 93]. 0 \<le> qval exact_api x"
    by (simp_all add: within_band_def peak_of_def qval_def exact_api_def dec_val_def)
  then show ?thesis
    using Track_run [OF exact.quantity_axioms, of 10 "[whole 95, whole 91, whole 93]" "whole 100"]
    by (auto simp: peak_of_def qval_def exact_api_def dec_val_def)
qed

definition tpuMark :: "int \<Rightarrow> string \<Rightarrow> (dec \<times> string) mark" where
  "tpuMark k fl = \<lparr>m_ResourceName = ''google.com/tpu'', m_ResourceFlavor = fl, m_Allocatable = q_zero exact_api, m_HighWaterMark = whole k\<rparr>"

lemma TrackAll_keeps_silent_pair:
  "find (\<lambda>m. mark_pair m = (''google.com/tpu'', ''v5'')) (TrackAll exact_api [tpuMark 8 ''v5'']
     [zero_capacity exact_api ''google.com/tpu'' ''v6''] 10) = Some (tpuMark 8 ''v5'')"
proof -
  have "find (\<lambda>m. mark_pair m = (''google.com/tpu'', ''v5'')) (TrackAll exact_api [tpuMark 8 ''v5'']
     [zero_capacity exact_api ''google.com/tpu'' ''v6''] 10)
     = tracked_mark exact_api [tpuMark 8 ''v5''] [zero_capacity exact_api ''google.com/tpu'' ''v6''] 10 (''google.com/tpu'', ''v5'')"
    using TrackAll_marks [OF exact.quantity_axioms, of "[zero_capacity exact_api ''google.com/tpu'' ''v6'']"] by simp
  then show ?thesis
    by (simp add: tracked_mark_def cap_pair_def zero_capacity_def prevMark_def mark_pair_def tpuMark_def) (simp add: exact_api_def)
qed

end
