(* ===== verification/Quota_Projection.thy ===== *)
theory Quota_Projection
  imports Quota_Tree_Walk
begin

section \<open>Rendering the tree of one cluster (pkg/quota/projection/projection.go)\<close>

text \<open>
  \<open>For\<close> renders the copy of the fleet tree that belongs on one workload cluster: the leaves that
  have an allowance there, with the resolved numbers, and every tier between them and the reserved
  root, as topology without budgets.

  A copy is the quota together with its labels and annotations; the fields of a new object that
  the code does not set have Go's zero values. The code iterates over the maps \<^verbatim>\<open>byNode\<close> and
  \<^verbatim>\<open>include\<close> in an order Go leaves open; the copies are sorted by depth and name afterwards and
  their names differ, so a result does not depend on it. Which of several errors is returned does.
\<close>

subsection \<open>Data\<close>

record 'q allowance =
  a_Node :: name
  a_ResourceName :: string
  a_ResourceFlavor :: string
  a_Nominal :: 'q

record 'q projected =
  p_Quota :: "'q quota"
  p_Labels :: "(string, string) gomap"
  p_Annotations :: "(string, string) gomap"

datatype projection_error =
    NoCluster
  | NoOrigin
  | NotInTree name
  | NotALeaf name
  | NoBudget name string string

abbreviation OriginLabel :: string where "OriginLabel \<equiv> ''ome.io/quota-origin''"
abbreviation OriginUIDAnnotation :: string where "OriginUIDAnnotation \<equiv> ''ome.io/quota-origin-uid''"
abbreviation SourceGenerationAnnotation :: string where "SourceGenerationAnnotation \<equiv> ''ome.io/quota-source-generation''"
abbreviation ClusterAnnotation :: string where "ClusterAnnotation \<equiv> ''ome.io/quota-cluster''"

subsection \<open>Operations\<close>

definition budgetSources :: "'q budget list \<Rightarrow> (string \<times> string, 'q budget) gomap" where
  "budgetSources bs = fold (\<lambda>b m. AList.update (ResourceName b, ResourceFlavor b) b m) bs []"

definition projectBudget :: "'q budget \<Rightarrow> 'q allowance \<Rightarrow> 'q budget" where
  "projectBudget b a = \<lparr>ResourceName = ResourceName b, ResourceFlavor = ResourceFlavor b, Policy = [],
     Nominal = a_Nominal a, BorrowingLimit = BorrowingLimit b, LendingLimit = LendingLimit b, PerCluster = []\<rparr>"

definition resolveBudget :: "'q quota \<Rightarrow> 'q allowance \<Rightarrow> projection_error + 'q budget" where
  "resolveBudget src a =
     (case map_of (budgetSources (Budgets src)) (a_ResourceName a, a_ResourceFlavor a) of
        None \<Rightarrow> Inl (NoBudget (QName src) (a_ResourceName a) (a_ResourceFlavor a))
      | Some b \<Rightarrow> Inr (projectBudget b a))"

definition projectBudgets :: "'q quota \<Rightarrow> 'q allowance list \<Rightarrow> projection_error + 'q budget list" where
  "projectBudgets src given =
     bindE (traverseE (resolveBudget src) given)
       (\<lambda>out. Inr (sort_key (\<lambda>b. (ResourceName b, ResourceFlavor b)) out))"

definition render :: "'q node \<Rightarrow> name \<Rightarrow> 'q allowance list \<Rightarrow> string \<Rightarrow> projection_error + 'q projected" where
  "render nd cluster given origin =
     (let src = Quota nd;
          topology = \<lparr>QName = QName src, Role = Role src, ParentRef = ParentRef src, PriorityTier = [],
             Distribution = None, Budgets = [], QUID = [], QGeneration = 0\<rparr>;
          copy = (\<lambda>q. \<lparr>p_Quota = q, p_Labels = [(OriginLabel, origin)],
             p_Annotations = [(OriginUIDAnnotation, QUID src),
               (SourceGenerationAnnotation, Itoa (QGeneration src)), (ClusterAnnotation, cluster)]\<rparr>)
      in if \<not> IsLeaf nd then Inr (copy topology)
         else bindE (projectBudgets src given)
           (\<lambda>bs. Inr (copy (topology\<lparr>PriorityTier := PriorityTier src, Budgets := bs\<rparr>))))"

definition allowancesOf :: "(name, 'q allowance list) gomap \<Rightarrow> name \<Rightarrow> 'q allowance list" where
  "allowancesOf m n = (case map_of m n of None \<Rightarrow> [] | Some as \<Rightarrow> as)"

fun groupAllowances :: "'q tree \<Rightarrow> 'q allowance list \<Rightarrow> (name, 'q allowance list) gomap
    \<Rightarrow> projection_error + (name, 'q allowance list) gomap" where
  "groupAllowances t [] m = Inr m"
| "groupAllowances t (a # as) m =
     (case lookup t (a_Node a) of
        None \<Rightarrow> Inl (NotInTree (a_Node a))
      | Some nd \<Rightarrow>
          if \<not> IsLeaf nd then Inl (NotALeaf (a_Node a))
          else groupAllowances t as (AList.update (a_Node a) (allowancesOf m (a_Node a) @ [a]) m))"

definition includeAncestor :: "'q tree \<Rightarrow> name \<Rightarrow> (name, 'q node) gomap \<Rightarrow> (name, 'q node) gomap" where
  "includeAncestor t n m =
     (case lookup t n of None \<Rightarrow> m
      | Some nd \<Rightarrow> if Parent nd = None then m else AList.update (Name nd) nd m)"

definition includeLeaf :: "'q tree \<Rightarrow> name \<Rightarrow> (name, 'q node) gomap \<Rightarrow> (name, 'q node) gomap" where
  "includeLeaf t n m =
     (case lookup t n of None \<Rightarrow> m
      | Some nd \<Rightarrow> fold (includeAncestor t) (Ancestors t nd) (AList.update n nd m))"

definition depthNumber :: "'q node \<Rightarrow> int" where
  "depthNumber nd = (case Depth nd of None \<Rightarrow> - 1 | Some d \<Rightarrow> int d)"

definition For :: "'q tree \<Rightarrow> name \<Rightarrow> 'q allowance list \<Rightarrow> string \<Rightarrow> projection_error + 'q projected list" where
  "For t cluster allowances origin =
     (if cluster = [] then Inl NoCluster
      else if origin = [] then Inl NoOrigin
      else bindE (groupAllowances t allowances []) (\<lambda>byNode.
        let incl = fold (includeLeaf t) (map fst byNode) [];
            depth = map (\<lambda>(n, nd). (n, depthNumber nd)) incl
        in bindE (traverseE (\<lambda>(n, nd). render nd cluster (allowancesOf byNode n) origin) incl) (\<lambda>out.
             Inr (sort_key (\<lambda>p. (get0 depth (QName (p_Quota p)), QName (p_Quota p))) out))))"

subsection \<open>The ancestors of a placed node\<close>

definition upward :: "('a \<Rightarrow> 'a option) \<Rightarrow> 'a \<Rightarrow> 'a set" where
  "upward p x = {y. \<exists>k. climb p k x = Some y}"

lemma upward_step: "p x = Some y \<Longrightarrow> upward p x = insert x (upward p y)"
proof
  assume y: "p x = Some y"
  show "upward p x \<subseteq> insert x (upward p y)"
  proof
    fix z assume "z \<in> upward p x"
    then obtain k where "climb p k x = Some z" by (auto simp: upward_def)
    then show "z \<in> insert x (upward p y)" using y by (cases k) (auto simp: upward_def)
  qed
  have "x \<in> upward p x" by (simp add: upward_def exI [of _ 0])
  moreover have "z \<in> upward p x" if "climb p k y = Some z" for k z
    using that y by (simp add: upward_def exI [of _ "Suc k"])
  ultimately show "insert x (upward p y) \<subseteq> upward p x" by (auto simp: upward_def [of p y])
qed

lemma upward_top: "p x = None \<Longrightarrow> upward p x = {x}"
proof -
  assume "p x = None"
  then have "climb p k x = Some z \<longleftrightarrow> k = 0 \<and> z = x" for k z by (cases k) auto
  then show ?thesis by (auto simp: upward_def)
qed

lemma upward_acyclic:
  assumes "p x = Some y" "climb p d x = Some r" "p r = None"
  shows "x \<notin> upward p y"
proof
  assume "x \<in> upward p y"
  then obtain k where "climb p k y = Some x" by (auto simp: upward_def)
  then have "climb p (Suc k) x = Some x" using assms(1) by simp
  then have "climb p (Suc d) x \<noteq> None" by (intro climb_repeat [of p 0 x x "Suc k"]) simp_all
  then show False using climb_snoc [of p d x] assms(2,3) by simp
qed

lemma ancestorsFrom_upward:
  assumes sh: "shape qs dep (nodes t)"
  shows "climb (refParent qs) d p = Some r \<Longrightarrow> refParent qs r = None \<Longrightarrow> p \<in> QName ` set qs
    \<Longrightarrow> set seen \<inter> upward (refParent qs) p = {} \<Longrightarrow> set (ancestorsFrom t seen (Some p)) = upward (refParent qs) p"
proof (induction d arbitrary: p seen)
  case 0
  then obtain nd where nd: "lookup t p = Some nd" "Parent nd = None"
    using shape_lookup [OF sh] by (auto simp: nodeAt_def quotaOf_Some)
  have u: "upward (refParent qs) p = {p}" using 0 by (simp add: upward_top)
  then show ?case using 0 nd by (subst ancestorsFrom.simps) (simp add: ancestorsFrom.simps [of t _ None])
next
  case (Suc d)
  then obtain q where q: "refParent qs p = Some q" "climb (refParent qs) d q = Some r" by (auto split: option.splits)
  have nd: "lookup t p = Some (the (nodeAt qs dep p))" "Parent (the (nodeAt qs dep p)) = Some q"
    using shape_lookup [OF sh] nodeAt_sel(3) [OF Suc.prems(3), of dep] Suc.prems(3) q(1) by (auto simp: nodeAt_def quotaOf_Some)
  have u: "upward (refParent qs) p = insert p (upward (refParent qs) q)" using q(1) by (rule upward_step)
  have "q \<in> QName ` set qs" using q(1) by (auto simp: refParent_Some)
  moreover have "p \<notin> upward (refParent qs) q" by (rule upward_acyclic [OF q(1) Suc.prems(1,2)])
  ultimately have "set (ancestorsFrom t (p # seen) (Some q)) = upward (refParent qs) q"
    using Suc.prems(4) u by (intro Suc.IH [OF q(2) Suc.prems(2)]) auto
  then show ?case using Suc.prems(4) nd u by (subst ancestorsFrom.simps) auto
qed

lemma Ancestors_upward:
  assumes sh: "shape qs dep (nodes t)" and n: "lookup t n = Some nd" and up: "climb (refParent qs) d n = Some r" "refParent qs r = None"
  shows "set (Ancestors t nd) = upward (refParent qs) n - {n}"
proof -
  have m: "n \<in> QName ` set qs" and nd: "nd = the (nodeAt qs dep n)"
    using n shape_lookup [OF sh] by (auto simp: nodeAt_def quotaOf_Some)
  note sel = nodeAt_sel [OF m, of dep, folded nd]
  show ?thesis
  proof (cases "refParent qs n")
    case None
    then show ?thesis using sel by (simp add: Ancestors_def ancestorsFrom.simps [of t _ None] upward_top)
  next
    case (Some p)
    then obtain e where "climb (refParent qs) e p = Some r" using up by (cases d) auto
    moreover have "n \<notin> upward (refParent qs) p" by (rule upward_acyclic [OF Some up])
    moreover have "p \<in> QName ` set qs" using Some by (auto simp: refParent_Some)
    ultimately have "set (ancestorsFrom t [n] (Some p)) = upward (refParent qs) p"
      using up(2) by (intro ancestorsFrom_upward [OF sh]) auto
    then show ?thesis using sel Some \<open>n \<notin> upward (refParent qs) p\<close> by (simp add: Ancestors_def upward_step)
  qed
qed

subsection \<open>Grouping and including\<close>

lemma groupAllowances_ok: "groupAllowances t as m = Inr byNode \<Longrightarrow> gomap_ok m \<Longrightarrow> gomap_ok byNode"
  by (induction as arbitrary: m) (auto simp: gomap_simps split: option.splits if_splits)

lemma groupAllowances_keys: "groupAllowances t as m = Inr byNode \<Longrightarrow> keys_of byNode = keys_of m \<union> a_Node ` set as"
  by (induction as arbitrary: m) (auto simp: gomap_simps split: option.splits if_splits)

lemma groupAllowances_leaf:
  "groupAllowances t as m = Inr byNode \<Longrightarrow> a \<in> set as \<Longrightarrow> \<exists>nd. lookup t (a_Node a) = Some nd \<and> IsLeaf nd"
  by (induction as arbitrary: m) (auto split: option.splits if_splits)

lemma groupAllowances_given:
  "groupAllowances t as m = Inr byNode \<Longrightarrow> allowancesOf byNode n = allowancesOf m n @ filter (\<lambda>a. a_Node a = n) as"
proof (induction as arbitrary: m)
  case (Cons a as)
  then have "groupAllowances t as (AList.update (a_Node a) (allowancesOf m (a_Node a) @ [a]) m) = Inr byNode"
    by (auto split: option.splits if_splits)
  from Cons.IH [OF this] show ?case by (simp add: allowancesOf_def gomap_simps)
qed simp

lemmas groupAllowances_facts = groupAllowances_ok groupAllowances_keys groupAllowances_leaf groupAllowances_given

text \<open>The inclusion map holds each included name with the node of the tree.\<close>

definition incl_inv :: "'q tree \<Rightarrow> name set \<Rightarrow> (name, 'q node) gomap \<Rightarrow> bool" where
  "incl_inv t S m \<longleftrightarrow> gomap_ok m \<and> keys_of m = S \<and> (\<forall>n nd. map_of m n = Some nd \<longrightarrow> lookup t n = Some nd)"

lemma incl_inv_update: "incl_inv t S m \<Longrightarrow> lookup t n = Some nd \<Longrightarrow> incl_inv t (insert n S) (AList.update n nd m)"
  by (auto simp: incl_inv_def gomap_simps)

lemma lookup_Name: "shape qs dep (nodes t) \<Longrightarrow> lookup t n = Some nd \<Longrightarrow> Name nd = n \<and> Parent nd = refParent qs n"
  using nodeAt_sel [of n qs dep] by (auto simp: shape_lookup nodeAt_def quotaOf_Some)

lemma includeAncestor_inv:
  assumes sh: "shape qs dep (nodes t)" and inv: "incl_inv t S m" and n: "n \<in> QName ` set qs"
  shows "incl_inv t (if refParent qs n = None then S else insert n S) (includeAncestor t n m)"
proof -
  obtain nd where nd: "lookup t n = Some nd" using n shape_lookup [OF sh] by (auto simp: nodeAt_def quotaOf_Some)
  show ?thesis using incl_inv_update [OF inv nd] inv lookup_Name [OF sh nd] nd by (auto simp: includeAncestor_def)
qed

lemma includeAncestors_inv:
  assumes sh: "shape qs dep (nodes t)"
  shows "incl_inv t S m \<Longrightarrow> set ns \<subseteq> QName ` set qs
    \<Longrightarrow> incl_inv t (S \<union> {n \<in> set ns. refParent qs n \<noteq> None}) (fold (includeAncestor t) ns m)"
proof (induction ns arbitrary: S m)
  case (Cons n ns)
  have "incl_inv t (if refParent qs n = None then S else insert n S) (includeAncestor t n m)"
    using Cons.prems by (intro includeAncestor_inv [OF sh]) auto
  moreover have "(if refParent qs n = None then S else insert n S) \<union> {x \<in> set ns. refParent qs x \<noteq> None}
      = S \<union> {x \<in> set (n # ns). refParent qs x \<noteq> None}" by (cases "refParent qs n") auto
  ultimately show ?case using Cons.IH [of "if refParent qs n = None then S else insert n S" "includeAncestor t n m"] Cons.prems(2) by simp
qed simp

text \<open>What a leaf brings in: itself and every tier above it but the root.\<close>

definition needed :: "'q quota list \<Rightarrow> name \<Rightarrow> name set" where
  "needed qs n = insert n {x \<in> upward (refParent qs) n. refParent qs x \<noteq> None}"

lemma includeLeaf_inv:
  assumes sh: "shape qs dep (nodes t)" and inv: "incl_inv t S m"
    and n: "n \<in> QName ` set qs" and up: "climb (refParent qs) d n = Some r" "refParent qs r = None"
  shows "incl_inv t (S \<union> needed qs n) (includeLeaf t n m)"
proof -
  obtain nd where nd: "lookup t n = Some nd" using n shape_lookup [OF sh] by (auto simp: nodeAt_def quotaOf_Some)
  have an: "set (Ancestors t nd) = upward (refParent qs) n - {n}" by (rule Ancestors_upward [OF sh nd up])
  have "upward (refParent qs) n \<subseteq> QName ` set qs" unfolding upward_def using ref.climb_in [OF _ n] by blast
  then have "set (Ancestors t nd) \<subseteq> QName ` set qs" using an by blast
  from includeAncestors_inv [OF sh incl_inv_update [OF inv nd] this]
  have "incl_inv t (insert n S \<union> {x \<in> upward (refParent qs) n - {n}. refParent qs x \<noteq> None}) (includeLeaf t n m)"
    by (simp add: includeLeaf_def nd an)
  moreover have "insert n S \<union> {x \<in> upward (refParent qs) n - {n}. refParent qs x \<noteq> None} = S \<union> needed qs n"
    by (auto simp: needed_def)
  ultimately show ?thesis by simp
qed

lemma includeLeaves_inv:
  assumes sh: "shape qs dep (nodes t)"
    and up: "\<And>n. n \<in> set ns \<Longrightarrow> n \<in> QName ` set qs \<and> (\<exists>d r. climb (refParent qs) d n = Some r \<and> refParent qs r = None)"
  shows "incl_inv t S m \<Longrightarrow> incl_inv t (S \<union> (\<Union>n\<in>set ns. needed qs n)) (fold (includeLeaf t) ns m)"
  using up
proof (induction ns arbitrary: S m)
  case (Cons n ns)
  from Cons.prems(2) [of n] obtain d r where n: "n \<in> QName ` set qs" "climb (refParent qs) d n = Some r" "refParent qs r = None" by auto
  from includeLeaf_inv [OF sh Cons.prems(1) n] have "incl_inv t (S \<union> needed qs n) (includeLeaf t n m)" .
  from Cons.IH [OF this] Cons.prems(2) show ?case by (simp add: Un_assoc)
qed simp

subsection \<open>The copies\<close>

text \<open>What a copy says, whatever the order it was rendered in.\<close>

definition faithful_copy :: "'q node \<Rightarrow> name \<Rightarrow> 'q allowance list \<Rightarrow> string \<Rightarrow> 'q projected \<Rightarrow> bool" where
  "faithful_copy nd cluster given origin p \<longleftrightarrow>
     QName (p_Quota p) = Name nd \<and> Role (p_Quota p) = Role (Quota nd) \<and> ParentRef (p_Quota p) = ParentRef (Quota nd)
     \<and> map_of (p_Labels p) OriginLabel = Some origin \<and> map_of (p_Annotations p) ClusterAnnotation = Some cluster
     \<and> Distribution (p_Quota p) = None
     \<and> (\<forall>b\<in>set (Budgets (p_Quota p)). Policy b = [] \<and> PerCluster b = [])
     \<and> mset (map (\<lambda>b. (ResourceName b, ResourceFlavor b, Nominal b)) (Budgets (p_Quota p)))
       = (if IsLeaf nd then mset (map (\<lambda>a. (a_ResourceName a, a_ResourceFlavor a, a_Nominal a)) given) else {#})"

lemma budgetSources_pair: "map_of (budgetSources bs) k = Some b \<Longrightarrow> (ResourceName b, ResourceFlavor b) = k"
proof (induction bs arbitrary: b rule: rev_induct)
  case (snoc x xs)
  have "map_of (budgetSources (xs @ [x])) k = (if k = (ResourceName x, ResourceFlavor x) then Some x else map_of (budgetSources xs) k)"
    by (simp add: budgetSources_def gomap_simps)
  then show ?case using snoc by (metis option.inject)
qed (simp add: budgetSources_def)

abbreviation budget_entry :: "'q budget \<Rightarrow> string \<times> string \<times> 'q" where
  "budget_entry b \<equiv> (ResourceName b, ResourceFlavor b, Nominal b)"

abbreviation allowance_entry :: "'q allowance \<Rightarrow> string \<times> string \<times> 'q" where
  "allowance_entry a \<equiv> (a_ResourceName a, a_ResourceFlavor a, a_Nominal a)"

lemma resolveBudget_Inr:
  assumes "resolveBudget src a = Inr b"
  shows "budget_entry b = allowance_entry a \<and> Policy b = [] \<and> PerCluster b = []"
proof -
  obtain c where c: "map_of (budgetSources (Budgets src)) (a_ResourceName a, a_ResourceFlavor a) = Some c" "b = projectBudget c a"
    using assms by (auto simp: resolveBudget_def split: option.splits)
  then show ?thesis using budgetSources_pair [OF c(1)] by (simp add: projectBudget_def)
qed

lemma projectBudgets_Inr:
  assumes "projectBudgets src given = Inr bs"
  shows "mset (map budget_entry bs) = mset (map allowance_entry given)" and "\<forall>b\<in>set bs. Policy b = [] \<and> PerCluster b = []"
proof -
  obtain out where tr: "traverseE (resolveBudget src) given = Inr out"
    and bs: "bs = sort_key (\<lambda>b. (ResourceName b, ResourceFlavor b)) out"
    using assms by (auto simp: projectBudgets_def bindE_Inr)
  have "list_all2 (\<lambda>a b. budget_entry b = allowance_entry a \<and> Policy b = [] \<and> PerCluster b = []) given out"
    by (rule list_all2_mono [OF traverseE_InrD [OF tr] resolveBudget_Inr])
  then have e: "map budget_entry out = map allowance_entry given" and p: "\<forall>b\<in>set out. Policy b = [] \<and> PerCluster b = []"
    by (induction rule: list_all2_induct) simp_all
  have "mset (map budget_entry bs) = mset (map budget_entry out)" unfolding bs mset_map mset_sort ..
  then show "mset (map budget_entry bs) = mset (map allowance_entry given)" unfolding e .
  show "\<forall>b\<in>set bs. Policy b = [] \<and> PerCluster b = []" using p by (simp add: bs)
qed

lemma render_faithful:
  assumes "render nd cluster given origin = Inr p"
  shows "faithful_copy nd cluster given origin p"
proof (cases "IsLeaf nd")
  case True
  then obtain bs where b: "projectBudgets (Quota nd) given = Inr bs"
    and p: "\<lparr>p_Quota = \<lparr>QName = QName (Quota nd), Role = Role (Quota nd), ParentRef = ParentRef (Quota nd),
          PriorityTier = PriorityTier (Quota nd), Distribution = None, Budgets = bs, QUID = [], QGeneration = 0\<rparr>,
        p_Labels = [(OriginLabel, origin)],
        p_Annotations = [(OriginUIDAnnotation, QUID (Quota nd)),
          (SourceGenerationAnnotation, Itoa (QGeneration (Quota nd))), (ClusterAnnotation, cluster)]\<rparr> = p"
    using assms by (auto simp: render_def Let_def bindE_Inr)
  show ?thesis using projectBudgets_Inr [OF b] True by (simp add: faithful_copy_def Name_def flip: p)
next
  case False
  then show ?thesis using assms by (auto simp: faithful_copy_def render_def Let_def Name_def)
qed

text \<open>The fleet a rendering is made from: a tree that \<open>Build\<close> returned, and allowances on nodes placed below its root.\<close>

definition projectable :: "'q quantity_api \<Rightarrow> 'q quota list \<Rightarrow> options \<Rightarrow> 'q tree \<Rightarrow> 'q allowance list \<Rightarrow> bool" where
  "projectable Q qs opts t as \<longleftrightarrow> (\<exists>vs. Build Q qs opts = Inr (t, vs))
     \<and> (\<forall>a\<in>set as. \<exists>d. placed qs (RootName opts) (a_Node a) (Suc d))"

lemma Build_placed_shape:
  assumes "Build Q qs opts = Inr (t, vs)"
  obtains dep where "shape qs dep (nodes t)" "\<And>n d. dep n = Some d \<longleftrightarrow> placed qs (RootName opts) n d"
proof -
  have "RootName opts \<noteq> []" using assms by (auto simp: Build_def)
  then show thesis by (rule Build_parts [where Q = Q and qs = qs]) (use assms that in auto)
qed

lemma placed_top: "placed qs rt n d \<Longrightarrow> climb (refParent qs) d n = Some rt \<and> refParent qs rt = None"
  by (auto simp: placed_def hasRoot_def refParent_def)

lemma sort_sort_key: "sort (map f (sort_key k xs)) = sort (map f xs)"
  by (simp flip: sorted_list_of_multiset_mset)

lemma For_parts:
  assumes "For t cluster as origin = Inr out"
  obtains byNode incl raw where "groupAllowances t as [] = Inr byNode" "incl = fold (includeLeaf t) (map fst byNode) []"
    "traverseE (\<lambda>(n, nd). render nd cluster (allowancesOf byNode n) origin) incl = Inr raw"
    "out = sort_key (\<lambda>p. (get0 (map (\<lambda>(n, nd). (n, depthNumber nd)) incl) (QName (p_Quota p)), QName (p_Quota p))) raw"
  using assms by (auto simp: For_def bindE_Inr Let_def split: if_splits)

lemma include_inv:
  assumes ok: "projectable Q qs opts t as" and sh: "shape qs dep (nodes t)" and g: "groupAllowances t as [] = Inr byNode"
  shows "incl_inv t (\<Union>a\<in>set as. needed qs (a_Node a)) (fold (includeLeaf t) (map fst byNode) [])"
proof -
  have keys: "set (map fst byNode) = a_Node ` set as" using groupAllowances_keys [OF g] by simp
  have "n \<in> QName ` set qs \<and> (\<exists>d r. climb (refParent qs) d n = Some r \<and> refParent qs r = None)" if mem: "n \<in> set (map fst byNode)" for n
  proof -
    obtain a where a: "a \<in> set as" "n = a_Node a" using mem keys by auto
    obtain nd where "lookup t n = Some nd" using groupAllowances_leaf [OF g a(1)] a(2) by auto
    then have "n \<in> QName ` set qs" using shape_lookup [OF sh] by (auto simp: nodeAt_def quotaOf_Some)
    then show ?thesis using ok a placed_top by (fastforce simp: projectable_def)
  qed
  from includeLeaves_inv [OF sh this, of "map fst byNode" "{}" "[]"]
  have "incl_inv t ({} \<union> (\<Union>n\<in>a_Node ` set as. needed qs n)) (fold (includeLeaf t) (map fst byNode) [])"
    unfolding keys by (simp add: incl_inv_def)
  then show ?thesis by simp
qed

text \<open>The names a rendering holds: the leaves with an allowance and every tier above them but the root.\<close>

lemma For_included:
  assumes ok: "projectable Q qs opts t as" and out: "For t cluster as origin = Inr out"
  obtains incl dep where "shape qs dep (nodes t)" "\<And>n d. dep n = Some d \<longleftrightarrow> placed qs (RootName opts) n d"
    "incl_inv t (\<Union>a\<in>set as. needed qs (a_Node a)) incl"
    "map (\<lambda>p. QName (p_Quota p)) (sort_key (\<lambda>p. QName (p_Quota p)) out) = sorted_keys incl"
    "\<And>p. p \<in> set out \<Longrightarrow> \<exists>nd. map_of incl (QName (p_Quota p)) = Some nd
        \<and> faithful_copy nd cluster (filter (\<lambda>a. a_Node a = QName (p_Quota p)) as) origin p"
    "sorted (map (\<lambda>p. (get0 (map (\<lambda>(n, nd). (n, depthNumber nd)) incl) (QName (p_Quota p)), QName (p_Quota p))) out)"
proof -
  obtain vs where b: "Build Q qs opts = Inr (t, vs)" using ok by (auto simp: projectable_def)
  obtain dep where sh: "shape qs dep (nodes t)" and dep: "\<And>n d. dep n = Some d \<longleftrightarrow> placed qs (RootName opts) n d"
    by (rule Build_placed_shape [OF b]) blast
  obtain byNode incl raw where g: "groupAllowances t as [] = Inr byNode" and incl: "incl = fold (includeLeaf t) (map fst byNode) []"
    and raw: "traverseE (\<lambda>(n, nd). render nd cluster (allowancesOf byNode n) origin) incl = Inr raw"
    and srt: "out = sort_key (\<lambda>p. (get0 (map (\<lambda>(n, nd). (n, depthNumber nd)) incl) (QName (p_Quota p)), QName (p_Quota p))) raw"
    by (rule For_parts [OF out])
  have inv: "incl_inv t (\<Union>a\<in>set as. needed qs (a_Node a)) incl" unfolding incl by (rule include_inv [OF ok sh g])
  have given: "allowancesOf byNode n = filter (\<lambda>a. a_Node a = n) as" for n
    using groupAllowances_given [OF g] by (simp add: allowancesOf_def)
  have copies: "list_all2 (\<lambda>e p. QName (p_Quota p) = fst e \<and> faithful_copy (snd e) cluster (filter (\<lambda>a. a_Node a = fst e) as) origin p) incl raw"
  proof (rule list.rel_mono_strong [OF traverseE_InrD [OF raw]])
    fix e p assume e: "e \<in> set incl" and r: "(case e of (n, nd) \<Rightarrow> render nd cluster (allowancesOf byNode n) origin) = Inr p"
    obtain n nd where nnd: "e = (n, nd)" by (cases e)
    then have "map_of incl n = Some nd" using e inv by (simp add: incl_inv_def)
    then have "Name nd = n" using inv lookup_Name [OF sh] by (simp add: incl_inv_def)
    then show "QName (p_Quota p) = fst e \<and> faithful_copy (snd e) cluster (filter (\<lambda>a. a_Node a = fst e) as) origin p"
      using render_faithful [of nd cluster "allowancesOf byNode n" origin p] r nnd by (simp add: given faithful_copy_def)
  qed
  then have "map (\<lambda>p. QName (p_Quota p)) raw = map fst incl" by (simp add: list_all2_conv_all_nth list_eq_iff_nth_eq)
  then have names: "map (\<lambda>p. QName (p_Quota p)) (sort_key (\<lambda>p. QName (p_Quota p)) out) = sorted_keys incl"
    by (simp add: map_sort_key sorted_keys_def srt sort_sort_key)
  show thesis
  proof (rule that [OF sh dep inv names])
    fix p assume "p \<in> set out"
    then have "p \<in> set raw" by (simp add: srt)
    with copies obtain e where "e \<in> set incl" "QName (p_Quota p) = fst e" "faithful_copy (snd e) cluster (filter (\<lambda>a. a_Node a = fst e) as) origin p"
      unfolding list_all2_conv_all_nth by (metis in_set_conv_nth)
    then show "\<exists>nd. map_of incl (QName (p_Quota p)) = Some nd \<and> faithful_copy nd cluster (filter (\<lambda>a. a_Node a = QName (p_Quota p)) as) origin p"
      using inv by (intro exI [of _ "snd e"]) (simp add: incl_inv_def)
  qed (simp_all add: srt)
qed

lemma placed_parent: "placed qs rt n (Suc d) \<Longrightarrow> \<exists>p. refParent qs n = Some p \<and> placed qs rt p d"
  by (auto simp: placed_def split: option.splits)

lemma placed_upward:
  assumes "placed qs rt n d" "x \<in> upward (refParent qs) n"
  shows "\<exists>e. placed qs rt x e"
proof -
  obtain k where k: "climb (refParent qs) k n = Some x" using assms(2) by (auto simp: upward_def)
  have top: "climb (refParent qs) (Suc d) n = None" using placed_top [OF assms(1)] climb_snoc [of "refParent qs" d n] by simp
  have "k \<le> d" using climb_None_mono [OF top, of k] k by (metis not_less_eq_eq option.distinct(1))
  then have "climb (refParent qs) (d - k) x = Some rt"
    using climb_add [of "refParent qs" k "d - k" n] k placed_top [OF assms(1)] by simp
  then show ?thesis using assms(1) by (auto simp: placed_def)
qed

lemma needed_placed:
  assumes "placed qs rt n (Suc d)" "x \<in> needed qs n"
  obtains e where "placed qs rt x (Suc e)"
proof -
  have "n \<in> upward (refParent qs) n" by (simp add: upward_def exI [of _ 0])
  then obtain e where e: "placed qs rt x e" using assms placed_upward [OF assms(1)] by (auto simp: needed_def)
  have "refParent qs x \<noteq> None" using assms placed_parent [OF assms(1)] by (auto simp: needed_def)
  then have "e \<noteq> 0" using placed_top [OF e] by (cases e) auto
  then show thesis using e that by (cases e) auto
qed

lemma needed_descendants:
  assumes "placed qs rt n (Suc d)"
  shows "needed qs n = {x. x \<noteq> rt \<and> n \<in> descendants qs x}"
proof -
  have n: "n \<in> QName ` set qs" using placed_parent [OF assms] by (auto simp: refParent_Some quotaOf_Some)
  have "refParent qs n \<noteq> None" using placed_parent [OF assms] by auto
  moreover have "n \<in> upward (refParent qs) n" by (simp add: upward_def exI [of _ 0])
  ultimately have nd: "needed qs n = {x \<in> upward (refParent qs) n. refParent qs x \<noteq> None}" by (auto simp: needed_def)
  have "refParent qs x \<noteq> None \<longleftrightarrow> x \<noteq> rt" if up: "x \<in> upward (refParent qs) n" for x
  proof -
    obtain e where e: "placed qs rt x e" using placed_upward [OF assms up] ..
    show ?thesis
    proof (cases e)
      case 0
      then show ?thesis using placed_top [OF e] by auto
    next
      case (Suc f)
      then have "refParent qs x \<noteq> None" using placed_parent e by blast
      then show ?thesis using placed_top [OF e] by auto
    qed
  qed
  moreover have "x \<in> upward (refParent qs) n \<longleftrightarrow> n \<in> descendants qs x" for x
    using n by (simp add: upward_def descendants_def)
  ultimately show ?thesis unfolding nd by blast
qed

subsection \<open>When a rendering succeeds\<close>

definition resolvable :: "'q tree \<Rightarrow> 'q allowance \<Rightarrow> bool" where
  "resolvable t a \<longleftrightarrow> (\<exists>nd. lookup t (a_Node a) = Some nd \<and> IsLeaf nd
     \<and> (a_ResourceName a, a_ResourceFlavor a) \<in> (\<lambda>b. (ResourceName b, ResourceFlavor b)) ` set (Budgets (Quota nd)))"

lemma keys_budgetSources: "keys_of (budgetSources bs) = (\<lambda>b. (ResourceName b, ResourceFlavor b)) ` set bs"
  by (induction bs rule: rev_induct) (simp_all add: budgetSources_def keys_of_update)

lemma traverseE_total: "(\<And>x. x \<in> set xs \<Longrightarrow> \<exists>y. f x = Inr y) \<Longrightarrow> \<exists>ys. traverseE f xs = Inr ys"
proof -
  assume "\<And>x. x \<in> set xs \<Longrightarrow> \<exists>y. f x = Inr y"
  then have "f x = Inr (projr (f x))" if "x \<in> set xs" for x using that by force
  from traverseE_Inr [of xs f, OF this] show ?thesis by blast
qed

lemma groupAllowances_total: "\<forall>a\<in>set as. resolvable t a \<Longrightarrow> \<exists>byNode. groupAllowances t as m = Inr byNode"
  by (induction as arbitrary: m) (auto simp: resolvable_def)

lemma render_total:
  assumes "lookup t n = Some nd" "\<forall>a\<in>set given. a_Node a = n \<and> resolvable t a"
  shows "\<exists>p. render nd cluster given origin = Inr p"
proof -
  have "\<exists>b. resolveBudget (Quota nd) a = Inr b" if "a \<in> set given" for a
  proof -
    have "(a_ResourceName a, a_ResourceFlavor a) \<in> keys_of (budgetSources (Budgets (Quota nd)))"
      using assms that by (auto simp: resolvable_def keys_budgetSources)
    then obtain b where "map_of (budgetSources (Budgets (Quota nd))) (a_ResourceName a, a_ResourceFlavor a) = Some b"
      unfolding keys_of_map_of by blast
    then show ?thesis by (simp add: resolveBudget_def)
  qed
  then obtain out where "traverseE (resolveBudget (Quota nd)) given = Inr out" using traverseE_total by blast
  then show ?thesis by (simp add: render_def Let_def projectBudgets_def)
qed

lemma For_total:
  assumes ok: "projectable Q qs opts t as" and ne: "cluster \<noteq> []" "origin \<noteq> []" and res: "\<forall>a\<in>set as. resolvable t a"
  shows "\<exists>out. For t cluster as origin = Inr out"
proof -
  obtain vs where b: "Build Q qs opts = Inr (t, vs)" using ok by (auto simp: projectable_def)
  obtain dep where sh: "shape qs dep (nodes t)" by (rule Build_placed_shape [OF b]) blast
  obtain byNode where g: "groupAllowances t as [] = Inr byNode" using groupAllowances_total [OF res] by blast
  let ?incl = "fold (includeLeaf t) (map fst byNode) []"
  have inv: "incl_inv t (\<Union>a\<in>set as. needed qs (a_Node a)) ?incl" by (rule include_inv [OF ok sh g])
  have "\<exists>p. (case e of (n, nd) \<Rightarrow> render nd cluster (allowancesOf byNode n) origin) = Inr p" if "e \<in> set ?incl" for e
  proof -
    obtain n nd where e: "e = (n, nd)" by (cases e)
    then have "lookup t n = Some nd" using that inv by (simp add: incl_inv_def)
    moreover have "allowancesOf byNode n = filter (\<lambda>a. a_Node a = n) as"
      using groupAllowances_given [OF g] by (simp add: allowancesOf_def)
    ultimately show ?thesis using render_total [of t n nd "allowancesOf byNode n"] res e by simp
  qed
  then obtain raw where "traverseE (\<lambda>(n, nd). render nd cluster (allowancesOf byNode n) origin) ?incl = Inr raw"
    using traverseE_total [of ?incl "\<lambda>(n, nd). render nd cluster (allowancesOf byNode n) origin"] by blast
  then show ?thesis using ne by (simp add: For_def g)
qed

lemma projectable_placed: "projectable Q qs opts t as \<Longrightarrow> a \<in> set as \<Longrightarrow> \<exists>d. placed qs (RootName opts) (a_Node a) (Suc d)"
  by (simp add: projectable_def)

lemma needed_all:
  assumes "projectable Q qs opts t as"
  shows "(\<Union>a\<in>set as. needed qs (a_Node a)) = {n. n \<noteq> RootName opts \<and> (\<exists>a\<in>set as. a_Node a \<in> descendants qs n)}"
proof -
  have "needed qs (a_Node a) = {x. x \<noteq> RootName opts \<and> a_Node a \<in> descendants qs x}" if "a \<in> set as" for a
    using projectable_placed [OF assms that] needed_descendants by blast
  then show ?thesis by auto
qed

text \<open>The parent of a needed node is the root or needed as well, one level up.\<close>

lemma needed_parent:
  assumes ok: "projectable Q qs opts t as" and x: "x \<in> (\<Union>a\<in>set as. needed qs (a_Node a))"
  obtains p e where "refParent qs x = Some p" "placed qs (RootName opts) x (Suc e)" "placed qs (RootName opts) p e"
    "p = RootName opts \<or> p \<in> (\<Union>a\<in>set as. needed qs (a_Node a))"
proof -
  obtain a where a: "a \<in> set as" "x \<in> needed qs (a_Node a)" using x by blast
  obtain d where d: "placed qs (RootName opts) (a_Node a) (Suc d)" using projectable_placed [OF ok a(1)] ..
  obtain e where e: "placed qs (RootName opts) x (Suc e)" by (rule needed_placed [OF d a(2)])
  obtain p where p: "refParent qs x = Some p" "placed qs (RootName opts) p e" using placed_parent [OF e] by blast
  have "a_Node a \<in> descendants qs x" using a(2) needed_descendants [OF d] by simp
  then obtain k where "a_Node a \<in> QName ` set qs" "climb (refParent qs) k (a_Node a) = Some x" by (auto simp: descendants_def)
  then have "climb (refParent qs) (Suc k) (a_Node a) = Some p \<and> a_Node a \<in> QName ` set qs"
    using p(1) climb_snoc [of "refParent qs" k "a_Node a"] by simp
  then have "a_Node a \<in> descendants qs p" unfolding descendants_def by blast
  then have "p = RootName opts \<or> p \<in> needed qs (a_Node a)" using needed_descendants [OF d] by simp
  then show thesis using that [OF p(1) e p(2)] a(1) by blast
qed

lemma lookup_ParentRef:
  "shape qs dep (nodes t) \<Longrightarrow> lookup t n = Some nd \<Longrightarrow> refParent qs n = Some p \<Longrightarrow> ParentRef (Quota nd) = Some p"
  by (auto simp: shape_lookup nodeAt_def refParent_Some)

lemma incl_depth:
  assumes sh: "shape qs dep (nodes t)" and dep: "\<And>n d. dep n = Some d \<longleftrightarrow> placed qs rt n d"
    and inv: "incl_inv t S incl" and x: "x \<in> S" "placed qs rt x d"
  shows "get0 (map (\<lambda>(n, nd). (n, depthNumber nd)) incl) x = int d"
proof -
  obtain nd where nd: "map_of incl x = Some nd" using x(1) inv by (auto simp: incl_inv_def keys_of_map_of)
  then have "lookup t x = Some nd" using inv by (simp add: incl_inv_def)
  then have "Depth nd = Some d" using dep [of x d] x(2) by (auto simp: shape_lookup [OF sh] nodeAt_def)
  then show ?thesis using nd by (simp add: get0_def map_of_map [unfolded comp_def] depthNumber_def)
qed

lemma For_copies:
  assumes ok: "projectable Q qs opts t as" and out: "For t cluster as origin = Inr out"
  shows "distinct (map (\<lambda>p. QName (p_Quota p)) out)"
    and "(\<lambda>p. QName (p_Quota p)) ` set out = (\<Union>a\<in>set as. needed qs (a_Node a))"
    and "p \<in> set out \<Longrightarrow> \<exists>nd. lookup t (QName (p_Quota p)) = Some nd
      \<and> faithful_copy nd cluster (filter (\<lambda>a. a_Node a = QName (p_Quota p)) as) origin p"
proof -
  let ?nm = "\<lambda>p. QName (p_Quota p)" and ?S = "\<Union>a\<in>set as. needed qs (a_Node a)"
  obtain incl where inv: "incl_inv t ?S incl" and names: "map ?nm (sort_key ?nm out) = sorted_keys incl"
    and copy: "\<And>p. p \<in> set out \<Longrightarrow> \<exists>nd. map_of incl (?nm p) = Some nd \<and> faithful_copy nd cluster (filter (\<lambda>a. a_Node a = ?nm p) as) origin p"
    by (rule For_included [OF ok out]) blast
  have "distinct (map ?nm (sort_key ?nm out))" using inv by (simp add: names incl_inv_def)
  then show "distinct (map ?nm out)" by (simp add: map_sort_key)
  have "set (map ?nm (sort_key ?nm out)) = ?S" using inv by (simp only: names set_sorted_keys) (simp add: incl_inv_def)
  then show "?nm ` set out = ?S" by simp
  show "p \<in> set out \<Longrightarrow> \<exists>nd. lookup t (?nm p) = Some nd \<and> faithful_copy nd cluster (filter (\<lambda>a. a_Node a = ?nm p) as) origin p"
    using copy [of p] inv by (auto simp: incl_inv_def)
qed

text \<open>
  C12: \<open>For\<close> renders a tree the member can apply one object at a time, for every list of allowances
  that name a budget of a placed leaf. The copies are the nodes with an
  allowance and every tier above them except the reserved root, each once. A copy's parent is the
  root, or comes earlier in the list. Each copy keeps the source's role and parent, carries the
  origin and the cluster, and its budgets are exactly the resolved allowances of its node, with no
  policy, no distribution and no per-cluster split; a grouping tier has none.
\<close>

theorem For_parents_first:
  assumes ok: "projectable Q qs opts t as" and ne: "cluster \<noteq> []" "origin \<noteq> []" and res: "\<forall>a\<in>set as. resolvable t a"
  shows "\<exists>out. For t cluster as origin = Inr out
    \<and> distinct (map (\<lambda>p. QName (p_Quota p)) out)
    \<and> set (map (\<lambda>p. QName (p_Quota p)) out) = {n. n \<noteq> RootName opts \<and> (\<exists>a\<in>set as. a_Node a \<in> descendants qs n)}
    \<and> (\<forall>i<length out. ParentRef (p_Quota (out ! i)) = Some (RootName opts)
         \<or> (\<exists>j<i. ParentRef (p_Quota (out ! i)) = Some (QName (p_Quota (out ! j)))))
    \<and> (\<forall>p\<in>set out. \<exists>nd. lookup t (QName (p_Quota p)) = Some nd
         \<and> faithful_copy nd cluster (filter (\<lambda>a. a_Node a = QName (p_Quota p)) as) origin p)"
proof -
  obtain out where out: "For t cluster as origin = Inr out" using For_total [OF ok ne res] ..
  let ?nm = "\<lambda>p. QName (p_Quota p)" and ?S = "\<Union>a\<in>set as. needed qs (a_Node a)"
  obtain incl dep where sh: "shape qs dep (nodes t)" and dep: "\<And>n d. dep n = Some d \<longleftrightarrow> placed qs (RootName opts) n d"
    and inv: "incl_inv t ?S incl"
    and srt: "sorted (map (\<lambda>p. (get0 (map (\<lambda>(n, nd). (n, depthNumber nd)) incl) (?nm p), ?nm p)) out)"
    by (rule For_included [OF ok out]) blast
  have dist: "distinct (map ?nm out)" and members: "set (map ?nm out) = ?S" and copies: "\<And>p. p \<in> set out \<Longrightarrow>
      \<exists>nd. lookup t (?nm p) = Some nd \<and> faithful_copy nd cluster (filter (\<lambda>a. a_Node a = ?nm p) as) origin p"
    using For_copies [OF ok out] by simp_all
  have "ParentRef (p_Quota (out ! i)) = Some (RootName opts) \<or> (\<exists>j<i. ParentRef (p_Quota (out ! i)) = Some (?nm (out ! j)))"
    if i: "i < length out" for i
  proof -
    let ?x = "?nm (out ! i)"
    have x: "?x \<in> ?S" using members i by (metis length_map nth_map nth_mem)
    obtain p e where p: "refParent qs ?x = Some p" "placed qs (RootName opts) ?x (Suc e)" "placed qs (RootName opts) p e"
      and pS: "p = RootName opts \<or> p \<in> ?S" by (rule needed_parent [OF ok x])
    obtain nd where nd: "lookup t ?x = Some nd" "faithful_copy nd cluster (filter (\<lambda>a. a_Node a = ?x) as) origin (out ! i)"
      using copies [of "out ! i"] i by auto
    then have pr: "ParentRef (p_Quota (out ! i)) = Some p"
      using lookup_ParentRef [OF sh nd(1) p(1)] by (simp add: faithful_copy_def)
    have "\<exists>j<i. ?nm (out ! j) = p" if "p \<in> ?S"
    proof -
      obtain j where j: "j < length out" "?nm (out ! j) = p" using \<open>p \<in> ?S\<close> members [symmetric] by (auto simp: in_set_conv_nth)
      have False if "i \<le> j"
        using sorted_nth_mono [OF srt that] j i incl_depth [OF sh dep inv x p(2)] incl_depth [OF sh dep inv \<open>p \<in> ?S\<close> p(3)]
        by (simp add: less_eq_prod_def)
      then have "j < i" by (meson not_le)
      then show ?thesis using j(2) by blast
    qed
    then show ?thesis using pr pS by auto
  qed
  then show ?thesis using out dist members copies needed_all [OF ok] by auto
qed

definition teamAllowances :: "(dec \<times> string) allowance list" where
  "teamAllowances = [\<lparr>a_Node = ''team-b'', a_ResourceName = ResourceName (tpu 0), a_ResourceFlavor = ResourceFlavor (tpu 0), a_Nominal = whole 10\<rparr>]"

theorem For_parents_first_witness:
  "\<exists>t vs out. Build exact_api healthyFleet fleetOptions = Inr (t, vs) \<and> For t ''c1'' teamAllowances ''hub'' = Inr out
    \<and> ''org'' \<in> (\<lambda>p. QName (p_Quota p)) ` set out"
proof -
  obtain t nd where b: "Build exact_api healthyFleet fleetOptions = Inr (t, [])"
    and nd: "lookup t ''team-b'' = Some nd" "IsLeaf nd" "Quota nd = leaf ''team-b'' (Some ''org'') 40"
    by (rule healthy_leaf)
  have "climb (refParent healthyFleet) (Suc 1) ''team-b'' = Some (RootName fleetOptions)" by code_simp
  moreover have "quotaOf healthyFleet (RootName fleetOptions) = Some (cohort ''root'' None 128)" by code_simp
  then have "hasRoot healthyFleet (RootName fleetOptions)" by (simp add: hasRoot_def cohort_def)
  ultimately have pl: "placed healthyFleet (RootName fleetOptions) ''team-b'' (Suc 1)" unfolding placed_def by blast
  have "projectable exact_api healthyFleet fleetOptions t teamAllowances" using b pl by (auto simp: projectable_def teamAllowances_def)
  moreover have "\<forall>a\<in>set teamAllowances. resolvable t a" using nd by (simp add: teamAllowances_def resolvable_def leaf_def tpu_def)
  moreover have "''team-b'' \<in> descendants healthyFleet ''org''"
  proof -
    have "climb (refParent healthyFleet) 1 ''team-b'' = Some ''org''" by code_simp
    moreover have "''team-b'' \<in> QName ` set healthyFleet" by (simp add: healthyFleet_def leaf_def)
    ultimately show ?thesis unfolding descendants_def by blast
  qed
  ultimately show ?thesis
    using For_parents_first [of exact_api healthyFleet fleetOptions t teamAllowances "''c1''" "''hub''"] b
    by (auto simp: teamAllowances_def fleetOptions_def)
qed

end
