(* ===== verification/Quota_Allowances.thy ===== *)
theory Quota_Allowances
  imports Quota_Projection Quota_Shares
begin

section \<open>Resolving the fleet's budgets into allowances (pkg/quota/projection/allowances.go)\<close>

text \<open>
  \<open>Resolve\<close> computes what every leaf of the tree may use on every cluster: it takes an explicit split
  verbatim once it adds up, divides a proportional budget by the capacity the members report, and
  records a leaf it cannot split as unresolved, with a reason. The reasons are values here where the
  code formats a message. \<^verbatim>\<open>Capacity.ObservedAt\<close> is carried by the code for its callers and not
  read by it; it is left out.

  The maps the code builds are read by key or sorted, so the order of their entries does not matter.
\<close>

subsection \<open>Data\<close>

record 'q member_capacity =
  mc_Cluster :: name
  mc_ResourceName :: string
  mc_ResourceFlavor :: string
  mc_Allocatable :: 'q
  mc_HighWaterMark :: 'q

record 'q fleet =
  Registered :: "name list"
  Reported :: "name list"
  Capacity :: "'q member_capacity list"

datatype 'q unresolved_reason =
    HoldingFor string string "name list"
  | NothingReported string string
  | SplitFailed string string "'q share_error"
  | NoPolicy string string
  | NoClusterShares string string
  | NamedTwice string string name
  | SharesSumTo string string 'q 'q

record 'q resolution =
  ByCluster :: "(name, 'q allowance list) gomap"
  Unresolved :: "(name, 'q unresolved_reason) gomap"

record 'q placed_allowance =
  pa_cluster :: name
  pa_home :: bool
  pa_Allowance :: "'q allowance"

abbreviation DistributionExplicit :: string where "DistributionExplicit \<equiv> ''Explicit''"
abbreviation DistributionProportional :: string where "DistributionProportional \<equiv> ''Proportional''"

type_synonym pair = "string \<times> string"

subsection \<open>Operations\<close>

definition silent :: "'q fleet \<Rightarrow> name list" where
  "silent f = sort (filter (\<lambda>c. c \<notin> set (Reported f)) (Registered f))"

definition weightsOf :: "(pair, 'q weight list) gomap \<Rightarrow> pair \<Rightarrow> 'q weight list" where
  "weightsOf m k = (case map_of m k of None \<Rightarrow> [] | Some ws \<Rightarrow> ws)"

definition addWeight :: "'q member_capacity \<Rightarrow> (pair, 'q weight list) gomap \<Rightarrow> (pair, 'q weight list) gomap" where
  "addWeight c m =
     (let k = (mc_ResourceName c, mc_ResourceFlavor c)
      in AList.update k (weightsOf m k @ [\<lparr>w_cluster = mc_Cluster c, w_capacity = mc_Allocatable c\<rparr>]) m)"

definition byPairOf :: "'q member_capacity list \<Rightarrow> (pair, 'q weight list) gomap" where
  "byPairOf cs = map (\<lambda>(k, ws). (k, sort_key w_cluster ws)) (fold addWeight cs [])"

definition homesOf :: "'q quantity_api \<Rightarrow> 'q member_capacity list \<Rightarrow> (pair \<times> name) list" where
  "homesOf Q cs = map (\<lambda>c. ((mc_ResourceName c, mc_ResourceFlavor c), mc_Cluster c))
     (filter (\<lambda>c. q_sign Q (mc_HighWaterMark c) \<noteq> 0) cs)"

definition effectivePolicy :: "'q quota \<Rightarrow> 'q budget \<Rightarrow> string \<Rightarrow> string" where
  "effectivePolicy q b defaultPolicy =
     (if Policy b \<noteq> [] then Policy b
      else (case Distribution q of
              Some p \<Rightarrow> if p \<noteq> [] then p else defaultPolicy
            | None \<Rightarrow> defaultPolicy))"

fun explicitShares :: "'q budget \<Rightarrow> name list \<Rightarrow> (name \<times> 'q) list \<Rightarrow> 'q unresolved_reason + 'q share list" where
  "explicitShares b seen [] = Inr []"
| "explicitShares b seen ((c, n) # ps) =
     (if c \<in> set seen then Inl (NamedTwice (ResourceName b) (ResourceFlavor b) c)
      else bindE (explicitShares b (c # seen) ps) (\<lambda>out. Inr (\<lparr>s_cluster = c, s_nominal = n\<rparr> # out)))"

definition explicit :: "'q quantity_api \<Rightarrow> 'q budget \<Rightarrow> 'q unresolved_reason + 'q share list" where
  "explicit Q b =
     (if PerCluster b = [] then Inl (NoClusterShares (ResourceName b) (ResourceFlavor b))
      else bindE (explicitShares b [] (PerCluster b)) (\<lambda>out.
        if q_cmp Q (Sum Q out) (Nominal b) \<noteq> 0
        then Inl (SharesSumTo (ResourceName b) (ResourceFlavor b) (Nominal b) (Sum Q out))
        else Inr (sort_key s_cluster out)))"

definition attach :: "name \<Rightarrow> 'q budget \<Rightarrow> 'q share list \<Rightarrow> 'q placed_allowance list" where
  "attach n b split =
     map (\<lambda>s. \<lparr>pa_cluster = s_cluster s, pa_home = False,
        pa_Allowance = \<lparr>a_Node = n, a_ResourceName = ResourceName b, a_ResourceFlavor = ResourceFlavor b,
          a_Nominal = s_nominal s\<rparr>\<rparr>) split"

definition resolveBudgetOf :: "'q quantity_api \<Rightarrow> 'q node \<Rightarrow> (pair, 'q weight list) gomap \<Rightarrow> (pair \<times> name) list \<Rightarrow> name list \<Rightarrow> string
    \<Rightarrow> 'q budget \<Rightarrow> 'q unresolved_reason + 'q placed_allowance list" where
  "resolveBudgetOf Q lf byPair homes sil defaultPolicy b =
     (let policy = effectivePolicy (Quota lf) b defaultPolicy; k = (ResourceName b, ResourceFlavor b)
      in if policy = DistributionExplicit then
           bindE (explicit Q b) (\<lambda>split. Inr (attach (Name lf) b split))
         else if policy = DistributionProportional then
           (if sil \<noteq> [] then Inl (HoldingFor (ResourceName b) (ResourceFlavor b) sil)
            else if weightsOf byPair k = [] then Inl (NothingReported (ResourceName b) (ResourceFlavor b))
            else (case Proportional Q (Nominal b) (weightsOf byPair k) of
                    Inl e \<Rightarrow> Inl (SplitFailed (ResourceName b) (ResourceFlavor b) e)
                  | Inr split \<Rightarrow> Inr (map (\<lambda>a. a\<lparr>pa_home := (k, pa_cluster a) \<in> set homes\<rparr>) (attach (Name lf) b split))))
         else Inl (NoPolicy (ResourceName b) (ResourceFlavor b)))"

fun resolveBudgets :: "('q budget \<Rightarrow> 'q unresolved_reason + 'q placed_allowance list) \<Rightarrow> 'q budget list
    \<Rightarrow> 'q placed_allowance list \<Rightarrow> 'q unresolved_reason + 'q placed_allowance list" where
  "resolveBudgets f [] out = Inr out"
| "resolveBudgets f (b # bs) out =
     (case f b of Inl e \<Rightarrow> Inl e | Inr as \<Rightarrow> resolveBudgets f bs (out @ as))"

definition resolveLeaf :: "'q quantity_api \<Rightarrow> 'q node \<Rightarrow> (pair, 'q weight list) gomap \<Rightarrow> (pair \<times> name) list \<Rightarrow> name list \<Rightarrow> string
    \<Rightarrow> 'q unresolved_reason + 'q placed_allowance list" where
  "resolveLeaf Q lf byPair homes sil defaultPolicy =
     resolveBudgets (resolveBudgetOf Q lf byPair homes sil defaultPolicy) (Budgets (Quota lf)) []"

definition onItsClusters :: "'q quantity_api \<Rightarrow> 'q placed_allowance list \<Rightarrow> 'q placed_allowance list" where
  "onItsClusters Q resolved =
     (let keep = map pa_cluster (filter (\<lambda>a. pa_home a \<or> q_sign Q (a_Nominal (pa_Allowance a)) \<noteq> 0) resolved)
      in filter (\<lambda>a. pa_cluster a \<in> set keep) resolved)"

definition addAllowance :: "'q placed_allowance \<Rightarrow> (name, 'q allowance list) gomap \<Rightarrow> (name, 'q allowance list) gomap" where
  "addAllowance a m = AList.update (pa_cluster a) (allowancesOf m (pa_cluster a) @ [pa_Allowance a]) m"

definition resolveStep :: "'q quantity_api \<Rightarrow> (pair, 'q weight list) gomap \<Rightarrow> (pair \<times> name) list \<Rightarrow> name list \<Rightarrow> string
    \<Rightarrow> 'q node \<Rightarrow> 'q resolution \<Rightarrow> 'q resolution" where
  "resolveStep Q byPair homes sil defaultPolicy lf out =
     (case resolveLeaf Q lf byPair homes sil defaultPolicy of
        Inl reason \<Rightarrow> out\<lparr>Unresolved := AList.update (Name lf) reason (Unresolved out)\<rparr>
      | Inr resolved \<Rightarrow> out\<lparr>ByCluster := fold addAllowance (onItsClusters Q resolved) (ByCluster out)\<rparr>)"

definition Resolve :: "'q quantity_api \<Rightarrow> 'q tree \<Rightarrow> 'q fleet \<Rightarrow> string \<Rightarrow> 'q resolution" where
  "Resolve Q t f defaultPolicy =
     (let out = fold (resolveStep Q (byPairOf (Capacity f)) (homesOf Q (Capacity f)) (silent f) defaultPolicy)
                  (Leaves t) \<lparr>ByCluster = [], Unresolved = []\<rparr>
      in out\<lparr>ByCluster := map (\<lambda>(c, as). (c, sort_key (\<lambda>a. (a_Node a, a_ResourceName a, a_ResourceFlavor a)) as)) (ByCluster out)\<rparr>)"

subsection \<open>The value of a list of allowances\<close>

definition allowed :: "'q quantity_api \<Rightarrow> name \<Rightarrow> pair \<Rightarrow> 'q allowance list \<Rightarrow> rat" where
  "allowed Q n k as =
     (\<Sum>a\<leftarrow>filter (\<lambda>a. a_Node a = n \<and> (a_ResourceName a, a_ResourceFlavor a) = k) as. qval Q (a_Nominal a))"

definition granted :: "'q quantity_api \<Rightarrow> (name, 'q allowance list) gomap \<Rightarrow> name \<Rightarrow> pair \<Rightarrow> rat" where
  "granted Q m n k = (\<Sum>as\<leftarrow>map snd m. allowed Q n k as)"

definition authored :: "'q quantity_api \<Rightarrow> pair \<Rightarrow> 'q budget list \<Rightarrow> rat" where
  "authored Q k bs = (\<Sum>b\<leftarrow>filter (\<lambda>b. (ResourceName b, ResourceFlavor b) = k) bs. qval Q (Nominal b))"

definition members :: "(name, 'q allowance list) gomap \<Rightarrow> 'q allowance set" where
  "members m = {a. \<exists>c as. map_of m c = Some as \<and> a \<in> set as}"

definition holders :: "(name, 'q allowance list) gomap \<Rightarrow> name set" where
  "holders m = a_Node ` members m"

lemma allowed_simps [simp]:
  "allowed Q n k [] = 0" "allowed Q n k (as @ bs) = allowed Q n k as + allowed Q n k bs"
  by (simp_all add: allowed_def)

lemma allowed_sort [simp]: "allowed Q n k (sort_key f as) = allowed Q n k as"
  by (simp add: allowed_def filter_sort sum_list_sort_key)

lemma granted_addAllowance:
  assumes "gomap_ok m"
  shows "granted Q (addAllowance a m) n k = granted Q m n k + allowed Q n k [pa_Allowance a]"
  unfolding granted_def addAllowance_def
  by (subst sum_list_update [OF assms]) (simp add: allowancesOf_def split: option.split)

lemma addAllowances:
  "gomap_ok m \<Longrightarrow> gomap_ok (fold addAllowance as m) \<and> granted Q (fold addAllowance as m) n k = granted Q m n k + allowed Q n k (map pa_Allowance as)"
proof (induction as arbitrary: m)
  case (Cons a as)
  have "gomap_ok (addAllowance a m)" using Cons.prems by (auto simp: addAllowance_def)
  from Cons.IH [OF this] show ?case
    using granted_addAllowance [OF Cons.prems, of Q a n k] allowed_simps(2) [of Q n k "[pa_Allowance a]" "map pa_Allowance as"] by simp
qed simp

subsection \<open>One leaf\<close>

lemma explicitShares_val: "explicitShares b seen ps = Inr out \<Longrightarrow> map s_cluster out = map fst ps \<and> map s_nominal out = map snd ps"
  by (induction b seen ps arbitrary: out rule: explicitShares.induct) (auto simp: bindE_Inr split: if_splits)

lemma explicit_val:
  assumes "quantity Q" "explicit Q b = Inr split"
  shows "(\<Sum>s\<leftarrow>split. qval Q (s_nominal s)) = qval Q (Nominal b)"
proof -
  obtain out where "split = sort_key s_cluster out" "q_cmp Q (Sum Q out) (Nominal b) = 0"
    using assms(2) by (auto simp: explicit_def bindE_Inr split: if_splits)
  then show ?thesis using quantity.cmp_eq [OF assms(1)] Sum_val [OF assms(1), of out] by (simp add: sum_list_sort_key)
qed

lemma attach_val:
  "allowed Q n k (map pa_Allowance (attach n' b split))
   = (if n = n' \<and> (ResourceName b, ResourceFlavor b) = k then \<Sum>s\<leftarrow>split. qval Q (s_nominal s) else 0)"
  by (induction split) (auto simp: attach_def allowed_def)

text \<open>An allowance of the node \<open>n\<close> for a pair one of the budgets \<open>bs\<close> has.\<close>

definition allowance_of :: "name \<Rightarrow> 'q budget list \<Rightarrow> 'q allowance \<Rightarrow> bool" where
  "allowance_of n bs a \<longleftrightarrow> a_Node a = n
     \<and> (a_ResourceName a, a_ResourceFlavor a) \<in> (\<lambda>b. (ResourceName b, ResourceFlavor b)) ` set bs"

lemma attach_of: "a \<in> set (attach n b split) \<Longrightarrow> b \<in> set bs \<Longrightarrow> allowance_of n bs (pa_Allowance a)"
  by (auto simp: attach_def allowance_of_def)

lemma map_home: "map pa_Allowance (map (\<lambda>a. a\<lparr>pa_home := h a\<rparr>) xs) = map pa_Allowance xs"
  by simp

lemma resolveBudgetOf_val:
  assumes "quantity Q" "resolveBudgetOf Q lf byPair homes sil dp b = Inr as"
  shows "allowed Q (Name lf) k (map pa_Allowance as) = authored Q k [b]"
    and "b \<in> set bs \<Longrightarrow> \<forall>a\<in>set as. allowance_of (Name lf) bs (pa_Allowance a)"
proof -
  obtain split where s: "map pa_Allowance as = map pa_Allowance (attach (Name lf) b split)"
    "(\<Sum>s\<leftarrow>split. qval Q (s_nominal s)) = qval Q (Nominal b)"
    using assms(2) explicit_val [OF assms(1)] Proportional_values [OF assms(1)]
    by (auto simp: resolveBudgetOf_def Let_def bindE_Inr comp_def split: if_splits sum.splits)
  then show "allowed Q (Name lf) k (map pa_Allowance as) = authored Q k [b]"
    by (simp add: attach_val authored_def)
  have "pa_Allowance ` set as = pa_Allowance ` set (attach (Name lf) b split)" using s(1) by (metis set_map)
  then show "b \<in> set bs \<Longrightarrow> \<forall>a\<in>set as. allowance_of (Name lf) bs (pa_Allowance a)"
    using attach_of by (metis (no_types, lifting) image_iff imageI)
qed

lemma authored_Cons: "authored Q k (b # bs) = authored Q k [b] + authored Q k bs"
  by (simp add: authored_def)

lemma resolveBudgets_val:
  assumes "\<And>b as. b \<in> set bs \<Longrightarrow> f b = Inr as \<Longrightarrow> allowed Q n k (map pa_Allowance as) = authored Q k [b] \<and> (\<forall>a\<in>set as. P (pa_Allowance a))"
    and "resolveBudgets f bs out = Inr res" "\<forall>a\<in>set out. P (pa_Allowance a)"
  shows "allowed Q n k (map pa_Allowance res) = allowed Q n k (map pa_Allowance out) + authored Q k bs
    \<and> (\<forall>a\<in>set res. P (pa_Allowance a))"
  using assms
proof (induction bs arbitrary: out)
  case Nil
  then show ?case by (simp add: authored_def)
next
  case (Cons b bs)
  obtain as where as: "f b = Inr as" "resolveBudgets f bs (out @ as) = Inr res" using Cons.prems(2) by (auto split: sum.splits)
  note this_b = Cons.prems(1) [OF _ as(1)]
  have "allowed Q n k (map pa_Allowance res) = allowed Q n k (map pa_Allowance (out @ as)) + authored Q k bs
      \<and> (\<forall>a\<in>set res. P (pa_Allowance a))"
    using Cons.prems(1,3) this_b by (intro Cons.IH [OF _ as(2)]) auto
  then show ?case using this_b by (simp add: authored_Cons [of Q k b bs])
qed

lemma resolveBudgets_Inr_iff: "(\<exists>res. resolveBudgets f bs out = Inr res) \<longleftrightarrow> (\<forall>b\<in>set bs. \<exists>as. f b = Inr as)"
proof (induction bs arbitrary: out)
  case (Cons b bs)
  then show ?case by (cases "f b") simp_all
qed simp

lemma resolveLeaf_val:
  assumes "quantity Q" "resolveLeaf Q lf byPair homes sil dp = Inr res"
  shows "allowed Q (Name lf) k (map pa_Allowance res) = authored Q k (Budgets (Quota lf))
    \<and> (\<forall>a\<in>set res. allowance_of (Name lf) (Budgets (Quota lf)) (pa_Allowance a))"
  using resolveBudgets_val [OF _ assms(2) [unfolded resolveLeaf_def], of Q "Name lf" k "allowance_of (Name lf) (Budgets (Quota lf))"]
    resolveBudgetOf_val [OF assms(1)] by simp

lemma allowed_drop_zero:
  "(\<And>a. a \<in> set as \<Longrightarrow> \<not> P a \<Longrightarrow> qval Q (a_Nominal (pa_Allowance a)) = 0)
    \<Longrightarrow> allowed Q n k (map pa_Allowance (filter P as)) = allowed Q n k (map pa_Allowance as)"
  by (induction as) (auto simp: allowed_def)

lemma onItsClusters_val:
  assumes "quantity Q"
  shows "allowed Q n k (map pa_Allowance (onItsClusters Q as)) = allowed Q n k (map pa_Allowance as)"
  unfolding onItsClusters_def Let_def
  by (rule allowed_drop_zero) (auto simp: image_iff quantity.sign_val [OF assms] split: if_splits)

lemma set_onItsClusters: "set (onItsClusters Q as) \<subseteq> set as"
  by (auto simp: onItsClusters_def)

lemma allowed_other: "\<forall>a\<in>set as. a_Node (pa_Allowance a) \<noteq> n \<Longrightarrow> allowed Q n k (map pa_Allowance as) = 0"
  by (induction as) (auto simp: allowed_def)

subsection \<open>All the leaves\<close>

lemma members_addAllowances: "members (fold addAllowance as m) \<subseteq> members m \<union> pa_Allowance ` set as"
proof (induction as arbitrary: m)
  case (Cons a as)
  have "members (addAllowance a m) \<subseteq> insert (pa_Allowance a) (members m)"
    by (cases "map_of m (pa_cluster a)")
      (fastforce simp: members_def addAllowance_def allowancesOf_def gomap_simps split: if_splits)+
  then show ?case using Cons [of "addAllowance a m"] by auto
qed simp

text \<open>What the loop has computed after the leaves \<open>ls\<close>.\<close>

definition resolve_inv :: "'q quantity_api \<Rightarrow> ('q node \<Rightarrow> 'q unresolved_reason + 'q placed_allowance list) \<Rightarrow> 'q node list \<Rightarrow> 'q resolution \<Rightarrow> bool" where
  "resolve_inv Q resolve ls out \<longleftrightarrow>
     gomap_ok (ByCluster out)
     \<and> (\<forall>a\<in>members (ByCluster out). \<exists>lf\<in>set ls. (\<exists>as. resolve lf = Inr as) \<and> allowance_of (Name lf) (Budgets (Quota lf)) a)
     \<and> keys_of (Unresolved out) = Name ` {lf \<in> set ls. \<exists>e. resolve lf = Inl e}
     \<and> (\<forall>lf\<in>set ls. \<forall>as k. resolve lf = Inr as \<longrightarrow> granted Q (ByCluster out) (Name lf) k = authored Q k (Budgets (Quota lf)))"

definition granted_zero :: "'q quantity_api \<Rightarrow> 'q node list \<Rightarrow> 'q resolution \<Rightarrow> bool" where
  "granted_zero Q ls out \<longleftrightarrow> (\<forall>n k. n \<notin> Name ` set ls \<longrightarrow> granted Q (ByCluster out) n k = 0)"

lemma resolveStep_inv:
  assumes Q: "quantity Q" and r: "\<And>lf. resolve lf = resolveLeaf Q lf byPair homes sil dp"
    and inv: "resolve_inv Q resolve ls out" "granted_zero Q ls out" and new: "Name lf \<notin> Name ` set ls"
  shows "resolve_inv Q resolve (ls @ [lf]) (resolveStep Q byPair homes sil dp lf out)
    \<and> granted_zero Q (ls @ [lf]) (resolveStep Q byPair homes sil dp lf out)"
proof (cases "resolve lf")
  case (Inl e)
  then have "resolveStep Q byPair homes sil dp lf out = out\<lparr>Unresolved := AList.update (Name lf) e (Unresolved out)\<rparr>"
    by (simp add: resolveStep_def flip: r)
  then show ?thesis using inv Inl by (auto simp: resolve_inv_def granted_zero_def gomap_simps)
next
  case (Inr as)
  let ?m = "fold addAllowance (onItsClusters Q as) (ByCluster out)"
  have step: "resolveStep Q byPair homes sil dp lf out = out\<lparr>ByCluster := ?m\<rparr>"
    using Inr by (simp add: resolveStep_def flip: r)
  note val = resolveLeaf_val [OF Q Inr [unfolded r]]
  have ok: "gomap_ok (ByCluster out)" using inv(1) by (simp add: resolve_inv_def)
  have g: "granted Q ?m n k = granted Q (ByCluster out) n k + (if n = Name lf then authored Q k (Budgets (Quota lf)) else 0)" for n k
  proof -
    have "allowed Q n k (map pa_Allowance as) = 0" if "n \<noteq> Name lf"
      using val [of k] that by (intro allowed_other) (auto simp: allowance_of_def)
    then show ?thesis using addAllowances [OF ok, of "onItsClusters Q as" Q n k] val [of k] onItsClusters_val [OF Q, of n k as] by simp
  qed
  have mem: "\<exists>l\<in>set (ls @ [lf]). (\<exists>as. resolve l = Inr as) \<and> allowance_of (Name l) (Budgets (Quota l)) a" if "a \<in> members ?m" for a
  proof (cases "a \<in> members (ByCluster out)")
    case True
    then obtain l where "l \<in> set ls" "(\<exists>as. resolve l = Inr as) \<and> allowance_of (Name l) (Budgets (Quota l)) a"
      using inv(1) [unfolded resolve_inv_def, THEN conjunct2, THEN conjunct1] by blast
    then show ?thesis by (intro bexI [of _ l]) simp_all
  next
    case False
    then have "a \<in> pa_Allowance ` set as"
      using \<open>a \<in> members ?m\<close> members_addAllowances [of "onItsClusters Q as" "ByCluster out"] set_onItsClusters [of Q as] by blast
    then have "allowance_of (Name lf) (Budgets (Quota lf)) a" using val [of undefined] by blast
    then show ?thesis using Inr by (intro bexI [of _ lf]) simp_all
  qed
  note inv_u = inv(1) [unfolded resolve_inv_def, THEN conjunct2, THEN conjunct2, THEN conjunct1]
    and inv_g = inv(1) [unfolded resolve_inv_def, THEN conjunct2, THEN conjunct2, THEN conjunct2, rule_format]
    and inv_z = inv(2) [unfolded granted_zero_def, rule_format]
  have other: "Name l \<noteq> Name lf" if "l \<in> set ls" for l using new that by (metis imageI)
  have ok': "gomap_ok ?m" using addAllowances [OF ok] by blast
  have "{l \<in> set (ls @ [lf]). \<exists>e. resolve l = Inl e} = {l \<in> set ls. \<exists>e. resolve l = Inl e}" using Inr by auto
  then have keys: "keys_of (Unresolved out) = Name ` {l \<in> set (ls @ [lf]). \<exists>e. resolve l = Inl e}" using inv_u by simp
  have gr: "granted Q ?m (Name l) k = authored Q k (Budgets (Quota l))" if "l \<in> set (ls @ [lf])" "resolve l = Inr as'" for l as' k
    using that inv_g other inv_z [OF new] by (cases "l \<in> set ls") (simp_all add: g)
  have z: "granted Q ?m n k = 0" if "n \<notin> Name ` set (ls @ [lf])" for n k
    using that inv_z [of n k] by (simp add: g)
  have sel: "ByCluster (out\<lparr>ByCluster := ?m\<rparr>) = ?m" "Unresolved (out\<lparr>ByCluster := ?m\<rparr>) = Unresolved out" by simp_all
  show ?thesis unfolding step resolve_inv_def granted_zero_def sel
    by (intro conjI ballI allI impI) (rule ok', erule mem, rule keys, erule (1) gr, erule z)
qed

lemma resolve_fold_inv:
  assumes Q: "quantity Q" and r: "\<And>lf. resolve lf = resolveLeaf Q lf byPair homes sil dp" and "distinct (map Name ls)"
  shows "resolve_inv Q resolve ls (fold (resolveStep Q byPair homes sil dp) ls \<lparr>ByCluster = [], Unresolved = []\<rparr>)
    \<and> granted_zero Q ls (fold (resolveStep Q byPair homes sil dp) ls \<lparr>ByCluster = [], Unresolved = []\<rparr>)"
  using assms(3)
proof (induction ls rule: rev_induct)
  case Nil
  show ?case by (simp add: resolve_inv_def granted_zero_def granted_def members_def)
next
  case (snoc lf ls)
  then show ?case using resolveStep_inv [OF Q r] by simp
qed

subsection \<open>Which budgets can be split\<close>

definition reports :: "'q member_capacity list \<Rightarrow> pair \<Rightarrow> 'q weight list" where
  "reports cs k = map (\<lambda>c. \<lparr>w_cluster = mc_Cluster c, w_capacity = mc_Allocatable c\<rparr>)
     (filter (\<lambda>c. (mc_ResourceName c, mc_ResourceFlavor c) = k) cs)"

definition splittable :: "'q quantity_api \<Rightarrow> 'q fleet \<Rightarrow> string \<Rightarrow> 'q quota \<Rightarrow> 'q budget \<Rightarrow> bool" where
  "splittable Q f dp q b \<longleftrightarrow>
     effectivePolicy q b dp = DistributionExplicit \<and> PerCluster b \<noteq> [] \<and> distinct (map fst (PerCluster b))
       \<and> (\<Sum>p\<leftarrow>PerCluster b. qval Q (snd p)) = qval Q (Nominal b)
     \<or> effectivePolicy q b dp = DistributionProportional \<and> set (Registered f) \<subseteq> set (Reported f)
       \<and> (\<exists>split. Proportional Q (Nominal b) (sort_key w_cluster (reports (Capacity f) (ResourceName b, ResourceFlavor b))) = Inr split)"

lemma weightsOf_byPair: "weightsOf (byPairOf cs) k = sort_key w_cluster (reports cs k)"
proof -
  have "weightsOf (fold addWeight cs []) k = reports cs k"
  proof (induction cs rule: rev_induct)
    case (snoc c cs)
    then show ?case by (auto simp: weightsOf_def addWeight_def reports_def Let_def gomap_simps split: option.splits)
  qed (simp add: weightsOf_def reports_def)
  then show ?thesis by (auto simp: weightsOf_def byPairOf_def map_of_map [unfolded comp_def] split: option.splits)
qed

lemma silent_Nil: "silent f = [] \<longleftrightarrow> set (Registered f) \<subseteq> set (Reported f)"
proof -
  have "silent f = [] \<longleftrightarrow> set (silent f) = {}" by simp
  then show ?thesis by (auto simp: silent_def)
qed

lemma explicitShares_Inr_iff:
  "(\<exists>out. explicitShares b seen ps = Inr out) \<longleftrightarrow> distinct (map fst ps) \<and> fst ` set ps \<inter> set seen = {}"
  by (induction b seen ps rule: explicitShares.induct) (auto simp: bindE_Inr)

lemma explicit_Inr_iff:
  assumes "quantity Q"
  shows "(\<exists>split. explicit Q b = Inr split) \<longleftrightarrow> PerCluster b \<noteq> [] \<and> distinct (map fst (PerCluster b))
    \<and> (\<Sum>p\<leftarrow>PerCluster b. qval Q (snd p)) = qval Q (Nominal b)"
proof (cases "explicitShares b [] (PerCluster b)")
  case (Inl e)
  then show ?thesis using explicitShares_Inr_iff [of b "[]" "PerCluster b"] by (simp add: explicit_def)
next
  case (Inr out)
  then have "map s_nominal out = map snd (PerCluster b)" using explicitShares_val by blast
  then have "qval Q (Sum Q out) = (\<Sum>p\<leftarrow>PerCluster b. qval Q (snd p))"
    using Sum_val [OF assms, of out] by (metis (no_types, lifting) list.map_comp comp_def map_eq_conv)
  then show ?thesis using Inr explicitShares_Inr_iff [of b "[]" "PerCluster b"] quantity.cmp_eq [OF assms]
    by (auto simp: explicit_def)
qed

lemma resolveBudgetOf_Inr_iff:
  assumes "quantity Q"
  shows "(\<exists>as. resolveBudgetOf Q lf (byPairOf (Capacity f)) homes (silent f) dp b = Inr as) \<longleftrightarrow> splittable Q f dp (Quota lf) b"
proof -
  have "\<not> (\<exists>split. Proportional Q tot [] = Inr split)" for tot by (simp add: Proportional_def)
  then show ?thesis using explicit_Inr_iff [OF assms, of b]
    by (auto simp: resolveBudgetOf_def splittable_def Let_def bindE_Inr weightsOf_byPair silent_Nil split: sum.splits)
qed

lemma Build_Leaves_distinct:
  assumes "Build Q qs opts = Inr (t, vs)"
  shows "distinct (map Name (Leaves t))"
proof -
  obtain dep where sh: "shape qs dep (nodes t)" by (rule Build_placed_shape [OF assms]) blast
  have "map Name (Nodes t) = quotaNames qs"
    unfolding shape_Nodes [OF sh] map_map comp_def by (rule map_idI) (simp add: nodeAt_sel)
  then show ?thesis by (simp add: Leaves_def distinct_map_filter)
qed

lemma members_sorted: "members (map (\<lambda>(c, as). (c, sort_key g as)) m) = members m"
proof -
  have "map_of (map (\<lambda>(c, as). (c, sort_key g as)) m) c = map_option (sort_key g) (map_of m c)" for c
    by (induction m) auto
  then show ?thesis by (fastforce simp: members_def)
qed

lemma granted_sorted: "granted Q (map (\<lambda>(c, as). (c, sort_key g as)) m) n k = granted Q m n k"
  by (simp add: granted_def comp_def case_prod_beta)

definition resolved_by :: "'q quantity_api \<Rightarrow> 'q fleet \<Rightarrow> string \<Rightarrow> 'q node \<Rightarrow> 'q unresolved_reason + 'q placed_allowance list" where
  "resolved_by Q f dp lf = resolveLeaf Q lf (byPairOf (Capacity f)) (homesOf Q (Capacity f)) (silent f) dp"

lemma Resolve_inv:
  assumes Q: "quantity Q" and b: "Build Q qs opts = Inr (t, vs)" and res: "res = Resolve Q t f dp"
  shows "resolve_inv Q (resolved_by Q f dp) (Leaves t) res"
proof -
  define out where "out = fold (resolveStep Q (byPairOf (Capacity f)) (homesOf Q (Capacity f)) (silent f) dp) (Leaves t) \<lparr>ByCluster = [], Unresolved = []\<rparr>"
  have "resolve_inv Q (resolved_by Q f dp) (Leaves t) out"
    unfolding out_def by (rule resolve_fold_inv [OF Q resolved_by_def Build_Leaves_distinct [OF b], THEN conjunct1])
  moreover have "res = out\<lparr>ByCluster := map (\<lambda>(c, as). (c, sort_key (\<lambda>a. (a_Node a, a_ResourceName a, a_ResourceFlavor a)) as)) (ByCluster out)\<rparr>"
    by (simp add: res Resolve_def Let_def out_def)
  ultimately show ?thesis by (simp add: resolve_inv_def granted_sorted members_sorted comp_def case_prod_beta)
qed

lemma Resolve_unresolved:
  assumes Q: "quantity Q" and b: "Build Q qs opts = Inr (t, vs)" and res: "res = Resolve Q t f dp" and lf: "lf \<in> set (Leaves t)"
  shows "Name lf \<in> keys_of (Unresolved res) \<longleftrightarrow> (\<exists>e. resolved_by Q f dp lf = Inl e)"
proof -
  have "l = lf" if "l \<in> set (Leaves t)" "Name l = Name lf" for l
    using inj_onD [OF _ that(2,1) lf] Build_Leaves_distinct [OF b] by (simp add: distinct_map)
  moreover have "keys_of (Unresolved res) = Name ` {l \<in> set (Leaves t). \<exists>e. resolved_by Q f dp l = Inl e}"
    using Resolve_inv [OF Q b res] by (simp add: resolve_inv_def)
  ultimately show ?thesis using lf by auto
qed

lemma Resolve_granted:
  assumes Q: "quantity Q" and b: "Build Q qs opts = Inr (t, vs)" and res: "res = Resolve Q t f dp" and lf: "lf \<in> set (Leaves t)"
    and un: "Name lf \<notin> keys_of (Unresolved res)"
  shows "granted Q (ByCluster res) (Name lf) k = authored Q k (Budgets (Quota lf))"
proof -
  obtain as where "resolved_by Q f dp lf = Inr as"
    using un Resolve_unresolved [OF Q b res lf] by (cases "resolved_by Q f dp lf") auto
  then show ?thesis
    by (rule Resolve_inv [OF Q b res, unfolded resolve_inv_def, THEN conjunct2, THEN conjunct2, THEN conjunct2, rule_format, OF lf])
qed

text \<open>
  C11: Resolving the fleet neither loses nor adds quota. A leaf is resolved exactly when each of its
  budgets can be split: an explicit split that names every cluster once and adds up, or a
  proportional one when every registered member has reported. For a resolved leaf the allowances
  over all clusters add up to the authored budget for every (resource, flavor) pair, although
  allowances on clusters that hold nothing of the leaf are dropped. An unresolved leaf has no
  allowance on any cluster.
\<close>

theorem Resolve_exact:
  assumes Q: "quantity Q" and b: "Build Q qs opts = Inr (t, vs)" and lf: "lf \<in> set (Leaves t)" and res: "res = Resolve Q t f dp"
  shows "(Name lf \<notin> keys_of (Unresolved res) \<longleftrightarrow> (\<forall>b\<in>set (Budgets (Quota lf)). splittable Q f dp (Quota lf) b))
    \<and> (Name lf \<notin> keys_of (Unresolved res) \<longrightarrow> (\<forall>k. granted Q (ByCluster res) (Name lf) k = authored Q k (Budgets (Quota lf))))
    \<and> (Name lf \<in> keys_of (Unresolved res) \<longrightarrow> Name lf \<notin> holders (ByCluster res))"
proof -
  have "Name lf \<notin> holders (ByCluster res)" if "Name lf \<in> keys_of (Unresolved res)"
  proof
    assume "Name lf \<in> holders (ByCluster res)"
    then obtain a where "a \<in> members (ByCluster res)" "a_Node a = Name lf" by (auto simp: holders_def)
    then obtain l where l: "l \<in> set (Leaves t)" "\<exists>as. resolved_by Q f dp l = Inr as" "Name l = Name lf"
      using Resolve_inv [OF Q b res] by (auto simp: resolve_inv_def allowance_of_def)
    then show False using that Resolve_unresolved [OF Q b res l(1)] by auto
  qed
  moreover have "(\<exists>as. resolved_by Q f dp lf = Inr as) \<longleftrightarrow> (\<forall>b\<in>set (Budgets (Quota lf)). splittable Q f dp (Quota lf) b)"
    by (simp add: resolved_by_def resolveLeaf_def resolveBudgets_Inr_iff resolveBudgetOf_Inr_iff [OF Q])
  moreover have "(\<exists>as. resolved_by Q f dp lf = Inr as) \<longleftrightarrow> Name lf \<notin> keys_of (Unresolved res)"
    by (cases "resolved_by Q f dp lf") (simp_all add: Resolve_unresolved [OF Q b res lf])
  ultimately show ?thesis using Resolve_granted [OF Q b res lf] by (intro conjI impI allI) blast+
qed

text \<open>Every allowance of a resolution is one \<open>For\<close> can render: it names a budget of a leaf of the tree.\<close>

lemma Resolve_members:
  assumes "quantity Q" "Build Q qs opts = Inr (t, vs)" "res = Resolve Q t f dp" "a \<in> members (ByCluster res)"
  shows "\<exists>lf\<in>set (Leaves t). allowance_of (Name lf) (Budgets (Quota lf)) a"
  using Resolve_inv [OF assms(1-3)] assms(4) by (auto simp: resolve_inv_def)

lemma Resolve_ByCluster_ok: "quantity Q \<Longrightarrow> Build Q qs opts = Inr (t, vs) \<Longrightarrow> gomap_ok (ByCluster (Resolve Q t f dp))"
  using Resolve_inv [of Q qs opts t vs "Resolve Q t f dp" f dp] by (simp add: resolve_inv_def)

lemma lookup_Leaves: "lookup t n = Some nd \<Longrightarrow> IsLeaf nd \<Longrightarrow> nd \<in> set (Leaves t)"
  by (force simp: lookup_def Leaves_def Nodes_def dest: map_of_SomeD)

definition twoMembers :: "(dec \<times> string) fleet" where
  "twoMembers = \<lparr>Registered = [''c1'', ''c2''], Reported = [''c2'', ''c1''],
     Capacity = [\<lparr>mc_Cluster = ''c2'', mc_ResourceName = ResourceName (tpu 0), mc_ResourceFlavor = ResourceFlavor (tpu 0),
         mc_Allocatable = whole 3, mc_HighWaterMark = whole 3\<rparr>,
       \<lparr>mc_Cluster = ''c1'', mc_ResourceName = ResourceName (tpu 0), mc_ResourceFlavor = ResourceFlavor (tpu 0),
         mc_Allocatable = whole 1, mc_HighWaterMark = whole 1\<rparr>]\<rparr>"

theorem Resolve_exact_witness:
  "\<exists>t vs lf. Build exact_api healthyFleet fleetOptions = Inr (t, vs) \<and> lf \<in> set (Leaves t) \<and> Name lf = ''team-b''
     \<and> granted exact_api (ByCluster (Resolve exact_api t twoMembers DistributionProportional)) (Name lf)
         (ResourceName (tpu 0), ResourceFlavor (tpu 0)) = 40"
proof -
  obtain t lf where b: "Build exact_api healthyFleet fleetOptions = Inr (t, [])"
    and nd: "lookup t ''team-b'' = Some lf" "IsLeaf lf" and lq: "Quota lf = leaf ''team-b'' (Some ''org'') 40"
    by (rule healthy_leaf)
  note lf = lookup_Leaves [OF nd] lq
  let ?ws = "sort_key w_cluster (reports (Capacity twoMembers) (ResourceName (tpu 40), ResourceFlavor (tpu 40)))"
  have ws: "?ws = [\<lparr>w_cluster = ''c1'', w_capacity = whole 1\<rparr>, \<lparr>w_cluster = ''c2'', w_capacity = whole 3\<rparr>]"
    by (simp add: reports_def twoMembers_def tpu_def)
  then have wok: "weights_ok exact_api ?ws" by (simp add: weights_ok_def) (simp add: exact_api_def)
  moreover have "0 < lr_basis ?ws (weight_units exact_api ?ws)"
    unfolding basis_pos_iff [OF exact.quantity_axioms wok] by (simp add: ws) (simp add: exact_api_def)
  moreover have "0 \<le> q_sign exact_api (Nominal (tpu 40))" by (simp add: exact_api_def tpu_def)
  ultimately have "split_ok exact_api (Nominal (tpu 40)) ?ws"
    unfolding split_ok_def using exact.quantity_axioms by blast
  then obtain split where "Proportional exact_api (Nominal (tpu 40)) ?ws = Inr split"
    using Proportional_Inr_iff [OF exact.quantity_axioms] by blast
  moreover have "effectivePolicy (Quota lf) (tpu 40) DistributionProportional = DistributionProportional"
    by (simp add: lf effectivePolicy_def leaf_def tpu_def)
  moreover have "set (Registered twoMembers) \<subseteq> set (Reported twoMembers)" by (simp add: twoMembers_def)
  ultimately have "splittable exact_api twoMembers DistributionProportional (Quota lf) (tpu 40)" unfolding splittable_def by blast
  then have "\<forall>b\<in>set (Budgets (Quota lf)). splittable exact_api twoMembers DistributionProportional (Quota lf) b"
    by (simp add: lf leaf_def)
  then have "granted exact_api (ByCluster (Resolve exact_api t twoMembers DistributionProportional)) (Name lf) k = authored exact_api k (Budgets (Quota lf))" for k
    using Resolve_exact [OF exact.quantity_axioms b lf(1) refl, of twoMembers DistributionProportional] by blast
  moreover have "authored exact_api (ResourceName (tpu 0), ResourceFlavor (tpu 0)) (Budgets (Quota lf)) = 40"
    by (simp add: lf authored_def leaf_def tpu_def qval_def exact_api_def dec_val_def)
  moreover have "Name lf = ''team-b''" by (simp add: lf Name_def leaf_def)
  ultimately show ?thesis using b lf(1) by metis
qed

end
