(* ===== verification/Quota_Fleet.thy ===== *)
theory Quota_Fleet
  imports Quota_Allowances
begin

section \<open>From the fleet's budgets to the copies on the members\<close>

text \<open>
  The management plane runs \<open>Resolve\<close> once per pass and \<open>For\<close> once per cluster of its result. This theory
  composes them: every rendering succeeds, and the budgets of the copies of a leaf over all the
  clusters add up to what was authored for it.
\<close>

definition copyBudgets :: "'q projected list \<Rightarrow> name \<Rightarrow> 'q budget list" where
  "copyBudgets ps n = concat (map (\<lambda>p. Budgets (p_Quota p)) (filter (\<lambda>p. QName (p_Quota p) = n) ps))"

definition entry_val :: "'q quantity_api \<Rightarrow> pair \<Rightarrow> string \<times> string \<times> 'q \<Rightarrow> rat" where
  "entry_val Q k e = (case e of (r, f, n) \<Rightarrow> if (r, f) = k then qval Q n else 0)"

lemma authored_entries: "authored Q k bs = sum_mset (image_mset (entry_val Q k) (mset (map budget_entry bs)))"
  by (induction bs) (auto simp: authored_def entry_val_def)

lemma allowed_entries:
  "allowed Q n k as = sum_mset (image_mset (entry_val Q k) (mset (map allowance_entry (filter (\<lambda>a. a_Node a = n) as))))"
  by (induction as) (auto simp: allowed_def entry_val_def)

lemma filter_key: "distinct (map h xs) \<Longrightarrow> x \<in> set xs \<Longrightarrow> filter (\<lambda>y. h y = h x) xs = [x]"
  by (induction xs) (auto simp: image_iff filter_empty_conv)

text \<open>The copy of a leaf carries the value of its allowances.\<close>

lemma For_allowed:
  assumes ok: "projectable Q qs opts t as" and out: "For t cluster as origin = Inr out"
    and lf: "lookup t n = Some lf" "IsLeaf lf"
  shows "authored Q k (copyBudgets out n) = allowed Q n k as"
proof (cases "n \<in> (\<lambda>p. QName (p_Quota p)) ` set out")
  case True
  then obtain p where p: "p \<in> set out" "QName (p_Quota p) = n" by auto
  then have "faithful_copy lf cluster (filter (\<lambda>a. a_Node a = n) as) origin p" using For_copies(3) [OF ok out p(1)] lf by auto
  then have "mset (map budget_entry (Budgets (p_Quota p))) = mset (map allowance_entry (filter (\<lambda>a. a_Node a = n) as))"
    using lf(2) by (simp add: faithful_copy_def)
  moreover have "copyBudgets out n = Budgets (p_Quota p)"
    using filter_key [OF For_copies(1) [OF ok out] p(1)] p(2) by (simp add: copyBudgets_def)
  ultimately show ?thesis unfolding authored_entries allowed_entries by metis
next
  case False
  then have "filter (\<lambda>p. QName (p_Quota p) = n) out = []" by (auto simp: filter_empty_conv)
  then have "authored Q k (copyBudgets out n) = 0" by (simp add: copyBudgets_def authored_def)
  moreover have "a_Node a \<noteq> n" if "a \<in> set as" for a
    using False that For_copies(2) [OF ok out] by (auto simp: needed_def)
  then have "filter (\<lambda>a. a_Node a = n) as = []" by (auto simp: filter_empty_conv)
  then have "allowed Q n k as = 0" by (simp add: allowed_entries)
  ultimately show ?thesis by simp
qed

lemma granted_by_cluster:
  assumes "gomap_ok m"
  shows "granted Q m n k = (\<Sum>c\<in>keys_of m. allowed Q n k (allowancesOf m c))"
proof -
  have "granted Q m n k = (\<Sum>e\<leftarrow>m. allowed Q n k (snd e))" by (simp add: granted_def comp_def)
  also have "\<dots> = (\<Sum>e\<leftarrow>m. allowed Q n k (allowancesOf m (fst e)))"
    using assms by (intro arg_cong [of _ _ sum_list] map_cong) (auto simp: allowancesOf_def)
  also have "\<dots> = (\<Sum>c\<leftarrow>map fst m. allowed Q n k (allowancesOf m c))" by (simp add: comp_def)
  also have "\<dots> = (\<Sum>c\<in>keys_of m. allowed Q n k (allowancesOf m c))"
    using assms by (simp only: sum_list_distinct_conv_sum_set set_map)
  finally show ?thesis .
qed

lemma Leaves_lookup:
  assumes b: "Build Q qs opts = Inr (t, vs)" and lf: "lf \<in> set (Leaves t)"
  shows "lookup t (Name lf) = Some lf \<and> IsLeaf lf \<and> Name lf \<in> QName ` set qs"
proof -
  obtain dep where sh: "shape qs dep (nodes t)" by (rule Build_placed_shape [OF b]) blast
  obtain n where n: "n \<in> QName ` set qs" "lf = the (nodeAt qs dep n)" using lf by (auto simp: Leaves_def shape_Nodes [OF sh])
  moreover have "nodeAt qs dep n \<noteq> None" using n(1) by (auto simp: nodeAt_def quotaOf_Some)
  ultimately show ?thesis using nodeAt_sel(1) [OF n(1), of dep] lf by (auto simp: shape_lookup [OF sh] Leaves_def)
qed

text \<open>A resolution of a sound tree can be rendered on each of its clusters.\<close>

lemma Resolve_renders:
  assumes Q: "quantity Q" and b: "Build Q qs opts = Inr (t, [])" and rt: "RootName opts \<notin> Name ` set (Leaves t)"
    and res: "res = Resolve Q t f dp" and as: "map_of (ByCluster res) c = Some as"
  shows "projectable Q qs opts t as" and "\<forall>a\<in>set as. resolvable t a"
proof -
  have "RootName opts \<noteq> []" using b by (auto simp: Build_def)
  then have sound: "sound_set Q (RootName opts) (MaxDepth opts) qs" using Build_decides [OF Q, of opts qs] b by auto
  have mem: "\<exists>lf\<in>set (Leaves t). allowance_of (Name lf) (Budgets (Quota lf)) a" if "a \<in> set as" for a
    using Resolve_members [OF Q b res] as that by (auto simp: members_def)
  have "\<exists>d. placed qs (RootName opts) (a_Node a) (Suc d)" if a: "a \<in> set as" for a
  proof -
    obtain lf where lf: "lf \<in> set (Leaves t)" "a_Node a = Name lf" using mem [OF a] by (auto simp: allowance_of_def)
    then obtain d where d: "placed qs (RootName opts) (a_Node a) d"
      using Leaves_lookup [OF b lf(1)] sound by (auto simp: sound_set_def)
    have "a_Node a \<noteq> RootName opts" using rt lf by (metis imageI)
    then have "d \<noteq> 0" using placed_top [OF d] by (cases d) auto
    then show ?thesis using d by (cases d) auto
  qed
  then show "projectable Q qs opts t as" using b by (auto simp: projectable_def)
  show "\<forall>a\<in>set as. resolvable t a"
    using mem Leaves_lookup [OF b] by (force simp: resolvable_def allowance_of_def)
qed

text \<open>
  C1: Rendering a resolved fleet grants exactly what was authored. For a tree without violations whose
  root is not a leaf, and readings that name their clusters, every cluster of the resolution gets
  its copies, and the budgets of the copies of a resolved leaf, summed over all the clusters, have
  the value of the leaf's own budgets, for every (resource, flavor) pair.
\<close>

theorem fleet_projection_exact:
  assumes Q: "quantity Q" and b: "Build Q qs opts = Inr (t, [])" and rt: "RootName opts \<notin> Name ` set (Leaves t)"
    and res: "res = Resolve Q t f dp" and ne: "[] \<notin> keys_of (ByCluster res)" "origin \<noteq> []"
    and lf: "lf \<in> set (Leaves t)" "Name lf \<notin> keys_of (Unresolved res)"
  shows "\<exists>copies. (\<forall>c\<in>keys_of (ByCluster res). For t c (allowancesOf (ByCluster res) c) origin = Inr (copies c))
    \<and> (\<forall>k. (\<Sum>c\<in>keys_of (ByCluster res). authored Q k (copyBudgets (copies c) (Name lf))) = authored Q k (Budgets (Quota lf)))"
proof -
  let ?m = "ByCluster res"
  have as: "map_of ?m c = Some (allowancesOf ?m c)" if "c \<in> keys_of ?m" for c
    using that unfolding keys_of_map_of by (auto simp: allowancesOf_def)
  note renders = Resolve_renders [OF Q b rt res as]
  have "\<exists>out. For t c (allowancesOf ?m c) origin = Inr out" if "c \<in> keys_of ?m" for c
    using For_total [OF renders(1) [OF that] _ ne(2) renders(2) [OF that]] ne(1) that by metis
  then obtain copies where copies: "\<And>c. c \<in> keys_of ?m \<Longrightarrow> For t c (allowancesOf ?m c) origin = Inr (copies c)" by metis
  have l: "lookup t (Name lf) = Some lf" "IsLeaf lf" using Leaves_lookup [OF b lf(1)] by simp_all
  have "(\<Sum>c\<in>keys_of ?m. authored Q k (copyBudgets (copies c) (Name lf))) = authored Q k (Budgets (Quota lf))" for k
  proof -
    have "(\<Sum>c\<in>keys_of ?m. authored Q k (copyBudgets (copies c) (Name lf))) = (\<Sum>c\<in>keys_of ?m. allowed Q (Name lf) k (allowancesOf ?m c))"
      by (intro sum.cong refl For_allowed [OF renders(1) copies l])
    also have "\<dots> = granted Q ?m (Name lf) k"
      by (rule granted_by_cluster [symmetric]) (simp add: res Resolve_ByCluster_ok [OF Q b])
    also have "\<dots> = authored Q k (Budgets (Quota lf))" by (rule Resolve_granted [OF Q b res lf])
    finally show ?thesis .
  qed
  then show ?thesis using copies by blast
qed

theorem fleet_projection_exact_witness:
  "\<exists>t copies. Build exact_api healthyFleet fleetOptions = Inr (t, [])
    \<and> (\<Sum>c\<in>{''c1'', ''c2''}. authored exact_api (ResourceName (tpu 0), ResourceFlavor (tpu 0)) (copyBudgets (copies c) ''team-b'')) = 40
    \<and> (\<forall>c\<in>{''c1'', ''c2''}. For t c (allowancesOf (ByCluster (Resolve exact_api t twoMembers DistributionProportional)) c) ''hub'' = Inr (copies c))"
proof -
  let ?k = "(ResourceName (tpu 0), ResourceFlavor (tpu 0))" and ?res = "\<lambda>t. Resolve exact_api t twoMembers DistributionProportional"
  obtain t lf where b: "Build exact_api healthyFleet fleetOptions = Inr (t, [])"
    and nd: "lookup t ''team-b'' = Some lf" "IsLeaf lf" and q: "Quota lf = leaf ''team-b'' (Some ''org'') 40"
    by (rule healthy_leaf)
  have "case Build exact_api healthyFleet fleetOptions of Inl _ \<Rightarrow> False
    | Inr (t, vs) \<Rightarrow> map fst (ByCluster (?res t)) = [''c1'', ''c2''] \<and> map fst (Unresolved (?res t)) = []" by code_simp
  then have "map fst (ByCluster (?res t)) = [''c1'', ''c2'']" and un: "map fst (Unresolved (?res t)) = []" by (simp_all add: b)
  then have keys: "keys_of (ByCluster (?res t)) = {''c1'', ''c2''}" by (metis list.set(1,2) set_map)
  have "case Build exact_api healthyFleet fleetOptions of Inl _ \<Rightarrow> False
    | Inr (t, vs) \<Rightarrow> map Name (Leaves t) = [''team-a'', ''team-b'']" by code_simp
  then have "map Name (Leaves t) = [''team-a'', ''team-b'']" by (simp add: b)
  then have "Name ` set (Leaves t) = {''team-a'', ''team-b''}" by (metis list.set(1,2) set_map)
  then have rt: "RootName fleetOptions \<notin> Name ` set (Leaves t)" by (simp add: fleetOptions_def)
  have ex: "\<exists>copies. (\<forall>c\<in>keys_of (ByCluster (?res t)). For t c (allowancesOf (ByCluster (?res t)) c) ''hub'' = Inr (copies c))
      \<and> (\<forall>k. (\<Sum>c\<in>keys_of (ByCluster (?res t)). authored exact_api k (copyBudgets (copies c) (Name lf))) = authored exact_api k (Budgets (Quota lf)))"
    by (rule fleet_projection_exact [OF exact.quantity_axioms b rt refl _ _ lookup_Leaves [OF nd]]) (use un in \<open>simp_all add: keys\<close>)
  moreover have "authored exact_api ?k (Budgets (Quota lf)) = 40"
    by (simp add: q authored_def leaf_def tpu_def qval_def exact_api_def dec_val_def)
  moreover have "Name lf = ''team-b''" by (simp add: Name_def q leaf_def)
  ultimately show ?thesis using b unfolding keys by metis
qed

end
