(* ===== verification/Quota_Usage.thy ===== *)
theory Quota_Usage
  imports Quota_Tree_Walk
begin

section \<open>Rolling usage up the tree (pkg/quota/usage/usage.go)\<close>

text \<open>
  \<open>Roll\<close> sums the readings of the leaf queues onto every node of the quota tree. Admitted and reserved
  quantities add up. Borrowed does not: a leaf reports the backend's figure, and above a leaf the
  figure is what the subtree holds beyond the node's own authored budget.

  The nil map of the code is the empty association list: a map that has been written to is not
  empty. Assigning to existing keys while ranging over a map is a \<open>map\<close> over its entries.
\<close>

subsection \<open>Data\<close>

type_synonym usage_key = "string \<times> string"

record 'q observed =
  ob_Admitted :: 'q
  ob_Reserved :: 'q
  ob_Borrowed :: 'q

record 'q usage_total =
  tt_Admitted :: 'q
  tt_Reserved :: 'q
  tt_Borrowed :: 'q

type_synonym 'q readings = "(name, (usage_key, 'q observed) gomap) gomap"
type_synonym 'q node_totals = "(usage_key, 'q usage_total) gomap"

subsection \<open>Operations\<close>

definition usage_add :: "'q quantity_api \<Rightarrow> 'q \<Rightarrow> 'q \<Rightarrow> 'q" where
  "usage_add Q dst src = (if q_sign Q dst = 0 \<and> q_format Q dst = [] then src else q_add Q dst src)"

definition zero_total :: "'q quantity_api \<Rightarrow> 'q usage_total" where
  "zero_total Q = \<lparr>tt_Admitted = q_zero Q, tt_Reserved = q_zero Q, tt_Borrowed = q_zero Q\<rparr>"

definition totalOf :: "'q quantity_api \<Rightarrow> 'q node_totals \<Rightarrow> usage_key \<Rightarrow> 'q usage_total" where
  "totalOf Q m k = (case map_of m k of None \<Rightarrow> zero_total Q | Some t \<Rightarrow> t)"

definition addObserved :: "'q quantity_api \<Rightarrow> bool \<Rightarrow> usage_key \<times> 'q observed \<Rightarrow> 'q node_totals \<Rightarrow> 'q node_totals" where
  "addObserved Q isLeaf e m =
     (case e of (k, ob) \<Rightarrow>
        let agg = totalOf Q m k
        in AList.update k \<lparr>tt_Admitted = usage_add Q (tt_Admitted agg) (ob_Admitted ob),
             tt_Reserved = usage_add Q (tt_Reserved agg) (ob_Reserved ob),
             tt_Borrowed = (if isLeaf then usage_add Q (tt_Borrowed agg) (ob_Borrowed ob) else tt_Borrowed agg)\<rparr> m)"

definition readingOf :: "'q readings \<Rightarrow> name \<Rightarrow> (usage_key, 'q observed) gomap" where
  "readingOf leaves n = (case map_of leaves n of None \<Rightarrow> [] | Some m \<Rightarrow> m)"

definition addLeaf :: "'q quantity_api \<Rightarrow> 'q tree \<Rightarrow> 'q readings \<Rightarrow> bool \<Rightarrow> name \<Rightarrow> 'q node_totals \<Rightarrow> 'q node_totals" where
  "addLeaf Q t leaves isLeaf d m =
     (case lookup t d of
        None \<Rightarrow> m
      | Some nd \<Rightarrow> if \<not> IsLeaf nd then m else fold (addObserved Q isLeaf) (readingOf leaves d) m)"

definition nominalOf :: "'q budget list \<Rightarrow> (usage_key, 'q) gomap" where
  "nominalOf bs = fold (\<lambda>b m. AList.update (ResourceName b, ResourceFlavor b) (Nominal b) m) bs []"

definition borrowedTotal :: "'q quantity_api \<Rightarrow> 'q option \<Rightarrow> 'q usage_total \<Rightarrow> 'q usage_total" where
  "borrowedTotal Q n t =
     (case n of
        None \<Rightarrow> t\<lparr>tt_Borrowed := q_zero Q\<rparr>
      | Some q \<Rightarrow>
          let over = q_sub Q (tt_Admitted t) q
          in if q_sign Q over \<le> 0 then t\<lparr>tt_Borrowed := q_zero Q\<rparr> else t\<lparr>tt_Borrowed := over\<rparr>)"

definition borrowedAboveNominal :: "'q quantity_api \<Rightarrow> 'q node \<Rightarrow> 'q node_totals \<Rightarrow> 'q node_totals" where
  "borrowedAboveNominal Q nd m =
     map (\<lambda>(k, t). (k, borrowedTotal Q (map_of (nominalOf (Budgets (Quota nd))) k) t)) m"

definition rollNode :: "'q quantity_api \<Rightarrow> 'q tree \<Rightarrow> 'q readings \<Rightarrow> 'q node \<Rightarrow> (name, 'q node_totals) gomap \<Rightarrow> (name, 'q node_totals) gomap" where
  "rollNode Q t leaves nd out =
     (let totals = fold (addLeaf Q t leaves (IsLeaf nd)) (Subtree t (Name nd)) []
      in if totals = [] then out
         else AList.update (Name nd) (if IsLeaf nd then totals else borrowedAboveNominal Q nd totals) out)"

definition Roll :: "'q quantity_api \<Rightarrow> 'q tree option \<Rightarrow> 'q readings \<Rightarrow> (name, 'q node_totals) gomap" where
  "Roll Q tp leaves =
     (case tp of
        None \<Rightarrow> []
      | Some t \<Rightarrow> if leaves = [] then [] else fold (rollNode Q t leaves) (Nodes t) [])"

definition SortedKeys :: "'q node_totals \<Rightarrow> usage_key list" where
  "SortedKeys m = sort_key (\<lambda>k. (fst k, snd k)) (map fst m)"

subsection \<open>Adding readings\<close>

text \<open>The value a reading has for a key, zero where it has none.\<close>

definition reading_val :: "'q quantity_api \<Rightarrow> ('q observed \<Rightarrow> 'q) \<Rightarrow> (usage_key, 'q observed) gomap \<Rightarrow> usage_key \<Rightarrow> rat" where
  "reading_val Q fld m k = (case map_of m k of None \<Rightarrow> 0 | Some ob \<Rightarrow> qval Q (fld ob))"

lemma gomap_ok_addObserved: "gomap_ok m \<Longrightarrow> gomap_ok (addObserved Q l e m)"
  by (cases e) (auto simp: addObserved_def Let_def)

lemma keys_addObserved: "keys_of (addObserved Q l e m) = insert (fst e) (keys_of m)"
  by (cases e) (simp add: addObserved_def Let_def keys_of_update)

lemma totalOf_update: "totalOf Q (AList.update k' v m) k = (if k = k' then v else totalOf Q m k)"
  by (simp add: totalOf_def gomap_simps)

context quantity
begin

lemma usage_add_val: "qval Q (usage_add Q a b) = qval Q a + qval Q b"
  by (auto simp: usage_add_def add_val sign_val split: if_splits)

lemma totalOf_addObserved:
  "qval Q (tt_Admitted (totalOf Q (addObserved Q l (k', ob) m) k)) = qval Q (tt_Admitted (totalOf Q m k)) + (if k' = k then qval Q (ob_Admitted ob) else 0)"
  "qval Q (tt_Reserved (totalOf Q (addObserved Q l (k', ob) m) k)) = qval Q (tt_Reserved (totalOf Q m k)) + (if k' = k then qval Q (ob_Reserved ob) else 0)"
  "qval Q (tt_Borrowed (totalOf Q (addObserved Q l (k', ob) m) k)) = qval Q (tt_Borrowed (totalOf Q m k)) + (if l \<and> k' = k then qval Q (ob_Borrowed ob) else 0)"
  by (auto simp: addObserved_def Let_def totalOf_update usage_add_val)

lemma totalOf_addReading:
  "gomap_ok es \<Longrightarrow> qval Q (tt_Admitted (totalOf Q (fold (addObserved Q l) es m) k)) = qval Q (tt_Admitted (totalOf Q m k)) + reading_val Q ob_Admitted es k"
  "gomap_ok es \<Longrightarrow> qval Q (tt_Reserved (totalOf Q (fold (addObserved Q l) es m) k)) = qval Q (tt_Reserved (totalOf Q m k)) + reading_val Q ob_Reserved es k"
  "gomap_ok es \<Longrightarrow> qval Q (tt_Borrowed (totalOf Q (fold (addObserved Q l) es m) k)) = qval Q (tt_Borrowed (totalOf Q m k)) + (if l then reading_val Q ob_Borrowed es k else 0)"
  by (induction es arbitrary: m) (auto simp: totalOf_addObserved reading_val_def map_of_None_keys [symmetric] split: option.splits)

end

definition readings_ok :: "'q readings \<Rightarrow> bool" where
  "readings_ok leaves \<longleftrightarrow> (\<forall>(n, m)\<in>set leaves. gomap_ok m)"

lemma readingOf_ok: "readings_ok leaves \<Longrightarrow> gomap_ok (readingOf leaves n)"
  by (auto simp: readings_ok_def readingOf_def split: option.splits dest: map_of_SomeD)

definition isLeafName :: "'q tree \<Rightarrow> name \<Rightarrow> bool" where
  "isLeafName t d \<longleftrightarrow> (\<exists>nd. lookup t d = Some nd \<and> IsLeaf nd)"

lemma addLeaf_alt: "addLeaf Q t leaves l d m = (if isLeafName t d then fold (addObserved Q l) (readingOf leaves d) m else m)"
  by (simp add: addLeaf_def isLeafName_def split: option.split)

lemma keys_addObserveds: "keys_of (fold (addObserved Q l) es m) = keys_of m \<union> keys_of es"
  by (induction es arbitrary: m) (auto simp: keys_addObserved)

lemma keys_addLeaves:
  "keys_of (fold (addLeaf Q t leaves l) ds m) = keys_of m \<union> (\<Union>d\<in>{d \<in> set ds. isLeafName t d}. keys_of (readingOf leaves d))"
  by (induction ds arbitrary: m) (auto simp: addLeaf_alt keys_addObserveds)

text \<open>The sum of a field over the leaves among the names \<open>D\<close>.\<close>

definition leaf_sum :: "'q quantity_api \<Rightarrow> 'q tree \<Rightarrow> 'q readings \<Rightarrow> ('q observed \<Rightarrow> 'q) \<Rightarrow> name set \<Rightarrow> usage_key \<Rightarrow> rat" where
  "leaf_sum Q t leaves fld D k = (\<Sum>d\<in>{d \<in> D. isLeafName t d}. reading_val Q fld (readingOf leaves d) k)"

lemma leaf_sum_list:
  assumes "distinct ds"
  shows "leaf_sum Q t leaves fld (set ds) k = (\<Sum>d\<leftarrow>ds. if isLeafName t d then reading_val Q fld (readingOf leaves d) k else 0)"
proof -
  have "leaf_sum Q t leaves fld (set ds) k = (\<Sum>d\<in>set ds. if isLeafName t d then reading_val Q fld (readingOf leaves d) k else 0)"
    unfolding leaf_sum_def by (simp add: sum.If_cases Int_def conj_commute)
  then show ?thesis using assms by (simp add: sum_list_distinct_conv_sum_set)
qed

context quantity
begin

lemma totalOf_addLeaves:
  assumes "readings_ok leaves"
  shows "qval Q (tt_Admitted (totalOf Q (fold (addLeaf Q t leaves l) ds m) k))
      = qval Q (tt_Admitted (totalOf Q m k)) + (\<Sum>d\<leftarrow>ds. if isLeafName t d then reading_val Q ob_Admitted (readingOf leaves d) k else 0)"
    and "qval Q (tt_Reserved (totalOf Q (fold (addLeaf Q t leaves l) ds m) k))
      = qval Q (tt_Reserved (totalOf Q m k)) + (\<Sum>d\<leftarrow>ds. if isLeafName t d then reading_val Q ob_Reserved (readingOf leaves d) k else 0)"
    and "qval Q (tt_Borrowed (totalOf Q (fold (addLeaf Q t leaves l) ds m) k))
      = qval Q (tt_Borrowed (totalOf Q m k)) + (if l then \<Sum>d\<leftarrow>ds. if isLeafName t d then reading_val Q ob_Borrowed (readingOf leaves d) k else 0 else 0)"
  by (induction ds arbitrary: m) (auto simp: addLeaf_alt totalOf_addReading [OF readingOf_ok [OF assms]])

lemma totalOf_Nil: "qval Q (tt_Admitted (totalOf Q [] k)) = 0" "qval Q (tt_Reserved (totalOf Q [] k)) = 0" "qval Q (tt_Borrowed (totalOf Q [] k)) = 0"
  by (simp_all add: totalOf_def zero_total_def zero_val)

lemma borrowedTotal_val:
  "tt_Admitted (borrowedTotal Q n x) = tt_Admitted x" "tt_Reserved (borrowedTotal Q n x) = tt_Reserved x"
  "qval Q (tt_Borrowed (borrowedTotal Q n x)) = (case n of None \<Rightarrow> 0 | Some q \<Rightarrow> max 0 (qval Q (tt_Admitted x) - qval Q q))"
  by (auto simp: borrowedTotal_def Let_def zero_val sign_val sub_val split: option.split)

end

subsection \<open>The roll\<close>

definition rolled :: "'q quantity_api \<Rightarrow> 'q tree \<Rightarrow> 'q readings \<Rightarrow> 'q node \<Rightarrow> 'q node_totals" where
  "rolled Q t leaves nd =
     (let totals = fold (addLeaf Q t leaves (IsLeaf nd)) (Subtree t (Name nd)) []
      in if IsLeaf nd then totals else borrowedAboveNominal Q nd totals)"

lemma rollNode_alt: "rollNode Q t leaves nd out = (if rolled Q t leaves nd = [] then out else AList.update (Name nd) (rolled Q t leaves nd) out)"
  by (simp add: rollNode_def rolled_def Let_def borrowedAboveNominal_def)

lemma map_of_rollNodes:
  "distinct (map Name nds) \<Longrightarrow> nd \<in> set nds \<Longrightarrow> map_of (fold (rollNode Q t leaves) nds []) (Name nd)
    = (if rolled Q t leaves nd = [] then None else Some (rolled Q t leaves nd))"
proof (induction nds rule: rev_induct)
  case (snoc x nds)
  have none: "map_of (fold (rollNode Q t leaves) ys []) n = None" if "n \<notin> Name ` set ys" for ys n
    using that by (induction ys rule: rev_induct) (auto simp: rollNode_alt gomap_simps)
  show ?case
  proof (cases "nd = x")
    case True
    then show ?thesis using none [of "Name x" nds] snoc.prems(1) by (auto simp: rollNode_alt [of Q t leaves x] gomap_simps)
  next
    case False
    then have "nd \<in> set nds" "Name nd \<noteq> Name x" using snoc.prems by (auto simp: image_iff)
    then show ?thesis using snoc.IH snoc.prems(1) by (simp add: rollNode_alt [of Q t leaves x] gomap_simps)
  qed
qed simp

lemma map_of_nominalOf:
  "map_of (nominalOf bs) k = map_option Nominal (find (\<lambda>b. (ResourceName b, ResourceFlavor b) = k) (rev bs))"
  by (induction bs rule: rev_induct) (auto simp: nominalOf_def gomap_simps)

text \<open>What a node must report as borrowed, given what its subtree has admitted.\<close>

definition borrowed_above :: "'q quantity_api \<Rightarrow> 'q budget list \<Rightarrow> usage_key \<Rightarrow> rat \<Rightarrow> rat" where
  "borrowed_above Q bs k admitted =
     (case find (\<lambda>b. (ResourceName b, ResourceFlavor b) = k) (rev bs) of
        None \<Rightarrow> 0 | Some b \<Rightarrow> max 0 (admitted - qval Q (Nominal b)))"

lemma rolled_facts:
  assumes Q: "quantity Q" and ok: "readings_ok leaves" and sub: "distinct (Subtree t (Name nd))" "set (Subtree t (Name nd)) = D"
  shows "keys_of (rolled Q t leaves nd) = (\<Union>d\<in>{d \<in> D. isLeafName t d}. keys_of (readingOf leaves d))"
    and "k \<in> keys_of (rolled Q t leaves nd) \<Longrightarrow> qval Q (tt_Admitted (totalOf Q (rolled Q t leaves nd) k)) = leaf_sum Q t leaves ob_Admitted D k"
    and "k \<in> keys_of (rolled Q t leaves nd) \<Longrightarrow> qval Q (tt_Reserved (totalOf Q (rolled Q t leaves nd) k)) = leaf_sum Q t leaves ob_Reserved D k"
    and "k \<in> keys_of (rolled Q t leaves nd) \<Longrightarrow> qval Q (tt_Borrowed (totalOf Q (rolled Q t leaves nd) k))
      = (if IsLeaf nd then leaf_sum Q t leaves ob_Borrowed D k
         else borrowed_above Q (Budgets (Quota nd)) k (leaf_sum Q t leaves ob_Admitted D k))"
proof -
  let ?tot = "fold (addLeaf Q t leaves (IsLeaf nd)) (Subtree t (Name nd)) []"
  have ls: "leaf_sum Q t leaves fld D k = (\<Sum>d\<leftarrow>Subtree t (Name nd). if isLeafName t d then reading_val Q fld (readingOf leaves d) k else 0)" for fld
    using leaf_sum_list [OF sub(1)] sub(2) by metis
  have m: "map_of (borrowedAboveNominal Q nd xs) k
      = map_option (borrowedTotal Q (map_of (nominalOf (Budgets (Quota nd))) k)) (map_of xs k)" for xs
    by (induction xs) (auto simp: borrowedAboveNominal_def)
  have keys: "keys_of (rolled Q t leaves nd) = keys_of ?tot"
    by (force simp: rolled_def Let_def borrowedAboveNominal_def)
  then show "keys_of (rolled Q t leaves nd) = (\<Union>d\<in>{d \<in> D. isLeafName t d}. keys_of (readingOf leaves d))"
    by (simp add: keys_addLeaves sub(2))
  assume "k \<in> keys_of (rolled Q t leaves nd)"
  then obtain x where x: "map_of ?tot k = Some x" unfolding keys keys_of_map_of by blast
  have at: "totalOf Q (rolled Q t leaves nd) k
      = (if IsLeaf nd then totalOf Q ?tot k else borrowedTotal Q (map_of (nominalOf (Budgets (Quota nd))) k) (totalOf Q ?tot k))"
    using x by (cases "IsLeaf nd") (simp_all add: rolled_def Let_def totalOf_def m)
  note add = quantity.totalOf_addLeaves [OF Q ok, of t _ "Subtree t (Name nd)" "[]" k] quantity.totalOf_Nil [OF Q]
  show "qval Q (tt_Admitted (totalOf Q (rolled Q t leaves nd) k)) = leaf_sum Q t leaves ob_Admitted D k"
    by (simp add: at ls add quantity.borrowedTotal_val [OF Q])
  show "qval Q (tt_Reserved (totalOf Q (rolled Q t leaves nd) k)) = leaf_sum Q t leaves ob_Reserved D k"
    by (simp add: at ls add quantity.borrowedTotal_val [OF Q])
  show "qval Q (tt_Borrowed (totalOf Q (rolled Q t leaves nd) k))
      = (if IsLeaf nd then leaf_sum Q t leaves ob_Borrowed D k
         else borrowed_above Q (Budgets (Quota nd)) k (leaf_sum Q t leaves ob_Admitted D k))"
    by (simp add: at ls add quantity.borrowedTotal_val [OF Q] borrowed_above_def map_of_nominalOf split: option.split)
qed

text \<open>
  C31: The usage reported for a node is that of its subtree. A node has an entry exactly when a queue
  at or below it has a reading, with one total for each pair some of them report. The admitted and
  reserved totals are the sums over the leaves of the subtree, each counted once. A leaf reports
  the borrowed figure of the backend; above a leaf it is the admitted amount beyond the node's own
  authored budget, and zero for a pair the node has no budget for.
\<close>

theorem Roll_totals:
  assumes Q: "quantity Q" and b: "Build Q qs opts = Inr (t, vs)" and ok: "readings_ok leaves" and n: "lookup t n = Some nd"
    and D: "D = descendants qs n" and out: "out = Roll Q (Some t) leaves"
  shows "(n \<in> keys_of out \<longleftrightarrow> (\<exists>d\<in>D. isLeafName t d \<and> readingOf leaves d \<noteq> []))
    \<and> (\<forall>totals k. map_of out n = Some totals \<longrightarrow>
         (k \<in> keys_of totals \<longleftrightarrow> (\<exists>d\<in>D. isLeafName t d \<and> k \<in> keys_of (readingOf leaves d)))
         \<and> (k \<in> keys_of totals \<longrightarrow>
              qval Q (tt_Admitted (totalOf Q totals k)) = leaf_sum Q t leaves ob_Admitted D k
              \<and> qval Q (tt_Reserved (totalOf Q totals k)) = leaf_sum Q t leaves ob_Reserved D k
              \<and> qval Q (tt_Borrowed (totalOf Q totals k))
                = (if IsLeaf nd then leaf_sum Q t leaves ob_Borrowed D k
                   else borrowed_above Q (Budgets (Quota nd)) k (leaf_sum Q t leaves ob_Admitted D k))))"
proof -
  obtain dep where sh: "shape qs dep (nodes t)"
    using Build_parts [of opts Q qs] b by (auto simp: Build_def split: if_splits)
  have m: "n \<in> QName ` set qs" and nd: "nd = the (nodeAt qs dep n)" using n shape_lookup [OF sh] by (auto simp: nodeAt_def quotaOf_Some)
  have nm: "Name nd = n" using nodeAt_sel(1) [OF m, of dep] nd by simp
  note sub = Subtree_shape [OF sh m]
  note rf = rolled_facts [OF Q ok, of t nd D, unfolded nm, OF sub(2) sub(1) [folded D]]
  have "map Name (Nodes t) = quotaNames qs"
    unfolding shape_Nodes [OF sh] map_map comp_def by (rule map_idI) (simp add: nodeAt_sel)
  moreover have "nd \<in> set (Nodes t)" using m nd by (simp add: shape_Nodes [OF sh])
  ultimately have rolls: "map_of (fold (rollNode Q t leaves) (Nodes t) []) n
      = (if rolled Q t leaves nd = [] then None else Some (rolled Q t leaves nd))"
    using map_of_rollNodes [of "Nodes t" nd Q t leaves] nm by simp
  have "rolled Q t leaves nd = []" if "leaves = []" using rf(1) that by (simp add: readingOf_def)
  then have at: "map_of out n = (if rolled Q t leaves nd = [] then None else Some (rolled Q t leaves nd))"
    using rolls by (simp add: out Roll_def)
  have "n \<in> keys_of out \<longleftrightarrow> keys_of (rolled Q t leaves nd) \<noteq> {}" unfolding keys_of_map_of at by simp
  also have "\<dots> \<longleftrightarrow> (\<exists>d\<in>D. isLeafName t d \<and> readingOf leaves d \<noteq> [])" unfolding rf(1) by auto
  finally have "n \<in> keys_of out \<longleftrightarrow> (\<exists>d\<in>D. isLeafName t d \<and> readingOf leaves d \<noteq> [])" .
  moreover have "totals = rolled Q t leaves nd" if "map_of out n = Some totals" for totals
    using that at by (auto split: if_splits)
  moreover have "k \<in> keys_of (rolled Q t leaves nd) \<longleftrightarrow> (\<exists>d\<in>D. isLeafName t d \<and> k \<in> keys_of (readingOf leaves d))" for k
    unfolding rf(1) by blast
  ultimately show ?thesis using rf(2-4) by (intro conjI allI impI) simp_all
qed

definition teamReadings :: "(dec \<times> string) readings" where
  "teamReadings = [(''team-b'', [((ResourceName (tpu 0), ResourceFlavor (tpu 0)),
     \<lparr>ob_Admitted = whole 110, ob_Reserved = whole 120, ob_Borrowed = whole 70\<rparr>)])]"

theorem Roll_totals_witness:
  "\<exists>t vs totals. Build exact_api healthyFleet fleetOptions = Inr (t, vs)
    \<and> map_of (Roll exact_api (Some t) teamReadings) ''org'' = Some totals
    \<and> qval exact_api (tt_Borrowed (totalOf exact_api totals (ResourceName (tpu 0), ResourceFlavor (tpu 0)))) = 10"
proof -
  let ?k = "(ResourceName (tpu 0), ResourceFlavor (tpu 0))" and ?D = "descendants healthyFleet ''org''"
  obtain t vs nd where b: "Build exact_api healthyFleet fleetOptions = Inr (t, vs)"
    and nd: "lookup t ''org'' = Some nd" "\<not> IsLeaf nd" "Quota nd = cohort ''org'' (Some ''root'') 100" by (rule healthy_cohort)
  obtain lf where lf: "lookup t ''team-b'' = Some lf" "IsLeaf lf" by (rule healthy_leaf) (use b in auto)
  have ok: "readings_ok teamReadings" by (simp add: readings_ok_def teamReadings_def)
  have "climb (refParent healthyFleet) 1 ''team-b'' = Some ''org''" by code_simp
  moreover have "''team-b'' \<in> QName ` set healthyFleet" by (simp add: healthyFleet_def leaf_def)
  ultimately have D: "''team-b'' \<in> ?D" unfolding descendants_def by blast
  have fin: "finite ?D" by (simp add: descendants_def)
  have lfn: "isLeafName t ''team-b''" using lf by (auto simp: isLeafName_def)
  have "leaf_sum exact_api t teamReadings ob_Admitted ?D ?k
      = (\<Sum>d\<in>{''team-b''}. reading_val exact_api ob_Admitted (readingOf teamReadings d) ?k)"
    unfolding leaf_sum_def using D fin lfn
    by (intro sum.mono_neutral_right) (auto simp: readingOf_def teamReadings_def reading_val_def)
  then have s: "leaf_sum exact_api t teamReadings ob_Admitted ?D ?k = 110"
    by (simp add: readingOf_def teamReadings_def reading_val_def qval_def exact_api_def dec_val_def)
  have r: "readingOf teamReadings ''team-b'' \<noteq> []" "?k \<in> keys_of (readingOf teamReadings ''team-b'')"
    by (simp_all add: readingOf_def teamReadings_def)
  note roll = Roll_totals [OF exact.quantity_axioms b ok nd(1) refl refl]
  then obtain totals where tot: "map_of (Roll exact_api (Some t) teamReadings) ''org'' = Some totals"
    using D lfn r(1) keys_of_map_of [of "''org''" "Roll exact_api (Some t) teamReadings"] by blast
  then have "?k \<in> keys_of totals" using roll D lfn r(2) by blast
  then have "qval exact_api (tt_Borrowed (totalOf exact_api totals ?k)) = borrowed_above exact_api (Budgets (Quota nd)) ?k 110"
    using roll tot nd(2) s by simp
  also have "\<dots> = 10"
    by (simp add: nd(3) borrowed_above_def cohort_def tpu_def qval_def exact_api_def dec_val_def)
  finally show ?thesis using b tot by blast
qed

end
