(* ===== verification/Placement_Apportion.thy ===== *)
theory Placement_Apportion
  imports Largest_Remainder
begin

section \<open>Apportioning replicas to clusters (placement/allocation/apportion.go)\<close>

text \<open>
  \<^verbatim>\<open>pkg/controller/v1beta1/placement/allocation/apportion.go\<close>: \<open>Apportion\<close> splits the
  desired replicas over the clusters in proportion to 64-bit weights, on machine integers. The
  128-bit product and quotient of \<^verbatim>\<open>math/bits\<close> are written out with the panic of
  \<^verbatim>\<open>Div64\<close>, and so is the index of the hand-out loop; both are proved not to panic.
\<close>

subsection \<open>Data\<close>

record plan =
  targets :: "(name, int) gomap"
  unassigned :: int

datatype apportion_error =
    DesiredNegative
  | LimitNegative
  | EmptyClusterName
  | NegativeWeight name
  | WeightSumOverflow
  | TargetLimitError name int int
  | DivisionPanic
  | IndexPanic

subsection \<open>Operations\<close>

definition Mul64 :: "int \<Rightarrow> int \<Rightarrow> int \<times> int" where
  "Mul64 x y = (x * y div 18446744073709551616, x * y mod 18446744073709551616)"

definition Div64 :: "int \<Rightarrow> int \<Rightarrow> int \<Rightarrow> (int \<times> int) option" where
  "Div64 hi lo y =
     (if y = 0 \<or> y \<le> hi then None
      else Some ((hi * 18446744073709551616 + lo) div y, (hi * 18446744073709551616 + lo) mod y))"

fun sumWeights :: "(name, int) gomap \<Rightarrow> int \<Rightarrow> name list \<Rightarrow> apportion_error + int" where
  "sumWeights weights tot [] = Inr tot"
| "sumWeights weights tot (n # ns) =
     (let weight = get0 weights n
      in if n = [] then Inl EmptyClusterName
         else if weight < 0 then Inl (NegativeWeight n)
         else if weight > max_int64 - tot then Inl WeightSumOverflow
         else sumWeights weights (tot + weight) ns)"

text \<open>The loop that gives every cluster its floor and records the remainder.\<close>

fun placeFloors :: "int \<Rightarrow> (name, int) gomap \<Rightarrow> int \<Rightarrow> name list \<Rightarrow> plan \<Rightarrow> (name \<times> int) list
    \<Rightarrow> apportion_error + plan \<times> (name \<times> int) list" where
  "placeFloors desired weights tot [] p rs = Inr (p, rs)"
| "placeFloors desired weights tot (n # ns) p rs =
     (let (hi, lo) = Mul64 desired (get0 weights n)
      in case Div64 hi lo tot of
           None \<Rightarrow> Inl DivisionPanic
         | Some (quot, rest) \<Rightarrow>
             placeFloors desired weights tot ns
               \<lparr>targets = AList.update n (wrap32 quot) (targets p),
                unassigned = wrap32 (unassigned p - wrap32 quot)\<rparr>
               (rs @ [(n, rest)]))"

definition sortRemainders :: "(name \<times> int) list \<Rightarrow> (name \<times> int) list" where
  "sortRemainders rs = sort_key (\<lambda>r. - snd r) rs"

text \<open>The loop that hands one replica each to the first clusters of the ranking.\<close>

function handOut :: "int \<Rightarrow> int \<Rightarrow> (name \<times> int) list \<Rightarrow> (name, int) gomap \<Rightarrow> (name, int) gomap option" where
  "handOut i n rs t =
     (if i < n
      then if nat i < length rs
           then handOut (i + 1) n rs
             (AList.update (fst (rs ! nat i)) (wrap32 (get0 t (fst (rs ! nat i)) + 1)) t)
           else None
      else Some t)"
  by pat_completeness auto
termination
  by (relation "measure (\<lambda>(i, n, rs, t). nat (n - i))") auto

declare handOut.simps [simp del]

fun checkLimits :: "int \<Rightarrow> (name, int) gomap \<Rightarrow> name list \<Rightarrow> apportion_error option" where
  "checkLimits maxPerCluster t [] = None"
| "checkLimits maxPerCluster t (n # ns) =
     (if maxPerCluster > 0 \<and> get0 t n > maxPerCluster
      then Some (TargetLimitError n (get0 t n) maxPerCluster)
      else checkLimits maxPerCluster t ns)"

definition Apportion :: "int \<Rightarrow> (name, int) gomap \<Rightarrow> int \<Rightarrow> apportion_error + plan" where
  "Apportion desired weights maxPerCluster =
     (if desired < 0 then Inl DesiredNegative
      else if maxPerCluster < 0 then Inl LimitNegative
      else
        let names = sorted_keys weights
        in case sumWeights weights 0 names of
             Inl e \<Rightarrow> Inl e
           | Inr tot \<Rightarrow>
               (let p0 = \<lparr>targets = map (\<lambda>n. (n, 0)) names, unassigned = desired\<rparr>
                in if tot = 0 then Inr p0
                   else case placeFloors desired weights tot names p0 [] of
                          Inl e \<Rightarrow> Inl e
                        | Inr (p1, rs) \<Rightarrow>
                            (case handOut 0 (unassigned p1) (sortRemainders rs) (targets p1) of
                               None \<Rightarrow> Inl IndexPanic
                             | Some t \<Rightarrow>
                                 (case checkLimits maxPerCluster t names of
                                    Some e \<Rightarrow> Inl e
                                  | None \<Rightarrow> Inr \<lparr>targets = t, unassigned = 0\<rparr>))))"

subsection \<open>What the inputs are\<close>

text \<open>The Go types of the arguments: 32-bit counts and a map to 64-bit weights.\<close>

definition apportion_typed :: "int \<Rightarrow> (name, int) gomap \<Rightarrow> int \<Rightarrow> bool" where
  "apportion_typed desired weights limit \<longleftrightarrow>
     is_int32 desired \<and> is_int32 limit \<and> gomap_ok weights \<and> (\<forall>e\<in>set weights. is_int64 (snd e))"

text \<open>The checks the code makes on them.\<close>

definition weights_valid :: "(name, int) gomap \<Rightarrow> bool" where
  "weights_valid weights \<longleftrightarrow> [] \<notin> keys_of weights \<and> (\<forall>n\<in>keys_of weights. 0 \<le> get0 weights n)
     \<and> lr_basis (sorted_keys weights) (get0 weights) \<le> max_int64"

lemma weights_valid_nonneg: "weights_valid ws \<Longrightarrow> n \<in> keys_of ws \<Longrightarrow> 0 \<le> get0 ws n"
  unfolding weights_valid_def by blast

subsection \<open>Summing the weights\<close>

lemma get0_nth: "gomap_ok m \<Longrightarrow> (k, v) \<in> set m \<Longrightarrow> get0 m k = v"
  by (simp add: get0_def)

lemma map_of_get0: "k \<in> keys_of m \<Longrightarrow> map_of m k = Some (get0 m k)"
  unfolding keys_of_map_of get0_def by auto

lemma get0_elem: "gomap_ok m \<Longrightarrow> e \<in> set m \<Longrightarrow> get0 m (fst e) = snd e"
  by (cases e) (simp add: get0_nth)

lemma get0_map_zero [simp]: "get0 (map (\<lambda>n. (n, 0)) ns) k = 0"
  by (induction ns) (auto simp: get0_def)

lemma sumWeights_Inr:
  "0 \<le> a \<Longrightarrow> a \<le> max_int64 \<Longrightarrow>
   (\<exists>tot. sumWeights m a ns = Inr tot) \<longleftrightarrow>
     [] \<notin> set ns \<and> (\<forall>n\<in>set ns. 0 \<le> get0 m n) \<and> a + lr_basis ns (get0 m) \<le> max_int64"
proof (induction m a ns rule: sumWeights.induct)
  case (2 m a n ns)
  have nn: "0 \<le> lr_basis ns (get0 m)" if "\<forall>n\<in>set ns. 0 \<le> get0 m n"
    unfolding lr_basis_def using that by (intro sum_list_nonneg) auto
  show ?case
  proof (cases "n = [] \<or> get0 m n < 0 \<or> get0 m n > max_int64 - a")
    case True
    then show ?thesis using nn by (auto simp: lr_basis_def Let_def)
  next
    case False
    then show ?thesis using 2 by (auto simp: lr_basis_def Let_def)
  qed
qed (simp add: lr_basis_def)

lemma sumWeights_val: "sumWeights m a ns = Inr tot \<Longrightarrow> tot = a + lr_basis ns (get0 m)"
  by (induction m a ns rule: sumWeights.induct) (auto simp: lr_basis_def Let_def split: if_splits)

lemma sumWeights_valid: "(\<exists>tot. sumWeights ws 0 (sorted_keys ws) = Inr tot) \<longleftrightarrow> weights_valid ws"
  by (subst sumWeights_Inr) (auto simp: weights_valid_def max_int64_def)

lemma sumWeights_errors:
  "sumWeights m a ns = Inl e \<Longrightarrow> e = EmptyClusterName \<or> (\<exists>n. e = NegativeWeight n) \<or> e = WeightSumOverflow"
  by (induction m a ns rule: sumWeights.induct) (auto simp: Let_def split: if_splits)

subsection \<open>Floors and hand-out on machine integers\<close>

lemma map_update_keys: "k \<in> keys_of t \<Longrightarrow> map fst (AList.update k v t) = map fst t"
  by (simp add: update_keys)

lemma gomap_get0: "gomap_ok t \<Longrightarrow> t = map (\<lambda>k. (k, get0 t k)) (map fst t)"
  by (rule nth_equalityI) (simp_all add: get0_elem prod_eq_iff)

lemma fold_update_keys:
  "set ns \<subseteq> keys_of t \<Longrightarrow> map fst (fold (\<lambda>n. AList.update n (f n)) ns t) = map fst t"
proof (induction ns arbitrary: t)
  case (Cons n ns)
  then have "map fst (AList.update n (f n) t) = map fst t" by (simp add: map_update_keys)
  moreover from this have "keys_of (AList.update n (f n) t) = keys_of t" by (metis list.set_map)
  ultimately show ?case using Cons by simp
qed simp

lemma get0_fold_update:
  "get0 (fold (\<lambda>n. AList.update n (f n)) ns t) x = (if x \<in> set ns then f x else get0 t x)"
  by (induction ns arbitrary: t) (auto simp: gomap_simps)

lemma Div64_Mul64:
  assumes "0 \<le> d" "d \<le> max_int32" "0 \<le> w" "w \<le> tot" "0 < tot"
  shows "Div64 (fst (Mul64 d w)) (snd (Mul64 d w)) tot = Some (d * w div tot, d * w mod tot)"
proof -
  define x where "x = d * w"
  have "x \<le> max_int32 * tot" unfolding x_def using assms by (intro mult_mono) auto
  also have "\<dots> < tot * 18446744073709551616" using assms by (simp add: max_int32_def)
  finally have "x div 18446744073709551616 < tot" by linarith
  then have "d * w div 18446744073709551616 < tot" by (simp add: x_def)
  moreover have "d * w div 18446744073709551616 * 18446744073709551616 + d * w mod 18446744073709551616 = d * w"
    by (rule div_mult_mod_eq)
  ultimately show ?thesis using assms by (simp add: Div64_def Mul64_def)
qed

lemma placeFloors_Inr:
  assumes d: "0 \<le> d" "d \<le> max_int32" and tot: "0 < tot"
    and "\<forall>n\<in>set ns. 0 \<le> get0 m n \<and> get0 m n \<le> tot"
    and "(\<Sum>n\<leftarrow>ns. d * get0 m n div tot) \<le> unassigned p" "unassigned p \<le> max_int32"
  shows "placeFloors d m tot ns p rs =
     Inr (\<lparr>targets = fold (\<lambda>n. AList.update n (d * get0 m n div tot)) ns (targets p),
           unassigned = unassigned p - (\<Sum>n\<leftarrow>ns. d * get0 m n div tot)\<rparr>,
          rs @ map (\<lambda>n. (n, d * get0 m n mod tot)) ns)"
  using assms(4-6)
proof (induction ns arbitrary: p rs)
  case (Cons n ns)
  let ?q = "\<lambda>n. d * get0 m n div tot"
  have w: "0 \<le> get0 m n" "get0 m n \<le> tot" using Cons.prems by auto
  have q0: "0 \<le> ?q x" if "x \<in> set (n # ns)" for x
    using Cons.prems(1) that d tot by (auto simp: pos_imp_zdiv_nonneg_iff)
  then have sum0: "0 \<le> (\<Sum>n\<leftarrow>ns. ?q n)" by (intro sum_list_nonneg) auto
  have "?q n \<le> d" using w d tot by (intro mult_div_le)
  then have wr: "wrap32 (?q n) = ?q n"
    using q0 [of n] d by (intro wrap32_id) (simp add: max_int32_def)
  have wu: "wrap32 (unassigned p - ?q n) = unassigned p - ?q n"
    using q0 [of n] sum0 Cons.prems by (intro wrap32_id) (simp add: max_int32_def)
  have "placeFloors d m tot (n # ns) p rs = placeFloors d m tot ns
      \<lparr>targets = AList.update n (?q n) (targets p), unassigned = unassigned p - ?q n\<rparr>
      (rs @ [(n, d * get0 m n mod tot)])"
    using Div64_Mul64 [OF d w tot] by (simp add: wr wu case_prod_beta Let_def)
  then show ?case
    using Cons.IH Cons.prems q0 [of n] by (simp add: algebra_simps)
qed simp

lemma handOut_Some:
  assumes "0 \<le> i" "i \<le> n" "n \<le> int (length rs)" "distinct (map fst rs)"
    "i < n \<longrightarrow> (\<forall>r\<in>set (drop (nat i) rs). 0 \<le> get0 t (fst r) \<and> get0 t (fst r) < max_int32)"
    "\<forall>r\<in>set rs. fst r \<in> keys_of t"
  shows "\<exists>t'. handOut i n rs t = Some t' \<and> map fst t' = map fst t
     \<and> (\<forall>x. get0 t' x = get0 t x + (if x \<in> fst ` set (take (nat (n - i)) (drop (nat i) rs)) then 1 else 0))"
  using assms
proof (induction i n rs t rule: handOut.induct)
  case (1 i n rs t)
  show ?case
  proof (cases "i < n")
    case False
    then show ?thesis by (simp add: handOut.simps)
  next
    case True
    let ?c = "fst (rs ! nat i)"
    let ?t = "AList.update ?c (get0 t ?c + 1) t"
    have i: "nat i < length rs" using True "1.prems" by linarith
    have dr: "drop (nat i) rs = rs ! nat i # drop (nat (i + 1)) rs"
      using Cons_nth_drop_Suc [OF i] "1.prems"(1) by (simp add: nat_add_distrib)
    have c: "0 \<le> get0 t ?c" "get0 t ?c < max_int32" and k: "?c \<in> keys_of t"
      using "1.prems"(5,6) i True by (simp_all add: dr)
    have wr: "wrap32 (get0 t ?c + 1) = get0 t ?c + 1"
      using c by (intro wrap32_id) (simp add: max_int32_def)
    have mk: "map fst ?t = map fst t" using k by (rule map_update_keys)
    then have ks: "keys_of ?t = keys_of t" by (metis list.set_map)
    have "distinct (map fst (drop (nat i) rs))"
      using "1.prems"(4) by (simp add: drop_map [symmetric])
    then have nin: "?c \<notin> fst ` set (drop (nat (i + 1)) rs)"
      by (simp add: dr)
    have rest: "\<forall>r\<in>set (drop (nat (i + 1)) rs). 0 \<le> get0 ?t (fst r) \<and> get0 ?t (fst r) < max_int32"
    proof
      fix r assume r: "r \<in> set (drop (nat (i + 1)) rs)"
      then have "fst r \<noteq> ?c" using nin by (metis image_eqI)
      then show "0 \<le> get0 ?t (fst r) \<and> get0 ?t (fst r) < max_int32"
        using "1.prems"(5) r True by (simp add: dr gomap_simps)
    qed
    obtain t' where t': "handOut (i + 1) n rs ?t = Some t'" "map fst t' = map fst t"
      "\<And>x. get0 t' x = get0 ?t x
         + (if x \<in> fst ` set (take (nat (n - (i + 1))) (drop (nat (i + 1)) rs)) then 1 else 0)"
      using "1.IH" [OF True i] "1.prems" True rest by (auto simp: wr ks mk)
    have n: "nat (n - i) = Suc (nat (n - (i + 1)))" using True by linarith
    have "?c \<notin> fst ` set (take (nat (n - (i + 1))) (drop (nat (i + 1)) rs))"
      using nin by (meson image_mono set_take_subset subsetD)
    then show ?thesis
      using True i t' by (auto simp: handOut.simps [of i] wr dr n gomap_simps)
  qed
qed

subsection \<open>The reference plan\<close>

definition apportion_ranking :: "int \<Rightarrow> (name, int) gomap \<Rightarrow> name list" where
  "apportion_ranking desired weights =
     (let ns = sorted_keys weights
      in sort_key (\<lambda>n. - lr_rem desired ns (get0 weights) n) ns)"

definition apportion_units :: "int \<Rightarrow> (name, int) gomap \<Rightarrow> name \<Rightarrow> int" where
  "apportion_units desired weights n =
     (let ns = sorted_keys weights
      in lr_floor desired ns (get0 weights) n
         + (if n \<in> set (take (nat (lr_left desired ns (get0 weights))) (apportion_ranking desired weights))
            then 1 else 0))"

definition apportion_plan :: "int \<Rightarrow> (name, int) gomap \<Rightarrow> plan" where
  "apportion_plan desired weights =
     (if lr_basis (sorted_keys weights) (get0 weights) = 0
      then \<lparr>targets = map (\<lambda>n. (n, 0)) (sorted_keys weights), unassigned = desired\<rparr>
      else \<lparr>targets = map (\<lambda>n. (n, apportion_units desired weights n)) (sorted_keys weights), unassigned = 0\<rparr>)"

lemma get0_map: "get0 (map (\<lambda>n. (n, f n)) ns) x = (if x \<in> set ns then f x else 0)"
  by (induction ns) (auto simp: get0_def)

lemma checkLimits_None:
  "checkLimits m t ns = None \<longleftrightarrow> m \<le> 0 \<or> (\<forall>n\<in>set ns. get0 t n \<le> m)"
  by (induction ns) auto

lemma checkLimits_off [simp]: "m \<le> 0 \<Longrightarrow> checkLimits m t ns = None"
  by (simp add: checkLimits_None)

lemma checkLimits_Some:
  "checkLimits m t ns = Some e \<Longrightarrow>
     \<exists>n\<in>set ns. e = TargetLimitError n (get0 t n) m \<and> 0 < m \<and> m < get0 t n"
  by (induction ns) (auto split: if_splits)

lemma floors_then_handOut:
  assumes ty: "apportion_typed d ws m" and d: "0 \<le> d" and wv: "weights_valid ws"
  defines "ns \<equiv> sorted_keys ws"
  assumes B: "0 < lr_basis ns (get0 ws)"
  shows "\<exists>p1 rs. placeFloors d ws (lr_basis ns (get0 ws)) ns
            \<lparr>targets = map (\<lambda>n. (n, 0)) ns, unassigned = d\<rparr> [] = Inr (p1, rs)
          \<and> handOut 0 (unassigned p1) (sortRemainders rs) (targets p1)
            = Some (map (\<lambda>n. (n, apportion_units d ws n)) ns)"
proof -
  let ?f = "lr_floor d ns (get0 ws)" and ?r = "lr_rem d ns (get0 ws)" and ?L = "lr_left d ns (get0 ws)"
  let ?t = "fold (\<lambda>n. AList.update n (?f n)) ns (map (\<lambda>n. (n, 0)) ns)"
  let ?rs = "map (\<lambda>n. (n, ?r n)) ns"
  have w: "\<forall>n\<in>set ns. 0 \<le> get0 ws n" using wv by (simp add: weights_valid_def ns_def)
  have wle: "\<forall>n\<in>set ns. get0 ws n \<le> lr_basis ns (get0 ws)"
    unfolding lr_basis_def using w by (auto intro!: member_le_sum_list)
  have dm: "d \<le> max_int32" and dns: "distinct ns" using ty by (simp_all add: apportion_typed_def ns_def)
  have L0: "0 \<le> ?L" "?L < int (length ns)"
    using lr_left_nonneg [OF B] lr_left_less [OF B] by blast+
  have f0: "\<forall>n\<in>set ns. 0 \<le> ?f n" using w d B by (auto intro!: lr_floor_nonneg)
  have fl: "\<forall>n\<in>set ns. ?f n \<le> d - ?L"
    using f0 by (auto simp: lr_left_def intro!: member_le_sum_list)
  have keys: "map fst ?t = ns"
    by (subst fold_update_keys) (auto simp: comp_def image_image)
  have kof: "keys_of ?t = set ns" using keys by (metis list.set_map)
  have place: "placeFloors d ws (lr_basis ns (get0 ws)) ns
      \<lparr>targets = map (\<lambda>n. (n, 0)) ns, unassigned = d\<rparr> [] = Inr (\<lparr>targets = ?t, unassigned = ?L\<rparr>, ?rs)"
    using placeFloors_Inr [OF d dm B, of ns ws "\<lparr>targets = map (\<lambda>n. (n, 0)) ns, unassigned = d\<rparr>" "[]"]
      w wle dm L0(1)
    by (simp add: lr_floor_def lr_rem_def lr_left_def)
  have rk: "map fst (sortRemainders ?rs) = apportion_ranking d ws"
    by (simp add: sortRemainders_def sort_key_map comp_def apportion_ranking_def ns_def Let_def)
  have srt: "set (sortRemainders ?rs) = set ?rs" by (simp add: sortRemainders_def)
  have "\<exists>t'. handOut 0 ?L (sortRemainders ?rs) ?t = Some t' \<and> map fst t' = map fst ?t
     \<and> (\<forall>x. get0 t' x = get0 ?t x + (if x \<in> fst ` set (take (nat (?L - 0)) (drop (nat 0) (sortRemainders ?rs))) then 1 else 0))"
  proof (rule handOut_Some)
    show "distinct (map fst (sortRemainders ?rs))"
      by (simp add: rk apportion_ranking_def ns_def [symmetric] dns)
    show "?L \<le> int (length (sortRemainders ?rs))" using L0 by (simp add: sortRemainders_def)
    show "0 < ?L \<longrightarrow> (\<forall>r\<in>set (drop (nat 0) (sortRemainders ?rs)). 0 \<le> get0 ?t (fst r) \<and> get0 ?t (fst r) < max_int32)"
      using f0 fl dm by (auto simp: srt get0_fold_update)
    show "\<forall>r\<in>set (sortRemainders ?rs). fst r \<in> keys_of ?t"
      by (auto simp: srt kof)
  qed (use L0 in simp_all)
  then obtain t' where t': "handOut 0 ?L (sortRemainders ?rs) ?t = Some t'" and mk: "map fst t' = ns"
    and gt: "\<And>x. get0 t' x = get0 ?t x + (if x \<in> fst ` set (take (nat ?L) (sortRemainders ?rs)) then 1 else 0)"
    by (auto simp: keys)
  have win: "fst ` set (take (nat ?L) (sortRemainders ?rs)) = set (take (nat ?L) (apportion_ranking d ws))"
    by (simp add: take_map flip: rk)
  have "get0 t' x = apportion_units d ws x" if "x \<in> set ns" for x
    using that by (simp add: gt win get0_fold_update apportion_units_def ns_def [symmetric])
  then have "t' = map (\<lambda>n. (n, apportion_units d ws n)) ns"
    using gomap_get0 [of t'] mk dns by (simp cong: map_cong)
  with place t' show ?thesis by auto
qed

lemma Apportion_cases:
  assumes ty: "apportion_typed d ws m"
  shows "(\<exists>p. Apportion d ws 0 = Inr p) \<longleftrightarrow> 0 \<le> d \<and> weights_valid ws"
    and "0 \<le> d \<Longrightarrow> 0 \<le> m \<Longrightarrow> weights_valid ws \<Longrightarrow> Apportion d ws m =
      (if lr_basis (sorted_keys ws) (get0 ws) = 0 then Inr (apportion_plan d ws)
       else case checkLimits m (targets (apportion_plan d ws)) (sorted_keys ws) of
              Some e \<Rightarrow> Inl e
            | None \<Rightarrow> Inr (apportion_plan d ws))"
proof -
  let ?ns = "sorted_keys ws"
  note sw = sumWeights_valid [of ws]
  have eq: "Apportion d ws m' =
      (if lr_basis ?ns (get0 ws) = 0 then Inr (apportion_plan d ws)
       else case checkLimits m' (targets (apportion_plan d ws)) ?ns of
              Some e \<Rightarrow> Inl e
            | None \<Rightarrow> Inr (apportion_plan d ws))"
    if d: "0 \<le> d" and m: "0 \<le> m'" and wv: "weights_valid ws" for m'
  proof -
    obtain tot where tot: "sumWeights ws 0 ?ns = Inr tot" using sw wv by blast
    then have te: "tot = lr_basis ?ns (get0 ws)" using sumWeights_val by fastforce
    have "0 \<le> lr_basis ?ns (get0 ws)"
      unfolding lr_basis_def using wv by (intro sum_list_nonneg) (auto simp: weights_valid_def)
    then consider "lr_basis ?ns (get0 ws) = 0" | "0 < lr_basis ?ns (get0 ws)" by linarith
    then show ?thesis
    proof cases
      case 1
      then show ?thesis using d m by (simp add: Apportion_def tot te apportion_plan_def)
    next
      case 2
      then show ?thesis
        using floors_then_handOut [OF ty d wv 2] d m
        by (auto simp: Apportion_def tot te apportion_plan_def Let_def split: option.split)
    qed
  qed
  show "0 \<le> d \<Longrightarrow> 0 \<le> m \<Longrightarrow> weights_valid ws \<Longrightarrow> Apportion d ws m =
      (if lr_basis ?ns (get0 ws) = 0 then Inr (apportion_plan d ws)
       else case checkLimits m (targets (apportion_plan d ws)) ?ns of
              Some e \<Rightarrow> Inl e
            | None \<Rightarrow> Inr (apportion_plan d ws))"
    by (rule eq)
  show "(\<exists>p. Apportion d ws 0 = Inr p) \<longleftrightarrow> 0 \<le> d \<and> weights_valid ws"
  proof
    assume "\<exists>p. Apportion d ws 0 = Inr p"
    then have "0 \<le> d" "\<exists>tot. sumWeights ws 0 ?ns = Inr tot"
      by (auto simp: Apportion_def Let_def not_less split: if_splits sum.splits)
    with sw show "0 \<le> d \<and> weights_valid ws" by simp
  qed (simp add: eq)
qed

lemma Apportion_Inr:
  assumes ty: "apportion_typed d ws m" and p: "Apportion d ws m = Inr p"
  shows "0 \<le> d" "0 \<le> m" "weights_valid ws" "p = apportion_plan d ws"
proof -
  show d: "0 \<le> d" and m: "0 \<le> m"
    using p by (auto simp: Apportion_def not_less split: if_splits)
  have "\<exists>tot. sumWeights ws 0 (sorted_keys ws) = Inr tot"
    using p by (auto simp: Apportion_def Let_def split: if_splits sum.splits)
  then show wv: "weights_valid ws" by (simp add: sumWeights_valid)
  show "p = apportion_plan d ws"
    using p Apportion_cases(2) [OF ty d m wv] by (auto split: if_splits option.splits)
qed

subsection \<open>Apportionment keeps the contract\<close>

record apportion_call =
  ac_desired :: int
  ac_weights :: "(name, int) gomap"
  ac_limit :: int

definition apportion_ok :: "apportion_call \<Rightarrow> bool" where
  "apportion_ok c \<longleftrightarrow> apportion_typed (ac_desired c) (ac_weights c) (ac_limit c)
     \<and> (\<exists>p. Apportion (ac_desired c) (ac_weights c) (ac_limit c) = Inr p)
     \<and> 0 < lr_basis (sorted_keys (ac_weights c)) (get0 (ac_weights c))"

definition ac_names :: "apportion_call \<Rightarrow> name list" where
  "ac_names c = sorted_keys (ac_weights c)"

definition ac_weight :: "apportion_call \<Rightarrow> name \<Rightarrow> int" where
  "ac_weight c = get0 (ac_weights c)"

definition ac_ranking :: "apportion_call \<Rightarrow> name list" where
  "ac_ranking c = apportion_ranking (ac_desired c) (ac_weights c)"

definition ac_target :: "apportion_call \<Rightarrow> name \<Rightarrow> int" where
  "ac_target c n = (case Apportion (ac_desired c) (ac_weights c) (ac_limit c) of
      Inl _ \<Rightarrow> 0 | Inr p \<Rightarrow> get0 (targets p) n)"

lemmas ac_defs = ac_names_def ac_weight_def ac_ranking_def

interpretation floors: largest_remainder apportion_ok ac_names ac_weight ac_desired ac_ranking ac_target
proof
  fix c n
  assume ok: "apportion_ok c"
  let ?d = "ac_desired c" and ?ws = "ac_weights c" and ?m = "ac_limit c"
  obtain p where ty: "apportion_typed ?d ?ws ?m" and p: "Apportion ?d ?ws ?m = Inr p"
    and B: "0 < lr_basis (sorted_keys ?ws) (get0 ?ws)"
    using ok by (auto simp: apportion_ok_def)
  note A = Apportion_Inr [OF ty p]
  show "distinct (ac_names c)" using ty by (simp add: ac_defs apportion_typed_def)
  show "0 \<le> ac_desired c" by (rule A(1))
  show "0 < lr_basis (ac_names c) (ac_weight c)" using B by (simp add: ac_defs)
  show "mset (ac_ranking c) = mset (ac_names c)"
    by (simp add: ac_defs apportion_ranking_def Let_def)
  have "sorted (map (\<lambda>n. - lr_rem ?d (ac_names c) (ac_weight c) n) (ac_ranking c))"
    unfolding ac_defs apportion_ranking_def Let_def by (rule sorted_sort_key)
  then show "sorted_wrt (\<lambda>a b. lr_rem ?d (ac_names c) (ac_weight c) b
      \<le> lr_rem ?d (ac_names c) (ac_weight c) a) (ac_ranking c)"
    unfolding sorted_map by (rule sorted_wrt_mono_rel [rotated]) auto
  assume n: "n \<in> set (ac_names c)"
  show "0 \<le> ac_weight c n" using weights_valid_nonneg [OF A(3)] n by (simp add: ac_defs)
  show "ac_target c n = lr_floor ?d (ac_names c) (ac_weight c) n
      + (if n \<in> set (take (nat (lr_left ?d (ac_names c) (ac_weight c))) (ac_ranking c)) then 1 else 0)"
    using B n by (simp add: ac_target_def p A(4) apportion_plan_def get0_map ac_defs)
      (simp add: apportion_units_def Let_def)
qed

lemma call_of_Inr:
  assumes "apportion_typed d ws m" "Apportion d ws m = Inr p" "0 < lr_basis (sorted_keys ws) (get0 ws)"
  defines "c \<equiv> \<lparr>ac_desired = d, ac_weights = ws, ac_limit = m\<rparr>"
  shows "apportion_ok c" and "ac_target c = get0 (targets p)" and "ac_names c = sorted_keys ws"
    and "ac_weight c = get0 ws" and "ac_desired c = d"
  using assms by (simp_all add: apportion_ok_def ac_target_def ac_defs c_def fun_eq_iff)

lemma plan_targets_keys: "map fst (targets (apportion_plan d ws)) = sorted_keys ws"
  by (simp add: apportion_plan_def comp_def)

lemma plan_target_bounds:
  assumes ty: "apportion_typed d ws m" and p: "Apportion d ws m = Inr p" and e: "e \<in> set (targets p)"
  shows "0 \<le> snd e \<and> snd e \<le> d"
proof (cases "lr_basis (sorted_keys ws) (get0 ws) = 0")
  case True
  then show ?thesis using e Apportion_Inr [OF ty p] by (auto simp: apportion_plan_def)
next
  case False
  note A = Apportion_Inr [OF ty p]
  have "0 \<le> lr_basis (sorted_keys ws) (get0 ws)"
    unfolding lr_basis_def using weights_valid_nonneg [OF A(3)] by (intro sum_list_nonneg) auto
  with False have B: "0 < lr_basis (sorted_keys ws) (get0 ws)" by simp
  note c = call_of_Inr [OF ty p B]
  have keys: "map fst (targets p) = sorted_keys ws" by (simp add: A(4) plan_targets_keys)
  then have k: "fst e \<in> set (sorted_keys ws)" using e by (metis image_eqI list.set_map)
  have "get0 (targets p) (fst e) = snd e"
    using e keys ty by (intro get0_elem) (simp_all add: apportion_typed_def)
  then show ?thesis
    using floors.portion_nonneg [OF c(1), of "fst e"] floors.portion_le_units [OF c(1), of "fst e"] k
    by (simp add: c)
qed

subsection \<open>Properties\<close>

text \<open>
  C27: a plan assigns every desired replica exactly once. The targets and the unassigned rest add up
  to the desired replicas, the plan has one target per cluster, and the rest is zero as soon as some
  cluster has a positive weight; without one, every target is zero.
\<close>

theorem Apportion_total:
  assumes ty: "apportion_typed d ws m" and p: "Apportion d ws m = Inr p"
  shows "map fst (targets p) = sorted_keys ws
     \<and> (\<Sum>e\<leftarrow>targets p. snd e) + unassigned p = d
     \<and> (if \<exists>n\<in>keys_of ws. 0 < get0 ws n then unassigned p = 0
        else unassigned p = d \<and> (\<forall>e\<in>set (targets p). snd e = 0))"
proof -
  note A = Apportion_Inr [OF ty p]
  let ?B = "lr_basis (sorted_keys ws) (get0 ws)"
  have keys: "map fst (targets p) = sorted_keys ws" by (simp add: A(4) plan_targets_keys)
  note nn = weights_valid_nonneg [OF A(3)]
  have ex: "(\<exists>n\<in>keys_of ws. 0 < get0 ws n) \<longleftrightarrow> ?B \<noteq> 0"
  proof
    assume "\<exists>n\<in>keys_of ws. 0 < get0 ws n"
    then obtain n where n: "n \<in> keys_of ws" "0 < get0 ws n" ..
    then have "get0 ws n \<le> ?B" unfolding lr_basis_def
      using nn by (intro member_le_sum_list) auto
    with n show "?B \<noteq> 0" by simp
  next
    assume "?B \<noteq> 0"
    then obtain n where "n \<in> set (sorted_keys ws)" "get0 ws n \<noteq> 0"
      unfolding lr_basis_def by (metis (no_types, lifting) map_cong map_replicate_const sum_list_replicate mult_zero_right)
    with nn show "\<exists>n\<in>keys_of ws. 0 < get0 ws n" by force
  qed
  show ?thesis
  proof (cases "?B = 0")
    case True
    then have "p = \<lparr>targets = map (\<lambda>n. (n, 0)) (sorted_keys ws), unassigned = d\<rparr>"
      by (simp add: A(4) apportion_plan_def)
    with True ex keys show ?thesis by (simp add: comp_def)
  next
    case False
    have "0 \<le> ?B" unfolding lr_basis_def using nn by (intro sum_list_nonneg) auto
    with False have B: "0 < ?B" by simp
    note c = call_of_Inr [OF ty p B]
    have tm: "targets p = map (\<lambda>n. (n, get0 (targets p) n)) (sorted_keys ws)"
      using gomap_get0 [of "targets p"] keys ty by (simp add: apportion_typed_def)
    have "(\<Sum>e\<leftarrow>targets p. snd e) = (\<Sum>n\<leftarrow>sorted_keys ws. get0 (targets p) n)"
      by (subst tm) (simp add: comp_def)
    also have "\<dots> = d" using floors.portions_sum [OF c(1)] by (simp add: c)
    finally show ?thesis using keys ex False by (simp add: A(4) apportion_plan_def)
  qed
qed

theorem Apportion_total_witness:
  "Apportion 7 [(''b'', 1), (''a'', 1), (''c'', 2)] 0
     = Inr \<lparr>targets = [(''a'', 2), (''b'', 2), (''c'', 3)], unassigned = 0\<rparr>
   \<and> (\<Sum>e\<leftarrow>[(''a'', 2), (''b'', 2), (''c'', 3)]. snd e) = (7::int)"
proof -
  let ?p = "\<lparr>targets = [(''a'', 2), (''b'', 2), (''c'', 3)], unassigned = 0\<rparr>"
  have p: "Apportion 7 [(''b'', 1), (''a'', 1), (''c'', 2)] 0 = Inr ?p" by code_simp
  have ty: "apportion_typed 7 [(''b'', 1), (''a'', 1), (''c'', 2)] 0"
    by (simp add: apportion_typed_def max_int32_def max_int64_def)
  show ?thesis using p Apportion_total [OF ty p] by simp
qed

text \<open>
  C28: on machine integers nothing wraps and nothing panics. For every input of the declared types
  the code never reaches the panic of the 128-bit division or of the slice index, every target lies
  between zero and the desired replicas and obeys a positive limit, and the limit error names a
  cluster whose target in the unlimited plan is above the limit.
\<close>

theorem Apportion_safe:
  assumes ty: "apportion_typed d ws m"
  shows "Apportion d ws m \<noteq> Inl DivisionPanic \<and> Apportion d ws m \<noteq> Inl IndexPanic
     \<and> (\<forall>p. Apportion d ws m = Inr p \<longrightarrow>
          (\<forall>e\<in>set (targets p). 0 \<le> snd e \<and> snd e \<le> d \<and> (0 < m \<longrightarrow> snd e \<le> m)))
     \<and> (\<forall>n t l. Apportion d ws m = Inl (TargetLimitError n t l) \<longrightarrow>
          l = m \<and> 0 < m \<and> m < t \<and> (\<exists>p. Apportion d ws 0 = Inr p \<and> map_of (targets p) n = Some t))"
proof -
  let ?ns = "sorted_keys ws" and ?P = "apportion_plan d ws"
  have sw: "sumWeights ws 0 ?ns \<noteq> Inl DivisionPanic" "sumWeights ws 0 ?ns \<noteq> Inl IndexPanic"
    "sumWeights ws 0 ?ns \<noteq> Inl (TargetLimitError n t l)" for n t l
    using sumWeights_errors by blast+
  consider "d < 0" | "0 \<le> d" "m < 0" | e where "0 \<le> d" "0 \<le> m" "sumWeights ws 0 ?ns = Inl e"
    | "0 \<le> d" "0 \<le> m" "weights_valid ws"
    using sumWeights_valid by (metis linorder_not_le sum.exhaust)
  then show ?thesis
  proof cases
    case 4
    note eq = Apportion_cases(2) [OF ty 4]
    have ty0: "apportion_typed d ws 0" using ty by (simp add: apportion_typed_def max_int32_def)
    have eq0: "Apportion d ws 0 = Inr ?P"
      using Apportion_cases(2) [OF ty0 4(1) order_refl 4(3)] by simp
    have bounds: "0 \<le> snd e \<and> snd e \<le> d" if e: "e \<in> set (targets ?P)" for e
      using plan_target_bounds [OF ty0 eq0 e] .
    have keys: "keys_of (targets ?P) = set ?ns"
      using plan_targets_keys [of d ws] by (metis list.set_map)
    have ok: "gomap_ok (targets ?P)" using ty by (simp add: plan_targets_keys apportion_typed_def)
    have lim: "snd e \<le> m"
      if "0 < m" "checkLimits m (targets ?P) ?ns = None" and e: "e \<in> set (targets ?P)" for e
    proof -
      have "fst e \<in> set ?ns" using e keys by blast
      then have "get0 (targets ?P) (fst e) \<le> m" using that unfolding checkLimits_None by force
      then show ?thesis by (simp add: get0_elem [OF ok e])
    qed
    show ?thesis
    proof (cases "checkLimits m (targets ?P) ?ns")
      case None
      then have A: "Apportion d ws m = Inr ?P" using eq by simp
      show ?thesis unfolding A using bounds lim None by simp
    next
      case (Some e)
      then obtain n where n: "n \<in> set ?ns" "e = TargetLimitError n (get0 (targets ?P) n) m" "0 < m"
        "m < get0 (targets ?P) n"
        using checkLimits_Some by blast
      have "map_of (targets ?P) n = Some (get0 (targets ?P) n)"
        using n(1) keys by (intro map_of_get0) simp
      moreover have "lr_basis ?ns (get0 ws) \<noteq> 0"
        using n by (auto simp: apportion_plan_def)
      ultimately show ?thesis using eq Some n eq0 by simp
    qed
  qed (use sw in \<open>auto simp: Apportion_def Let_def\<close>)
qed

theorem Apportion_safe_witness:
  "Apportion 7 [(''a'', 9223372036854775806), (''b'', 1)] 5 = Inl (TargetLimitError ''a'' 7 5)
   \<and> (\<exists>p. Apportion 7 [(''a'', 9223372036854775806), (''b'', 1)] 0 = Inr p
         \<and> map_of (targets p) ''a'' = Some 7)"
proof -
  have ty: "apportion_typed 7 [(''a'', 9223372036854775806), (''b'', 1)] 5"
    by (simp add: apportion_typed_def max_int32_def max_int64_def)
  have e: "Apportion 7 [(''a'', 9223372036854775806), (''b'', 1)] 5 = Inl (TargetLimitError ''a'' 7 5)"
    by code_simp
  show ?thesis using e Apportion_safe [OF ty] by blast
qed

text \<open>
  C29: the plan is fair. A target is less than one replica away from the exact proportion of its
  weight, a cluster without weight gets no replica, and a cluster with the larger weight never gets
  the smaller target.
\<close>

theorem Apportion_fair:
  assumes ty: "apportion_typed d ws m" and p: "Apportion d ws m = Inr p"
    and n: "n \<in> keys_of ws" and n': "n' \<in> keys_of ws"
  defines "W \<equiv> (\<Sum>k\<leftarrow>sorted_keys ws. get0 ws k)" and "t \<equiv> get0 (targets p)"
  shows "(0 < W \<longrightarrow> \<bar>t n * W - d * get0 ws n\<bar> < W)
     \<and> (get0 ws n = 0 \<longrightarrow> t n = 0)
     \<and> (get0 ws n < get0 ws n' \<longrightarrow> t n \<le> t n')"
proof (cases "0 < W")
  case True
  then have B: "0 < lr_basis (sorted_keys ws) (get0 ws)" by (simp add: W_def lr_basis_def)
  note c = call_of_Inr [OF ty p B]
  have W: "lr_basis (sorted_keys ws) (get0 ws) = W" by (simp add: W_def lr_basis_def)
  show ?thesis
    using floors.portion_near_quota [OF c(1), of n] floors.portion_zero_weight [OF c(1), of n]
      floors.portion_monotone [OF c(1), of n n'] n n'
    by (auto simp: c W t_def abs_less_iff)
next
  case False
  have "0 \<le> W" unfolding W_def
    using weights_valid_nonneg [OF Apportion_Inr(3) [OF ty p]] by (intro sum_list_nonneg) auto
  with False have "lr_basis (sorted_keys ws) (get0 ws) = 0" by (simp add: W_def lr_basis_def)
  then have "t = (\<lambda>_. 0)"
    using Apportion_Inr(4) [OF ty p] by (simp add: t_def apportion_plan_def fun_eq_iff)
  with False show ?thesis by simp
qed

theorem Apportion_fair_witness:
  "\<exists>p. Apportion 7 [(''a'', 5), (''b'', 7)] 0 = Inr p
     \<and> \<bar>get0 (targets p) ''a'' * 12 - 7 * 5\<bar> < 12 \<and> get0 (targets p) ''a'' \<le> get0 (targets p) ''b''"
proof -
  have ty: "apportion_typed 7 [(''a'', 5), (''b'', 7)] 0"
    by (simp add: apportion_typed_def max_int32_def max_int64_def)
  have p: "Apportion 7 [(''a'', 5), (''b'', 7)] 0
      = Inr \<lparr>targets = [(''a'', 3), (''b'', 4)], unassigned = 0\<rparr>"
    by code_simp
  have k: "sorted_keys [(''a'', 5::int), (''b'', 7)] = [''a'', ''b'']" by code_simp
  from Apportion_fair [OF ty p, of "''a''" "''b''"] p show ?thesis
    by (intro exI [of _ "\<lparr>targets = [(''a'', 3), (''b'', 4)], unassigned = 0\<rparr>"]) (simp add: k get0_def)
qed

text \<open>
  The plan is a function of the weights as a map. Whatever order Go's map iteration has, that is
  for any two association lists of the same map, the result is the same, errors included.
\<close>

lemma Apportion_map_only:
  assumes "gomap_ok ws" "gomap_ok ws'" and eq: "map_of ws = map_of ws'"
  shows "Apportion d ws m = Apportion d ws' m"
proof -
  have "keys_of ws = keys_of ws'" using eq by (metis dom_map_of_conv_image_fst)
  then have ns: "sorted_keys ws = sorted_keys ws'" using assms by (intro sorted_keys_eq_iff)
  have g: "get0 ws = get0 ws'" by (simp add: get0_def eq fun_eq_iff)
  have sw: "sumWeights ws a ks = sumWeights ws' a ks" for a ks
    by (induction ks arbitrary: a) (simp_all add: g Let_def)
  have pf: "placeFloors d ws a ks p rs = placeFloors d ws' a ks p rs" for a ks p rs
    by (induction ks arbitrary: p rs) (simp_all add: g Let_def split: prod.split option.split)
  show ?thesis unfolding Apportion_def Let_def ns sw pf ..
qed

end
