(* ===== verification/Placement_Transition.thy ===== *)
theory Placement_Transition
  imports Placement_Apportion
begin

section \<open>Moving replicas between clusters (placement/allocation/transition.go)\<close>

text \<open>
  \<^verbatim>\<open>pkg/controller/v1beta1/placement/allocation/transition.go\<close>: one call of
  \<open>Advance\<close> or \<open>AdvanceWholeMembers\<close> reads the original, the applied and the desired
  allocation and what the member clusters report, and returns one step: targets to persist, members
  to drain or to resume, a reason, or completion. The record \<open>transition\<close> is the Go struct of
  the same name; every method that changes it returns it updated.

  Counts are \<^verbatim>\<open>int32\<close> and the totals are \<^verbatim>\<open>int64\<close> in the source. The totals add
  one 32-bit count per cluster, and the conversions back to 32 bits are of a minimum with a 32-bit
  difference, so they are identities; the three overflow checks of the source are kept.
\<close>

subsection \<open>Data\<close>

record member_state =
  Known :: bool
  Eligible :: bool
  Applied :: bool
  Routable :: bool
  Drained :: bool
  Absent :: bool
  Ready :: int
  Occupied :: int

definition zero_state :: member_state where
  "zero_state = \<lparr>Known = False, Eligible = False, Applied = False, Routable = False,
     Drained = False, Absent = False, Ready = 0, Occupied = 0\<rparr>"

definition stateOf :: "(name, member_state) gomap \<Rightarrow> name \<Rightarrow> member_state" where
  "stateOf m n = (case map_of m n of None \<Rightarrow> zero_state | Some s \<Rightarrow> s)"

record transition_in =
  From :: plan
  Current :: "(name, int) gomap"
  Desired :: plan
  Members :: "(name, member_state) gomap"
  Surge :: int
  RolloutReserved :: int

record step =
  Targets :: "(name, int) gomap"
  Drain :: "name list"
  Resume :: "name list"
  Reason :: string
  Complete :: bool
  Message :: string
  CleanupReleased :: bool

record member_view =
  mname :: name
  original :: int
  current :: int
  goal :: int
  mstate :: member_state

record transition =
  tin :: transition_in
  wholeMembers :: bool
  fromReplicas :: int
  desiredReplicas :: int
  members :: "member_view list"
  tstep :: step
  targetsGrow :: bool
  targetsShrink :: bool
  inUse :: int
  servingReady :: int
  readyWithoutTarget :: int
  retirementAllowance :: int
  readyAboveDesired :: int
  servingAboveMinimum :: int
  growthAllowance :: int
  budgetBlocked :: bool

datatype plan_error = UnassignedNegative | BadTarget | ReplicaTotalOverflow

datatype transition_error =
    OriginalPlan plan_error
  | DesiredPlan plan_error
  | CurrentTargets plan_error
  | NegativeAllowance
  | EmptyObservationName
  | InconsistentObservation name
  | OccupiedOverflow
  | SurgeOverflow

subsection \<open>Reading the input\<close>

fun sumTargets :: "int \<Rightarrow> (name \<times> int) list \<Rightarrow> plan_error + int" where
  "sumTargets tot [] = Inr tot"
| "sumTargets tot ((n, cnt) # es) =
     (if n = [] \<or> cnt < 0 then Inl BadTarget
      else if cnt > max_int64 - tot then Inl ReplicaTotalOverflow
      else sumTargets (tot + cnt) es)"

definition planTotal :: "plan \<Rightarrow> plan_error + int" where
  "planTotal p = (if unassigned p < 0 then Inl UnassignedNegative else sumTargets (unassigned p) (targets p))"

definition inconsistent :: "member_state \<Rightarrow> bool" where
  "inconsistent s \<longleftrightarrow> Ready s < 0 \<or> Occupied s < 0 \<or> Ready s > Occupied s
     \<or> (Absent s \<and> (\<not> Known s \<or> Occupied s > 0)) \<or> (Drained s \<and> Routable s)"

definition serving :: "member_state \<Rightarrow> bool" where
  "serving s \<longleftrightarrow> Known s \<and> Applied s \<and> Routable s"

definition routableWithoutTarget :: "member_view \<Rightarrow> bool" where
  "routableWithoutTarget m \<longleftrightarrow> current m = 0 \<and> Known (mstate m) \<and> Routable (mstate m)"

definition unknownStanding :: "member_view \<Rightarrow> bool" where
  "unknownStanding m \<longleftrightarrow> \<not> Known (mstate m) \<and> (current m > 0 \<or> original m > 0 \<or> Occupied (mstate m) > 0)"

definition needsResume :: "member_view \<Rightarrow> bool" where
  "needsResume m \<longleftrightarrow> goal m > 0 \<and> current m > 0 \<and> Drained (mstate m)"

definition aboveBothPlans :: "member_view \<Rightarrow> bool" where
  "aboveBothPlans m \<longleftrightarrow> current m > max (original m) (goal m)"

definition occupiedWithoutTarget :: "member_view \<Rightarrow> bool" where
  "occupiedWithoutTarget m \<longleftrightarrow> current m = 0 \<and> goal m = 0 \<and> Occupied (mstate m) > 0 \<and> \<not> Drained (mstate m)"

definition reducible :: "member_view \<Rightarrow> bool" where
  "reducible m \<longleftrightarrow> current m > goal m \<and> Known (mstate m) \<and> Applied (mstate m)"

definition growable :: "member_view \<Rightarrow> bool" where
  "growable m \<longleftrightarrow> goal m > current m \<and> Known (mstate m) \<and> Eligible (mstate m)
     \<and> (current m = 0 \<or> Applied (mstate m))"

definition unsettled :: "member_view \<Rightarrow> bool" where
  "unsettled m \<longleftrightarrow> (current m > 0 \<and> (\<not> Known (mstate m) \<or> \<not> Applied (mstate m)))
     \<or> (current m = 0 \<and> Occupied (mstate m) > 0)"

definition memberNames :: "transition_in \<Rightarrow> name list" where
  "memberNames i = sort (remdups (map fst (targets (Desired i)) @ map fst (targets (From i))
     @ map fst (Current i) @ map fst (Members i)))"

definition viewOf :: "transition_in \<Rightarrow> name \<Rightarrow> member_view" where
  "viewOf i n = \<lparr>mname = n, original = get0 (targets (From i)) n, current = get0 (Current i) n,
     goal = get0 (targets (Desired i)) n, mstate = stateOf (Members i) n\<rparr>"

definition zero_step :: step where
  "zero_step = \<lparr>Targets = [], Drain = [], Resume = [], Reason = [], Complete = False,
     Message = [], CleanupReleased = False\<rparr>"

definition readMembers :: "transition \<Rightarrow> transition_error + transition" where
  "readMembers t =
     (if [] \<in> keys_of (Members (tin t)) then Inl EmptyObservationName
      else Inr (t\<lparr>
        members := map (viewOf (tin t)) (memberNames (tin t)),
        tstep := zero_step\<lparr>Targets := map (\<lambda>n. (n, get0 (Current (tin t)) n)) (memberNames (tin t))\<rparr>\<rparr>))"

definition countMember :: "member_view \<Rightarrow> transition \<Rightarrow> transition_error + transition" where
  "countMember m t =
     (let s = mstate m;
          occupied = max (current m) (Occupied s);
          t1 = t\<lparr>targetsGrow := targetsGrow t \<or> goal m > current m,
                 targetsShrink := targetsShrink t \<or> goal m < current m\<rparr>
      in if occupied > max_int64 - inUse t1 then Inl OccupiedOverflow
         else
           let t2 = t1\<lparr>inUse := inUse t1 + occupied,
                       retirementAllowance := retirementAllowance t1 - max 0 (original m - current m)\<rparr>;
               t3 = (if Drained s then t2\<lparr>retirementAllowance := retirementAllowance t2 - min (original m) (current m)\<rparr> else t2);
               t4 = (if serving s then t3\<lparr>servingReady := servingReady t3 + min (Ready s) (current m),
                       retirementAllowance := retirementAllowance t3 + max 0 (min (Ready s) (current m) - original m)\<rparr> else t3);
               t5 = (if routableWithoutTarget m then t4\<lparr>readyWithoutTarget := readyWithoutTarget t4 + Ready s\<rparr> else t4)
           in Inr t5)"

fun countMembers :: "member_view list \<Rightarrow> transition \<Rightarrow> transition_error + transition" where
  "countMembers [] t = Inr t"
| "countMembers (m # ms) t =
     (if inconsistent (mstate m) then Inl (InconsistentObservation (mname m))
      else case countMember m t of Inl e \<Rightarrow> Inl e | Inr t' \<Rightarrow> countMembers ms t')"

definition readBudget :: "transition \<Rightarrow> transition_error + transition" where
  "readBudget t =
     (case countMembers (members t)
         (t\<lparr>inUse := RolloutReserved (tin t),
            retirementAllowance := max 0 (fromReplicas t - desiredReplicas t)\<rparr>) of
        Inl e \<Rightarrow> Inl e
      | Inr t1 \<Rightarrow>
          (let t2 = (if fromReplicas t1 - unassigned (From (tin t1)) < desiredReplicas t1
                     then t1\<lparr>retirementAllowance := min (retirementAllowance t1)
                               (max 0 (servingReady t1 - desiredReplicas t1))\<rparr>
                     else t1)
           in Inr (t2\<lparr>
                readyAboveDesired := max 0 (servingReady t2 + readyWithoutTarget t2 - desiredReplicas t2),
                servingAboveMinimum := max 0 (servingReady t2 - min (fromReplicas t2) (desiredReplicas t2))\<rparr>)))"

definition newTransition :: "transition_in \<Rightarrow> bool \<Rightarrow> transition" where
  "newTransition i whole = \<lparr>tin = i, wholeMembers = whole, fromReplicas = 0, desiredReplicas = 0,
     members = [], tstep = zero_step, targetsGrow = False, targetsShrink = False, inUse = 0,
     servingReady = 0, readyWithoutTarget = 0, retirementAllowance = 0, readyAboveDesired = 0,
     servingAboveMinimum = 0, growthAllowance = 0, budgetBlocked = False\<rparr>"

definition readTransition :: "transition_in \<Rightarrow> bool \<Rightarrow> transition_error + transition" where
  "readTransition i whole =
     (case planTotal (From i) of
        Inl e \<Rightarrow> Inl (OriginalPlan e)
      | Inr fr \<Rightarrow>
     (case planTotal (Desired i) of
        Inl e \<Rightarrow> Inl (DesiredPlan e)
      | Inr de \<Rightarrow>
     (case planTotal \<lparr>targets = Current i, unassigned = 0\<rparr> of
        Inl e \<Rightarrow> Inl (CurrentTargets e)
      | Inr _ \<Rightarrow>
         if RolloutReserved i < 0 \<or> Surge i < 0 then Inl NegativeAllowance
         else (case readMembers ((newTransition i whole)\<lparr>fromReplicas := fr, desiredReplicas := de\<rparr>) of
                 Inl e \<Rightarrow> Inl e
               | Inr t \<Rightarrow> readBudget t))))"

subsection \<open>Deciding the step\<close>

definition withReason :: "step \<Rightarrow> string \<Rightarrow> step" where
  "withReason s r = s\<lparr>Reason := r\<rparr>"

definition hasUnknownStandingMember :: "transition \<Rightarrow> bool" where
  "hasUnknownStandingMember t = list_ex unknownStanding (members t)"

definition hasUnsettledMember :: "transition \<Rightarrow> bool" where
  "hasUnsettledMember t = list_ex unsettled (members t)"

definition resumeDrainedMembers :: "transition \<Rightarrow> transition" where
  "resumeDrainedMembers t = t\<lparr>tstep := (tstep t)\<lparr>Resume := Resume (tstep t) @ map mname (filter needsResume (members t))\<rparr>\<rparr>"

definition sameTargets :: "(name, int) gomap \<Rightarrow> (name, int) gomap \<Rightarrow> bool" where
  "sameTargets a b \<longleftrightarrow> list_all (\<lambda>(n, c). get0 b n = c) a \<and> list_all (\<lambda>(n, c). get0 a n = c) b"

definition movesReplicas :: "transition \<Rightarrow> bool" where
  "movesReplicas t \<longleftrightarrow> Drain (tstep t) \<noteq> [] \<or> \<not> sameTargets (Targets (tstep t)) (Current (tin t))"

definition waitingReason :: "transition \<Rightarrow> string" where
  "waitingReason t =
     (if targetsGrow t \<and> (growthAllowance t = 0 \<or> budgetBlocked t) then ''SurgeBudgetExhausted''
      else ''ReplacementNotReady'')"

text \<open>Writing a target, and listing a member to drain.\<close>

definition setTarget :: "name \<Rightarrow> int \<Rightarrow> transition \<Rightarrow> transition" where
  "setTarget n v t = t\<lparr>tstep := (tstep t)\<lparr>Targets := AList.update n v (Targets (tstep t))\<rparr>\<rparr>"

definition addDrain :: "name \<Rightarrow> transition \<Rightarrow> transition" where
  "addDrain n t = t\<lparr>tstep := (tstep t)\<lparr>Drain := Drain (tstep t) @ [n]\<rparr>\<rparr>"

definition reductionOrder :: "transition \<Rightarrow> member_view list" where
  "reductionOrder t = sort_key (\<lambda>m. \<not> aboveBothPlans m) (members t)"

definition drainWithoutTarget :: "member_view \<Rightarrow> transition \<Rightarrow> transition" where
  "drainWithoutTarget m t =
     (if Routable (mstate m) then
        (if Ready (mstate m) > readyAboveDesired t then t
         else addDrain (mname m) (t\<lparr>readyAboveDesired := readyAboveDesired t - Ready (mstate m)\<rparr>))
      else addDrain (mname m) t)"

definition unbackedReplicas :: "transition \<Rightarrow> member_view \<Rightarrow> int" where
  "unbackedReplicas t m =
     (if Drained (mstate m) then current m
      else if \<not> Routable (mstate m) \<or> Ready (mstate m) = 0 \<or> wholeMembers t
      then max 0 (current m - max (original m) (Ready (mstate m)))
      else 0)"

definition reduceFunded :: "member_view \<Rightarrow> transition \<Rightarrow> transition" where
  "reduceFunded m t =
     (let unbacked = unbackedReplicas t m;
          reduce0 = min (current m - goal m) (unbacked + max 0 (retirementAllowance t));
          unready = max 0 (current m - Ready (mstate m));
          reduce = (if Routable (mstate m) then min reduce0 (unready + servingAboveMinimum t) else reduce0);
          servingCost = (if Routable (mstate m) then max 0 (reduce - unready) else 0)
      in if reduce = 0 \<or> (wholeMembers t \<and> reduce < current m - goal m) then t
         else
           let t' = t\<lparr>servingAboveMinimum := servingAboveMinimum t - servingCost,
                      retirementAllowance := retirementAllowance t - max 0 (reduce - unbacked)\<rparr>
           in if current m = reduce \<and> \<not> Drained (mstate m) then addDrain (mname m) t'
              else setTarget (mname m) (get0 (Targets (tstep t')) (mname m) - reduce) t')"

definition planReduction :: "member_view \<Rightarrow> transition \<Rightarrow> transition" where
  "planReduction m t =
     (if occupiedWithoutTarget m then drainWithoutTarget m t
      else if Absent (mstate m) \<and> current m > goal m then setTarget (mname m) (goal m) t
      else if reducible m then reduceFunded m t
      else t)"

definition planReductions :: "transition \<Rightarrow> transition" where
  "planReductions t = fold planReduction (reductionOrder t) t"

definition growMember :: "member_view \<Rightarrow> transition \<Rightarrow> transition" where
  "growMember m t =
     (if \<not> growable m then t
      else
        let ready = (if \<not> wholeMembers t \<and> serving (mstate m)
                     then max 0 (min (goal m) (Ready (mstate m)) - current m) else 0);
            add = ready + min (goal m - current m - ready) (growthAllowance t)
        in if wholeMembers t \<and> add < goal m - current m then t\<lparr>budgetBlocked := True\<rparr>
           else (setTarget (mname m) (get0 (Targets (tstep t)) (mname m) + add) t)
                  \<lparr>growthAllowance := growthAllowance t - (add - ready)\<rparr>)"

definition planGrowth :: "transition \<Rightarrow> transition_error + transition" where
  "planGrowth t =
     (let limit = max (fromReplicas t) (desiredReplicas t)
      in if Surge (tin t) > max_int64 - limit then Inl SurgeOverflow
         else Inr (fold growMember (members t)
                (t\<lparr>growthAllowance := max 0 (limit + Surge (tin t) - inUse t)\<rparr>)))"

definition decide :: "transition \<Rightarrow> transition_error + step" where
  "decide t =
     (if hasUnknownStandingMember t then Inr (withReason (tstep t) ''ObservationUnknown'')
      else
        let t1 = resumeDrainedMembers t
        in if Resume (tstep t1) \<noteq> [] then Inr (withReason (tstep t1) ''AwaitingMemberConvergence'')
           else
             let t2 = planReductions t1
             in if movesReplicas t2 then Inr (withReason (tstep t2) ''AwaitingMemberConvergence'')
                else (case planGrowth t2 of
                   Inl e \<Rightarrow> Inl e
                 | Inr t3 \<Rightarrow>
                     if movesReplicas t3 then Inr (withReason (tstep t3) ''AwaitingMemberConvergence'')
                     else if targetsGrow t3 \<or> targetsShrink t3 then Inr (withReason (tstep t3) (waitingReason t3))
                     else if hasUnsettledMember t3 then Inr (withReason (tstep t3) ''AwaitingMemberConvergence'')
                     else Inr ((tstep t3)\<lparr>Complete := True\<rparr>)))"

definition advanceTransition :: "transition_in \<Rightarrow> bool \<Rightarrow> transition_error + step" where
  "advanceTransition i whole =
     (case readTransition i whole of Inl e \<Rightarrow> Inl e | Inr t \<Rightarrow> decide t)"

definition Advance :: "transition_in \<Rightarrow> transition_error + step" where
  "Advance i = advanceTransition i False"

definition AdvanceWholeMembers :: "transition_in \<Rightarrow> transition_error + step" where
  "AdvanceWholeMembers i = advanceTransition i True"

subsection \<open>What a step is measured by\<close>

text \<open>
  \<open>usage i T\<close> is the replicas in use once the targets \<open>T\<close> are applied: what each cluster holds or
  is targeted for, and the rollout's reservation. \<open>servingCapacity i T d\<close> is the ready replicas that
  still take traffic under the targets \<open>T\<close> once the clusters \<open>d\<close> are drained.
\<close>

definition usage :: "transition_in \<Rightarrow> (name, int) gomap \<Rightarrow> int" where
  "usage i T = RolloutReserved i + (\<Sum>n\<leftarrow>memberNames i. max (get0 T n) (Occupied (stateOf (Members i) n)))"

definition servingShare :: "transition_in \<Rightarrow> (name, int) gomap \<Rightarrow> name list \<Rightarrow> name \<Rightarrow> int" where
  "servingShare i T d n = (if serving (stateOf (Members i) n) \<and> n \<notin> set d
     then min (Ready (stateOf (Members i) n)) (get0 T n) else 0)"

definition servingCapacity :: "transition_in \<Rightarrow> (name, int) gomap \<Rightarrow> name list \<Rightarrow> int" where
  "servingCapacity i T d = (\<Sum>n\<leftarrow>memberNames i. servingShare i T d n)"

definition planReplicas :: "plan \<Rightarrow> int" where
  "planReplicas p = unassigned p + (\<Sum>e\<leftarrow>targets p. snd e)"

definition plan_valid :: "plan \<Rightarrow> bool" where
  "plan_valid p \<longleftrightarrow> 0 \<le> unassigned p \<and> (\<forall>(n, c) \<in> set (targets p). n \<noteq> [] \<and> 0 \<le> c)"

lemma distinct_memberNames [simp]: "distinct (memberNames i)"
  by (simp add: memberNames_def)

lemma viewOf_sel [simp]:
  "mname (viewOf i n) = n" "original (viewOf i n) = get0 (targets (From i)) n"
  "current (viewOf i n) = get0 (Current i) n" "goal (viewOf i n) = get0 (targets (Desired i)) n"
  "mstate (viewOf i n) = stateOf (Members i) n"
  by (simp_all add: viewOf_def)

lemma mname_viewOf [simp]: "map mname (map (viewOf i) ns) = ns"
  by (simp add: comp_def)

lemma get0_tabulate: "get0 (map (\<lambda>n. (n, f n)) ns) k = (if k \<in> set ns then f k else 0)"
  by (induction ns) (auto simp: get0_def)

lemma sum_list_point:
  assumes "distinct xs" "a \<in> set xs" "\<And>x. x \<in> set xs \<Longrightarrow> x \<noteq> a \<Longrightarrow> g x = f x"
  shows "(\<Sum>x\<leftarrow>xs. g x) = (\<Sum>x\<leftarrow>xs. f x) - f a + (g a :: int)"
proof -
  have "(\<Sum>x\<in>set xs - {a}. g x) = (\<Sum>x\<in>set xs - {a}. f x)"
    using assms(3) by (intro sum.cong) auto
  then show ?thesis
    using assms(1,2) by (simp add: sum_list_distinct_conv_sum_set sum.remove [of "set xs" a])
qed

subsection \<open>Reading lemmas\<close>

lemma sumTargets_Inr:
  "sumTargets a es = Inr r \<Longrightarrow> r = a + (\<Sum>e\<leftarrow>es. snd e) \<and> (\<forall>(n, c)\<in>set es. n \<noteq> [] \<and> 0 \<le> c)"
  by (induction a es rule: sumTargets.induct) (auto split: if_splits)

lemma planTotal_Inr: "planTotal p = Inr r \<Longrightarrow> r = planReplicas p \<and> plan_valid p"
  using sumTargets_Inr by (fastforce simp: planTotal_def planReplicas_def plan_valid_def split: if_splits)

lemma plan_valid_get0: "plan_valid p \<Longrightarrow> 0 \<le> get0 (targets p) n"
  unfolding plan_valid_def get0_def by (auto split: option.split dest!: map_of_SomeD)

lemma plan_valid_sum: "plan_valid p \<Longrightarrow> 0 \<le> planReplicas p"
  unfolding plan_valid_def planReplicas_def by (force intro!: add_nonneg_nonneg sum_list_nonneg)

text \<open>What counting a member adds to the budget.\<close>

definition retirementShare :: "member_view \<Rightarrow> int" where
  "retirementShare m = - max 0 (original m - current m)
     - (if Drained (mstate m) then min (original m) (current m) else 0)
     + (if serving (mstate m) then max 0 (min (Ready (mstate m)) (current m) - original m) else 0)"

lemma countMember_Inr:
  assumes "countMember m t = Inr t'"
  shows "t' = t\<lparr>targetsGrow := targetsGrow t \<or> goal m > current m,
    targetsShrink := targetsShrink t \<or> goal m < current m,
    inUse := inUse t + max (current m) (Occupied (mstate m)),
    retirementAllowance := retirementAllowance t + retirementShare m,
    servingReady := servingReady t + (if serving (mstate m) then min (Ready (mstate m)) (current m) else 0),
    readyWithoutTarget := readyWithoutTarget t + (if routableWithoutTarget m then Ready (mstate m) else 0)\<rparr>"
  using assms unfolding countMember_def retirementShare_def Let_def
  by (auto split: if_splits)

lemma countMembers_Inr:
  assumes "countMembers ms t = Inr t'"
  shows "(\<forall>m\<in>set ms. \<not> inconsistent (mstate m)) \<and> (\<exists>rwt. t' = t\<lparr>
    targetsGrow := targetsGrow t \<or> (\<exists>m\<in>set ms. goal m > current m),
    targetsShrink := targetsShrink t \<or> (\<exists>m\<in>set ms. goal m < current m),
    inUse := inUse t + (\<Sum>m\<leftarrow>ms. max (current m) (Occupied (mstate m))),
    retirementAllowance := retirementAllowance t + (\<Sum>m\<leftarrow>ms. retirementShare m),
    servingReady := servingReady t + (\<Sum>m\<leftarrow>ms. if serving (mstate m) then min (Ready (mstate m)) (current m) else 0),
    readyWithoutTarget := rwt\<rparr>)"
  using assms
proof (induction ms t rule: countMembers.induct)
  case (1 t)
  then show ?case by (cases t) auto
next
  case (2 m ms t)
  from 2(2) have ok: "\<not> inconsistent (mstate m)" by (auto split: if_splits)
  with 2(2) obtain t1 where t1: "countMember m t = Inr t1" and rest: "countMembers ms t1 = Inr t'"
    by (auto split: sum.splits)
  note eq = countMember_Inr [OF t1]
  from 2(1) [OF ok t1 rest] obtain rwt where
    ih: "\<forall>m\<in>set ms. \<not> inconsistent (mstate m)" and
    t': "t' = t1\<lparr>
    targetsGrow := targetsGrow t1 \<or> (\<exists>m\<in>set ms. goal m > current m),
    targetsShrink := targetsShrink t1 \<or> (\<exists>m\<in>set ms. goal m < current m),
    inUse := inUse t1 + (\<Sum>m\<leftarrow>ms. max (current m) (Occupied (mstate m))),
    retirementAllowance := retirementAllowance t1 + (\<Sum>m\<leftarrow>ms. retirementShare m),
    servingReady := servingReady t1 + (\<Sum>m\<leftarrow>ms. if serving (mstate m) then min (Ready (mstate m)) (current m) else 0),
    readyWithoutTarget := rwt\<rparr>" by blast
  show ?case
    using ok ih by (intro conjI exI [of _ rwt]) (auto simp: t' eq disj_assoc add.assoc)
qed

text \<open>
  What a successful read establishes: the invariant the two planning phases start from.
  \<open>frame i w t\<close> is the part of the state no phase changes.
\<close>

definition members_ok :: "transition_in \<Rightarrow> bool" where
  "members_ok i \<longleftrightarrow> (\<forall>n\<in>set (memberNames i). \<not> inconsistent (stateOf (Members i) n))
     \<and> plan_valid (From i) \<and> plan_valid (Desired i) \<and> plan_valid \<lparr>targets = Current i, unassigned = 0\<rparr>
     \<and> 0 \<le> Surge i \<and> 0 \<le> RolloutReserved i"

definition frame :: "transition_in \<Rightarrow> bool \<Rightarrow> transition \<Rightarrow> bool" where
  "frame i w t \<longleftrightarrow> tin t = i \<and> wholeMembers t = w \<and> members t = map (viewOf i) (memberNames i)
     \<and> fromReplicas t = planReplicas (From i) \<and> desiredReplicas t = planReplicas (Desired i)
     \<and> inUse t = usage i (Current i)
     \<and> targetsGrow t = (\<exists>n\<in>set (memberNames i). get0 (targets (Desired i)) n > get0 (Current i) n)
     \<and> targetsShrink t = (\<exists>n\<in>set (memberNames i). get0 (targets (Desired i)) n < get0 (Current i) n)
     \<and> Complete (tstep t) = False \<and> Message (tstep t) = [] \<and> CleanupReleased (tstep t) = False
     \<and> Reason (tstep t) = []"

definition initialRetirement :: "transition_in \<Rightarrow> int" where
  "initialRetirement i =
     (let r = max 0 (planReplicas (From i) - planReplicas (Desired i))
                + (\<Sum>n\<leftarrow>memberNames i. retirementShare (viewOf i n))
      in if planReplicas (From i) - unassigned (From i) < planReplicas (Desired i)
         then min r (max 0 (servingCapacity i (Current i) [] - planReplicas (Desired i))) else r)"

definition initialStep :: "transition_in \<Rightarrow> step" where
  "initialStep i = zero_step\<lparr>Targets := map (\<lambda>n. (n, get0 (Current i) n)) (memberNames i)\<rparr>"

definition minimumServing :: "transition_in \<Rightarrow> int" where
  "minimumServing i = min (planReplicas (From i)) (planReplicas (Desired i))"

lemma readBudget_read:
  assumes "readBudget t = Inr t'" "tin t = i" "members t = map (viewOf i) (memberNames i)"
    "fromReplicas t = planReplicas (From i)" "desiredReplicas t = planReplicas (Desired i)"
    "servingReady t = 0" "targetsGrow t = False" "targetsShrink t = False"
    "tstep t = initialStep i" "wholeMembers t = w"
  shows "(\<forall>n\<in>set (memberNames i). \<not> inconsistent (stateOf (Members i) n)) \<and> frame i w t'
    \<and> tstep t' = initialStep i
    \<and> servingAboveMinimum t' = max 0 (servingCapacity i (Current i) [] - minimumServing i)
    \<and> retirementAllowance t' = initialRetirement i"
proof -
  let ?t0 = "t\<lparr>inUse := RolloutReserved (tin t),
            retirementAllowance := max 0 (fromReplicas t - desiredReplicas t)\<rparr>"
  from assms(1) obtain t1 where t1: "countMembers (members t) ?t0 = Inr t1"
    by (auto simp: readBudget_def split: sum.splits)
  from countMembers_Inr [OF t1] obtain rwt where
    ok: "\<forall>m\<in>set (members t). \<not> inconsistent (mstate m)" and
    eq: "t1 = ?t0\<lparr>
    targetsGrow := targetsGrow ?t0 \<or> (\<exists>m\<in>set (members t). goal m > current m),
    targetsShrink := targetsShrink ?t0 \<or> (\<exists>m\<in>set (members t). goal m < current m),
    inUse := inUse ?t0 + (\<Sum>m\<leftarrow>members t. max (current m) (Occupied (mstate m))),
    retirementAllowance := retirementAllowance ?t0 + (\<Sum>m\<leftarrow>members t. retirementShare m),
    servingReady := servingReady ?t0 + (\<Sum>m\<leftarrow>members t. if serving (mstate m) then min (Ready (mstate m)) (current m) else 0),
    readyWithoutTarget := rwt\<rparr>" by blast
  have cap: "servingReady t1 = servingCapacity i (Current i) []"
    by (simp add: eq assms servingCapacity_def servingShare_def comp_def cong: if_cong)
  have t': "t' = (let t2 = (if fromReplicas t1 - unassigned (From (tin t1)) < desiredReplicas t1
                     then t1\<lparr>retirementAllowance := min (retirementAllowance t1)
                               (max 0 (servingReady t1 - desiredReplicas t1))\<rparr>
                     else t1)
           in t2\<lparr>
                readyAboveDesired := max 0 (servingReady t2 + readyWithoutTarget t2 - desiredReplicas t2),
                servingAboveMinimum := max 0 (servingReady t2 - min (fromReplicas t2) (desiredReplicas t2))\<rparr>)"
    using assms(1) t1 by (simp add: readBudget_def Let_def split: if_splits)
  have ret: "retirementAllowance t1 = max 0 (planReplicas (From i) - planReplicas (Desired i))
                + (\<Sum>n\<leftarrow>memberNames i. retirementShare (viewOf i n))"
    by (simp add: eq assms comp_def)
  have fr: "fromReplicas t1 = planReplicas (From i)" "desiredReplicas t1 = planReplicas (Desired i)"
    "tin t1 = i" by (simp_all add: eq assms)
  have "frame i w t1 \<and> tstep t1 = initialStep i"
    by (simp add: frame_def eq assms usage_def initialStep_def zero_step_def comp_def)
  then have "frame i w t' \<and> tstep t' = initialStep i"
    by (simp add: t' Let_def frame_def initialStep_def zero_step_def)
  moreover have "retirementAllowance t' = initialRetirement i"
    by (simp add: initialRetirement_def t' Let_def fr cap ret)
  moreover have "servingAboveMinimum t' = max 0 (servingCapacity i (Current i) [] - minimumServing i)"
    by (simp add: t' Let_def fr cap minimumServing_def)
  ultimately show ?thesis using ok by (simp add: assms(3))
qed

lemma readTransition_read:
  assumes "readTransition i w = Inr t"
  shows "members_ok i \<and> frame i w t \<and> tstep t = initialStep i
    \<and> servingAboveMinimum t = max 0 (servingCapacity i (Current i) [] - minimumServing i)
    \<and> retirementAllowance t = initialRetirement i"
proof -
  from assms obtain fr de cu where
    p: "planTotal (From i) = Inr fr" "planTotal (Desired i) = Inr de"
      "planTotal \<lparr>targets = Current i, unassigned = 0\<rparr> = Inr cu"
    and nn: "0 \<le> Surge i" "0 \<le> RolloutReserved i"
    and rd: "readBudget ((newTransition i w)\<lparr>fromReplicas := fr, desiredReplicas := de,
        members := map (viewOf i) (memberNames i), tstep := initialStep i\<rparr>) = Inr t"
    by (auto simp: readTransition_def readMembers_def newTransition_def initialStep_def
        split: sum.splits if_splits)
  note tot = planTotal_Inr [OF p(1)] planTotal_Inr [OF p(2)] planTotal_Inr [OF p(3)]
  from readBudget_read [OF rd, of i w] tot nn
  show ?thesis by (simp add: newTransition_def members_ok_def)
qed

subsection \<open>The reduction phase\<close>

text \<open>
  The invariant of the reduction loop. \<open>ns\<close> are the clusters not yet visited: they still have their
  applied target. A visited cluster keeps its target or moves down toward its goal, and the serving
  capacity the loop has given up is what it has spent of \<open>servingAboveMinimum\<close>.
\<close>

definition movedDown :: "transition_in \<Rightarrow> step \<Rightarrow> name \<Rightarrow> bool" where
  "movedDown i s n \<longleftrightarrow> get0 (targets (Desired i)) n \<le> get0 (Targets s) n \<and> get0 (Targets s) n < get0 (Current i) n
     \<and> n \<notin> set (Drain s)
     \<and> (get0 (Targets s) n = 0 \<longrightarrow> Drained (stateOf (Members i) n) \<or> Absent (stateOf (Members i) n))"

definition reduction_inv :: "transition_in \<Rightarrow> bool \<Rightarrow> name list \<Rightarrow> transition \<Rightarrow> bool" where
  "reduction_inv i w ns t \<longleftrightarrow> frame i w t \<and> Resume (tstep t) = []
     \<and> keys_of (Targets (tstep t)) = set (memberNames i) \<and> set (Drain (tstep t)) \<subseteq> set (memberNames i)
     \<and> (\<forall>n\<in>set ns. get0 (Targets (tstep t)) n = get0 (Current i) n \<and> n \<notin> set (Drain (tstep t)))
     \<and> (\<forall>n\<in>set (memberNames i). get0 (Targets (tstep t)) n = get0 (Current i) n \<or> movedDown i (tstep t) n)
     \<and> 0 \<le> servingAboveMinimum t
     \<and> min (servingCapacity i (Current i) []) (minimumServing i)
         \<le> servingCapacity i (Targets (tstep t)) (Drain (tstep t)) - servingAboveMinimum t"

lemma servingCapacity_point:
  assumes "n \<in> set (memberNames i)"
    "\<And>k. k \<noteq> n \<Longrightarrow> get0 T' k = get0 T k \<and> (k \<in> set d' \<longleftrightarrow> k \<in> set d)"
  shows "servingCapacity i T' d' = servingCapacity i T d - servingShare i T d n + servingShare i T' d' n"
  unfolding servingCapacity_def using assms
  by (intro sum_list_point) (auto simp: servingShare_def)

lemma frame_upd [simp]:
  "frame i w (t\<lparr>servingAboveMinimum := a\<rparr>) = frame i w t"
  "frame i w (t\<lparr>retirementAllowance := b\<rparr>) = frame i w t"
  "frame i w (t\<lparr>readyAboveDesired := c\<rparr>) = frame i w t"
  "frame i w (t\<lparr>growthAllowance := c\<rparr>) = frame i w t"
  "frame i w (t\<lparr>budgetBlocked := f\<rparr>) = frame i w t"
  "frame i w (setTarget n v t) = frame i w t"
  "frame i w (addDrain n t) = frame i w t"
  by (simp_all add: frame_def setTarget_def addDrain_def)

lemma setTarget_sel [simp]:
  "Targets (tstep (setTarget n v t)) = AList.update n v (Targets (tstep t))"
  "Drain (tstep (setTarget n v t)) = Drain (tstep t)"
  "Resume (tstep (setTarget n v t)) = Resume (tstep t)"
  "servingAboveMinimum (setTarget n v t) = servingAboveMinimum t"
  "growthAllowance (setTarget n v t) = growthAllowance t"
  "tin (setTarget n v t) = tin t" "wholeMembers (setTarget n v t) = wholeMembers t"
  by (simp_all add: setTarget_def)

lemma addDrain_sel [simp]:
  "Targets (tstep (addDrain n t)) = Targets (tstep t)"
  "Drain (tstep (addDrain n t)) = Drain (tstep t) @ [n]"
  "Resume (tstep (addDrain n t)) = Resume (tstep t)"
  "servingAboveMinimum (addDrain n t) = servingAboveMinimum t"
  "tin (addDrain n t) = tin t" "wholeMembers (addDrain n t) = wholeMembers t"
  by (simp_all add: addDrain_def)

lemma reduction_inv_skip: "reduction_inv i w (n # ns) t \<Longrightarrow> reduction_inv i w ns t"
  by (simp add: reduction_inv_def)

lemma reduction_inv_drain:
  assumes inv: "reduction_inv i w (n # ns) t" and n: "n \<in> set (memberNames i)" "n \<notin> set ns"
    and cost: "servingShare i (Current i) [] n \<le> servingAboveMinimum t - servingAboveMinimum t'"
      "0 \<le> servingAboveMinimum t'"
    and t': "tstep t' = tstep t" "frame i w t'"
  shows "reduction_inv i w ns (addDrain n t')"
proof -
  let ?T = "Targets (tstep t)" and ?D = "Drain (tstep t)"
  have here: "get0 ?T n = get0 (Current i) n" "n \<notin> set ?D"
    using inv by (simp_all add: reduction_inv_def)
  have "servingShare i ?T ?D n = servingShare i (Current i) [] n"
    using here by (simp add: servingShare_def)
  moreover have "servingCapacity i ?T (?D @ [n]) = servingCapacity i ?T ?D - servingShare i ?T ?D n + servingShare i ?T (?D @ [n]) n"
    by (rule servingCapacity_point) (use n in auto)
  moreover have "servingShare i ?T (?D @ [n]) n = 0" by (simp add: servingShare_def)
  ultimately have "servingCapacity i ?T ?D - servingAboveMinimum t
      \<le> servingCapacity i ?T (?D @ [n]) - servingAboveMinimum t'"
    using cost by linarith
  then show ?thesis
    using inv n cost t' here unfolding reduction_inv_def movedDown_def by auto
qed

lemma reduction_inv_set:
  assumes inv: "reduction_inv i w (n # ns) t" and n: "n \<in> set (memberNames i)" "n \<notin> set ns"
    and v: "get0 (targets (Desired i)) n \<le> v" "v < get0 (Current i) n"
      "v = 0 \<Longrightarrow> Drained (stateOf (Members i) n) \<or> Absent (stateOf (Members i) n)"
    and cost: "servingShare i (Current i) [] n - servingShare i [(n, v)] [] n \<le> servingAboveMinimum t - servingAboveMinimum t'"
      "0 \<le> servingAboveMinimum t'"
    and t': "tstep t' = tstep t" "frame i w t'"
  shows "reduction_inv i w ns (setTarget n v t')"
proof -
  let ?T = "Targets (tstep t)" and ?D = "Drain (tstep t)"
  have here: "get0 ?T n = get0 (Current i) n" "n \<notin> set ?D"
    using inv by (simp_all add: reduction_inv_def)
  have "servingShare i ?T ?D n = servingShare i (Current i) [] n"
    using here by (simp add: servingShare_def)
  moreover have "servingShare i (AList.update n v ?T) ?D n = servingShare i [(n, v)] [] n"
    using here by (simp add: servingShare_def gomap_simps) (simp add: get0_def)
  moreover have "servingCapacity i (AList.update n v ?T) ?D
      = servingCapacity i ?T ?D - servingShare i ?T ?D n + servingShare i (AList.update n v ?T) ?D n"
    by (rule servingCapacity_point) (use n in \<open>auto simp: gomap_simps\<close>)
  ultimately have "servingCapacity i ?T ?D - servingAboveMinimum t
      \<le> servingCapacity i (AList.update n v ?T) ?D - servingAboveMinimum t'"
    using cost by linarith
  then show ?thesis
    using inv n cost t' here v unfolding reduction_inv_def movedDown_def
    by (auto simp: gomap_simps)
qed

lemma members_ok_state:
  assumes "members_ok i" "n \<in> set (memberNames i)"
  shows "0 \<le> Ready (stateOf (Members i) n)" "0 \<le> Occupied (stateOf (Members i) n)"
    "Ready (stateOf (Members i) n) \<le> Occupied (stateOf (Members i) n)"
    "Absent (stateOf (Members i) n) \<Longrightarrow> Occupied (stateOf (Members i) n) = 0"
    "Drained (stateOf (Members i) n) \<Longrightarrow> \<not> Routable (stateOf (Members i) n)"
    "0 \<le> get0 (Current i) n" "0 \<le> get0 (targets (Desired i)) n" "0 \<le> get0 (targets (From i)) n"
  using assms plan_valid_get0 [of "\<lparr>targets = Current i, unassigned = 0\<rparr>" n]
    plan_valid_get0 [of "Desired i" n] plan_valid_get0 [of "From i" n]
  unfolding members_ok_def inconsistent_def by force+

lemma unbackedReplicas_nonneg: "0 \<le> current m \<Longrightarrow> 0 \<le> unbackedReplicas t m"
  by (simp add: unbackedReplicas_def)

lemma reduceFunded_inv:
  assumes ok: "members_ok i" and inv: "reduction_inv i w (n # ns) t"
    and n: "n \<in> set (memberNames i)" "n \<notin> set ns" and red: "reducible (viewOf i n)"
  shows "reduction_inv i w ns (reduceFunded (viewOf i n) t)"
proof -
  let ?m = "viewOf i n" and ?s = "stateOf (Members i) n"
  let ?C = "get0 (Current i) n" and ?G = "get0 (targets (Desired i)) n"
  note st = members_ok_state [OF ok n(1)]
  define unb where "unb = unbackedReplicas t ?m"
  define unr where "unr = max 0 (?C - Ready ?s)"
  define r0 where "r0 = min (?C - ?G) (unb + max 0 (retirementAllowance t))"
  define red where "red = (if Routable ?s then min r0 (unr + servingAboveMinimum t) else r0)"
  define cost where "cost = (if Routable ?s then max 0 (red - unr) else 0)"
  define t' where "t' = t\<lparr>servingAboveMinimum := servingAboveMinimum t - cost,
                      retirementAllowance := retirementAllowance t - max 0 (red - unb)\<rparr>"
  have eq: "reduceFunded ?m t = (if red = 0 \<or> (wholeMembers t \<and> red < ?C - ?G) then t
      else if ?C = red \<and> \<not> Drained ?s then addDrain n t'
      else setTarget n (get0 (Targets (tstep t)) n - red) t')"
    by (simp add: reduceFunded_def Let_def t'_def cost_def red_def r0_def unr_def unb_def cong: if_cong)
  have here: "get0 (Targets (tstep t)) n = ?C" "0 \<le> servingAboveMinimum t"
    using inv by (simp_all add: reduction_inv_def)
  have less: "?G < ?C" and kn: "Known ?s" "Applied ?s" using red by (simp_all add: reducible_def)
  have unb0: "0 \<le> unb" using st(6) by (simp add: unb_def unbackedReplicas_nonneg)
  have r: "0 \<le> red" "red \<le> ?C - ?G" using less unb0 here(2) by (auto simp: red_def r0_def unr_def)
  have sam: "servingAboveMinimum t - servingAboveMinimum t' = cost" "0 \<le> servingAboveMinimum t'"
    using here(2) by (auto simp: t'_def cost_def red_def)
  have loss: "servingShare i (Current i) [] n - servingShare i [(n, ?C - red)] [] n \<le> cost"
    using r kn by (auto simp: servingShare_def serving_def cost_def unr_def get0_def)
  have fr: "tstep t' = tstep t" "frame i w t'" using inv by (simp_all add: t'_def reduction_inv_def)
  consider "red = 0 \<or> (wholeMembers t \<and> red < ?C - ?G)"
    | "red \<noteq> 0" "\<not> (wholeMembers t \<and> red < ?C - ?G)" "?C = red" "\<not> Drained ?s"
    | "red \<noteq> 0" "\<not> (wholeMembers t \<and> red < ?C - ?G)" "\<not> (?C = red \<and> \<not> Drained ?s)" by blast
  then show ?thesis
  proof cases
    case 1
    then show ?thesis using eq inv by (simp add: reduction_inv_skip)
  next
    case 2
    have "servingShare i (Current i) [] n \<le> cost"
      using loss 2(3) st(1) by (simp add: servingShare_def get0_def split: if_splits)
    then have "reduction_inv i w ns (addDrain n t')"
      by (intro reduction_inv_drain [OF inv n _ _ fr]) (simp_all add: sam)
    then show ?thesis using eq 2 by auto
  next
    case 3
    then have "reduction_inv i w ns (setTarget n (?C - red) t')"
      using loss r by (intro reduction_inv_set [OF inv n _ _ _ _ _ fr]) (auto simp: sam)
    then show ?thesis using eq 3 here by simp
  qed
qed

lemma planReduction_inv:
  assumes ok: "members_ok i" and inv: "reduction_inv i w (n # ns) t"
    and n: "n \<in> set (memberNames i)" "n \<notin> set ns"
  shows "reduction_inv i w ns (planReduction (viewOf i n) t)"
proof -
  let ?m = "viewOf i n" and ?s = "stateOf (Members i) n"
  note st = members_ok_state [OF ok n(1)]
  have sam: "0 \<le> servingAboveMinimum t" using inv by (simp add: reduction_inv_def)
  have fr: "frame i w t" using inv by (simp add: reduction_inv_def)
  consider "occupiedWithoutTarget ?m"
    | "\<not> occupiedWithoutTarget ?m" "Absent ?s \<and> current ?m > goal ?m"
    | "\<not> occupiedWithoutTarget ?m" "\<not> (Absent ?s \<and> current ?m > goal ?m)" "reducible ?m"
    | "\<not> occupiedWithoutTarget ?m" "\<not> (Absent ?s \<and> current ?m > goal ?m)" "\<not> reducible ?m" by blast
  then show ?thesis
  proof cases
    case 1
    then have "servingShare i (Current i) [] n = 0"
      using st(1) by (simp add: occupiedWithoutTarget_def servingShare_def)
    then have "reduction_inv i w ns (addDrain n (t\<lparr>readyAboveDesired := c\<rparr>))" "reduction_inv i w ns (addDrain n t)" for c
      using sam fr by (intro reduction_inv_drain [OF inv n]; simp)+
    then show ?thesis
      using 1 reduction_inv_skip [OF inv] by (simp add: planReduction_def drainWithoutTarget_def)
  next
    case 2
    then have z: "Ready ?s = 0" using st by auto
    have "reduction_inv i w ns (setTarget n (goal ?m) t)"
      using 2 z st sam fr by (intro reduction_inv_set [OF inv n]) (auto simp: servingShare_def get0_def)
    then show ?thesis using 2 by (simp add: planReduction_def)
  next
    case 3
    then show ?thesis using reduceFunded_inv [OF ok inv n] by (auto simp: planReduction_def)
  next
    case 4
    then show ?thesis using reduction_inv_skip [OF inv] by (auto simp: planReduction_def)
  qed
qed

lemma fold_planReduction_inv:
  assumes "members_ok i" "reduction_inv i w ns t" "distinct ns" "set ns \<subseteq> set (memberNames i)"
  shows "reduction_inv i w [] (fold planReduction (map (viewOf i) ns) t)"
  using assms by (induction ns arbitrary: t) (auto intro: planReduction_inv)

lemma reductionOrder_frame:
  assumes "frame i w t"
  obtains ns where "reductionOrder t = map (viewOf i) ns" "distinct ns" "set ns = set (memberNames i)"
proof
  let ?ns = "sort_key (\<lambda>n. \<not> aboveBothPlans (viewOf i n)) (memberNames i)"
  show "reductionOrder t = map (viewOf i) ?ns"
    using assms by (simp add: reductionOrder_def frame_def sort_key_map)
qed simp_all

lemma planReductions_inv:
  assumes "members_ok i" "reduction_inv i w (memberNames i) t"
  shows "reduction_inv i w [] (planReductions t)"
proof -
  have "frame i w t" using assms(2) by (simp add: reduction_inv_def)
  then obtain ns where ns: "reductionOrder t = map (viewOf i) ns" "distinct ns" "set ns = set (memberNames i)"
    by (rule reductionOrder_frame)
  have "reduction_inv i w ns t" using assms(2) by (simp add: reduction_inv_def ns(3))
  then show ?thesis
    unfolding planReductions_def ns(1) using assms(1) ns(2,3) by (intro fold_planReduction_inv) auto
qed

lemma initialStep_inv:
  assumes "frame i w t" "tstep t = initialStep i"
    "servingAboveMinimum t = max 0 (servingCapacity i (Current i) [] - minimumServing i)"
  shows "reduction_inv i w (memberNames i) t"
proof -
  have "get0 (Targets (initialStep i)) n = (if n \<in> set (memberNames i) then get0 (Current i) n else 0)" for n
    by (simp add: initialStep_def get0_tabulate)
  then have "servingCapacity i (Targets (initialStep i)) [] = servingCapacity i (Current i) []"
    unfolding servingCapacity_def servingShare_def by (intro arg_cong [where f = sum_list] map_cong) auto
  then show ?thesis
    using assms unfolding reduction_inv_def
    by (auto simp: initialStep_def zero_step_def get0_tabulate image_image)
qed

subsection \<open>The growth phase\<close>

text \<open>
  The invariant of the growth loop: a visited cluster keeps its target or moves up toward its goal,
  and what the loop has added to the replicas in use comes out of \<open>growthAllowance\<close>.
\<close>

definition surgeLimit :: "transition_in \<Rightarrow> int" where
  "surgeLimit i = max (planReplicas (From i)) (planReplicas (Desired i)) + Surge i"

definition movedUp :: "transition_in \<Rightarrow> step \<Rightarrow> name \<Rightarrow> bool" where
  "movedUp i s n \<longleftrightarrow> get0 (Current i) n < get0 (Targets s) n \<and> get0 (Targets s) n \<le> get0 (targets (Desired i)) n
     \<and> growable (viewOf i n)"

definition growth_inv :: "transition_in \<Rightarrow> bool \<Rightarrow> name list \<Rightarrow> transition \<Rightarrow> bool" where
  "growth_inv i w ns t \<longleftrightarrow> frame i w t \<and> Resume (tstep t) = [] \<and> Drain (tstep t) = []
     \<and> keys_of (Targets (tstep t)) = set (memberNames i)
     \<and> (\<forall>n\<in>set ns. get0 (Targets (tstep t)) n = get0 (Current i) n)
     \<and> (\<forall>n\<in>set (memberNames i). get0 (Targets (tstep t)) n = get0 (Current i) n \<or> movedUp i (tstep t) n)
     \<and> 0 \<le> growthAllowance t
     \<and> usage i (Targets (tstep t)) + growthAllowance t \<le> max (usage i (Current i)) (surgeLimit i)"

lemma usage_update:
  assumes "n \<in> set (memberNames i)"
  shows "usage i (AList.update n v T) = usage i T - max (get0 T n) (Occupied (stateOf (Members i) n))
    + max v (Occupied (stateOf (Members i) n))"
proof -
  let ?o = "\<lambda>n. Occupied (stateOf (Members i) n)"
  have "(\<Sum>k\<leftarrow>memberNames i. max (get0 (AList.update n v T) k) (?o k))
    = (\<Sum>k\<leftarrow>memberNames i. max (get0 T k) (?o k)) - max (get0 T n) (?o n) + max (get0 (AList.update n v T) n) (?o n)"
    by (rule sum_list_point) (use assms in \<open>auto simp: gomap_simps\<close>)
  then show ?thesis by (simp add: usage_def gomap_simps)
qed

lemma growMember_inv:
  assumes ok: "members_ok i" and inv: "growth_inv i w (n # ns) t"
    and n: "n \<in> set (memberNames i)" "n \<notin> set ns"
  shows "growth_inv i w ns (growMember (viewOf i n) t)"
proof (cases "growable (viewOf i n)")
  case False
  then show ?thesis using inv by (simp add: growMember_def growth_inv_def)
next
  case True
  let ?m = "viewOf i n" and ?s = "stateOf (Members i) n" and ?T = "Targets (tstep t)"
  let ?C = "get0 (Current i) n" and ?G = "get0 (targets (Desired i)) n"
  note st = members_ok_state [OF ok n(1)]
  define rdy where "rdy = (if \<not> wholeMembers t \<and> serving ?s then max 0 (min ?G (Ready ?s) - ?C) else 0)"
  define add where "add = rdy + min (?G - ?C - rdy) (growthAllowance t)"
  have eq: "growMember ?m t = (if wholeMembers t \<and> add < ?G - ?C then t\<lparr>budgetBlocked := True\<rparr>
      else (setTarget n (get0 ?T n + add) t)\<lparr>growthAllowance := growthAllowance t - (add - rdy)\<rparr>)"
    using True by (simp add: growMember_def Let_def rdy_def add_def cong: if_cong)
  have here: "get0 ?T n = ?C" "0 \<le> growthAllowance t" using inv by (simp_all add: growth_inv_def)
  have less: "?C < ?G" using True by (simp add: growable_def)
  have rdy: "0 \<le> rdy" "rdy \<le> ?G - ?C" "?C + rdy \<le> max ?C (Occupied ?s)"
    using less st(3) by (auto simp: rdy_def)
  have bnd: "0 \<le> add" "add \<le> ?G - ?C" "add - rdy \<le> growthAllowance t"
    using rdy(1,2) less here(2) unfolding add_def by linarith+
  have "usage i (AList.update n (?C + add) ?T) \<le> usage i ?T + (add - rdy)"
    using rdy(3) bnd(1) add_def here(2) rdy(2) unfolding usage_update [OF n(1)] here(1) by linarith
  then have "growth_inv i w ns ((setTarget n (get0 ?T n + add) t)\<lparr>growthAllowance := growthAllowance t - (add - rdy)\<rparr>)"
    using inv n here bnd True unfolding growth_inv_def movedUp_def by (auto simp: gomap_simps)
  moreover have "growth_inv i w ns (t\<lparr>budgetBlocked := True\<rparr>)"
    using inv by (simp add: growth_inv_def)
  ultimately show ?thesis unfolding eq by simp
qed

lemma fold_growMember_inv:
  assumes "members_ok i" "growth_inv i w ns t" "distinct ns" "set ns \<subseteq> set (memberNames i)"
  shows "growth_inv i w [] (fold growMember (map (viewOf i) ns) t)"
  using assms by (induction ns arbitrary: t) (auto intro: growMember_inv)

lemma sameTargets_get0: "sameTargets T C \<Longrightarrow> map_of T n = Some v \<Longrightarrow> v = get0 C n"
  unfolding sameTargets_def list_all_iff by (drule map_of_SomeD) auto

lemma sameTargets_keys:
  assumes "sameTargets T C" "n \<in> keys_of T"
  shows "get0 T n = get0 C n"
  using assms sameTargets_get0 [OF assms(1), of n] by (auto simp: keys_of_map_of get0_def)

lemma planGrowth_inv:
  assumes ok: "members_ok i" and inv: "reduction_inv i w [] t" and same: "\<not> movesReplicas t"
    and gr: "planGrowth t = Inr t'"
  shows "growth_inv i w [] t'"
proof -
  let ?t0 = "t\<lparr>growthAllowance := max 0 (max (fromReplicas t) (desiredReplicas t) + Surge (tin t) - inUse t)\<rparr>"
  have fr: "frame i w t" and keys: "keys_of (Targets (tstep t)) = set (memberNames i)"
    using inv by (simp_all add: reduction_inv_def)
  then have frame: "tin t = i" "members t = map (viewOf i) (memberNames i)" "inUse t = usage i (Current i)"
    "fromReplicas t = planReplicas (From i)" "desiredReplicas t = planReplicas (Desired i)"
    by (simp_all add: frame_def)
  have dr: "Drain (tstep t) = []" and st: "sameTargets (Targets (tstep t)) (Current i)"
    using same frame(1) by (simp_all add: movesReplicas_def)
  have here: "get0 (Targets (tstep t)) n = get0 (Current i) n" if "n \<in> set (memberNames i)" for n
    using sameTargets_keys [OF st, of n] that keys by blast
  have "usage i (Targets (tstep t)) = usage i (Current i)"
    unfolding usage_def using here by (simp cong: map_cong)
  then have "growth_inv i w (memberNames i) ?t0"
    using inv here dr by (simp add: growth_inv_def reduction_inv_def surgeLimit_def frame)
  moreover have "t' = fold growMember (map (viewOf i) (memberNames i)) ?t0"
    using gr by (simp add: planGrowth_def Let_def frame split: if_splits)
  ultimately show ?thesis
    using fold_growMember_inv [OF ok, of w "memberNames i" ?t0] by simp
qed

subsection \<open>What every step is\<close>

text \<open>
  The outcomes of a call that returns a step. A step holds every target, or moves targets only down,
  or moves targets only up; only a hold can complete the move.
\<close>

definition hold_ok :: "transition_in \<Rightarrow> step \<Rightarrow> bool" where
  "hold_ok i s \<longleftrightarrow> Drain s = [] \<and> (\<forall>n\<in>set (memberNames i). get0 (Targets s) n = get0 (Current i) n)"

definition reduce_ok :: "transition_in \<Rightarrow> step \<Rightarrow> bool" where
  "reduce_ok i s \<longleftrightarrow> set (Drain s) \<subseteq> set (memberNames i)
     \<and> (\<forall>n\<in>set (memberNames i). get0 (Targets s) n = get0 (Current i) n \<or> movedDown i s n)
     \<and> min (servingCapacity i (Current i) []) (minimumServing i) \<le> servingCapacity i (Targets s) (Drain s)"

definition grow_ok :: "transition_in \<Rightarrow> step \<Rightarrow> bool" where
  "grow_ok i s \<longleftrightarrow> Drain s = []
     \<and> (\<forall>n\<in>set (memberNames i). get0 (Targets s) n = get0 (Current i) n \<or> movedUp i s n)
     \<and> usage i (Targets s) \<le> max (usage i (Current i)) (surgeLimit i)"

lemma hold_ok_reduce: "hold_ok i s \<Longrightarrow> reduce_ok i s"
proof -
  assume h: "hold_ok i s"
  then have "servingCapacity i (Targets s) (Drain s) = servingCapacity i (Current i) []"
    unfolding servingCapacity_def servingShare_def hold_ok_def by (auto intro: arg_cong [where f = sum_list])
  with h show ?thesis by (simp add: reduce_ok_def hold_ok_def)
qed

lemma hold_ok_grow: "hold_ok i s \<Longrightarrow> grow_ok i s"
proof -
  assume h: "hold_ok i s"
  then have "usage i (Targets s) = usage i (Current i)"
    unfolding usage_def hold_ok_def by (auto intro: arg_cong [where f = sum_list])
  with h show ?thesis by (simp add: grow_ok_def hold_ok_def)
qed

lemma withReason_sel [simp]:
  "Targets (withReason s r) = Targets s" "Drain (withReason s r) = Drain s"
  "Resume (withReason s r) = Resume s" "Complete (withReason s r) = Complete s"
  "Reason (withReason s r) = r"
  by (simp_all add: withReason_def)

lemma ok_withReason [simp]:
  "hold_ok i (withReason s r) = hold_ok i s" "reduce_ok i (withReason s r) = reduce_ok i s"
  "grow_ok i (withReason s r) = grow_ok i s"
  by (simp_all add: hold_ok_def reduce_ok_def grow_ok_def movedDown_def movedUp_def)

lemma reduction_inv_ok: "reduction_inv i w [] t \<Longrightarrow> reduce_ok i (tstep t)"
  unfolding reduction_inv_def reduce_ok_def by (elim conjE, intro conjI) (assumption | linarith)+

lemma growth_inv_ok: "growth_inv i w [] t \<Longrightarrow> grow_ok i (tstep t)"
  unfolding growth_inv_def grow_ok_def by (elim conjE, intro conjI) (assumption | linarith)+

definition settled :: "transition_in \<Rightarrow> bool" where
  "settled i \<longleftrightarrow> (\<forall>n\<in>set (memberNames i). get0 (Current i) n = get0 (targets (Desired i)) n
     \<and> \<not> unsettled (viewOf i n) \<and> \<not> unknownStanding (viewOf i n) \<and> \<not> needsResume (viewOf i n))"

lemma frame_members: "frame i w t \<Longrightarrow> list_ex P (members t) \<longleftrightarrow> (\<exists>n\<in>set (memberNames i). P (viewOf i n))"
  by (simp add: frame_def list_ex_iff)

lemma frame_resume: "frame i w (resumeDrainedMembers t) = frame i w t"
  by (simp add: resumeDrainedMembers_def frame_def)

lemma resume_none:
  assumes "frame i w t" "tstep t = initialStep i"
  shows "Resume (tstep (resumeDrainedMembers t)) = [] \<longleftrightarrow> (\<forall>n\<in>set (memberNames i). \<not> needsResume (viewOf i n))"
    and "(\<forall>n\<in>set (memberNames i). \<not> needsResume (viewOf i n)) \<Longrightarrow> resumeDrainedMembers t = t"
  using assms by (auto simp: resumeDrainedMembers_def frame_def initialStep_def zero_step_def filter_empty_conv)

lemma initialStep_hold: "hold_ok i (initialStep i)"
  by (simp add: hold_ok_def initialStep_def zero_step_def get0_tabulate)

text \<open>The state a successful read hands to \<open>decide\<close>.\<close>

definition read_ok :: "transition_in \<Rightarrow> bool \<Rightarrow> transition \<Rightarrow> bool" where
  "read_ok i w t \<longleftrightarrow> members_ok i \<and> frame i w t \<and> tstep t = initialStep i
     \<and> servingAboveMinimum t = max 0 (servingCapacity i (Current i) [] - minimumServing i)
     \<and> retirementAllowance t = initialRetirement i"

lemma decide_cases:
  assumes rd: "read_ok i w t" and d: "decide t = Inr s"
  obtains
    (unknown) "s = withReason (initialStep i) ''ObservationUnknown''" "\<exists>n\<in>set (memberNames i). unknownStanding (viewOf i n)"
  | (resume) "hold_ok i s" "\<not> Complete s" "\<exists>n\<in>set (memberNames i). needsResume (viewOf i n)"
      "Reason s = ''AwaitingMemberConvergence''"
  | (reduce) t2 where "t2 = planReductions t" "reduction_inv i w [] t2" "movesReplicas t2"
      "s = withReason (tstep t2) ''AwaitingMemberConvergence''"
  | (grow) t2 t3 where "t2 = planReductions t" "\<not> movesReplicas t2" "planGrowth t2 = Inr t3" "growth_inv i w [] t3"
      "movesReplicas t3" "s = withReason (tstep t3) ''AwaitingMemberConvergence''"
  | (wait) t2 t3 r where "t2 = planReductions t" "\<not> movesReplicas t2" "planGrowth t2 = Inr t3" "growth_inv i w [] t3"
      "\<not> movesReplicas t3" "s = withReason (tstep t3) r" "r = waitingReason t3 \<or> r = ''AwaitingMemberConvergence''"
      "targetsGrow t3 \<or> targetsShrink t3 \<or> hasUnsettledMember t3"
  | (complete) t2 t3 where "t2 = planReductions t" "\<not> movesReplicas t2" "planGrowth t2 = Inr t3" "growth_inv i w [] t3"
      "\<not> movesReplicas t3" "s = (tstep t3)\<lparr>Complete := True\<rparr>" "settled i"
proof -
  have ok: "members_ok i" and fr: "frame i w t" and st: "tstep t = initialStep i"
    and sam: "servingAboveMinimum t = max 0 (servingCapacity i (Current i) [] - minimumServing i)"
    using rd by (simp_all add: read_ok_def)
  show ?thesis
  proof (cases "hasUnknownStandingMember t")
    case True
    then show ?thesis
      using d st frame_members [OF fr] by (intro unknown) (auto simp: decide_def hasUnknownStandingMember_def)
  next
    case nu: False
    show ?thesis
    proof (cases "\<exists>n\<in>set (memberNames i). needsResume (viewOf i n)")
      case True
      have "Resume (tstep (resumeDrainedMembers t)) \<noteq> []" using resume_none [OF fr st] True by blast
      with nu d have "s = withReason (tstep (resumeDrainedMembers t)) ''AwaitingMemberConvergence''"
        by (simp add: decide_def Let_def)
      then have "hold_ok i s \<and> \<not> Complete s \<and> Reason s = ''AwaitingMemberConvergence''"
        using initialStep_hold [of i] fr st by (simp add: resumeDrainedMembers_def hold_ok_def frame_def)
      then show ?thesis using True by (intro resume) auto
    next
      case nr: False
      then have t1: "resumeDrainedMembers t = t" using resume_none [OF fr st] by blast
      have res: "Resume (tstep t) = []" by (simp add: st initialStep_def zero_step_def)
      have inv: "reduction_inv i w [] (planReductions t)"
        using planReductions_inv [OF ok initialStep_inv [OF fr st sam]] .
      show ?thesis
      proof (cases "movesReplicas (planReductions t)")
        case True
        then show ?thesis using d nu t1 res inv by (intro reduce) (auto simp: decide_def Let_def)
      next
        case False
        with d nu t1 res obtain t3 where g: "planGrowth (planReductions t) = Inr t3"
          by (auto simp: decide_def Let_def split: sum.splits)
        have ginv: "growth_inv i w [] t3" by (rule planGrowth_inv [OF ok inv False g])
        then have fr3: "frame i w t3" by (simp add: growth_inv_def)
        have s: "s = (if movesReplicas t3 then withReason (tstep t3) ''AwaitingMemberConvergence''
            else if targetsGrow t3 \<or> targetsShrink t3 then withReason (tstep t3) (waitingReason t3)
            else if hasUnsettledMember t3 then withReason (tstep t3) ''AwaitingMemberConvergence''
            else (tstep t3)\<lparr>Complete := True\<rparr>)"
          using d nu t1 res False g by (auto simp: decide_def Let_def split: if_splits)
        have set: "settled i" if "\<not> targetsGrow t3" "\<not> targetsShrink t3" "\<not> hasUnsettledMember t3"
          unfolding settled_def
        proof
          fix n assume n: "n \<in> set (memberNames i)"
          have "get0 (Current i) n = get0 (targets (Desired i)) n"
            using that(1,2) fr3 n by (simp add: frame_def) (meson linorder_neq_iff)
          moreover have "\<not> unsettled (viewOf i n)"
            using that(3) n unfolding hasUnsettledMember_def frame_members [OF fr3] by blast
          moreover have "\<not> unknownStanding (viewOf i n)"
            using nu n unfolding hasUnknownStandingMember_def frame_members [OF fr] by blast
          ultimately show "get0 (Current i) n = get0 (targets (Desired i)) n \<and> \<not> unsettled (viewOf i n)
              \<and> \<not> unknownStanding (viewOf i n) \<and> \<not> needsResume (viewOf i n)" using nr n by blast
        qed
        consider "movesReplicas t3" | "\<not> movesReplicas t3" "targetsGrow t3 \<or> targetsShrink t3"
          | "\<not> movesReplicas t3" "\<not> (targetsGrow t3 \<or> targetsShrink t3)" "hasUnsettledMember t3"
          | "\<not> movesReplicas t3" "\<not> (targetsGrow t3 \<or> targetsShrink t3)" "\<not> hasUnsettledMember t3" by blast
        then show ?thesis
        proof cases
          case 1
          then show ?thesis using s by (intro grow [OF refl False g ginv]) simp_all
        next
          case 2
          then show ?thesis using s by (intro wait [OF refl False g ginv 2(1), of "waitingReason t3"]) auto
        next
          case 3
          then show ?thesis using s
            by (intro wait [OF refl False g ginv 3(1), of "''AwaitingMemberConvergence''"]) auto
        next
          case 4
          then show ?thesis using s set by (intro complete [OF refl False g ginv 4(1)]) auto
        qed
      qed
    qed
  qed
qed

lemma advance_read:
  assumes "advanceTransition i w = Inr s"
  obtains t where "readTransition i w = Inr t" "read_ok i w t" "decide t = Inr s"
  using assms readTransition_read by (auto simp: advanceTransition_def read_ok_def split: sum.splits)

lemma advance_outcome:
  assumes "advanceTransition i w = Inr s"
  shows "members_ok i \<and> (reduce_ok i s \<or> grow_ok i s) \<and> (Complete s \<longrightarrow> hold_ok i s \<and> settled i)
    \<and> (\<not> reduce_ok i s \<or> \<not> grow_ok i s \<longrightarrow> Resume s = [])"
proof -
  from assms obtain t where rd: "read_ok i w t" and d: "decide t = Inr s" by (rule advance_read)
  have ok: "members_ok i" using rd by (simp add: read_ok_def)
  have same: "hold_ok i (tstep u)" if "growth_inv i w [] u" "\<not> movesReplicas u" for u
    using that sameTargets_keys by (auto simp: movesReplicas_def hold_ok_def growth_inv_def frame_def)
  from rd d show ?thesis
  proof (cases rule: decide_cases)
    case unknown
    then show ?thesis
      using ok initialStep_hold [of i] hold_ok_reduce hold_ok_grow by (simp add: initialStep_def zero_step_def)
  next
    case resume
    then show ?thesis using ok hold_ok_reduce hold_ok_grow by simp
  next
    case (reduce t2)
    then show ?thesis using ok reduction_inv_ok by (auto simp: reduction_inv_def frame_def)
  next
    case (grow t2 t3)
    then show ?thesis using ok growth_inv_ok by (auto simp: growth_inv_def frame_def)
  next
    case (wait t2 t3 r)
    then have "hold_ok i s" using same by simp
    then show ?thesis using ok wait hold_ok_reduce hold_ok_grow by (simp add: growth_inv_def frame_def)
  next
    case (complete t2 t3)
    then have "hold_ok i s" using same [of t3] by (simp add: hold_ok_def)
    then show ?thesis using ok complete hold_ok_reduce hold_ok_grow by simp
  qed
qed

lemma get0_outside: "n \<notin> set (memberNames i) \<Longrightarrow>
    get0 (Current i) n = 0 \<and> get0 (targets (Desired i)) n = 0 \<and> get0 (targets (From i)) n = 0"
  by (auto simp: memberNames_def get0_def split: option.split dest!: map_of_eq_Some_keys)

subsection \<open>Theorems on the moves\<close>

text \<open>A move of two replicas from cluster \<open>a\<close> to cluster \<open>b\<close>, half way and almost done.\<close>

definition servingMember :: "int \<Rightarrow> member_state" where
  "servingMember n = \<lparr>Known = True, Eligible = True, Applied = True, Routable = True,
     Drained = False, Absent = False, Ready = n, Occupied = n\<rparr>"

definition drainedMember :: "int \<Rightarrow> member_state" where
  "drainedMember n = \<lparr>Known = True, Eligible = True, Applied = True, Routable = False,
     Drained = True, Absent = False, Ready = n, Occupied = n\<rparr>"

definition halfMoved :: transition_in where
  "halfMoved = \<lparr>From = \<lparr>targets = [(''a'', 2)], unassigned = 0\<rparr>, Current = [(''a'', 2), (''b'', 1)],
     Desired = \<lparr>targets = [(''b'', 2)], unassigned = 0\<rparr>,
     Members = [(''a'', servingMember 2), (''b'', servingMember 1)], Surge = 1, RolloutReserved = 0\<rparr>"

definition almostMoved :: transition_in where
  "almostMoved = \<lparr>From = \<lparr>targets = [(''a'', 2)], unassigned = 0\<rparr>, Current = [(''a'', 1), (''b'', 2)],
     Desired = \<lparr>targets = [(''b'', 2)], unassigned = 0\<rparr>,
     Members = [(''a'', drainedMember 1), (''b'', servingMember 2)], Surge = 1, RolloutReserved = 0\<rparr>"

text \<open>
  C2: A step never takes serving capacity below what both plans need. The ready replicas that still
  take traffic once the step's targets are applied and its members are drained are at least the
  smaller of the two plan totals, or as many as there were before.
\<close>

theorem advance_keeps_serving:
  assumes "advanceTransition i w = Inr s"
  shows "servingCapacity i (Targets s) (Drain s)
    \<ge> min (servingCapacity i (Current i) []) (min (planReplicas (From i)) (planReplicas (Desired i)))"
proof -
  from advance_outcome [OF assms] have "reduce_ok i s \<or> grow_ok i s" by blast
  then show ?thesis
  proof
    assume "reduce_ok i s"
    then show ?thesis by (simp add: reduce_ok_def minimumServing_def)
  next
    assume g: "grow_ok i s"
    have "servingCapacity i (Current i) [] \<le> servingCapacity i (Targets s) (Drain s)"
      unfolding servingCapacity_def using g
      by (intro sum_list_mono) (auto simp: servingShare_def grow_ok_def movedUp_def)
    then show ?thesis by linarith
  qed
qed

theorem advance_keeps_serving_witness:
  "\<exists>s. advanceTransition halfMoved False = Inr s \<and> get0 (Targets s) ''a'' = 1
     \<and> servingCapacity halfMoved (Targets s) (Drain s) \<ge> 2"
proof -
  obtain s where s: "advanceTransition halfMoved False = Inr s" "get0 (Targets s) ''a'' = 1"
    by (rule that [of "\<lparr>Targets = [(''a'', 1), (''b'', 1)], Drain = [], Resume = [],
      Reason = ''AwaitingMemberConvergence'', Complete = False, Message = [], CleanupReleased = False\<rparr>"]) code_simp+
  have "min (servingCapacity halfMoved (Current halfMoved) [])
      (min (planReplicas (From halfMoved)) (planReplicas (Desired halfMoved))) = 2" by code_simp
  then show ?thesis using advance_keeps_serving [OF s(1)] s by auto
qed

text \<open>
  C14: Placement growth and the rollout share one surge allowance. After the step's targets are
  applied, the replicas in use stay within the larger plan total plus the surge, unless more were
  already in use, and then the step adds none.
\<close>

theorem advance_within_surge:
  assumes "advanceTransition i w = Inr s"
  shows "usage i (Targets s)
    \<le> max (usage i (Current i)) (max (planReplicas (From i)) (planReplicas (Desired i)) + Surge i)"
proof -
  from advance_outcome [OF assms] have "reduce_ok i s \<or> grow_ok i s" by blast
  then show ?thesis
  proof
    assume r: "reduce_ok i s"
    have "usage i (Targets s) \<le> usage i (Current i)"
      unfolding usage_def using r
      by (intro add_left_mono sum_list_mono) (auto simp: reduce_ok_def movedDown_def)
    then show ?thesis by linarith
  next
    assume "grow_ok i s"
    then show ?thesis by (simp add: grow_ok_def surgeLimit_def)
  qed
qed

theorem advance_within_surge_witness:
  "\<exists>s. advanceTransition halfMoved True = Inr s \<and> usage halfMoved (Targets s) \<le> 3"
proof -
  obtain s where s: "advanceTransition halfMoved True = Inr s"
    by (rule that [of "\<lparr>Targets = [(''a'', 2), (''b'', 1)], Drain = [], Resume = [],
      Reason = ''SurgeBudgetExhausted'', Complete = False, Message = [], CleanupReleased = False\<rparr>"]) code_simp
  have "max (usage halfMoved (Current halfMoved))
      (max (planReplicas (From halfMoved)) (planReplicas (Desired halfMoved)) + Surge halfMoved) = 3" by code_simp
  then show ?thesis using advance_within_surge [OF s] s by auto
qed

text \<open>
  C40: A zero target never authorises the deletion of an occupied, undrained member: a step lowers a
  positive target to zero only for a member that confirmed its drain, or one that is absent and holds
  nothing.
\<close>

theorem advance_zero_target:
  assumes "advanceTransition i w = Inr s" and "n \<in> keys_of (Current i)"
    and "get0 (Current i) n > 0" and "get0 (Targets s) n = 0"
  shows "Drained (stateOf (Members i) n) \<or> Absent (stateOf (Members i) n) \<and> Occupied (stateOf (Members i) n) = 0"
proof -
  have n: "n \<in> set (memberNames i)" using assms(2) by (auto simp: memberNames_def)
  from advance_outcome [OF assms(1)] have ok: "members_ok i" and o: "reduce_ok i s \<or> grow_ok i s" by blast+
  from o n assms(3,4) have "movedDown i s n"
    by (auto simp: reduce_ok_def grow_ok_def movedUp_def)
  then show ?thesis
    using members_ok_state(4) [OF ok n] assms(4) by (auto simp: movedDown_def)
qed

theorem advance_zero_target_witness:
  "\<exists>s. advanceTransition almostMoved False = Inr s \<and> get0 (Targets s) ''a'' = 0
     \<and> (Drained (stateOf (Members almostMoved) ''a'')
        \<or> Absent (stateOf (Members almostMoved) ''a'') \<and> Occupied (stateOf (Members almostMoved) ''a'') = 0)"
proof -
  obtain s where s: "advanceTransition almostMoved False = Inr s" and z: "get0 (Targets s) ''a'' = 0"
    by (rule that [of "\<lparr>Targets = [(''a'', 0), (''b'', 2)], Drain = [], Resume = [],
      Reason = ''AwaitingMemberConvergence'', Complete = False, Message = [], CleanupReleased = False\<rparr>"]) code_simp+
  have "''a'' \<in> keys_of (Current almostMoved)" "get0 (Current almostMoved) ''a'' > 0" by code_simp+
  then show ?thesis using advance_zero_target [OF s] s z by blast
qed

text \<open>
  C30: Every target stays between the applied and the desired one, and a step reduces or grows but
  never both: either no target rises, or no target falls and nothing is drained.
\<close>

theorem advance_one_direction:
  assumes "advanceTransition i w = Inr s"
  shows "(\<forall>n\<in>set (memberNames i).
      min (get0 (Current i) n) (get0 (targets (Desired i)) n) \<le> get0 (Targets s) n
      \<and> get0 (Targets s) n \<le> max (get0 (Current i) n) (get0 (targets (Desired i)) n))
    \<and> ((\<forall>n\<in>set (memberNames i). get0 (Targets s) n \<le> get0 (Current i) n)
       \<or> (Drain s = [] \<and> (\<forall>n\<in>set (memberNames i). get0 (Current i) n \<le> get0 (Targets s) n)))"
proof -
  from advance_outcome [OF assms] have "reduce_ok i s \<or> grow_ok i s" by blast
  then show ?thesis
  proof
    assume "reduce_ok i s"
    then show ?thesis by (fastforce simp: reduce_ok_def movedDown_def)
  next
    assume "grow_ok i s"
    then show ?thesis by (fastforce simp: grow_ok_def movedUp_def)
  qed
qed

theorem advance_one_direction_witness:
  "\<exists>s. advanceTransition halfMoved False = Inr s
     \<and> (\<forall>n\<in>{''a'', ''b''}. get0 (Targets s) n \<le> max (get0 (Current halfMoved) n) (get0 (targets (Desired halfMoved)) n))"
proof -
  obtain s where s: "advanceTransition halfMoved False = Inr s"
    by (rule that [of "\<lparr>Targets = [(''a'', 1), (''b'', 1)], Drain = [], Resume = [],
      Reason = ''AwaitingMemberConvergence'', Complete = False, Message = [], CleanupReleased = False\<rparr>"]) code_simp
  have names: "set (memberNames halfMoved) = {''a'', ''b''}" by code_simp
  show ?thesis using advance_one_direction [OF s] s unfolding names by blast
qed

end
