(* ===== verification/Placement_Progress.thy ===== *)
theory Placement_Progress
  imports Placement_Transition
begin

section \<open>Progress of a placement move\<close>

text \<open>
  \<open>Advance\<close> (\<^verbatim>\<open>placement/allocation/transition.go\<close>) completes exactly when every cluster is
  settled at its goal, and with a surge of at least one it never gets stuck while every member is
  responsive: each step moves a replica until the targets are the desired ones.
\<close>

subsection \<open>Steps that leave a mark\<close>

definition touched :: "transition_in \<Rightarrow> name \<Rightarrow> transition \<Rightarrow> bool" where
  "touched i n t \<longleftrightarrow> n \<in> set (Drain (tstep t)) \<or> get0 (Targets (tstep t)) n \<noteq> get0 (Current i) n"

lemma touched_setTarget [simp]:
  "touched i k (setTarget n v t) \<longleftrightarrow> (if k = n then k \<in> set (Drain (tstep t)) \<or> v \<noteq> get0 (Current i) n else touched i k t)"
  by (simp add: touched_def gomap_simps)

lemma touched_addDrain [simp]: "touched i k (addDrain n t) \<longleftrightarrow> k = n \<or> touched i k t"
  by (auto simp: touched_def)

lemma touched_upd [simp]:
  "touched i k (t\<lparr>servingAboveMinimum := a\<rparr>) = touched i k t"
  "touched i k (t\<lparr>retirementAllowance := a\<rparr>) = touched i k t"
  "touched i k (t\<lparr>readyAboveDesired := a\<rparr>) = touched i k t"
  "touched i k (t\<lparr>growthAllowance := a\<rparr>) = touched i k t"
  "touched i k (t\<lparr>budgetBlocked := b\<rparr>) = touched i k t"
  by (simp_all add: touched_def)

text \<open>The number of replicas a funded reduction takes, and its three outcomes.\<close>

definition fundedReduction :: "member_view \<Rightarrow> transition \<Rightarrow> int" where
  "fundedReduction m t =
     (let r = min (current m - goal m) (unbackedReplicas t m + max 0 (retirementAllowance t))
      in if Routable (mstate m) then min r (max 0 (current m - Ready (mstate m)) + servingAboveMinimum t) else r)"

lemma reduceFunded_eq:
  obtains t' where "tstep t' = tstep t" and
    "reduceFunded m t =
      (if fundedReduction m t = 0 \<or> (wholeMembers t \<and> fundedReduction m t < current m - goal m) then t
       else if current m = fundedReduction m t \<and> \<not> Drained (mstate m) then addDrain (mname m) t'
       else setTarget (mname m) (get0 (Targets (tstep t)) (mname m) - fundedReduction m t) t')"
proof -
  let ?t' = "t\<lparr>servingAboveMinimum := servingAboveMinimum t -
      (if Routable (mstate m) then max 0 (fundedReduction m t - max 0 (current m - Ready (mstate m))) else 0),
    retirementAllowance := retirementAllowance t - max 0 (fundedReduction m t - unbackedReplicas t m)\<rparr>"
  have ts: "tstep ?t' = tstep t" by simp
  have "reduceFunded m t =
      (if fundedReduction m t = 0 \<or> (wholeMembers t \<and> fundedReduction m t < current m - goal m) then t
       else if current m = fundedReduction m t \<and> \<not> Drained (mstate m) then addDrain (mname m) ?t'
       else setTarget (mname m) (get0 (Targets (tstep ?t')) (mname m) - fundedReduction m t) ?t')"
    by (simp only: reduceFunded_def fundedReduction_def Let_def)
  then have "reduceFunded m t =
      (if fundedReduction m t = 0 \<or> (wholeMembers t \<and> fundedReduction m t < current m - goal m) then t
       else if current m = fundedReduction m t \<and> \<not> Drained (mstate m) then addDrain (mname m) ?t'
       else setTarget (mname m) (get0 (Targets (tstep t)) (mname m) - fundedReduction m t) ?t')"
    unfolding ts .
  with ts show ?thesis by (rule that)
qed

lemma reduceFunded_touch:
  assumes "\<not> touched i n t"
  shows "reduceFunded (viewOf i n) t = t \<or> touched i n (reduceFunded (viewOf i n) t)"
proof -
  obtain t' where t': "tstep t' = tstep t" and
    eq: "reduceFunded (viewOf i n) t =
      (if fundedReduction (viewOf i n) t = 0 \<or> (wholeMembers t \<and> fundedReduction (viewOf i n) t < current (viewOf i n) - goal (viewOf i n)) then t
       else if current (viewOf i n) = fundedReduction (viewOf i n) t \<and> \<not> Drained (mstate (viewOf i n)) then addDrain (mname (viewOf i n)) t'
       else setTarget (mname (viewOf i n)) (get0 (Targets (tstep t)) (mname (viewOf i n)) - fundedReduction (viewOf i n) t) t')"
    by (rule reduceFunded_eq)
  show ?thesis
  proof (cases "fundedReduction (viewOf i n) t = 0 \<or> (wholeMembers t \<and> fundedReduction (viewOf i n) t < current (viewOf i n) - goal (viewOf i n))")
    case True
    then show ?thesis using eq by simp
  next
    case False
    moreover have "get0 (Targets (tstep t)) n = get0 (Current i) n" using assms by (simp add: touched_def)
    ultimately have "touched i n (reduceFunded (viewOf i n) t)" unfolding eq by auto
    then show ?thesis ..
  qed
qed

lemma planReduction_touch:
  assumes "\<not> touched i n t"
  shows "planReduction (viewOf i n) t = t \<or> touched i n (planReduction (viewOf i n) t)"
  using assms reduceFunded_touch [OF assms]
  by (auto simp: planReduction_def drainWithoutTarget_def)

lemma reduceFunded_keep: "k \<noteq> n \<Longrightarrow> touched i k (reduceFunded (viewOf i n) t) = touched i k t"
  by (rule reduceFunded_eq [of t "viewOf i n"]) (simp add: touched_def gomap_simps)

lemma planReduction_keep: "k \<noteq> n \<Longrightarrow> touched i k (planReduction (viewOf i n) t) = touched i k t"
  by (simp add: planReduction_def drainWithoutTarget_def reduceFunded_keep)

lemma growMember_keep: "k \<noteq> n \<Longrightarrow> touched i k (growMember (viewOf i n) t) = touched i k t"
  by (simp add: growMember_def Let_def)

text \<open>A loop over distinct clusters whose body marks at most the cluster it visits.\<close>

lemma fold_touch:
  assumes keep: "\<And>k n t. k \<noteq> n \<Longrightarrow> touched i k (f (viewOf i n) t) = touched i k t"
    and touch: "\<And>n t. n \<in> set ns \<Longrightarrow> \<not> touched i n t \<Longrightarrow> P t \<Longrightarrow> f (viewOf i n) t = t \<and> Q n t \<or> touched i n (f (viewOf i n) t)"
    and "distinct ns" "P t" "\<forall>n\<in>set ns. \<not> touched i n t"
  shows "(\<forall>n\<in>set ns. f (viewOf i n) t = t \<and> Q n t) \<or> (\<exists>k\<in>set ns. touched i k (fold f (map (viewOf i) ns) t))"
  using assms(2-5)
proof (induction ns)
  case (Cons n ns)
  have pers: "touched i n (fold f (map (viewOf i) xs) u) = touched i n u" if "n \<notin> set xs" for xs u
    using that by (induction xs arbitrary: u) (auto simp: keep)
  show ?case
  proof (cases "touched i n (f (viewOf i n) t)")
    case True
    then show ?thesis using Cons.prems(2) pers by auto
  next
    case False
    then have same: "f (viewOf i n) t = t" "Q n t"
      using Cons.prems(1) [of n t] Cons.prems(3,4) by simp_all
    have "(\<forall>n\<in>set ns. f (viewOf i n) t = t \<and> Q n t) \<or> (\<exists>k\<in>set ns. touched i k (fold f (map (viewOf i) ns) t))"
      by (rule Cons.IH) (use Cons.prems in simp_all)
    then show ?thesis using same by (simp, blast)
  qed
qed simp

lemma moves_touched:
  assumes "tin t = i" "touched i n t" "keys_of (Targets (tstep t)) = set (memberNames i)" "n \<in> set (memberNames i)"
  shows "movesReplicas t"
  using assms sameTargets_keys [of "Targets (tstep t)" "Current i" n]
  by (auto simp: movesReplicas_def touched_def)

lemma read_untouched: "tstep t = initialStep i \<Longrightarrow> n \<in> set (memberNames i) \<Longrightarrow> \<not> touched i n t"
  using initialStep_hold [of i] by (auto simp: touched_def hold_ok_def initialStep_def zero_step_def)

lemma planReductions_touch:
  assumes rd: "read_ok i w t"
  shows "(planReductions t = t \<and> (\<forall>n\<in>set (memberNames i). planReduction (viewOf i n) t = t))
    \<or> (\<exists>k\<in>set (memberNames i). touched i k (planReductions t))"
proof -
  have fr: "frame i w t" and st: "tstep t = initialStep i" using rd by (simp_all add: read_ok_def)
  from fr obtain ns where ns: "reductionOrder t = map (viewOf i) ns" "distinct ns" "set ns = set (memberNames i)"
    by (rule reductionOrder_frame)
  have "(\<forall>n\<in>set ns. planReduction (viewOf i n) t = t \<and> True)
      \<or> (\<exists>k\<in>set ns. touched i k (fold planReduction (map (viewOf i) ns) t))"
    using ns read_untouched [OF st] planReduction_touch planReduction_keep
    by (intro fold_touch [where P = "\<lambda>_. True"]) auto
  moreover have "planReductions t = t" if "\<forall>n\<in>set ns. planReduction (viewOf i n) t = t"
  proof -
    have "fold planReduction (map (viewOf i) xs) t = t" if "set xs \<subseteq> set ns" for xs
      using that \<open>\<forall>n\<in>set ns. _\<close> by (induction xs) auto
    then show ?thesis by (simp add: planReductions_def ns(1))
  qed
  ultimately show ?thesis unfolding planReductions_def ns(1) ns(3) by blast
qed

lemma planGrowth_touch:
  assumes rd: "read_ok i w t" and gr: "planGrowth t = Inr t'"
    and room: "usage i (Current i) < surgeLimit i" and nw: "\<not> w"
    and n: "n \<in> set (memberNames i)" "growable (viewOf i n)"
  shows "\<exists>k\<in>set (memberNames i). touched i k t'"
proof -
  have fr: "frame i w t" and st: "tstep t = initialStep i" using rd by (simp_all add: read_ok_def)
  let ?t0 = "t\<lparr>growthAllowance := max 0 (max (fromReplicas t) (desiredReplicas t) + Surge (tin t) - inUse t)\<rparr>"
  have t': "t' = fold growMember (map (viewOf i) (memberNames i)) ?t0"
    using gr fr by (simp add: planGrowth_def Let_def frame_def split: if_splits)
  have room0: "0 < growthAllowance ?t0 \<and> \<not> wholeMembers ?t0"
    using fr room nw by (simp add: frame_def surgeLimit_def)
  have "(\<forall>n\<in>set (memberNames i). growMember (viewOf i n) ?t0 = ?t0 \<and> \<not> growable (viewOf i n))
      \<or> (\<exists>k\<in>set (memberNames i). touched i k (fold growMember (map (viewOf i) (memberNames i)) ?t0))"
  proof (rule fold_touch [where P = "\<lambda>t. 0 < growthAllowance t \<and> \<not> wholeMembers t"])
    fix k u assume "k \<in> set (memberNames i)" "\<not> touched i k u" and P: "0 < growthAllowance u \<and> \<not> wholeMembers u"
    then have here: "get0 (Targets (tstep u)) k = get0 (Current i) k" by (simp add: touched_def)
    show "growMember (viewOf i k) u = u \<and> \<not> growable (viewOf i k) \<or> touched i k (growMember (viewOf i k) u)"
    proof (cases "growable (viewOf i k)")
      case True
      then have "get0 (Current i) k < get0 (targets (Desired i)) k" by (simp add: growable_def)
      then show ?thesis using True P here by (auto simp: growMember_def Let_def)
    qed (simp add: growMember_def)
  qed (use growMember_keep room0 read_untouched [OF st] in \<open>auto simp: touched_def\<close>)
  then show ?thesis using n t' by blast
qed

subsection \<open>Completion\<close>

lemma sameTargets_initial:
  assumes "gomap_ok (Current i)"
  shows "sameTargets (Targets (initialStep i)) (Current i)"
proof -
  have "get0 (Targets (initialStep i)) n = get0 (Current i) n" if "n \<in> keys_of (Current i)" for n
    using that by (auto simp: initialStep_def get0_tabulate memberNames_def)
  then show ?thesis
    using get0_elem [OF assms] by (fastforce simp: sameTargets_def list_all_iff initialStep_def)
qed

lemma settled_still:
  assumes rd: "read_ok i w t" and s: "settled i"
  shows "planReductions t = t"
    and "planGrowth t = Inr t' \<Longrightarrow> tstep t' = tstep t"
proof -
  have fr: "frame i w t" using rd by (simp add: read_ok_def)
  have at: "get0 (Current i) n = get0 (targets (Desired i)) n" "\<not> unsettled (viewOf i n)"
    if "n \<in> set (memberNames i)" for n using s that by (simp_all add: settled_def)
  from fr obtain ns where ns: "reductionOrder t = map (viewOf i) ns" "distinct ns" "set ns = set (memberNames i)"
    by (rule reductionOrder_frame)
  have "planReduction (viewOf i n) u = u" if "n \<in> set (memberNames i)" for n u
    using at [OF that] by (auto simp: planReduction_def occupiedWithoutTarget_def unsettled_def reducible_def)
  then have "fold planReduction (map (viewOf i) xs) u = u" if "set xs \<subseteq> set (memberNames i)" for xs u
    using that by (induction xs arbitrary: u) auto
  then show "planReductions t = t" by (simp add: planReductions_def ns)
  have "growMember (viewOf i n) u = u" if "n \<in> set (memberNames i)" for n u
    using at [OF that] by (simp add: growMember_def growable_def)
  then have "fold growMember (map (viewOf i) xs) u = u" if "set xs \<subseteq> set (memberNames i)" for xs u
    using that by (induction xs arbitrary: u) auto
  then show "planGrowth t = Inr t' \<Longrightarrow> tstep t' = tstep t"
    using fr by (auto simp: planGrowth_def Let_def frame_def split: if_splits)
qed

lemma settled_completes:
  assumes rd: "read_ok i w t" and s: "settled i" and d: "decide t = Inr st" and m: "gomap_ok (Current i)"
  shows "Complete st"
proof -
  have fr: "frame i w t" and init: "tstep t = initialStep i" using rd by (simp_all add: read_ok_def)
  have same: "\<not> movesReplicas u" if "tstep u = initialStep i" "tin u = i" for u
    using that sameTargets_initial [OF m] by (simp add: movesReplicas_def initialStep_def zero_step_def)
  have still: "planReductions t = t" by (rule settled_still [OF rd s])
  from rd d show ?thesis
  proof (cases rule: decide_cases)
    case (reduce t2)
    then show ?thesis using same [of t] still init fr by (simp add: frame_def)
  next
    case (grow t2 t3)
    then have "tstep t3 = initialStep i" "tin t3 = i"
      using settled_still(2) [OF rd s, of t3] still init by (simp_all add: growth_inv_def frame_def)
    then show ?thesis using same [of t3] grow by simp
  next
    case (wait t2 t3 r)
    then have fr3: "frame i w t3" by (simp add: growth_inv_def)
    have "\<not> hasUnsettledMember t3" "\<not> targetsGrow t3" "\<not> targetsShrink t3"
      using s fr3 frame_members [OF fr3] by (auto simp: settled_def hasUnsettledMember_def frame_def)
    then show ?thesis using wait by simp
  qed (use s in \<open>auto simp: settled_def\<close>)
qed

text \<open>
  A step completes the move exactly when every cluster is settled: its applied target is the
  desired one, it has applied it or has emptied, and no standing cluster is unknown or still waits to
  be published again.
\<close>

lemma advance_complete_iff:
  assumes "gomap_ok (Current i)" and "advanceTransition i w = Inr s"
  shows "Complete s \<longleftrightarrow> settled i"
proof -
  from assms(2) obtain t where "read_ok i w t" "decide t = Inr s" by (rule advance_read)
  then show ?thesis
    using settled_completes [of i w t s] assms(1) advance_outcome [OF assms(2)] by blast
qed

definition allMoved :: transition_in where
  "allMoved = almostMoved\<lparr>Current := [(''b'', 2)], Members := [(''a'', servingMember 0), (''b'', servingMember 2)]\<rparr>"

subsection \<open>Success\<close>

lemma sumTargets_ok:
  assumes "\<forall>(n, c)\<in>set es. n \<noteq> [] \<and> 0 \<le> c" "a + (\<Sum>e\<leftarrow>es. snd e) \<le> max_int64"
  shows "sumTargets a es = Inr (a + (\<Sum>e\<leftarrow>es. snd e))"
  using assms
proof (induction a es rule: sumTargets.induct)
  case (2 a n c es)
  have "0 \<le> (\<Sum>e\<leftarrow>es. snd e)" using 2(2) by (intro sum_list_nonneg) auto
  then have "c \<le> max_int64 - a" using 2(3) by simp
  then show ?case using 2 by (auto simp: add.assoc)
qed simp

lemma planTotal_ok: "plan_valid p \<Longrightarrow> planReplicas p \<le> max_int64 \<Longrightarrow> planTotal p = Inr (planReplicas p)"
  using sumTargets_ok [of "targets p" "unassigned p"] by (simp add: plan_valid_def planReplicas_def planTotal_def)

lemma countMembers_ok:
  assumes "\<forall>m\<in>set ms. \<not> inconsistent (mstate m)" "inUse t + (\<Sum>m\<leftarrow>ms. max (current m) (Occupied (mstate m))) \<le> max_int64"
  shows "\<exists>t'. countMembers ms t = Inr t'"
  using assms
proof (induction ms arbitrary: t)
  case (Cons m ms)
  have "0 \<le> (\<Sum>m\<leftarrow>ms. max (current m) (Occupied (mstate m)))"
    using Cons.prems(1) by (intro sum_list_nonneg) (auto simp: inconsistent_def le_max_iff_disj)
  then have "max (current m) (Occupied (mstate m)) \<le> max_int64 - inUse t"
    using Cons.prems(2) unfolding list.map sum_list.Cons by linarith
  then obtain t1 where t1: "countMember m t = Inr t1" by (simp add: countMember_def Let_def)
  have "inUse t1 + (\<Sum>m\<leftarrow>ms. max (current m) (Occupied (mstate m))) \<le> max_int64"
    using countMember_Inr [OF t1] Cons.prems(2) by (simp add: add.assoc)
  then show ?case using Cons.IH [of t1] Cons.prems(1) t1 by simp
qed simp

lemma readBudget_ok:
  "\<exists>t1. countMembers (members t) (t\<lparr>inUse := RolloutReserved (tin t),
     retirementAllowance := max 0 (fromReplicas t - desiredReplicas t)\<rparr>) = Inr t1 \<Longrightarrow> \<exists>t'. readBudget t = Inr t'"
  by (elim exE) (simp add: readBudget_def Let_def)

text \<open>Inputs a call accepts: consistent observations, valid plans, totals that fit in 64 bits.\<close>

definition acceptable :: "transition_in \<Rightarrow> bool" where
  "acceptable i \<longleftrightarrow> members_ok i \<and> [] \<notin> keys_of (Members i) \<and> surgeLimit i \<le> max_int64
     \<and> usage i (Current i) \<le> max_int64 \<and> (\<Sum>e\<leftarrow>Current i. snd e) \<le> max_int64"

lemma readTransition_ok:
  assumes "acceptable i"
  shows "\<exists>t. readTransition i w = Inr t"
proof -
  have ok: "members_ok i" using assms by (simp add: acceptable_def)
  have "planReplicas (From i) \<le> max_int64" "planReplicas (Desired i) \<le> max_int64"
    using assms unfolding acceptable_def surgeLimit_def members_ok_def by linarith+
  then have p: "planTotal (From i) = Inr (planReplicas (From i))"
    "planTotal (Desired i) = Inr (planReplicas (Desired i))"
    "planTotal \<lparr>targets = Current i, unassigned = 0\<rparr> = Inr (\<Sum>e\<leftarrow>Current i. snd e)"
    using assms planTotal_ok [of "\<lparr>targets = Current i, unassigned = 0\<rparr>"]
    by (simp_all add: planTotal_ok acceptable_def members_ok_def planReplicas_def)
  have "\<exists>t'. countMembers (map (viewOf i) (memberNames i)) u = Inr t'" if "inUse u = RolloutReserved i" for u
    using assms that by (intro countMembers_ok) (auto simp: acceptable_def members_ok_def usage_def comp_def)
  then have "\<exists>t'. countMembers (members u) (u\<lparr>inUse := RolloutReserved (tin u), retirementAllowance := r\<rparr>) = Inr t'"
    if "tin u = i" "members u = map (viewOf i) (memberNames i)" for u r
    using that by simp
  then have "\<exists>t'. readBudget u = Inr t'" if "tin u = i" "members u = map (viewOf i) (memberNames i)" for u
    using that readBudget_ok by blast
  then show ?thesis
    using assms p ok
    by (simp add: readTransition_def readMembers_def acceptable_def newTransition_def members_ok_def)
qed

lemma advance_returns: "acceptable i \<Longrightarrow> \<exists>s. advanceTransition i w = Inr s"
proof -
  assume a: "acceptable i"
  then obtain t where t: "readTransition i w = Inr t" using readTransition_ok by blast
  then have rd: "read_ok i w t" using readTransition_read by (simp add: read_ok_def)
  have inv: "reduction_inv i w [] (planReductions t)"
    using rd planReductions_inv initialStep_inv by (simp add: read_ok_def)
  have fr: "frame i w (planReductions t)" using inv by (simp add: reduction_inv_def)
  have "\<exists>t3. planGrowth (planReductions t) = Inr t3"
    using fr a by (simp add: planGrowth_def Let_def frame_def acceptable_def surgeLimit_def)
  moreover have "resumeDrainedMembers t = t \<or> Resume (tstep (resumeDrainedMembers t)) \<noteq> []"
    using rd resume_none [of i w t] unfolding read_ok_def by blast
  ultimately show ?thesis
    using t by (auto simp: advanceTransition_def decide_def Let_def)
qed

subsection \<open>Progress\<close>

lemma sum_get0:
  assumes "gomap_ok m" "keys_of m \<subseteq> set ns" "distinct ns"
  shows "(\<Sum>n\<leftarrow>ns. get0 m n) = (\<Sum>e\<leftarrow>m. snd e)"
proof -
  have "(\<Sum>e\<leftarrow>m. snd e) = (\<Sum>n\<leftarrow>map fst m. get0 m n)"
    using get0_elem [OF assms(1)] by (auto simp: comp_def intro!: arg_cong [where f = sum_list])
  also have "\<dots> = sum (get0 m) (keys_of m)"
    using assms(1) by (subst sum_list_distinct_conv_sum_set) simp_all
  also have "\<dots> = sum (get0 m) (set ns)"
    using assms(2) by (intro sum.mono_neutral_left) (auto simp: get0_def split: option.split dest: map_of_eq_Some_keys)
  finally show ?thesis using assms(3) by (simp add: sum_list_distinct_conv_sum_set)
qed

text \<open>A responsive member is known, eligible and has applied its target: it serves that many replicas.\<close>

definition responsive :: "transition_in \<Rightarrow> name \<Rightarrow> bool" where
  "responsive i n \<longleftrightarrow> (let s = stateOf (Members i) n; c = get0 (Current i) n
     in Known s \<and> Eligible s \<and> Applied s \<and> \<not> Drained s \<and> Ready s = c \<and> Occupied s = c \<and> (c > 0 \<longrightarrow> Routable s))"

definition unstuck :: "transition_in \<Rightarrow> bool" where
  "unstuck i \<longleftrightarrow> (\<forall>n\<in>set (memberNames i). responsive i n)
     \<and> gomap_ok (targets (From i)) \<and> gomap_ok (targets (Desired i)) \<and> gomap_ok (Current i)
     \<and> unassigned (Desired i) = 0 \<and> 1 \<le> Surge i \<and> RolloutReserved i = 0"

lemma unstuck_totals:
  assumes u: "unstuck i" and ok: "members_ok i"
  defines "tot \<equiv> \<Sum>n\<leftarrow>memberNames i. get0 (Current i) n"
  shows "usage i (Current i) = tot" "servingCapacity i (Current i) [] = tot"
    "planReplicas (Desired i) = (\<Sum>n\<leftarrow>memberNames i. get0 (targets (Desired i)) n)"
    "(\<Sum>n\<leftarrow>memberNames i. retirementShare (viewOf i n)) = tot - (planReplicas (From i) - unassigned (From i))"
proof -
  have resp: "responsive i n" if "n \<in> set (memberNames i)" for n using u that by (simp add: unstuck_def)
  show "usage i (Current i) = tot"
    unfolding usage_def tot_def using resp u
    by (auto simp: responsive_def Let_def unstuck_def intro!: arg_cong [where f = sum_list])
  have "servingShare i (Current i) [] n = get0 (Current i) n" if "n \<in> set (memberNames i)" for n
    using resp [OF that] members_ok_state(6) [OF ok that] by (auto simp: responsive_def Let_def servingShare_def serving_def)
  then show "servingCapacity i (Current i) [] = tot"
    unfolding servingCapacity_def tot_def by (auto intro!: arg_cong [where f = sum_list])
  have keys: "keys_of (targets (Desired i)) \<subseteq> set (memberNames i)" "keys_of (targets (From i)) \<subseteq> set (memberNames i)"
    by (auto simp: memberNames_def)
  show "planReplicas (Desired i) = (\<Sum>n\<leftarrow>memberNames i. get0 (targets (Desired i)) n)"
    using u sum_get0 [OF _ keys(1)] by (simp add: planReplicas_def unstuck_def)
  have "retirementShare (viewOf i n) = get0 (Current i) n - get0 (targets (From i)) n" if "n \<in> set (memberNames i)" for n
    using resp [OF that] members_ok_state(6,8) [OF ok that]
    by (auto simp: responsive_def Let_def retirementShare_def serving_def)
  then have "(\<Sum>n\<leftarrow>memberNames i. retirementShare (viewOf i n)) = (\<Sum>n\<leftarrow>memberNames i. get0 (Current i) n - get0 (targets (From i)) n)"
    by (auto intro!: arg_cong [where f = sum_list])
  also have "\<dots> = tot - (planReplicas (From i) - unassigned (From i))"
    using u sum_get0 [OF _ keys(2)] by (simp add: sum_list_subtractf tot_def planReplicas_def unstuck_def)
  finally show "(\<Sum>n\<leftarrow>memberNames i. retirementShare (viewOf i n)) = tot - (planReplicas (From i) - unassigned (From i))" .
qed

lemma unstuck_reduces:
  assumes rd: "read_ok i False t" and u: "unstuck i"
    and over: "planReplicas (Desired i) < usage i (Current i)"
    and n: "n \<in> set (memberNames i)" "get0 (targets (Desired i)) n < get0 (Current i) n"
  shows "planReduction (viewOf i n) t \<noteq> t"
proof
  assume same: "planReduction (viewOf i n) t = t"
  have ok: "members_ok i" and fr: "frame i False t" and st: "tstep t = initialStep i"
    and sam: "servingAboveMinimum t = max 0 (servingCapacity i (Current i) [] - minimumServing i)"
    and ret: "retirementAllowance t = initialRetirement i"
    using rd by (simp_all add: read_ok_def)
  note tot = unstuck_totals [OF u ok]
  have resp: "responsive i n" using u n by (simp add: unstuck_def)
  have "0 \<le> unassigned (From i)" using ok by (simp add: members_ok_def plan_valid_def)
  then have pos: "0 < retirementAllowance t" "0 < servingAboveMinimum t"
    using over tot unfolding ret sam initialRetirement_def minimumServing_def Let_def by auto
  have pc: "0 < get0 (Current i) n" using n members_ok_state(7) [OF ok n(1)] by linarith
  have "0 < fundedReduction (viewOf i n) t"
    using pos n resp unbackedReplicas_nonneg [of "viewOf i n" t] pc
    by (auto simp: fundedReduction_def Let_def)
  moreover have "planReduction (viewOf i n) t = reduceFunded (viewOf i n) t"
    using resp n pc members_ok_state(4) [OF ok n(1)]
    by (auto simp: planReduction_def occupiedWithoutTarget_def reducible_def responsive_def Let_def)
  moreover have "\<not> wholeMembers t" using fr by (simp add: frame_def)
  ultimately have "touched i n (planReduction (viewOf i n) t)"
    using read_untouched [OF st n(1)]
    by (rule_tac reduceFunded_eq [of t "viewOf i n"]) (auto simp: touched_def gomap_simps)
  then show False using same read_untouched [OF st n(1)] by simp
qed

lemma unstuck_settled:
  assumes "unstuck i" "\<forall>n\<in>set (memberNames i). get0 (Current i) n = get0 (targets (Desired i)) n"
  shows "settled i"
  using assms by (auto simp: settled_def unstuck_def responsive_def Let_def unsettled_def unknownStanding_def needsResume_def)

lemma unstuck_growable:
  assumes u: "unstuck i" and ok: "members_ok i" and le: "usage i (Current i) \<le> planReplicas (Desired i)"
    and diff: "\<exists>n\<in>set (memberNames i). get0 (Current i) n \<noteq> get0 (targets (Desired i)) n"
  shows "\<exists>n\<in>set (memberNames i). growable (viewOf i n)"
proof (rule ccontr)
  assume none: "\<not> ?thesis"
  have le': "get0 (targets (Desired i)) n \<le> get0 (Current i) n" if "n \<in> set (memberNames i)" for n
    using none that u by (auto simp: growable_def unstuck_def responsive_def Let_def)
  obtain k where k: "k \<in> set (memberNames i)" "get0 (targets (Desired i)) k < get0 (Current i) k"
    using diff le' by force
  have "(\<Sum>n\<in>set (memberNames i). get0 (targets (Desired i)) n) < (\<Sum>n\<in>set (memberNames i). get0 (Current i) n)"
    using le' k by (intro sum_strict_mono_ex1) auto
  then show False
    using le unstuck_totals [OF u ok] by (simp add: sum_list_distinct_conv_sum_set)
qed

lemma unstuck_over:
  assumes u: "unstuck i" and ok: "members_ok i" and over: "planReplicas (Desired i) < usage i (Current i)"
  shows "\<exists>n\<in>set (memberNames i). get0 (targets (Desired i)) n < get0 (Current i) n"
proof (rule ccontr)
  assume "\<not> ?thesis"
  then have "(\<Sum>n\<leftarrow>memberNames i. get0 (Current i) n) \<le> (\<Sum>n\<leftarrow>memberNames i. get0 (targets (Desired i)) n)"
    by (intro sum_list_mono) force
  then show False using over unstuck_totals [OF u ok] by simp
qed

lemma unstuck_moves:
  assumes rd: "read_ok i False t" and d: "decide t = Inr s" and u: "unstuck i"
    and diff: "\<exists>n\<in>set (memberNames i). get0 (Current i) n \<noteq> get0 (targets (Desired i)) n"
  shows "\<exists>n\<in>set (memberNames i). n \<in> set (Drain s) \<or> get0 (Targets s) n \<noteq> get0 (Current i) n"
proof -
  have ok: "members_ok i" and fr: "frame i False t" and st: "tstep t = initialStep i"
    using rd by (simp_all add: read_ok_def)
  have m: "gomap_ok (Current i)" and srg: "1 \<le> Surge i" using u by (simp_all add: unstuck_def)
  have inv: "reduction_inv i False [] (planReductions t)"
    using rd planReductions_inv initialStep_inv by (simp add: read_ok_def)
  have mv: "movesReplicas (planReductions t)" if "k \<in> set (memberNames i)" "touched i k (planReductions t)" for k
    using that inv moves_touched [of "planReductions t" i k] unfolding reduction_inv_def frame_def by blast
  have grown: "\<exists>k\<in>set (memberNames i). touched i k t3"
    if still: "\<not> movesReplicas (planReductions t)" and g: "planGrowth (planReductions t) = Inr t3" for t3
  proof -
    have same: "planReductions t = t" "\<forall>n\<in>set (memberNames i). planReduction (viewOf i n) t = t"
      using planReductions_touch [OF rd] mv still by blast+
    have le: "usage i (Current i) \<le> planReplicas (Desired i)"
      using unstuck_over [OF u ok] unstuck_reduces [OF rd u] same(2) by (meson not_le)
    then have "usage i (Current i) < surgeLimit i" using srg unfolding surgeLimit_def by linarith
    then show ?thesis
      using planGrowth_touch [OF rd] unstuck_growable [OF u ok le diff] g same(1) by metis
  qed
  have resp: "\<not> unknownStanding (viewOf i n)" "\<not> needsResume (viewOf i n)" if "n \<in> set (memberNames i)" for n
    using u that by (auto simp: unstuck_def responsive_def Let_def unknownStanding_def needsResume_def)
  have gmv: "movesReplicas t3" if "growth_inv i False [] t3" "k \<in> set (memberNames i)" "touched i k t3" for t3 k
    using that moves_touched [of t3 i k] unfolding growth_inv_def frame_def by blast
  from rd d show ?thesis
  proof (cases rule: decide_cases)
    case (reduce t2)
    then have "\<exists>k\<in>set (memberNames i). touched i k t2"
      using planReductions_touch [OF rd] st fr sameTargets_initial [OF m]
      by (auto simp: movesReplicas_def initialStep_def zero_step_def frame_def)
    then show ?thesis using reduce by (simp add: touched_def)
  next
    case (grow t2 t3)
    then show ?thesis using grown [of t3] by (simp add: touched_def)
  next
    case (wait t2 t3 r)
    then show ?thesis using grown [of t3] gmv [of t3] by blast
  next
    case (complete t2 t3)
    then show ?thesis using grown [of t3] gmv [of t3] by blast
  qed (use resp in blast)+
qed

text \<open>
  C15: A move never gets stuck. With a surge of at least one, a desired plan that leaves nothing
  unassigned, no rollout reservation and responsive members, \<open>Advance\<close> returns a step, and the step
  drains a member or changes a target until every target is the desired one; then it completes.
\<close>

theorem Advance_progress:
  assumes "acceptable i" and "unstuck i"
  shows "\<exists>s. Advance i = Inr s \<and>
    (if \<forall>n\<in>set (memberNames i). get0 (Current i) n = get0 (targets (Desired i)) n then Complete s
     else \<exists>n\<in>set (memberNames i). n \<in> set (Drain s) \<or> get0 (Targets s) n \<noteq> get0 (Current i) n)"
proof -
  obtain s where s: "advanceTransition i False = Inr s" using advance_returns [OF assms(1)] by blast
  then obtain t where t: "read_ok i False t" "decide t = Inr s" by (rule advance_read)
  have "gomap_ok (Current i)" using assms(2) by (simp add: unstuck_def)
  then show ?thesis
    using s unstuck_moves [OF t assms(2)] settled_completes [OF t(1) _ t(2)] unstuck_settled [OF assms(2)]
    by (auto simp: Advance_def)
qed

theorem Advance_progress_witness:
  "\<exists>s. Advance halfMoved = Inr s
     \<and> (\<exists>n\<in>{''a'', ''b''}. n \<in> set (Drain s) \<or> get0 (Targets s) n \<noteq> get0 (Current halfMoved) n)"
proof -
  have "acceptable halfMoved" "unstuck halfMoved" by code_simp+
  moreover have "set (memberNames halfMoved) = {''a'', ''b''}" by code_simp
  moreover have "\<not> (\<forall>n\<in>{''a'', ''b''}. get0 (Current halfMoved) n = get0 (targets (Desired halfMoved)) n)" by code_simp
  ultimately show ?thesis using Advance_progress [of halfMoved] by presburger
qed

end
