(* ===== verification/Index_Set.thy ===== *)
theory Index_Set
  imports Go_Strings
begin

section \<open>Compact index sets (pkg/controller/v1beta1/irstatus/indexset.go)\<close>

text \<open>
  The columnar InferenceReplica status names its rows by index sets, spelled as \<^verbatim>\<open>0-4,7,9-12\<close>.
  A set is a list of inclusive intervals; \<open>parseIndexSet\<close> accepts exactly the canonical spellings.
  Indices are \<^verbatim>\<open>int32\<close> in the source and \<^typ>\<open>int\<close> here with the bound checked where the source
  checks it. Cardinalities are \<^verbatim>\<open>uint64\<close> in the source: a set of 32-bit indices has at most
  \<open>2^31\<close> elements, so the sums do not wrap and are \<^typ>\<open>nat\<close>.
\<close>

subsection \<open>Data and errors\<close>

datatype codec_error =
    RangeSyntax | RangeOverflow | RangeOrder | CanonicalOrder | CardinalityLimit
  | ValueDomain | Coverage | RepresentationUnion | UnknownEncoding

record interval =
  first :: int
  last :: int

record index_set =
  intervals :: "interval list"
  cardinality :: nat

definition interval_of :: "int \<Rightarrow> int \<Rightarrow> interval" where
  "interval_of a b = \<lparr>first = a, last = b\<rparr>"

definition width :: "interval \<Rightarrow> nat" where
  "width v = nat (last v - first v + 1)"

subsection \<open>Parsing\<close>

fun parseDigits :: "string \<Rightarrow> nat \<Rightarrow> codec_error + nat" where
  "parseDigits [] v = Inr v"
| "parseDigits (c # cs) v =
     (if \<not> is_digit c then Inl RangeSyntax
      else if v > (2147483647 - digit_val c) div 10 then Inl RangeOverflow
      else parseDigits cs (v * 10 + digit_val c))"

definition parseIndex :: "string \<Rightarrow> codec_error + int" where
  "parseIndex raw =
     (if raw = [] \<or> (length raw > 1 \<and> hd raw = CHR ''0'') then Inl RangeSyntax
      else case parseDigits raw 0 of Inl e \<Rightarrow> Inl e | Inr v \<Rightarrow> Inr (int v))"

definition parseIndexInterval :: "string \<Rightarrow> codec_error + interval" where
  "parseIndexInterval term =
     (let before = takeWhile (\<lambda>c. c \<noteq> CHR ''-'') term; rest = dropWhile (\<lambda>c. c \<noteq> CHR ''-'') term
      in case rest of
           [] \<Rightarrow> (case parseIndex term of Inl e \<Rightarrow> Inl e | Inr v \<Rightarrow> Inr (interval_of v v))
         | _ # after \<Rightarrow>
             if before = [] \<or> after = [] \<or> CHR ''-'' \<in> set after then Inl RangeSyntax
             else (case parseIndex before of
                 Inl e \<Rightarrow> Inl e
               | Inr a \<Rightarrow> (case parseIndex after of
                     Inl e \<Rightarrow> Inl e
                   | Inr b \<Rightarrow> if a \<ge> b then Inl RangeOrder else Inr (interval_of a b))))"

definition checkOrder :: "interval option \<Rightarrow> interval \<Rightarrow> codec_error option" where
  "checkOrder previous v =
     (case previous of None \<Rightarrow> None
      | Some p \<Rightarrow> if first v \<le> last p then Some RangeOrder
                 else if last p \<noteq> max_int32 \<and> first v = last p + 1 then Some CanonicalOrder
                 else None)"

function scanTerms :: "string \<Rightarrow> nat \<Rightarrow> nat \<Rightarrow> interval option \<Rightarrow> interval list \<Rightarrow> codec_error + nat \<times> interval list" where
  "scanTerms raw maxCardinality cnt previous visited =
     (let term = takeWhile (\<lambda>c. c \<noteq> CHR '','') raw; rest = dropWhile (\<lambda>c. c \<noteq> CHR '','') raw
      in if term = [] then Inl RangeSyntax
         else case parseIndexInterval term of
           Inl e \<Rightarrow> Inl e
         | Inr v \<Rightarrow>
             (case checkOrder previous v of
                Some e \<Rightarrow> Inl e
              | None \<Rightarrow>
                  let next = cnt + width v
                  in if next > maxCardinality then Inl CardinalityLimit
                     else (case rest of
                         [] \<Rightarrow> Inr (next, visited @ [v])
                       | _ # tail \<Rightarrow> if tail = [] then Inl RangeSyntax
                                     else scanTerms tail maxCardinality next (Some v) (visited @ [v]))))"
  by pat_completeness auto
termination
proof (relation "measure (\<lambda>(raw, _). length raw)")
  fix raw :: string and maxCardinality cnt previous visited rest v nxt c tail
  assume "rest = dropWhile (\<lambda>c. c \<noteq> CHR '','') raw" "rest = c # tail"
  then have "length tail < length raw" by (rule dropWhile_shorter)
  then show "((tail, maxCardinality, nxt, Some v, visited @ [v]), raw, maxCardinality, cnt, previous, visited)
      \<in> measure (\<lambda>(raw, _). length raw)" by simp
qed simp

declare scanTerms.simps [simp del]

definition scanIndexSet :: "string \<Rightarrow> nat \<Rightarrow> codec_error + nat \<times> interval list" where
  "scanIndexSet raw maxCardinality =
     (if raw = [] then Inl RangeSyntax
      else if maxCardinality = 0 then Inl CardinalityLimit
      else scanTerms raw maxCardinality 0 None [])"

definition parseIndexSet :: "string \<Rightarrow> nat \<Rightarrow> codec_error + index_set" where
  "parseIndexSet raw maxCardinality =
     (case scanIndexSet raw maxCardinality of
        Inl e \<Rightarrow> Inl e
      | Inr (cnt, _) \<Rightarrow>
          (case scanIndexSet raw maxCardinality of
             Inl e \<Rightarrow> Inl e
           | Inr (_, visited) \<Rightarrow> Inr \<lparr>intervals = visited, cardinality = cnt\<rparr>))"

subsection \<open>Building and printing\<close>

fun collectIntervals :: "interval list \<Rightarrow> int list \<Rightarrow> codec_error + interval list" where
  "collectIntervals built [] = Inr (rev built)"
| "collectIntervals [] (i # is) = collectIntervals [interval_of i i] is"
| "collectIntervals (v # vs) (i # is) =
     (if i = last v then Inl ValueDomain
      else if last v \<noteq> max_int32 \<and> i = last v + 1 then collectIntervals (v\<lparr>last := i\<rparr> # vs) is
      else collectIntervals (interval_of i i # v # vs) is)"

definition indexSetFromIndices :: "int list \<Rightarrow> nat \<Rightarrow> codec_error + index_set" where
  "indexSetFromIndices indices maxCardinality =
     (if indices = [] then Inl ValueDomain
      else if maxCardinality = 0 \<or> length indices > maxCardinality then Inl CardinalityLimit
      else if list_ex (\<lambda>i. i < 0) indices then Inl ValueDomain
      else (case collectIntervals [] (sort indices) of
          Inl e \<Rightarrow> Inl e
        | Inr vs \<Rightarrow> Inr \<lparr>intervals = vs, cardinality = length indices\<rparr>))"

definition interval_String :: "interval \<Rightarrow> string" where
  "interval_String v = Itoa (first v) @ (if first v \<noteq> last v then CHR ''-'' # Itoa (last v) else [])"

definition index_set_String :: "index_set \<Rightarrow> string" where
  "index_set_String s = Join (map interval_String (intervals s)) '',''"

definition encodeIndexSet :: "int list \<Rightarrow> nat \<Rightarrow> codec_error + string" where
  "encodeIndexSet indices maxCardinality =
     (case indexSetFromIndices indices maxCardinality of Inl e \<Rightarrow> Inl e | Inr s \<Rightarrow> Inr (index_set_String s))"

subsection \<open>Queries\<close>

definition Equal :: "index_set \<Rightarrow> index_set \<Rightarrow> bool" where
  "Equal s t \<longleftrightarrow> cardinality s = cardinality t \<and> length (intervals s) = length (intervals t)
     \<and> list_all (\<lambda>(v, w). v = w) (zip (intervals s) (intervals t))"

definition searchInterval :: "index_set \<Rightarrow> int \<Rightarrow> nat" where
  "searchInterval s i = sort_Search (length (intervals s)) (\<lambda>k. last (intervals s ! k) \<ge> i)"

definition Contains :: "index_set \<Rightarrow> int \<Rightarrow> bool" where
  "Contains s i =
     (if i < 0 then False
      else let position = searchInterval s i
           in position < length (intervals s) \<and> first (intervals s ! position) \<le> i)"

fun subsetFrom :: "interval list \<Rightarrow> interval list \<Rightarrow> bool" where
  "subsetFrom [] os = True"
| "subsetFrom (v # vs) os =
     (let os' = dropWhile (\<lambda>w. last w < first v) os
      in case os' of [] \<Rightarrow> False
         | w # _ \<Rightarrow> if first w > first v \<or> last w < last v then False else subsetFrom vs os')"

definition IsSubsetOf :: "index_set \<Rightarrow> index_set \<Rightarrow> bool" where
  "IsSubsetOf s other = (if cardinality s > cardinality other then False else subsetFrom (intervals s) (intervals other))"

fun offsetsFrom :: "nat \<Rightarrow> interval list \<Rightarrow> nat list" where
  "offsetsFrom tot [] = []"
| "offsetsFrom tot (v # vs) = tot # offsetsFrom (tot + width v) vs"

definition prefixOffsets :: "index_set \<Rightarrow> nat list" where
  "prefixOffsets s = offsetsFrom 0 (intervals s)"

definition rankOfIndex :: "index_set \<Rightarrow> int \<Rightarrow> nat list \<Rightarrow> nat option" where
  "rankOfIndex s i offsets =
     (if i < 0 then None
      else let position = searchInterval s i
           in if position = length (intervals s) \<or> first (intervals s ! position) > i then None
              else Some (offsets ! position + nat (i - first (intervals s ! position))))"

fun separated :: "interval list \<Rightarrow> bool" where
  "separated (v # w # vs) = (if first w \<le> last v then False else separated (w # vs))"
| "separated _ = True"

definition disjointIndexSets :: "index_set list \<Rightarrow> bool" where
  "disjointIndexSets sets =
     (if length sets < 2 then True else separated (sort_key first (concat (map intervals sets))))"

definition forEach :: "index_set \<Rightarrow> int list" where
  "forEach s = concat (map (\<lambda>v. [first v..last v]) (intervals s))"

definition Values :: "index_set \<Rightarrow> nat \<Rightarrow> codec_error + int list" where
  "Values s maxCardinality =
     (if maxCardinality = 0 \<or> cardinality s > maxCardinality then Inl CardinalityLimit
      else if int (cardinality s) > max_int64 then Inl RangeOverflow
      else Inr (forEach s))"

subsection \<open>Canonical sets\<close>

text \<open>
  \<open>canon b vs\<close>: the intervals are sorted, disjoint, not adjacent, within the index domain, and start at
  \<open>b\<close> or later. \<open>index_set_ok\<close> adds that the recorded cardinality is that of the set.
\<close>

fun canon :: "int \<Rightarrow> interval list \<Rightarrow> bool" where
  "canon b [] = True"
| "canon b (v # vs) \<longleftrightarrow> b \<le> first v \<and> first v \<le> last v \<and> last v \<le> max_int32 \<and> canon (last v + 2) vs"

definition index_set_ok :: "index_set \<Rightarrow> bool" where
  "index_set_ok s \<longleftrightarrow> intervals s \<noteq> [] \<and> canon 0 (intervals s) \<and> cardinality s = (\<Sum>v\<leftarrow>intervals s. width v)"

definition members_of :: "interval list \<Rightarrow> int set" where
  "members_of vs = {i. \<exists>v\<in>set vs. first v \<le> i \<and> i \<le> last v}"

abbreviation elems :: "index_set \<Rightarrow> int set" where
  "elems s \<equiv> members_of (intervals s)"

end
