(* ===== verification/Index_Set_Codec.thy ===== *)
theory Index_Set_Codec
  imports Index_Set
begin

section \<open>Round trips of index sets\<close>

text \<open>
  \<open>parseIndexSet\<close> and \<open>String\<close> are inverse to each other: a canonical set is read back from its
  spelling, and every accepted spelling is the one of the set it denotes, so two spellings of one set do
  not exist. That is the contract \<open>codec\<close>; the payload columns rely on it.
\<close>

subsection \<open>Numbers\<close>

lemma overflow_check: "d < 10 \<Longrightarrow> (v > (2147483647 - d) div 10) \<longleftrightarrow> \<not> v * 10 + d \<le> (2147483647::nat)"
  by (simp add: div_less_iff_less_mult) linarith

lemma parseDigits_Inr:
  "v \<le> 2147483647 \<Longrightarrow> parseDigits cs v = Inr r \<longleftrightarrow> list_all is_digit cs \<and> r = read_digits v cs \<and> r \<le> 2147483647"
proof (induction cs arbitrary: v)
  case (Cons c cs)
  show ?case
  proof (cases "is_digit c \<and> v * 10 + digit_val c \<le> 2147483647")
    case True
    then have "\<not> v > (2147483647 - digit_val c) div 10" using overflow_check [of "digit_val c" v] by simp
    then show ?thesis using True Cons.IH [of "v * 10 + digit_val c"] by (simp add: mult.commute)
  next
    case False
    then have "\<not> (list_all is_digit (c # cs) \<and> read_digits v (c # cs) \<le> 2147483647)"
      using read_digits_ge [of "10 * v + digit_val c" cs] by (auto simp: mult.commute)
    then show ?thesis using False overflow_check [of "digit_val c" v] by auto
  qed
qed auto

lemma parseIndex_Inr:
  "parseIndex raw = Inr i \<longleftrightarrow> plain_numeral raw \<and> i = int (Atoi_nat raw) \<and> i \<le> max_int32"
proof -
  have *: "parseDigits raw 0 = Inr r \<longleftrightarrow> list_all is_digit raw \<and> r = Atoi_nat raw \<and> r \<le> 2147483647" for r
    using parseDigits_Inr [of 0 raw r] by (simp add: Atoi_nat_def)
  have "(case parseDigits raw 0 of Inl e \<Rightarrow> Inl e | Inr v \<Rightarrow> Inr (int v)) = Inr i \<longleftrightarrow> (\<exists>v. parseDigits raw 0 = Inr v \<and> i = int v)"
    by (auto split: sum.splits)
  then show ?thesis unfolding parseIndex_def plain_numeral_def * by (auto simp: max_int32_def)
qed

lemma parseIndex_iff: "parseIndex raw = Inr i \<longleftrightarrow> 0 \<le> i \<and> i \<le> max_int32 \<and> raw = Itoa i"
proof
  assume "parseIndex raw = Inr i"
  then show "0 \<le> i \<and> i \<le> max_int32 \<and> raw = Itoa i"
    using Itoa_nat_Atoi [of raw] by (auto simp: parseIndex_Inr Itoa_def)
next
  assume "0 \<le> i \<and> i \<le> max_int32 \<and> raw = Itoa i"
  then show "parseIndex raw = Inr i" using plain_numeral_Itoa by (simp add: parseIndex_Inr Itoa_def)
qed

lemma Itoa_chars: "0 \<le> i \<Longrightarrow> c \<in> set (Itoa i) \<Longrightarrow> is_digit c"
  by (simp add: Itoa_def Itoa_nat_digits)

lemma Itoa_nonempty [simp]: "Itoa i \<noteq> []"
  by (simp add: Itoa_def)

lemma Itoa_no_dash: "0 \<le> i \<Longrightarrow> CHR ''-'' \<notin> set (Itoa i)"
  using Itoa_chars not_digit by blast

subsection \<open>Terms\<close>

definition interval_ok :: "interval \<Rightarrow> bool" where
  "interval_ok v \<longleftrightarrow> 0 \<le> first v \<and> first v \<le> last v \<and> last v \<le> max_int32"

lemma interval_eqI: "first v = a \<Longrightarrow> last v = b \<Longrightarrow> v = interval_of a b"
  by (simp add: interval_of_def)

lemma interval_of_sel [simp]: "first (interval_of a b) = a" "last (interval_of a b) = b"
  by (simp_all add: interval_of_def)

lemma parse_interval_String:
  assumes "interval_ok v"
  shows "parseIndexInterval (interval_String v) = Inr v"
proof (cases "first v = last v")
  case True
  have t: "interval_String v = Itoa (first v)" using True by (simp add: interval_String_def)
  have "CHR ''-'' \<notin> set (Itoa (first v))" using assms by (intro Itoa_no_dash) (simp add: interval_ok_def)
  then have d: "dropWhile (\<lambda>c. c \<noteq> CHR ''-'') (Itoa (first v)) = []" by (auto simp: dropWhile_eq_Nil_conv)
  have p: "parseIndex (Itoa (first v)) = Inr (first v)" using assms by (auto simp: parseIndex_iff interval_ok_def)
  show ?thesis unfolding t parseIndexInterval_def Let_def d p using True by (simp add: interval_of_def)
next
  case False
  have nd: "CHR ''-'' \<notin> set (Itoa (first v))" "CHR ''-'' \<notin> set (Itoa (last v))"
    using assms by (auto simp: interval_ok_def intro!: Itoa_no_dash)
  have tw: "takeWhile (\<lambda>c. c \<noteq> CHR ''-'') (Itoa (first v) @ CHR ''-'' # Itoa (last v)) = Itoa (first v)"
    using nd(1) by (subst takeWhile_append2) auto
  have dw: "dropWhile (\<lambda>c. c \<noteq> CHR ''-'') (Itoa (first v) @ CHR ''-'' # Itoa (last v)) = CHR ''-'' # Itoa (last v)"
    using nd(1) by (subst dropWhile_append2) auto
  have "parseIndex (Itoa (first v)) = Inr (first v)" "parseIndex (Itoa (last v)) = Inr (last v)"
    using assms by (auto simp: parseIndex_iff interval_ok_def)
  then show ?thesis
    using False nd assms by (simp add: interval_String_def parseIndexInterval_def tw dw interval_of_def interval_ok_def)
qed

lemma parse_interval_spelling:
  assumes "parseIndexInterval term = Inr v"
  shows "interval_ok v" "term = interval_String v"
proof -
  let ?b = "takeWhile (\<lambda>c. c \<noteq> CHR ''-'') term" and ?r = "dropWhile (\<lambda>c. c \<noteq> CHR ''-'') term"
  have "interval_ok v \<and> term = interval_String v"
  proof (cases ?r)
    case Nil
    have "(case parseIndex term of Inl e \<Rightarrow> Inl e | Inr i \<Rightarrow> Inr (interval_of i i)) = Inr v"
      using assms unfolding parseIndexInterval_def Let_def Nil by simp
    then obtain i where "parseIndex term = Inr i" "v = interval_of i i" by (cases "parseIndex term") simp_all
    then show ?thesis by (simp add: parseIndex_iff interval_ok_def interval_String_def)
  next
    case (Cons c after)
    have c: "c = CHR ''-''" using hd_dropWhile [of "\<lambda>c. c \<noteq> CHR ''-''" "term"] unfolding Cons by simp
    have "(case parseIndex ?b of Inl e \<Rightarrow> Inl e | Inr a \<Rightarrow> (case parseIndex after of Inl e \<Rightarrow> Inl e
        | Inr b \<Rightarrow> if a \<ge> b then Inl RangeOrder else Inr (interval_of a b))) = Inr v"
      using assms unfolding parseIndexInterval_def Let_def Cons by (simp split: if_split_asm)
    then obtain a b where p: "parseIndex ?b = Inr a" "parseIndex after = Inr b" "a < b" "v = interval_of a b"
      by (cases "parseIndex ?b"; cases "parseIndex after") (simp_all split: if_split_asm)
    have "term = ?b @ ?r" by simp
    then have "term = Itoa a @ CHR ''-'' # Itoa b" using p(1,2) c unfolding Cons parseIndex_iff by argo
    then show ?thesis using p unfolding parseIndex_iff interval_ok_def interval_String_def by simp
  qed
  then show "interval_ok v" "term = interval_String v" by blast+
qed

subsection \<open>Sets\<close>

definition bound_after :: "interval option \<Rightarrow> int" where
  "bound_after previous = (case previous of None \<Rightarrow> 0 | Some p \<Rightarrow> last p + 2)"

lemma checkOrder_None:
  "interval_ok v \<Longrightarrow> checkOrder previous v = None \<longleftrightarrow> bound_after previous \<le> first v"
  by (auto simp: checkOrder_def bound_after_def interval_ok_def split: option.splits)

lemma interval_String_no_comma: "interval_ok v \<Longrightarrow> CHR '','' \<notin> set (interval_String v)"
  using Itoa_chars [of "first v" "CHR '',''"] Itoa_chars [of "last v" "CHR '',''"] not_digit
  by (auto simp: interval_String_def interval_ok_def)

lemma interval_String_nonempty [simp]: "interval_String v \<noteq> []"
  by (simp add: interval_String_def)

lemma Join_nonempty: "vs \<noteq> [] \<Longrightarrow> Join (map interval_String vs) sep \<noteq> []"
  by (cases vs; cases "tl vs") simp_all

lemma canon_interval_ok: "canon b vs \<Longrightarrow> 0 \<le> b \<Longrightarrow> v \<in> set vs \<Longrightarrow> interval_ok v"
  by (induction vs arbitrary: b) (fastforce simp: interval_ok_def)+

lemma scanTerms_step:
  assumes "takeWhile (\<lambda>c. c \<noteq> CHR '','') raw = t" "dropWhile (\<lambda>c. c \<noteq> CHR '','') raw = r"
    and "t \<noteq> []" "parseIndexInterval t = Inr v" "checkOrder previous v = None" "cnt + width v \<le> maxC"
  shows "scanTerms raw maxC cnt previous visited =
    (case r of [] \<Rightarrow> Inr (cnt + width v, visited @ [v])
     | _ # tail \<Rightarrow> if tail = [] then Inl RangeSyntax
                   else scanTerms tail maxC (cnt + width v) (Some v) (visited @ [v]))"
  by (subst scanTerms.simps) (use assms(3-) in \<open>simp add: assms(1,2) Let_def\<close>)

lemma scan_spelling:
  "canon (bound_after previous) vs \<Longrightarrow> 0 \<le> bound_after previous \<Longrightarrow> vs \<noteq> [] \<Longrightarrow>
   cnt + (\<Sum>v\<leftarrow>vs. width v) \<le> maxC \<Longrightarrow>
   scanTerms (Join (map interval_String vs) '','') maxC cnt previous visited
     = Inr (cnt + (\<Sum>v\<leftarrow>vs. width v), visited @ vs)"
proof (induction vs arbitrary: previous cnt visited)
  case (Cons v vs)
  have ok: "interval_ok v" using canon_interval_ok [OF Cons.prems(1,2)] by simp
  have nc: "CHR '','' \<notin> set (interval_String v)" using interval_String_no_comma [OF ok] .
  have ord: "checkOrder previous v = None" using checkOrder_None [OF ok] Cons.prems(1) by simp
  show ?case
  proof (cases "vs = []")
    case True
    have t: "takeWhile (\<lambda>c. c \<noteq> CHR '','') (interval_String v) = interval_String v"
      "dropWhile (\<lambda>c. c \<noteq> CHR '','') (interval_String v) = []" using nc by (auto simp: takeWhile_eq_all_conv)
    show ?thesis
      using True Cons.prems(4) scanTerms_step [OF t interval_String_nonempty parse_interval_String [OF ok] ord] by simp
  next
    case False
    let ?rest = "Join (map interval_String vs) '',''"
    have tw: "takeWhile (\<lambda>c. c \<noteq> CHR '','') (interval_String v @ CHR '','' # ?rest) = interval_String v"
      using nc by (subst takeWhile_append2) auto
    have dw: "dropWhile (\<lambda>c. c \<noteq> CHR '','') (interval_String v @ CHR '','' # ?rest) = CHR '','' # ?rest"
      using nc by (subst dropWhile_append2) auto
    have c: "canon (bound_after (Some v)) vs" "0 \<le> bound_after (Some v)"
      using Cons.prems(1) ok by (simp_all add: bound_after_def interval_ok_def)
    have le: "(cnt + width v) + (\<Sum>v\<leftarrow>vs. width v) \<le> maxC" using Cons.prems(4) by simp
    have "scanTerms ?rest maxC (cnt + width v) (Some v) (visited @ [v])
        = Inr (cnt + width v + (\<Sum>v\<leftarrow>vs. width v), (visited @ [v]) @ vs)" by (rule Cons.IH [OF c False le])
    then show ?thesis
      using False le scanTerms_step [OF tw dw interval_String_nonempty parse_interval_String [OF ok] ord]
      by (simp add: Join_Cons Join_nonempty add.assoc)
  qed
qed simp

lemma scan_accepted:
  "scanTerms raw maxC cnt previous visited = Inr (c, out) \<Longrightarrow> 
   \<exists>vs. vs \<noteq> [] \<and> raw = Join (map interval_String vs) '','' \<and> canon (bound_after previous) vs
     \<and> out = visited @ vs \<and> c = cnt + (\<Sum>v\<leftarrow>vs. width v) \<and> c \<le> maxC"
proof (induction raw maxC cnt previous visited rule: scanTerms.induct)
  case (1 raw maxC cnt previous visited)
  let ?t = "takeWhile (\<lambda>c. c \<noteq> CHR '','') raw" and ?rest = "dropWhile (\<lambda>c. c \<noteq> CHR '','') raw"
  have ne: "?t \<noteq> []" using 1(2) by (subst (asm) scanTerms.simps) (auto simp: Let_def)
  then obtain v where v: "parseIndexInterval ?t = Inr v"
    using 1(2) by (subst (asm) scanTerms.simps) (auto simp: Let_def split: sum.splits)
  note ok = parse_interval_spelling [OF v]
  have ord: "checkOrder previous v = None"
    using 1(2) ne v by (subst (asm) scanTerms.simps) (auto simp: Let_def split: option.splits)
  have le: "\<not> cnt + width v > maxC"
    using 1(2) ne v ord by (subst (asm) scanTerms.simps) (auto simp: Let_def split: if_splits)
  have b: "bound_after previous \<le> first v" using ord checkOrder_None [OF ok(1)] by simp
  have r: "raw = ?t @ ?rest" by simp
  show ?case
  proof (cases ?rest)
    case Nil
    have "c = cnt + width v" "out = visited @ [v]"
      using 1(2) scanTerms_step [OF refl Nil ne v ord, of cnt maxC visited] le by simp_all
    moreover have "raw = interval_String v" using r ok(2) unfolding Nil by simp
    ultimately show ?thesis using ok(1) b le by (intro exI [of _ "[v]"]) (simp add: interval_ok_def)
  next
    case (Cons x tail)
    then have x: "x = CHR '',''" using hd_dropWhile [of "\<lambda>c. c \<noteq> CHR '',''" raw] by auto
    have tl: "tail \<noteq> []" using 1(2) scanTerms_step [OF refl Cons ne v ord, of cnt maxC visited] le by auto
    then have s: "scanTerms tail maxC (cnt + width v) (Some v) (visited @ [v]) = Inr (c, out)"
      using 1(2) scanTerms_step [OF refl Cons ne v ord, of cnt maxC visited] le by simp
    obtain vs where vs: "vs \<noteq> []" "tail = Join (map interval_String vs) '',''" "canon (bound_after (Some v)) vs"
      "out = (visited @ [v]) @ vs" "c = cnt + width v + (\<Sum>v\<leftarrow>vs. width v)" "c \<le> maxC"
      using 1(1) [OF refl refl ne v ord refl le Cons tl s] by blast
    have "raw = interval_String v @ CHR '','' # tail" using r ok(2) x unfolding Cons by simp
    then show ?thesis
      using vs ok b by (intro exI [of _ "v # vs"]) (simp add: Join_Cons bound_after_def interval_ok_def)
  qed
qed

lemma parse_String:
  assumes "index_set_ok s" "cardinality s \<le> maxC"
  shows "parseIndexSet (index_set_String s) maxC = Inr s"
proof -
  have ne: "intervals s \<noteq> []" and cs: "canon 0 (intervals s)" and cc: "cardinality s = (\<Sum>v\<leftarrow>intervals s. width v)"
    using assms(1) by (simp_all add: index_set_ok_def)
  obtain v vs where c: "intervals s = v # vs" using ne by (cases "intervals s") auto
  have "0 < width v" using cs by (simp add: c width_def)
  then have pos: "0 < maxC" using assms(2) by (simp add: cc c)
  have "scanTerms (index_set_String s) maxC 0 None [] = Inr (cardinality s, intervals s)"
    using scan_spelling [of None "intervals s" 0 maxC "[]"] ne cs assms(2)
    by (simp add: index_set_String_def bound_after_def cc)
  moreover have "index_set_String s \<noteq> []" using Join_nonempty [OF ne] by (simp add: index_set_String_def)
  ultimately show ?thesis using pos by (simp add: parseIndexSet_def scanIndexSet_def)
qed

lemma parse_canonical:
  assumes "parseIndexSet raw maxC = Inr s"
  shows "index_set_ok s \<and> cardinality s \<le> maxC \<and> index_set_String s = raw"
proof -
  have "scanTerms raw maxC 0 None [] = Inr (cardinality s, intervals s)"
    using assms by (auto simp: parseIndexSet_def scanIndexSet_def split: sum.splits if_splits)
  from scan_accepted [OF this] show ?thesis by (auto simp: index_set_ok_def index_set_String_def bound_after_def)
qed

interpretation index_codec: codec index_set_String "\<lambda>raw. parseIndexSet raw maxC" "\<lambda>s. index_set_ok s \<and> cardinality s \<le> maxC"
  for maxC
proof unfold_locales
  show "index_set_ok s \<and> cardinality s \<le> maxC \<Longrightarrow> parseIndexSet (index_set_String s) maxC = Inr s" for s
    by (blast intro: parse_String)
  show "parseIndexSet raw maxC = Inr s \<Longrightarrow> (index_set_ok s \<and> cardinality s \<le> maxC) \<and> index_set_String s = raw" for raw s
    using parse_canonical [of raw maxC s] by blast
qed

end
