(* ===== verification/Index_Set_Query.thy ===== *)
theory Index_Set_Query
  imports Index_Set_Codec
begin

section \<open>What the queries of an index set answer\<close>

text \<open>
  Every routine on the interval representation is related to the set it stands for: enumeration, building
  from indices, membership by binary search, rank, inclusion and disjointness.
\<close>

subsection \<open>Enumeration\<close>

definition expand :: "interval list \<Rightarrow> int list" where
  "expand vs = concat (map (\<lambda>v. [first v..last v]) vs)"

lemma expand_simps [simp]:
  "expand [] = []" "expand (v # vs) = [first v..last v] @ expand vs" "expand (vs @ ws) = expand vs @ expand ws"
  by (simp_all add: expand_def)

lemma forEach_expand: "forEach s = expand (intervals s)"
  by (simp add: forEach_def expand_def)

lemma set_expand [simp]: "set (expand vs) = members_of vs"
  by (auto simp: expand_def members_of_def)

lemma length_expand: "length (expand vs) = (\<Sum>v\<leftarrow>vs. width v)"
  by (induction vs) (simp_all add: width_def)

lemma members_of_simps [simp]:
  "members_of [] = {}" "members_of (v # vs) = {first v..last v} \<union> members_of vs"
  by (auto simp: members_of_def)

lemma canon_mono: "canon b vs \<Longrightarrow> b' \<le> b \<Longrightarrow> canon b' vs"
  by (cases vs) auto

lemma canon_bounds: "canon b vs \<Longrightarrow> i \<in> members_of vs \<Longrightarrow> b \<le> i \<and> i \<le> max_int32"
proof (induction vs arbitrary: b)
  case (Cons v vs)
  have "i \<in> members_of vs \<Longrightarrow> last v + 2 \<le> i \<and> i \<le> max_int32" using Cons.IH [of "last v + 2"] Cons.prems(1) by simp
  then show ?case using Cons.prems by auto
qed simp

lemma canon_intervals: "canon b vs \<Longrightarrow> v \<in> set vs \<Longrightarrow> b \<le> first v \<and> first v \<le> last v"
proof (induction vs arbitrary: b)
  case (Cons w vs)
  have "v \<in> set vs \<Longrightarrow> last w + 2 \<le> first v \<and> first v \<le> last v" using Cons.IH [of "last w + 2"] Cons.prems(1) by simp
  then show ?case using Cons.prems by auto
qed simp

lemma canon_expand_sorted: "canon b vs \<Longrightarrow> sorted_wrt (<) (expand vs)"
proof (induction vs arbitrary: b)
  case (Cons v vs)
  have "\<forall>i\<in>set (expand vs). last v + 2 \<le> i" using canon_bounds [of "last v + 2" vs] Cons.prems by simp
  then show ?case using Cons.IH [of "last v + 2"] Cons.prems by (fastforce simp: sorted_wrt_append)
qed simp

lemma canon_lasts: "canon b vs \<Longrightarrow> i < j \<Longrightarrow> j < length vs \<Longrightarrow> last (vs ! i) + 2 \<le> first (vs ! j)"
proof (induction vs arbitrary: b i j)
  case (Cons v vs)
  then obtain j' where j: "j = Suc j'" by (cases j) auto
  show ?case
  proof (cases i)
    case 0
    then show ?thesis using Cons.prems j canon_intervals [of "last v + 2" vs "vs ! j'"] by simp
  next
    case (Suc i')
    then show ?thesis using Cons.prems j Cons.IH [of "last v + 2" i' j'] by simp
  qed
qed simp

lemma card_members: "canon b vs \<Longrightarrow> card (members_of vs) = (\<Sum>v\<leftarrow>vs. width v)"
  using distinct_card [of "expand vs"] canon_expand_sorted [of b vs] strict_sorted_iff [of "expand vs"]
  by (simp add: length_expand)

lemma finite_members [simp]: "finite (members_of vs)"
  using finite_set [of "expand vs"] by simp

subsection \<open>Building from indices\<close>

lemma canon_snoc:
  "canon b (vs @ [v]) \<Longrightarrow> last v + 2 \<le> i \<Longrightarrow> i \<le> max_int32 \<Longrightarrow> canon b (vs @ [v, interval_of i i])"
  by (induction vs arbitrary: b) auto

lemma canon_grow: "canon b (vs @ [v]) \<Longrightarrow> i = last v + 1 \<Longrightarrow> i \<le> max_int32 \<Longrightarrow> canon b (vs @ [v\<lparr>last := i\<rparr>])"
  by (induction vs arbitrary: b) auto

lemma collectIntervals_correct:
  assumes "canon 0 (rev (v # vs))" "sorted (last v # is)" "\<forall>i\<in>set is. i \<le> max_int32"
  shows "if distinct (last v # is)
         then \<exists>out. collectIntervals (v # vs) is = Inr out \<and> out \<noteq> [] \<and> canon 0 out \<and> expand out = expand (rev (v # vs)) @ is
         else collectIntervals (v # vs) is = Inl ValueDomain"
  using assms
proof (induction "is" arbitrary: v vs)
  case Nil
  then show ?case by simp
next
  case (Cons i "is")
  have lv: "last v \<le> i" "i \<le> max_int32" "sorted (i # is)" using Cons.prems by auto
  consider "i = last v" | "i = last v + 1" | "last v + 2 \<le> i" using lv(1) by linarith
  then show ?case
  proof cases
    case 1
    then show ?thesis by simp
  next
    case 2
    have c: "canon 0 (rev (v\<lparr>last := i\<rparr> # vs))" using canon_grow [of 0 "rev vs" v i] Cons.prems(1) 2 lv(2) by simp
    have nm: "last v \<noteq> max_int32" using 2 lv(2) by simp
    have "first v \<le> last v" using canon_intervals [OF Cons.prems(1), of v] by simp
    then have e: "[first v..last v + 1] = [first v..last v] @ [last v + 1]" using upto_rec2 [of "first v" "last v + 1"] by simp
    have "last v \<notin> set is" using 2 lv(3) by auto
    then show ?thesis using Cons.IH [of "v\<lparr>last := i\<rparr>" vs, OF c] lv(3) Cons.prems(3) 2 nm by (auto simp: e)
  next
    case 3
    have c: "canon 0 (rev (interval_of i i # v # vs))" using canon_snoc [of 0 "rev vs" v i] Cons.prems(1) 3 lv(2) by simp
    have "last v \<notin> set is" using 3 lv(3) by auto
    then show ?thesis using Cons.IH [of "interval_of i i" "v # vs", OF c] lv(3) Cons.prems(3) 3 by auto
  qed
qed

definition encodable :: "int list \<Rightarrow> nat \<Rightarrow> bool" where
  "encodable indices maxC \<longleftrightarrow> indices \<noteq> [] \<and> length indices \<le> maxC \<and> (\<forall>i\<in>set indices. 0 \<le> i) \<and> distinct indices"

lemma indexSetFromIndices_correct:
  assumes "\<forall>i\<in>set indices. i \<le> max_int32"
  shows "if encodable indices maxC
         then \<exists>s. indexSetFromIndices indices maxC = Inr s \<and> index_set_ok s \<and> cardinality s = length indices
                  \<and> forEach s = sort indices
         else \<exists>e. indexSetFromIndices indices maxC = Inl e"
proof (cases "indices = [] \<or> length indices > maxC \<or> list_ex (\<lambda>i. i < 0) indices")
  case True
  then have "\<not> encodable indices maxC" by (fastforce simp: encodable_def list_ex_iff)
  moreover have "\<exists>e. indexSetFromIndices indices maxC = Inl e" using True by (auto simp: indexSetFromIndices_def)
  ultimately show ?thesis by simp
next
  case False
  obtain i "is" where s: "sort indices = i # is" using False by (cases "sort indices") (auto dest: arg_cong [where f = set])
  have st: "set (i # is) = set indices" using s by (metis set_sort)
  have so: "sorted (i # is)" using sorted_sort unfolding s [symmetric] .
  have di: "distinct (i # is) \<longleftrightarrow> distinct indices" unfolding s [symmetric] by simp
  have pos: "\<forall>i\<in>set indices. 0 \<le> i" using False by (auto simp: list_ex_iff not_less)
  have i: "0 \<le> i" "i \<le> max_int32" "\<forall>j\<in>set is. j \<le> max_int32" using st pos assms by auto
  have enc: "encodable indices maxC \<longleftrightarrow> distinct (i # is)" using False pos di by (auto simp: encodable_def)
  have idx: "indexSetFromIndices indices maxC = (case collectIntervals [interval_of i i] is of
      Inl e \<Rightarrow> Inl e | Inr vs \<Rightarrow> Inr \<lparr>intervals = vs, cardinality = length indices\<rparr>)"
    using False by (cases "maxC = 0") (simp_all add: indexSetFromIndices_def s)
  have co: "if distinct (i # is)
         then \<exists>out. collectIntervals [interval_of i i] is = Inr out \<and> out \<noteq> [] \<and> canon 0 out \<and> expand out = i # is
         else collectIntervals [interval_of i i] is = Inl ValueDomain"
    using collectIntervals_correct [of "interval_of i i" "[]" "is"] i so by (simp split: if_split_asm)
  show ?thesis
  proof (cases "distinct (i # is)")
    case True
    then obtain out where o: "collectIntervals [interval_of i i] is = Inr out" "out \<noteq> []" "canon 0 out" "expand out = i # is"
      using co by auto
    have "(\<Sum>v\<leftarrow>out. width v) = length indices" using length_expand [of out] o(4) s by (metis length_sort)
    then show ?thesis using True enc o idx s by (simp add: index_set_ok_def forEach_expand)
  next
    case False
    then show ?thesis using co enc idx by auto
  qed
qed

lemma index_set_small: "index_set_ok s \<Longrightarrow> int (cardinality s) \<le> max_int64"
proof -
  assume ok: "index_set_ok s"
  have "elems s \<subseteq> {0..max_int32}" using canon_bounds [of 0 "intervals s"] ok by (auto simp: index_set_ok_def)
  then have "card (elems s) \<le> card {0..max_int32}" by (intro card_mono) auto
  then show ?thesis using card_members [of 0 "intervals s"] ok by (simp add: index_set_ok_def max_int32_def max_int64_def)
qed

lemma Values_ok: "index_set_ok s \<Longrightarrow> cardinality s \<le> maxC \<Longrightarrow> Values s maxC = Inr (forEach s)"
proof -
  assume ok: "index_set_ok s" and le: "cardinality s \<le> maxC"
  obtain v vs where "intervals s = v # vs" using ok by (cases "intervals s") (auto simp: index_set_ok_def)
  then have "0 < cardinality s" using ok by (auto simp: index_set_ok_def width_def)
  then show ?thesis using le index_set_small [OF ok] by (simp add: Values_def)
qed

subsection \<open>Membership and rank\<close>

lemma searchInterval_spec:
  assumes "canon 0 (intervals s)"
  shows "searchInterval s i \<le> length (intervals s)"
    and "k < searchInterval s i \<Longrightarrow> last (intervals s ! k) < i"
    and "searchInterval s i < length (intervals s) \<Longrightarrow> i \<le> last (intervals s ! searchInterval s i)"
proof -
  let ?f = "\<lambda>k. last (intervals s ! k) \<ge> i"
  have mono: "?f b" if "a \<le> b" "b < length (intervals s)" "?f a" for a b
  proof (cases "a = b")
    case False
    then have "last (intervals s ! a) + 2 \<le> first (intervals s ! b)" using canon_lasts [OF assms, of a b] that by simp
    moreover have "first (intervals s ! b) \<le> last (intervals s ! b)" using canon_intervals [OF assms nth_mem] that by simp
    ultimately show ?thesis using that by simp
  qed (use that in simp)
  show "searchInterval s i \<le> length (intervals s)"
    unfolding searchInterval_def by (rule sort_Search_least(1)) (rule mono)
  show "k < searchInterval s i \<Longrightarrow> last (intervals s ! k) < i"
    unfolding searchInterval_def
    by (rule not_le [THEN iffD1], rule sort_Search_least(2) [where f = ?f]) (rule mono)
  show "searchInterval s i < length (intervals s) \<Longrightarrow> i \<le> last (intervals s ! searchInterval s i)"
    unfolding searchInterval_def by (rule sort_Search_least(3) [where f = ?f]) (rule mono)
qed

lemma members_nth: "i \<in> members_of vs \<longleftrightarrow> (\<exists>k<length vs. first (vs ! k) \<le> i \<and> i \<le> last (vs ! k))"
  by (auto simp: members_of_def in_set_conv_nth Bex_def)

lemma member_position:
  assumes "canon 0 (intervals s)"
  shows "i \<in> elems s \<longleftrightarrow> searchInterval s i < length (intervals s) \<and> first (intervals s ! searchInterval s i) \<le> i"
proof
  let ?p = "searchInterval s i"
  assume "i \<in> elems s"
  then obtain k where k: "k < length (intervals s)" "first (intervals s ! k) \<le> i" "i \<le> last (intervals s ! k)"
    by (auto simp: members_nth)
  have pk: "?p \<le> k" using searchInterval_spec(2) [OF assms, of k i] k(3) by (meson not_le)
  then have p: "?p < length (intervals s)" using k(1) by simp
  have "?p = k"
  proof (rule ccontr)
    assume "?p \<noteq> k"
    then have "last (intervals s ! ?p) + 2 \<le> first (intervals s ! k)" using canon_lasts [OF assms, of ?p k] pk k(1) by simp
    then show False using searchInterval_spec(3) [OF assms p] k(2) by simp
  qed
  then show "?p < length (intervals s) \<and> first (intervals s ! ?p) \<le> i" using k by simp
next
  assume "searchInterval s i < length (intervals s) \<and> first (intervals s ! searchInterval s i) \<le> i"
  then show "i \<in> elems s" using searchInterval_spec(3) [OF assms, of i] by (auto simp: members_nth)
qed

lemma offsetsFrom_nth:
  "p < length vs \<Longrightarrow> offsetsFrom t vs ! p = t + length (expand (take p vs))"
proof (induction vs arbitrary: t p)
  case (Cons v vs)
  then show ?case by (cases p) (simp_all add: width_def)
qed simp

lemma rank_position:
  assumes c: "canon 0 (intervals s)" and m: "i \<in> elems s"
  shows "\<exists>r. rankOfIndex s i (prefixOffsets s) = Some r \<and> r < length (forEach s) \<and> forEach s ! r = i"
proof -
  define p where "p = searchInterval s i"
  let ?vs = "intervals s"
  have p: "p < length ?vs" "first (?vs ! p) \<le> i" "i \<le> last (?vs ! p)"
    using member_position [OF c, of i] m searchInterval_spec(3) [OF c, of i] by (simp_all add: p_def)
  have nn: "\<not> i < 0" using canon_bounds [OF c m] by simp
  define k where "k = nat (i - first (?vs ! p))"
  have r: "rankOfIndex s i (prefixOffsets s) = Some (length (expand (take p ?vs)) + k)"
    using nn p offsetsFrom_nth [OF p(1), of 0] by (simp add: rankOfIndex_def p_def [symmetric] prefixOffsets_def k_def)
  have "?vs = take p ?vs @ ?vs ! p # drop (Suc p) ?vs" using p(1) by (rule id_take_nth_drop)
  then have e: "forEach s = expand (take p ?vs) @ [first (?vs ! p)..last (?vs ! p)] @ expand (drop (Suc p) ?vs)"
    unfolding forEach_expand using expand_simps(2,3) by metis
  have kl: "k < length [first (?vs ! p)..last (?vs ! p)]" using p by (simp add: k_def)
  have "[first (?vs ! p)..last (?vs ! p)] ! k = i" using p by (simp add: k_def)
  then have "forEach s ! (length (expand (take p ?vs)) + k) = i" using kl unfolding e by (simp add: nth_append)
  moreover have "length (expand (take p ?vs)) + k < length (forEach s)" using kl unfolding e by simp
  ultimately show ?thesis using r by blast
qed

subsection \<open>Inclusion\<close>

lemma members_after:
  "canon b os \<Longrightarrow> f \<le> i \<Longrightarrow> i \<in> members_of (dropWhile (\<lambda>w. last w < f) os) \<longleftrightarrow> i \<in> members_of os"
proof (induction os arbitrary: b)
  case (Cons w os)
  have "i \<in> members_of (dropWhile (\<lambda>w. last w < f) os) \<longleftrightarrow> i \<in> members_of os"
    using Cons.IH [of "last w + 2"] Cons.prems by simp
  then show ?case using Cons.prems(2) by auto
qed simp

lemma canon_dropWhile: "canon b os \<Longrightarrow> canon b (dropWhile P os)"
proof (induction os arbitrary: b)
  case (Cons w os)
  then show ?case using canon_mono [of "last w + 2" "dropWhile P os" b] by auto
qed simp

lemma covered_by_one:
  assumes "canon b (w # os)" "f \<le> l" "f \<le> last w"
  shows "{f..l} \<subseteq> members_of (w # os) \<longleftrightarrow> first w \<le> f \<and> l \<le> last w"
proof
  assume sub: "{f..l} \<subseteq> members_of (w # os)"
  have far: "last w + 2 \<le> i" if "i \<in> members_of os" for i using canon_bounds [of "last w + 2" os i] that assms(1) by simp
  have "f \<in> members_of (w # os)" using sub assms(2) by auto
  then have "first w \<le> f" using far [of f] assms(3) by auto
  moreover have "l \<le> last w"
  proof (rule ccontr)
    assume "\<not> l \<le> last w"
    then have "last w + 1 \<in> {f..l}" using assms(3) by simp
    then have "last w + 1 \<in> members_of (w # os)" using sub by blast
    then show False using far [of "last w + 1"] by auto
  qed
  ultimately show "first w \<le> f \<and> l \<le> last w" ..
qed auto

lemma subsetFrom_iff:
  "canon b vs \<Longrightarrow> canon b' os \<Longrightarrow> subsetFrom vs os \<longleftrightarrow> members_of vs \<subseteq> members_of os"
proof (induction vs arbitrary: b os)
  case (Cons v vs)
  let ?os = "dropWhile (\<lambda>w. last w < first v) os"
  have v: "first v \<le> last v" and vs: "canon (last v + 2) vs" using Cons.prems(1) by simp_all
  have ge: "first v \<le> i" if "i \<in> members_of (v # vs)" for i
    using that v canon_bounds [OF vs, of i] by auto
  have same: "members_of (v # vs) \<subseteq> members_of os \<longleftrightarrow> members_of (v # vs) \<subseteq> members_of ?os"
    using members_after [OF Cons.prems(2) ge] unfolding subset_eq by blast
  show ?case
  proof (cases ?os)
    case Nil
    have "first v \<in> members_of (v # vs)" using v by simp
    then have "\<not> members_of (v # vs) \<subseteq> members_of ?os" unfolding Nil by auto
    moreover have "\<not> subsetFrom (v # vs) os" by (simp add: Nil del: dropWhile_eq_Nil_conv)
    ultimately show ?thesis using same by blast
  next
    case (Cons w ws)
    have c: "canon b' (w # ws)" using canon_dropWhile [OF Cons.prems(2), of "\<lambda>w. last w < first v"] Cons by simp
    have lw: "first v \<le> last w" using hd_dropWhile [of "\<lambda>w. last w < first v" os] Cons by simp
    have "members_of (v # vs) \<subseteq> members_of ?os \<longleftrightarrow> (first w \<le> first v \<and> last v \<le> last w) \<and> members_of vs \<subseteq> members_of ?os"
      using covered_by_one [OF c v lw] unfolding Cons members_of_simps(2) [of v] by simp
    moreover have "subsetFrom (v # vs) os \<longleftrightarrow> (first w \<le> first v \<and> last v \<le> last w) \<and> subsetFrom vs ?os"
      by (simp add: Cons not_less)
    moreover have "subsetFrom vs ?os \<longleftrightarrow> members_of vs \<subseteq> members_of ?os"
      using Cons.IH [OF vs canon_dropWhile [OF Cons.prems(2)]] .
    ultimately show ?thesis using same by blast
  qed
qed simp

lemma subset_iff:
  assumes "index_set_ok s" "index_set_ok t"
  shows "IsSubsetOf s t \<longleftrightarrow> elems s \<subseteq> elems t"
proof -
  have c: "canon 0 (intervals s)" "canon 0 (intervals t)" using assms by (simp_all add: index_set_ok_def)
  have n: "card (elems s) = cardinality s" "card (elems t) = cardinality t"
    using assms card_members [of 0] by (simp_all add: index_set_ok_def)
  have "elems s \<subseteq> elems t \<Longrightarrow> \<not> cardinality s > cardinality t" using card_mono [of "elems t" "elems s"] n by simp
  then show ?thesis using subsetFrom_iff [OF c] by (auto simp: IsSubsetOf_def)
qed

lemma canon_unique: "canon b vs \<Longrightarrow> canon b' ws \<Longrightarrow> members_of vs = members_of ws \<Longrightarrow> vs = ws"
proof (induction vs arbitrary: b b' ws)
  case Nil
  then show ?case by (cases ws) auto
next
  case (Cons v vs)
  have v: "first v \<le> last v" "canon (last v + 2) vs" using Cons.prems(1) by simp_all
  obtain w ws' where ws: "ws = w # ws'" using Cons.prems(3) v(1) by (cases ws) auto
  have w: "first w \<le> last w" "canon (last w + 2) ws'" using Cons.prems(2) ws by simp_all
  have lv: "last v + 2 \<le> i" if "i \<in> members_of vs" for i using canon_bounds [OF v(2) that] by simp
  have lw: "last w + 2 \<le> i" if "i \<in> members_of ws'" for i using canon_bounds [OF w(2) that] by simp
  have mem: "members_of (v # vs) = members_of (w # ws')" using Cons.prems(3) ws by simp
  have "first v \<in> members_of (w # ws')" "first w \<in> members_of (v # vs)" using mem v(1) w(1) by auto
  then have f: "first v = first w" using lv [of "first w"] lw [of "first v"] v(1) w(1) by fastforce
  have sub: "{first v..last v} \<subseteq> members_of (w # ws')" "{first w..last w} \<subseteq> members_of (v # vs)" using mem by auto
  have "last v \<le> last w" "last w \<le> last v"
    using covered_by_one [OF Cons.prems(2) [unfolded ws] v(1)] covered_by_one [OF Cons.prems(1) w(1)] sub f v(1) w(1) by auto
  then have l: "last v = last w" by simp
  have "members_of vs = members_of (v # vs) - {..last v}" using lv by fastforce
  also have "\<dots> = members_of ws'" unfolding mem l using lw by fastforce
  finally have "vs = ws'" by (rule Cons.IH [OF v(2) w(2)])
  then show ?case using f l ws by (simp add: interval.equality)
qed

lemma list_all_zip_eq: "length xs = length ys \<Longrightarrow> list_all (\<lambda>(x, y). x = y) (zip xs ys) \<longleftrightarrow> xs = ys"
  by (induction xs ys rule: list_induct2) auto

lemma Equal_iff:
  assumes "index_set_ok s" "index_set_ok t"
  shows "Equal s t \<longleftrightarrow> elems s = elems t"
proof -
  have "Equal s t \<longleftrightarrow> cardinality s = cardinality t \<and> intervals s = intervals t"
    using list_all_zip_eq [of "intervals s" "intervals t"] by (auto simp: Equal_def)
  then show ?thesis using canon_unique [of 0 "intervals s" 0 "intervals t"] assms by (auto simp: index_set_ok_def)
qed

subsection \<open>Disjointness\<close>

lemma separated_iff:
  "\<forall>v\<in>set vs. first v \<le> last v \<Longrightarrow> sorted (map first vs) \<Longrightarrow> separated vs \<longleftrightarrow> distinct (expand vs)"
proof (induction vs rule: separated.induct)
  case (1 v w vs)
  have IH: "\<not> first w \<le> last v \<Longrightarrow> separated (w # vs) \<longleftrightarrow> distinct (expand (w # vs))" using 1 by simp
  show ?case
  proof (cases "first w \<le> last v")
    case True
    have "first w \<in> {first v..last v} \<inter> {first w..last w}" using True "1.prems" by simp
    then have "\<not> distinct (expand (v # w # vs))" by auto
    then show ?thesis using True by simp
  next
    case False
    have "first w \<le> i" if mem: "i \<in> members_of (w # vs)" for i
    proof -
      obtain x where "x \<in> set (w # vs)" "first x \<le> i" using mem unfolding members_of_def by blast
      then show ?thesis using "1.prems"(2) by auto
    qed
    then have "{first v..last v} \<inter> members_of (w # vs) = {}" using False by fastforce
    then have "distinct (expand (v # w # vs)) \<longleftrightarrow> distinct (expand (w # vs))"
      by (simp only: expand_simps(2) [of v] distinct_append set_expand set_upto) auto
    then show ?thesis using IH [OF False] False by simp
  qed
qed simp_all

lemma mset_expand: "mset vs = mset ws \<Longrightarrow> mset (expand vs) = mset (expand ws)"
proof -
  have "mset (expand vs) = (\<Sum>v\<in>#mset vs. mset [first v..last v])" for vs
    by (induction vs) simp_all
  then show "mset vs = mset ws \<Longrightarrow> mset (expand vs) = mset (expand ws)" by simp
qed

lemma disjoint_iff:
  assumes "\<forall>s\<in>set sets. index_set_ok s"
  shows "disjointIndexSets sets \<longleftrightarrow> distinct (concat (map forEach sets))"
proof -
  let ?pool = "concat (map intervals sets)"
  have e: "concat (map forEach sets) = expand ?pool" by (induction sets) (simp_all add: forEach_expand)
  have le: "\<forall>v\<in>set ?pool. first v \<le> last v" using assms canon_intervals [of 0] by (auto simp: index_set_ok_def)
  have "separated (sort_key first ?pool) \<longleftrightarrow> distinct (expand (sort_key first ?pool))"
    by (rule separated_iff) (use le in auto)
  also have "\<dots> \<longleftrightarrow> distinct (expand ?pool)" using mset_expand [of "sort_key first ?pool" ?pool] mset_eq_imp_distinct_iff by auto
  finally have sep: "separated (sort_key first ?pool) \<longleftrightarrow> distinct (expand ?pool)" .
  show ?thesis
  proof (cases "length sets < 2")
    case True
    then consider "sets = []" | s where "sets = [s]" by (cases sets; cases "tl sets") auto
    then have "distinct (expand ?pool)"
    proof cases
      case (2 s)
      then show ?thesis using assms canon_expand_sorted [of 0 "intervals s"] by (simp add: index_set_ok_def strict_sorted_iff)
    qed simp
    then show ?thesis using True e by (simp add: disjointIndexSets_def)
  next
    case False
    then show ?thesis using sep e by (simp add: disjointIndexSets_def)
  qed
qed

lemma distinct_concat_nth:
  "(\<And>xs. xs \<in> set xss \<Longrightarrow> distinct xs) \<Longrightarrow>
   distinct (concat xss) \<longleftrightarrow> (\<forall>b<length xss. \<forall>a<b. set (xss ! a) \<inter> set (xss ! b) = {})"
proof (induction xss)
  case (Cons xs xss)
  define P where "P b \<longleftrightarrow> (\<forall>a<b. set (xss ! a) \<inter> set (xss ! b) = {})" for b
  have right: "(\<forall>b<length (xs # xss). \<forall>a<b. set ((xs # xss) ! a) \<inter> set ((xs # xss) ! b) = {})
    \<longleftrightarrow> (\<forall>b<length xss. set xs \<inter> set (xss ! b) = {} \<and> P b)"
    by (simp add: All_less_Suc2 disjoint_iff_not_equal P_def)
  have "set xs \<inter> set (concat xss) = {} \<longleftrightarrow> (\<forall>b<length xss. set xs \<inter> set (xss ! b) = {})"
    unfolding all_set_conv_all_nth [where P = "\<lambda>ys. set xs \<inter> set ys = {}", symmetric] by auto
  moreover have "distinct (concat (xs # xss)) \<longleftrightarrow> set xs \<inter> set (concat xss) = {} \<and> distinct (concat xss)"
    using Cons.prems [of xs] by auto
  moreover have "distinct (concat xss) \<longleftrightarrow> (\<forall>b<length xss. P b)"
    unfolding P_def by (rule Cons.IH) (use Cons.prems in simp)
  ultimately show ?case unfolding right by blast
qed simp

lemma disjoint_pairwise:
  assumes "\<forall>s\<in>set sets. index_set_ok s"
  shows "disjointIndexSets sets \<longleftrightarrow> (\<forall>b<length sets. \<forall>a<b. elems (sets ! a) \<inter> elems (sets ! b) = {})"
proof -
  have "distinct xs" if "xs \<in> set (map forEach sets)" for xs
    using that assms canon_expand_sorted [of 0] by (auto simp: index_set_ok_def forEach_expand strict_sorted_iff)
  then show ?thesis unfolding disjoint_iff [OF assms] by (subst distinct_concat_nth) (auto simp: forEach_expand)
qed

text \<open>The canonical set of a list of indices, as the encoder builds it.\<close>

definition setOf :: "int list \<Rightarrow> index_set" where
  "setOf is = (case indexSetFromIndices is (length is) of Inr s \<Rightarrow> s | Inl _ \<Rightarrow> \<lparr>intervals = [], cardinality = 0\<rparr>)"

definition plain_indices :: "int list \<Rightarrow> bool" where
  "plain_indices is \<longleftrightarrow> distinct is \<and> (\<forall>i\<in>set is. 0 \<le> i \<and> i \<le> max_int32)"

lemma indexSetFromIndices_limit:
  assumes "is \<noteq> []" "length is \<le> n"
  shows "indexSetFromIndices is n = indexSetFromIndices is (length is)"
  using assms by (cases "n = 0") (simp_all add: indexSetFromIndices_def)

lemma setOf_spec:
  assumes "plain_indices is" "is \<noteq> []"
  shows "index_set_ok (setOf is)" "elems (setOf is) = set is" "cardinality (setOf is) = length is"
    "forEach (setOf is) = sort is"
    "length is \<le> n \<Longrightarrow> indexSetFromIndices is n = Inr (setOf is)"
    "length is \<le> n \<Longrightarrow> encodeIndexSet is n = Inr (index_set_String (setOf is))"
    "length is \<le> n \<Longrightarrow> parseIndexSet (index_set_String (setOf is)) n = Inr (setOf is)"
proof -
  have "encodable is (length is)" using assms by (simp add: encodable_def plain_indices_def)
  then obtain s where s: "indexSetFromIndices is (length is) = Inr s" "index_set_ok s" "cardinality s = length is"
      "forEach s = sort is"
    using indexSetFromIndices_correct [of "is" "length is"] assms(1) by (auto simp: plain_indices_def)
  have so: "setOf is = s" by (simp add: setOf_def s(1))
  show ok: "index_set_ok (setOf is)" and c: "cardinality (setOf is) = length is" and f: "forEach (setOf is) = sort is"
    using s so by simp_all
  have "elems (setOf is) = set (forEach (setOf is))" by (simp add: forEach_expand)
  then show "elems (setOf is) = set is" using f by simp
  show "indexSetFromIndices is n = Inr (setOf is)" if "length is \<le> n"
    using s(1) so indexSetFromIndices_limit [OF assms(2) that] by simp
  then show "length is \<le> n \<Longrightarrow> encodeIndexSet is n = Inr (index_set_String (setOf is))" by (simp add: encodeIndexSet_def)
  show "length is \<le> n \<Longrightarrow> parseIndexSet (index_set_String (setOf is)) n = Inr (setOf is)"
    using parse_String [OF ok] c by simp
qed

subsection \<open>Properties\<close>

definition sample_set :: index_set where
  "sample_set = \<lparr>intervals = [interval_of 0 2, interval_of 5 5], cardinality = 4\<rparr>"

text \<open>
  C35: \<open>parseIndexSet\<close> and \<open>String\<close> are inverse to each other. A string is accepted exactly when it is
  the printed form of a canonical set (sorted, disjoint, non-adjacent intervals of indices from 0 to
  \<open>MaxInt32\<close>, with its true cardinality) of at most the allowed cardinality, and the result is that set;
  so every set has one spelling and every spelling denotes one set.
\<close>

theorem parseIndexSet_roundtrip:
  "parseIndexSet raw maxC = Inr s \<longleftrightarrow> index_set_ok s \<and> cardinality s \<le> maxC \<and> raw = index_set_String s"
  using index_codec.dec_iff [of raw maxC s] by auto

text \<open>
  Encoding a list of indices succeeds exactly when the list is not empty, fits the cardinality limit
  and has no negative and no repeated index; the encoded string then parses, and \<open>Values\<close> of the parsed
  set is the sorted list of the indices.
\<close>

lemma encodeIndexSet_decodes:
  assumes "\<forall>i\<in>set indices. i \<le> max_int32"
  shows "case encodeIndexSet indices maxC of
           Inr raw \<Rightarrow> encodable indices maxC
             \<and> (\<exists>s. parseIndexSet raw maxC = Inr s \<and> Values s maxC = Inr (sort indices))
         | Inl _ \<Rightarrow> \<not> encodable indices maxC"
proof (cases "encodable indices maxC")
  case True
  then obtain s where s: "indexSetFromIndices indices maxC = Inr s" "index_set_ok s" "cardinality s = length indices"
      "forEach s = sort indices"
    using indexSetFromIndices_correct [OF assms, of maxC] by auto
  have "cardinality s \<le> maxC" using True s(3) by (simp add: encodable_def)
  then show ?thesis
    using True s parse_String [of s maxC] Values_ok [of s maxC] by (auto simp: encodeIndexSet_def)
next
  case False
  then show ?thesis using indexSetFromIndices_correct [OF assms, of maxC] by (auto simp: encodeIndexSet_def)
qed

text \<open>
  C36: the interval routines agree with the set they represent. On canonical sets \<open>Contains\<close> (binary
  search) is membership, \<open>rankOf\<close> with \<open>prefixOffsets\<close> is the position in the ascending enumeration and
  answers for members only, \<open>IsSubsetOf\<close> (a merge) is inclusion, \<open>Equal\<close> is equality of the sets.
\<close>

theorem index_set_queries:
  assumes "index_set_ok s" "index_set_ok t"
  shows "(Contains s i \<longleftrightarrow> i \<in> elems s)
    \<and> (case rankOfIndex s i (prefixOffsets s) of
           Some r \<Rightarrow> r < length (forEach s) \<and> forEach s ! r = i
         | None \<Rightarrow> i \<notin> elems s)
    \<and> sorted_wrt (<) (forEach s) \<and> set (forEach s) = elems s
    \<and> (IsSubsetOf s t \<longleftrightarrow> elems s \<subseteq> elems t)
    \<and> (Equal s t \<longleftrightarrow> elems s = elems t)"
proof -
  have c: "canon 0 (intervals s)" using assms(1) by (simp add: index_set_ok_def)
  have "i \<in> elems s \<Longrightarrow> \<not> i < 0" using canon_bounds [OF c, of i] by simp
  then have "Contains s i \<longleftrightarrow> i \<in> elems s" using member_position [OF c, of i] by (auto simp: Contains_def)
  moreover have "rankOfIndex s i (prefixOffsets s) = None" if "i \<notin> elems s"
    using that member_position [OF c, of i] searchInterval_spec(1) [OF c, of i] by (auto simp: rankOfIndex_def Let_def)
  then have "case rankOfIndex s i (prefixOffsets s) of
      Some r \<Rightarrow> r < length (forEach s) \<and> forEach s ! r = i | None \<Rightarrow> i \<notin> elems s"
    using rank_position [OF c, of i] by (cases "i \<in> elems s") auto
  ultimately show ?thesis
    using canon_expand_sorted [OF c] subset_iff [OF assms] Equal_iff [OF assms] by (simp add: forEach_expand)
qed

lemma sample_set_ok: "index_set_ok sample_set"
  by (simp add: sample_set_def index_set_ok_def interval_of_def width_def max_int32_def)

lemma index_set_queries_witness:
  "(Contains sample_set 5 \<longleftrightarrow> 5 \<in> elems sample_set)
    \<and> (case rankOfIndex sample_set 5 (prefixOffsets sample_set) of
           Some r \<Rightarrow> r < length (forEach sample_set) \<and> forEach sample_set ! r = 5
         | None \<Rightarrow> 5 \<notin> elems sample_set)
    \<and> sorted_wrt (<) (forEach sample_set) \<and> set (forEach sample_set) = elems sample_set
    \<and> (IsSubsetOf sample_set sample_set \<longleftrightarrow> elems sample_set \<subseteq> elems sample_set)
    \<and> (Equal sample_set sample_set \<longleftrightarrow> elems sample_set = elems sample_set)"
  by (rule index_set_queries [OF sample_set_ok sample_set_ok])

text \<open>
  \<open>disjointIndexSets\<close>, which sorts the pooled intervals once, answers exactly whether no index belongs
  to two of the given canonical sets.
\<close>

lemma disjointIndexSets_correct:
  assumes "\<forall>s\<in>set sets. index_set_ok s"
  shows "disjointIndexSets sets \<longleftrightarrow> (\<forall>b<length sets. \<forall>a<b. elems (sets ! a) \<inter> elems (sets ! b) = {})"
  by (rule disjoint_pairwise [OF assms])

end
