(* ===== verification/IR_Columns.thy ===== *)
theory IR_Columns
  imports Index_Set_Query
begin

section \<open>The columnar InferenceReplica status (pkg/controller/v1beta1/irstatus)\<close>

text \<open>
  \<^verbatim>\<open>EncodeColumns\<close> stores the per-Instance rows of a status by column, each column as groups of rows
  that share a value; \<^verbatim>\<open>DecodeColumns\<close> validates such a payload and expands it. The theory models
  \<^verbatim>\<open>encode.go\<close>, \<^verbatim>\<open>decode.go\<close>, \<^verbatim>\<open>grouped_columns.go\<close>, \<^verbatim>\<open>encoding.go\<close>,
  \<^verbatim>\<open>candidate.go\<close> and \<^verbatim>\<open>reader.go\<close>.

  The codec copies conditions, times, operations and terminations without reading them: they are the type
  parameter \<open>'x\<close>. A slice whose being nil the code distinguishes from being empty (groups, entries, row
  order) is a list option; the others are lists. \<^verbatim>\<open>int32\<close> and \<^verbatim>\<open>int64\<close> fields are
  \<^typ>\<open>int\<close>; the code only compares and copies them. The group types of the four kinds have the same
  two fields and are one polymorphic record.
\<close>

subsection \<open>Rows and payload (pkg/apis/ome/v1beta1)\<close>

record 'x row =
  Index :: int
  Incarnation :: int
  Phase :: string
  RunningRevision :: string
  TargetRevision :: string
  PodCount :: int
  ReadyPodCount :: int
  ServingPodCount :: int
  AvailablePodCount :: int
  ScheduledPodCount :: int
  Admitted :: bool
  NodesOccupied :: "string list"
  Conditions :: "'x list"
  ReadySince :: "'x option"
  Operation :: "'x option"
  ActiveOrdinal :: int
  LastFailure :: "'x option"
  Announced :: "string list"

record 'v group =
  Value :: 'v
  Indexes :: string

record 'x entry =
  eIndex :: int
  eConditions :: "'x list"
  eReadySince :: "'x option"
  eOperation :: "'x option"
  eLastFailure :: "'x option"
  eAnnounced :: "string list"

record 'x columns =
  Members :: string
  RowOrder :: "int list option"
  Phases :: "string group list option"
  RunningRevisions :: "string group list option"
  TargetRevisions :: "string group list option"
  Incarnations :: "int group list option"
  PodCounts :: "int group list option"
  ServingPodCounts :: "int group list option"
  AvailablePodCounts :: "int group list option"
  cAdmitted :: "string option"
  ActiveOrdinalOne :: "string option"
  Entries :: "'x entry list option"

definition zeroRow :: "'x row" where
  "zeroRow = \<lparr>Index = 0, Incarnation = 0, Phase = [], RunningRevision = [], TargetRevision = [], PodCount = 0,
     ReadyPodCount = 0, ServingPodCount = 0, AvailablePodCount = 0, ScheduledPodCount = 0, Admitted = False,
     NodesOccupied = [], Conditions = [], ReadySince = None, Operation = None, ActiveOrdinal = 0,
     LastFailure = None, Announced = []\<rparr>"

definition zeroColumns :: "'x columns" where
  "zeroColumns = \<lparr>Members = [], RowOrder = None, Phases = None, RunningRevisions = None, TargetRevisions = None,
     Incarnations = None, PodCounts = None, ServingPodCounts = None, AvailablePodCounts = None,
     cAdmitted = None, ActiveOrdinalOne = None, Entries = None\<rparr>"

definition supportedPhase :: "string \<Rightarrow> bool" where
  "supportedPhase phase \<longleftrightarrow> phase \<in> {''Pending'', ''Creating'', ''Ready'', ''Updating'', ''Restarting'',
     ''Migrating'', ''Failed'', ''Deleting''}"

subsection \<open>Grouped columns (grouped_columns.go)\<close>

record ('x, 'v) column =
  required :: bool
  getField :: "'x row \<Rightarrow> 'v"
  setField :: "'v \<Rightarrow> 'x row \<Rightarrow> 'x row"
  getGroups :: "'x columns \<Rightarrow> 'v group list option"
  setGroups :: "'v group list option \<Rightarrow> 'x columns \<Rightarrow> 'x columns"
  inDomain :: "'v \<Rightarrow> bool"

definition revisionInDomain :: "string \<Rightarrow> bool" where "revisionInDomain value \<longleftrightarrow> value \<noteq> []"
definition incarnationInDomain :: "int \<Rightarrow> bool" where "incarnationInDomain value \<longleftrightarrow> value \<noteq> 0"
definition countInDomain :: "int \<Rightarrow> bool" where "countInDomain value \<longleftrightarrow> value > 0"

definition phaseColumn :: "('x, string) column" where
  "phaseColumn = \<lparr>required = True, getField = Phase, setField = (\<lambda>v. Phase_update (\<lambda>_. v)),
     getGroups = Phases, setGroups = (\<lambda>g. Phases_update (\<lambda>_. g)), inDomain = supportedPhase\<rparr>"

definition runningRevisionColumn :: "('x, string) column" where
  "runningRevisionColumn = \<lparr>required = False, getField = RunningRevision, setField = (\<lambda>v. RunningRevision_update (\<lambda>_. v)),
     getGroups = RunningRevisions, setGroups = (\<lambda>g. RunningRevisions_update (\<lambda>_. g)), inDomain = revisionInDomain\<rparr>"

definition targetRevisionColumn :: "('x, string) column" where
  "targetRevisionColumn = \<lparr>required = False, getField = TargetRevision, setField = (\<lambda>v. TargetRevision_update (\<lambda>_. v)),
     getGroups = TargetRevisions, setGroups = (\<lambda>g. TargetRevisions_update (\<lambda>_. g)), inDomain = revisionInDomain\<rparr>"

definition incarnationColumn :: "('x, int) column" where
  "incarnationColumn = \<lparr>required = False, getField = Incarnation, setField = (\<lambda>v. Incarnation_update (\<lambda>_. v)),
     getGroups = Incarnations, setGroups = (\<lambda>g. Incarnations_update (\<lambda>_. g)), inDomain = incarnationInDomain\<rparr>"

definition podCountColumn :: "('x, int) column" where
  "podCountColumn = \<lparr>required = False, getField = PodCount, setField = (\<lambda>v. PodCount_update (\<lambda>_. v)),
     getGroups = PodCounts, setGroups = (\<lambda>g. PodCounts_update (\<lambda>_. g)), inDomain = countInDomain\<rparr>"

definition servingPodCountColumn :: "('x, int) column" where
  "servingPodCountColumn = \<lparr>required = False, getField = ServingPodCount, setField = (\<lambda>v. ServingPodCount_update (\<lambda>_. v)),
     getGroups = ServingPodCounts, setGroups = (\<lambda>g. ServingPodCounts_update (\<lambda>_. g)), inDomain = countInDomain\<rparr>"

definition availablePodCountColumn :: "('x, int) column" where
  "availablePodCountColumn = \<lparr>required = False, getField = AvailablePodCount, setField = (\<lambda>v. AvailablePodCount_update (\<lambda>_. v)),
     getGroups = AvailablePodCounts, setGroups = (\<lambda>g. AvailablePodCounts_update (\<lambda>_. g)), inDomain = countInDomain\<rparr>"

record 'v valueGroups =
  groupValues :: "'v list"
  groupIndices :: "('v, int list) gomap"

definition noGroups :: "'v valueGroups" where
  "noGroups = \<lparr>groupValues = [], groupIndices = []\<rparr>"

definition valueGroups_add :: "'v \<Rightarrow> int \<Rightarrow> 'v valueGroups \<Rightarrow> 'v valueGroups" where
  "valueGroups_add value i g =
     (case map_of (groupIndices g) value of
        None \<Rightarrow> \<lparr>groupValues = groupValues g @ [value], groupIndices = AList.update value [i] (groupIndices g)\<rparr>
      | Some is \<Rightarrow> g\<lparr>groupIndices := AList.update value (is @ [i]) (groupIndices g)\<rparr>)"

definition column_add :: "('x, 'v) column \<Rightarrow> 'x row \<Rightarrow> 'v valueGroups \<Rightarrow> 'v valueGroups" where
  "column_add c r g = (if inDomain c (getField c r) then valueGroups_add (getField c r) (Index r) g else g)"

definition buildGroups :: "'v::linorder valueGroups \<Rightarrow> nat \<Rightarrow> codec_error + 'v group list option" where
  "buildGroups g n =
     (if groupValues g = [] then Inr None
      else bindE (traverseE (\<lambda>value.
               bindE (encodeIndexSet (case map_of (groupIndices g) value of None \<Rightarrow> [] | Some is \<Rightarrow> is) n)
                     (\<lambda>indexes. Inr \<lparr>Value = value, Indexes = indexes\<rparr>))
             (sort (groupValues g)))
           (\<lambda>out. Inr (Some out)))"

definition column_store :: "('x, 'v::linorder) column \<Rightarrow> 'v valueGroups \<Rightarrow> 'x columns \<Rightarrow> nat \<Rightarrow> codec_error + 'x columns" where
  "column_store c g cols n = bindE (buildGroups g n) (\<lambda>groups. Inr (setGroups c groups cols))"

fun validateGroups :: "('v::linorder \<Rightarrow> bool) \<Rightarrow> index_set \<Rightarrow> 'v option \<Rightarrow> nat \<Rightarrow> 'v group list \<Rightarrow> codec_error + nat \<times> index_set list" where
  "validateGroups dm members previous covered [] = Inr (covered, [])"
| "validateGroups dm members previous covered (g # gs) =
     (if \<not> dm (Value g) then Inl ValueDomain
      else if (case previous of None \<Rightarrow> False | Some p \<Rightarrow> p \<ge> Value g) then Inl CanonicalOrder
      else bindE (parseIndexSet (Indexes g) (cardinality members)) (\<lambda>s.
        if \<not> IsSubsetOf s members then Inl Coverage
        else if covered + cardinality s > cardinality members then Inl Coverage
        else bindE (validateGroups dm members (Some (Value g)) (covered + cardinality s) gs)
               (\<lambda>(c, sets). Inr (c, s # sets))))"

definition validateGroupColumn :: "'v::linorder group list option \<Rightarrow> index_set \<Rightarrow> bool \<Rightarrow> ('v \<Rightarrow> bool) \<Rightarrow> codec_error + index_set list" where
  "validateGroupColumn groups members req dm =
     (case groups of
        None \<Rightarrow> if req then Inl Coverage else Inr []
      | Some [] \<Rightarrow> if req then Inl Coverage else Inl ValueDomain
      | Some gs \<Rightarrow>
          if length gs > cardinality members then Inl CardinalityLimit
          else bindE (validateGroups dm members None 0 gs) (\<lambda>(covered, sets).
            if req \<and> covered \<noteq> cardinality members then Inl Coverage
            else if \<not> disjointIndexSets sets then Inl Coverage
            else Inr sets))"

definition column_validate :: "('x, 'v::linorder) column \<Rightarrow> 'x columns \<Rightarrow> index_set \<Rightarrow> codec_error + index_set list" where
  "column_validate c cols members = validateGroupColumn (getGroups c cols) members (required c) (inDomain c)"

text \<open>A write through \<^verbatim>\<open>rowAt\<close> updates the row at the position of an index.\<close>

definition write_row :: "(int \<Rightarrow> nat) \<Rightarrow> ('x row \<Rightarrow> 'x row) \<Rightarrow> int \<Rightarrow> 'x row list \<Rightarrow> 'x row list" where
  "write_row rowAt f i rows = rows[rowAt i := f (rows ! rowAt i)]"

definition column_expand :: "('x, 'v) column \<Rightarrow> 'x columns \<Rightarrow> index_set list \<Rightarrow> (int \<Rightarrow> nat) \<Rightarrow> 'x row list \<Rightarrow> 'x row list" where
  "column_expand c cols sets rowAt rows =
     fold (\<lambda>(g, s) rows. fold (write_row rowAt (setField c (Value g))) (forEach s) rows)
       (zip (case getGroups c cols of None \<Rightarrow> [] | Some gs \<Rightarrow> gs) sets) rows"

text \<open>
  The interface \<^verbatim>\<open>groupedColumn\<close>: what the codec calls. Its collector adds every row and then stores;
  the collectors of different columns do not share state, so adding all rows to one before the next is the same.
\<close>

record 'x groupedColumn =
  collectStore :: "'x row list \<Rightarrow> 'x columns \<Rightarrow> nat \<Rightarrow> codec_error + 'x columns"
  validateCol :: "'x columns \<Rightarrow> index_set \<Rightarrow> codec_error + index_set list"
  expandCol :: "'x columns \<Rightarrow> index_set list \<Rightarrow> (int \<Rightarrow> nat) \<Rightarrow> 'x row list \<Rightarrow> 'x row list"

definition grouped :: "('x, 'v::linorder) column \<Rightarrow> 'x groupedColumn" where
  "grouped c = \<lparr>collectStore = (\<lambda>rows. column_store c (fold (column_add c) rows noGroups)),
     validateCol = column_validate c, expandCol = column_expand c\<rparr>"

definition groupedColumns :: "'x groupedColumn list" where
  "groupedColumns = [grouped phaseColumn, grouped runningRevisionColumn, grouped targetRevisionColumn,
     grouped incarnationColumn, grouped podCountColumn, grouped servingPodCountColumn, grouped availablePodCountColumn]"

subsection \<open>Encoding (encode.go)\<close>

definition encodeOptionalIndexSet :: "int list \<Rightarrow> nat \<Rightarrow> codec_error + string option" where
  "encodeOptionalIndexSet indices n =
     (if indices = [] then Inr None else bindE (encodeIndexSet indices n) (\<lambda>encoded. Inr (Some encoded)))"

definition entryOf :: "'x row \<Rightarrow> 'x entry option" where
  "entryOf r =
     (if Conditions r = [] \<and> ReadySince r = None \<and> Operation r = None \<and> LastFailure r = None \<and> Announced r = []
      then None
      else Some \<lparr>eIndex = Index r, eConditions = Conditions r, eReadySince = ReadySince r, eOperation = Operation r,
                 eLastFailure = LastFailure r, eAnnounced = Announced r\<rparr>)"

definition encodableRow :: "'x row \<Rightarrow> bool" where
  "encodableRow r \<longleftrightarrow> \<not> (\<not> supportedPhase (Phase r) \<or> PodCount r < 0 \<or> ServingPodCount r < 0 \<or> AvailablePodCount r < 0
     \<or> (ActiveOrdinal r \<noteq> 0 \<and> ActiveOrdinal r \<noteq> 1))"

fun ascending :: "int list \<Rightarrow> bool" where
  "ascending (i # j # is) \<longleftrightarrow> \<not> j \<le> i \<and> ascending (j # is)"
| "ascending _ = True"

fun storeColumns :: "'x groupedColumn list \<Rightarrow> 'x row list \<Rightarrow> nat \<Rightarrow> 'x columns \<Rightarrow> codec_error + 'x columns" where
  "storeColumns [] rows n cols = Inr cols"
| "storeColumns (c # cs) rows n cols = bindE (collectStore c rows cols n) (storeColumns cs rows n)"

definition EncodeColumns :: "'x row list \<Rightarrow> nat \<Rightarrow> codec_error + 'x columns" where
  "EncodeColumns rows maxInstances =
     (if rows = [] then Inl ValueDomain
      else if maxInstances = 0 \<or> length rows > maxInstances then Inl CardinalityLimit
      else if \<not> list_all encodableRow rows then Inl ValueDomain
      else let indices = map Index rows; n = length rows; entries = List.map_filter entryOf rows
           in bindE (indexSetFromIndices indices maxInstances) (\<lambda>members.
              bindE (storeColumns groupedColumns rows n
                       (zeroColumns\<lparr>Members := index_set_String members,
                                    RowOrder := if ascending indices then None else Some indices\<rparr>)) (\<lambda>cols.
              bindE (encodeOptionalIndexSet (map Index (filter Admitted rows)) n) (\<lambda>admitted.
              bindE (encodeOptionalIndexSet (map Index (filter (\<lambda>r. ActiveOrdinal r = 1) rows)) n) (\<lambda>activeOrdinalOne.
                Inr (cols\<lparr>cAdmitted := admitted, ActiveOrdinalOne := activeOrdinalOne,
                          Entries := if entries = [] then None else Some (sort_key eIndex entries)\<rparr>))))))"

subsection \<open>Validation and expansion (decode.go)\<close>

record decodePlan =
  planMembers :: index_set
  memberOffsets :: "nat list"
  rowCount :: nat
  rowOrder :: "int list option"
  planGroups :: "index_set list list"
  planAdmitted :: "index_set option"
  planActiveOrdinalOne :: "index_set option"

definition validateOptionalIndexSet :: "string option \<Rightarrow> index_set \<Rightarrow> codec_error + index_set option" where
  "validateOptionalIndexSet raw members =
     (case raw of None \<Rightarrow> Inr None
      | Some r \<Rightarrow> bindE (parseIndexSet r (cardinality members)) (\<lambda>s.
          if \<not> IsSubsetOf s members then Inl Coverage else Inr (Some s)))"

definition entryHasContent :: "'x entry \<Rightarrow> bool" where
  "entryHasContent e \<longleftrightarrow> eConditions e \<noteq> [] \<or> eReadySince e \<noteq> None \<or> eOperation e \<noteq> None \<or> eLastFailure e \<noteq> None
     \<or> eAnnounced e \<noteq> []"

fun checkEntries :: "index_set \<Rightarrow> int option \<Rightarrow> 'x entry list \<Rightarrow> codec_error option" where
  "checkEntries members previous [] = None"
| "checkEntries members previous (e # es) =
     (if previous = Some (eIndex e) then Some Coverage
      else if (case previous of None \<Rightarrow> False | Some p \<Rightarrow> eIndex e < p) then Some CanonicalOrder
      else if \<not> Contains members (eIndex e) then Some Coverage
      else if \<not> entryHasContent e then Some Coverage
      else checkEntries members (Some (eIndex e)) es)"

definition validateEntries :: "'x entry list option \<Rightarrow> index_set \<Rightarrow> codec_error option" where
  "validateEntries entries members =
     (case entries of None \<Rightarrow> None
      | Some es \<Rightarrow> if es = [] then Some ValueDomain
                  else if length es > cardinality members then Some CardinalityLimit
                  else checkEntries members None es)"

fun checkOrderOf :: "index_set \<Rightarrow> nat list \<Rightarrow> bool list \<Rightarrow> int list \<Rightarrow> codec_error option" where
  "checkOrderOf members offsets seen [] = None"
| "checkOrderOf members offsets seen (i # is) =
     (case rankOfIndex members i offsets of
        None \<Rightarrow> Some Coverage
      | Some rank \<Rightarrow> if seen ! rank then Some Coverage else checkOrderOf members offsets (seen[rank := True]) is)"

definition validateRowOrder :: "int list option \<Rightarrow> index_set \<Rightarrow> nat list \<Rightarrow> codec_error option" where
  "validateRowOrder order members offsets =
     (case order of None \<Rightarrow> None
      | Some is \<Rightarrow>
          if is = [] then Some ValueDomain
          else if length is \<noteq> cardinality members then Some Coverage
          else (case checkOrderOf members offsets (replicate (length is) False) is of
              Some e \<Rightarrow> Some e
            | None \<Rightarrow> if ascending is then Some CanonicalOrder else None))"

definition failWith :: "codec_error option \<Rightarrow> codec_error + unit" where
  "failWith e = (case e of None \<Rightarrow> Inr () | Some r \<Rightarrow> Inl r)"

definition validateColumns :: "'x columns \<Rightarrow> nat \<Rightarrow> codec_error + decodePlan" where
  "validateColumns cols maxInstances =
     (if maxInstances = 0 then Inl CardinalityLimit
      else bindE (parseIndexSet (Members cols) maxInstances) (\<lambda>members.
        if int (cardinality members) > max_int64 then Inl RangeOverflow
        else bindE (traverseE (\<lambda>c. validateCol c cols members) groupedColumns) (\<lambda>groups.
             bindE (validateOptionalIndexSet (cAdmitted cols) members) (\<lambda>admitted.
             bindE (validateOptionalIndexSet (ActiveOrdinalOne cols) members) (\<lambda>activeOrdinalOne.
             bindE (failWith (validateEntries (Entries cols) members)) (\<lambda>_.
             bindE (failWith (validateRowOrder (RowOrder cols) members (prefixOffsets members))) (\<lambda>_.
               Inr \<lparr>planMembers = members, memberOffsets = prefixOffsets members, rowCount = cardinality members,
                    rowOrder = RowOrder cols, planGroups = groups, planAdmitted = admitted,
                    planActiveOrdinalOne = activeOrdinalOne\<rparr>)))))))"

definition rankAt :: "decodePlan \<Rightarrow> int \<Rightarrow> nat" where
  "rankAt p i = (case rankOfIndex (planMembers p) i (memberOffsets p) of None \<Rightarrow> 0 | Some r \<Rightarrow> r)"

definition positionByRank :: "decodePlan \<Rightarrow> int list \<Rightarrow> nat list" where
  "positionByRank p order =
     fold (\<lambda>(position, i) ps. ps[rankAt p i := position]) (enumerate 0 order) (replicate (rowCount p) 0)"

definition rowAt :: "decodePlan \<Rightarrow> int \<Rightarrow> nat" where
  "rowAt p i = (case rowOrder p of None \<Rightarrow> rankAt p i | Some order \<Rightarrow> positionByRank p order ! rankAt p i)"

definition indexedRows :: "decodePlan \<Rightarrow> 'x row list" where
  "indexedRows p =
     map (\<lambda>i. zeroRow\<lparr>Index := i\<rparr>) (case rowOrder p of None \<Rightarrow> forEach (planMembers p) | Some order \<Rightarrow> order)"

definition expandEntry :: "'x entry \<Rightarrow> 'x row \<Rightarrow> 'x row" where
  "expandEntry e r =
     (let r1 = if eConditions e \<noteq> [] then r\<lparr>Conditions := eConditions e\<rparr> else r;
          r2 = r1\<lparr>ReadySince := eReadySince e, Operation := eOperation e, LastFailure := eLastFailure e\<rparr>
      in if eAnnounced e \<noteq> [] then r2\<lparr>Announced := eAnnounced e\<rparr> else r2)"

definition expandFlag :: "decodePlan \<Rightarrow> index_set option \<Rightarrow> ('x row \<Rightarrow> 'x row) \<Rightarrow> 'x row list \<Rightarrow> 'x row list" where
  "expandFlag p s f rows = (case s of None \<Rightarrow> rows | Some is \<Rightarrow> fold (write_row (rowAt p) f) (forEach is) rows)"

definition expandPlan :: "decodePlan \<Rightarrow> 'x columns \<Rightarrow> 'x row list" where
  "expandPlan p cols =
     (let rows1 = fold (\<lambda>(c, sets) rows. expandCol c cols sets (rowAt p) rows) (zip groupedColumns (planGroups p)) (indexedRows p);
          rows2 = expandFlag p (planAdmitted p) (Admitted_update (\<lambda>_. True)) rows1;
          rows3 = expandFlag p (planActiveOrdinalOne p) (ActiveOrdinal_update (\<lambda>_. 1)) rows2
      in fold (\<lambda>e. write_row (rowAt p) (expandEntry e) (eIndex e)) (case Entries cols of None \<Rightarrow> [] | Some es \<Rightarrow> es) rows3)"

definition DecodeColumns :: "'x columns option \<Rightarrow> nat \<Rightarrow> codec_error + 'x row list" where
  "DecodeColumns cols maxInstances =
     (case cols of None \<Rightarrow> Inl RepresentationUnion
      | Some c \<Rightarrow> bindE (validateColumns c maxInstances) (\<lambda>plan. Inr (expandPlan plan c)))"

end
