(* ===== verification/IR_Columns_Write.thy ===== *)
theory IR_Columns_Write
  imports IR_Columns
begin

section \<open>Writing rows by index, and one grouped column\<close>

text \<open>
  What one column does on its own: the groups collected from the rows, that they validate, and that
  expanding them writes exactly the values the rows had. \<open>column_laws\<close> is what this needs of a column; the
  seven columns of the payload satisfy it.
\<close>

subsection \<open>Writes through rowAt\<close>

definition placed :: "(int \<Rightarrow> nat) \<Rightarrow> 'x row list \<Rightarrow> bool" where
  "placed pos rows \<longleftrightarrow> (\<forall>p<length rows. pos (Index (rows ! p)) = p)"

lemma write_row_map:
  assumes "placed pos rows" "\<And>r. Index (h r) = Index r" "i \<in> Index ` set rows"
  shows "write_row pos f i (map h rows) = map (\<lambda>r. if Index r = i then f (h r) else h r) rows"
proof -
  obtain p where p: "p < length rows" "Index (rows ! p) = i" using assms(3) by (auto simp: in_set_conv_nth)
  have "pos i = p" using assms(1) p by (auto simp: placed_def)
  moreover have "Index (rows ! q) = i \<longleftrightarrow> q = p" if "q < length rows" for q
    using assms(1) p that unfolding placed_def by metis
  ultimately show ?thesis using p(1) by (intro nth_equalityI) (auto simp: write_row_def nth_list_update)
qed

lemma fold_writes:
  assumes "placed pos rows" "\<And>r. Index (h r) = Index r" "\<And>e r. Index (F e r) = Index r"
    and "distinct (map key es)" "key ` set es \<subseteq> Index ` set rows"
  shows "fold (\<lambda>e. write_row pos (F e) (key e)) es (map h rows)
    = map (\<lambda>r. case map_of (map (\<lambda>e. (key e, e)) es) (Index r) of None \<Rightarrow> h r | Some e \<Rightarrow> F e (h r)) rows"
  using assms(2,4,5)
proof (induction es arbitrary: h)
  case (Cons e es)
  let ?h = "\<lambda>r. if Index r = key e then F e (h r) else h r"
  have w: "write_row pos (F e) (key e) (map h rows) = map ?h rows"
    using write_row_map [OF assms(1), of h "key e" "F e"] Cons.prems by simp
  have ih: "fold (\<lambda>e. write_row pos (F e) (key e)) es (map ?h rows)
    = map (\<lambda>r. case map_of (map (\<lambda>e. (key e, e)) es) (Index r) of None \<Rightarrow> ?h r | Some e \<Rightarrow> F e (?h r)) rows"
    by (rule Cons.IH) (use Cons.prems assms(3) in auto)
  have "map_of (map (\<lambda>e. (key e, e)) es) (key e) = None"
    using Cons.prems(2) by (auto simp: map_of_eq_None_iff)
  then show ?case unfolding fold_simps w ih by (auto split: option.splits)
qed simp

lemma fold_concat: "fold f (concat xss) s = fold (\<lambda>xs. fold f xs) xss s"
  by (induction xss arbitrary: s) simp_all

subsection \<open>Collecting\<close>

definition domainValues :: "('x, 'v) column \<Rightarrow> 'x row list \<Rightarrow> 'v set" where
  "domainValues c rows = {v. inDomain c v \<and> v \<in> getField c ` set rows}"

definition carriers :: "('x, 'v) column \<Rightarrow> 'x row list \<Rightarrow> 'v \<Rightarrow> int list" where
  "carriers c rows v = map Index (filter (\<lambda>r. getField c r = v) rows)"

lemma collect_spec:
  "distinct (groupValues (fold (column_add c) rows noGroups))
   \<and> set (groupValues (fold (column_add c) rows noGroups)) = domainValues c rows
   \<and> (\<forall>v. map_of (groupIndices (fold (column_add c) rows noGroups)) v
        = (if v \<in> domainValues c rows then Some (carriers c rows v) else None))"
proof (induction rows rule: rev_induct)
  case Nil
  show ?case by (simp add: noGroups_def domainValues_def)
next
  case (snoc r rows)
  define g where "g = fold (column_add c) rows noGroups"
  define v where "v = getField c r"
  have g: "distinct (groupValues g)" "set (groupValues g) = domainValues c rows"
    "\<And>w. map_of (groupIndices g) w = (if w \<in> domainValues c rows then Some (carriers c rows w) else None)"
    using snoc unfolding g_def by blast+
  have step: "fold (column_add c) (rows @ [r]) noGroups = column_add c r g" by (simp add: g_def)
  have dom: "domainValues c (rows @ [r]) = (if inDomain c v then insert v (domainValues c rows) else domainValues c rows)"
    by (auto simp: domainValues_def v_def)
  have car: "carriers c (rows @ [r]) w = (if w = v then carriers c rows w @ [Index r] else carriers c rows w)" for w
    by (auto simp: carriers_def v_def)
  have none: "inDomain c v \<Longrightarrow> v \<notin> domainValues c rows \<Longrightarrow> carriers c rows v = []"
    by (auto simp: carriers_def domainValues_def filter_empty_conv)
  show ?case
  proof (cases "inDomain c v")
    case False
    then have "w \<noteq> v" if "w \<in> domainValues c rows" for w using that by (auto simp: domainValues_def)
    then show ?thesis using g False unfolding step by (auto simp: column_add_def dom car v_def [symmetric])
  next
    case True
    note a = column_add_def v_def [symmetric] valueGroups_add_def
    show ?thesis
    proof (cases "v \<in> domainValues c rows")
      case True
      with g \<open>inDomain c v\<close> show ?thesis unfolding step dom by (auto simp: a car map_of_update_if)
    next
      case False
      with g \<open>inDomain c v\<close> none show ?thesis unfolding step dom by (auto simp: a car map_of_update_if)
    qed
  qed
qed

lemma finite_domainValues [simp]: "finite (domainValues c rows)"
  by (simp add: domainValues_def)

definition columnValues :: "('x, 'v::linorder) column \<Rightarrow> 'x row list \<Rightarrow> 'v list" where
  "columnValues c rows = sorted_list_of_set (domainValues c rows)"

lemma columnValues_simps [simp]:
  "set (columnValues c rows) = domainValues c rows" "distinct (columnValues c rows)" "sorted_wrt (<) (columnValues c rows)"
  by (simp_all add: columnValues_def)

definition groupFor :: "('x, 'v::linorder) column \<Rightarrow> 'x row list \<Rightarrow> 'v \<Rightarrow> 'v group" where
  "groupFor c rows v = \<lparr>Value = v, Indexes = index_set_String (setOf (carriers c rows v))\<rparr>"

definition encodedGroups :: "('x, 'v::linorder) column \<Rightarrow> 'x row list \<Rightarrow> 'v group list option" where
  "encodedGroups c rows = (if columnValues c rows = [] then None else Some (map (groupFor c rows) (columnValues c rows)))"

definition groupSets :: "('x, 'v::linorder) column \<Rightarrow> 'x row list \<Rightarrow> index_set list" where
  "groupSets c rows = map (\<lambda>v. setOf (carriers c rows v)) (columnValues c rows)"

definition indexed :: "'x row list \<Rightarrow> index_set \<Rightarrow> bool" where
  "indexed rows members \<longleftrightarrow> plain_indices (map Index rows) \<and> rows \<noteq> [] \<and> members = setOf (map Index rows)"

lemma carriers_plain: "plain_indices (map Index rows) \<Longrightarrow> plain_indices (carriers c rows v)"
  by (auto simp: plain_indices_def carriers_def distinct_map inj_on_def)

lemma carriers_nonempty: "v \<in> domainValues c rows \<Longrightarrow> carriers c rows v \<noteq> []"
  by (auto simp: carriers_def domainValues_def filter_empty_conv)

lemma carriers_length: "length (carriers c rows v) \<le> length rows"
  by (simp add: carriers_def)

lemma buildGroups_encoded:
  assumes "plain_indices (map Index rows)" "length rows \<le> n"
  shows "buildGroups (fold (column_add c) rows noGroups) n = Inr (encodedGroups c rows)"
proof -
  define g where "g = fold (column_add c) rows noGroups"
  have g: "distinct (groupValues g)" "set (groupValues g) = domainValues c rows"
    "\<And>w. map_of (groupIndices g) w = (if w \<in> domainValues c rows then Some (carriers c rows w) else None)"
    using collect_spec [of c rows] unfolding g_def by blast+
  have so: "sort (groupValues g) = columnValues c rows"
    using sorted_list_of_set_sort_remdups [of "groupValues g"] g(1,2) by (simp add: columnValues_def distinct_remdups_id)
  have "traverseE (\<lambda>value. bindE (encodeIndexSet (case map_of (groupIndices g) value of None \<Rightarrow> [] | Some is \<Rightarrow> is) n)
        (\<lambda>indexes. Inr \<lparr>Value = value, Indexes = indexes\<rparr>)) (columnValues c rows)
      = Inr (map (groupFor c rows) (columnValues c rows))"
  proof (rule traverseE_Inr)
    fix v
    assume "v \<in> set (columnValues c rows)"
    then have v: "v \<in> domainValues c rows" by simp
    have "encodeIndexSet (carriers c rows v) n = Inr (index_set_String (setOf (carriers c rows v)))"
      using setOf_spec(6) [OF carriers_plain [OF assms(1)] carriers_nonempty [OF v]] carriers_length [of c rows v] assms(2) by simp
    then show "bindE (encodeIndexSet (case map_of (groupIndices g) v of None \<Rightarrow> [] | Some is \<Rightarrow> is) n)
        (\<lambda>indexes. Inr \<lparr>Value = v, Indexes = indexes\<rparr>) = Inr (groupFor c rows v)"
      using v by (simp add: g(3) groupFor_def)
  qed
  moreover have "groupValues g = [] \<longleftrightarrow> columnValues c rows = []" using so by (metis length_0_conv length_sort)
  ultimately show ?thesis by (simp add: buildGroups_def g_def [symmetric] so encodedGroups_def)
qed

subsection \<open>Validating what was collected\<close>

lemma sum_carriers:
  "distinct vs \<Longrightarrow> (\<Sum>v\<leftarrow>vs. length (carriers c rows v)) = length (filter (\<lambda>r. getField c r \<in> set vs) rows)"
proof (induction vs)
  case (Cons v vs)
  have "length (filter (\<lambda>r. getField c r \<in> set (v # vs)) rows)
      = length (filter (\<lambda>r. getField c r = v) rows) + length (filter (\<lambda>r. getField c r \<in> set vs) rows)"
    using Cons.prems by (induction rows) auto
  then show ?case using Cons by (simp add: carriers_def)
qed simp

lemma domain_rows: "filter (\<lambda>r. getField c r \<in> domainValues c rows) rows = filter (\<lambda>r. inDomain c (getField c r)) rows"
  by (rule filter_cong) (auto simp: domainValues_def)

lemma carriers_subset: "set (carriers c rows v) \<subseteq> Index ` set rows"
  by (auto simp: carriers_def)

lemma indexedD:
  assumes "indexed rows members"
  shows "plain_indices (map Index rows)" "index_set_ok members" "elems members = Index ` set rows"
    "cardinality members = length rows" "forEach members = sort (map Index rows)"
  using assms setOf_spec [of "map Index rows"] by (auto simp: indexed_def)

lemma carrier_set:
  assumes "indexed rows members" "v \<in> domainValues c rows"
  shows "index_set_ok (setOf (carriers c rows v))" "elems (setOf (carriers c rows v)) = set (carriers c rows v)"
    "cardinality (setOf (carriers c rows v)) = length (carriers c rows v)"
    "parseIndexSet (Indexes (groupFor c rows v)) (cardinality members) = Inr (setOf (carriers c rows v))"
    "IsSubsetOf (setOf (carriers c rows v)) members"
proof -
  note m = indexedD [OF assms(1)]
  note s = setOf_spec [OF carriers_plain [OF m(1)] carriers_nonempty [OF assms(2)]]
  show ok: "index_set_ok (setOf (carriers c rows v))" by (rule s(1))
  show e: "elems (setOf (carriers c rows v)) = set (carriers c rows v)" by (rule s(2))
  show "cardinality (setOf (carriers c rows v)) = length (carriers c rows v)" by (rule s(3))
  show "parseIndexSet (Indexes (groupFor c rows v)) (cardinality members) = Inr (setOf (carriers c rows v))"
    using s(7) [of "length rows"] carriers_length [of c rows v] m(4) by (simp add: groupFor_def)
  show "IsSubsetOf (setOf (carriers c rows v)) members"
    using subset_iff [OF ok m(2)] e m(3) carriers_subset by simp
qed

lemma validateGroups_collected:
  assumes "indexed rows members" "set vs \<subseteq> domainValues c rows" "sorted_wrt (<) vs"
    and "\<And>p v. previous = Some p \<Longrightarrow> v \<in> set vs \<Longrightarrow> p < v"
    and "covered + (\<Sum>v\<leftarrow>vs. length (carriers c rows v)) \<le> cardinality members"
  shows "validateGroups (inDomain c) members previous covered (map (groupFor c rows) vs)
    = Inr (covered + (\<Sum>v\<leftarrow>vs. length (carriers c rows v)), map (\<lambda>v. setOf (carriers c rows v)) vs)"
  using assms(2-)
proof (induction vs arbitrary: previous covered)
  case (Cons v vs)
  have v: "v \<in> domainValues c rows" using Cons.prems(1) by simp
  note s = carrier_set [OF assms(1) v]
  have dm: "inDomain c v" using v by (simp add: domainValues_def)
  have ord: "\<not> (case previous of None \<Rightarrow> False | Some p \<Rightarrow> p \<ge> v)"
    using Cons.prems(3) by (auto split: option.splits simp: not_le)
  have cov: "covered + length (carriers c rows v) + (\<Sum>v\<leftarrow>vs. length (carriers c rows v)) \<le> cardinality members"
    using Cons.prems(4) by simp
  have ih: "validateGroups (inDomain c) members (Some v) (covered + length (carriers c rows v)) (map (groupFor c rows) vs)
    = Inr (covered + length (carriers c rows v) + (\<Sum>v\<leftarrow>vs. length (carriers c rows v)), map (\<lambda>v. setOf (carriers c rows v)) vs)"
    by (rule Cons.IH) (use Cons.prems cov in auto)
  have val: "Value (groupFor c rows v) = v" by (simp add: groupFor_def)
  have le: "\<not> cardinality members < covered + length (carriers c rows v)" using cov by simp
  show ?case
    unfolding list.map validateGroups.simps val s(3) s(4) bindE_simps using dm ord s(5) le ih by simp
qed simp

lemma groupSets_disjoint:
  assumes "indexed rows members"
  shows "disjointIndexSets (groupSets c rows)" "distinct (concat (map forEach (groupSets c rows)))"
proof -
  have ok: "\<forall>s\<in>set (groupSets c rows). index_set_ok s"
    using carrier_set(1) [OF assms] by (auto simp: groupSets_def)
  have di: "set (carriers c rows v) \<inter> set (carriers c rows w) = {}" if "v \<noteq> w" for v w
    using indexedD(1) [OF assms] that by (auto simp: carriers_def plain_indices_def distinct_map dest: inj_onD)
  have "elems (groupSets c rows ! a) \<inter> elems (groupSets c rows ! b) = {}" if "a < b" "b < length (groupSets c rows)" for a b
  proof -
    let ?vs = "columnValues c rows"
    have l: "a < length ?vs" "b < length ?vs" using that by (simp_all add: groupSets_def)
    have "?vs ! a \<noteq> ?vs ! b" using that l by (simp add: nth_eq_iff_index_eq)
    moreover have "?vs ! a \<in> domainValues c rows" "?vs ! b \<in> domainValues c rows"
      using l nth_mem [of a ?vs] nth_mem [of b ?vs] by simp_all
    ultimately show ?thesis using l di by (simp add: groupSets_def carrier_set(2) [OF assms])
  qed
  then show d: "disjointIndexSets (groupSets c rows)" unfolding disjoint_pairwise [OF ok] by blast
  show "distinct (concat (map forEach (groupSets c rows)))" using d unfolding disjoint_iff [OF ok] .
qed

lemma validate_collected:
  assumes "indexed rows members" "required c \<Longrightarrow> (\<forall>r\<in>set rows. inDomain c (getField c r))"
  shows "validateGroupColumn (encodedGroups c rows) members (required c) (inDomain c) = Inr (groupSets c rows)"
proof -
  note m = indexedD [OF assms(1)]
  let ?vs = "columnValues c rows"
  have tot: "(\<Sum>v\<leftarrow>?vs. length (carriers c rows v)) = length (filter (\<lambda>r. inDomain c (getField c r)) rows)"
    using sum_carriers [of ?vs c rows] domain_rows [of c rows] by simp
  have le: "(\<Sum>v\<leftarrow>?vs. length (carriers c rows v)) \<le> cardinality members" unfolding tot m(4) by simp
  have all: "required c \<Longrightarrow> (\<Sum>v\<leftarrow>?vs. length (carriers c rows v)) = cardinality members"
    unfolding tot m(4) using assms(2) by simp
  have "length ?vs = card (domainValues c rows)" using distinct_card [of ?vs] by simp
  also have "\<dots> \<le> card (getField c ` set rows)" by (rule card_mono) (auto simp: domainValues_def)
  also have "\<dots> \<le> length rows" using card_image_le [of "set rows" "getField c"] card_length [of rows] by simp
  finally have len: "length ?vs \<le> cardinality members" using m(4) by simp
  have val: "validateGroups (inDomain c) members None 0 (map (groupFor c rows) ?vs)
      = Inr (\<Sum>v\<leftarrow>?vs. length (carriers c rows v), groupSets c rows)"
    using validateGroups_collected [OF assms(1), of ?vs c None 0] le by (simp add: groupSets_def)
  show ?thesis
  proof (cases ?vs)
    case Nil
    have "\<not> required c"
    proof
      assume "required c"
      then have "cardinality members = 0" using all Nil by simp
      then show False using m(4) assms(1) by (simp add: indexed_def)
    qed
    then show ?thesis using Nil by (simp add: encodedGroups_def validateGroupColumn_def groupSets_def)
  next
    case (Cons v vs)
    have "encodedGroups c rows = Some (groupFor c rows v # map (groupFor c rows) vs)" using Cons by (simp add: encodedGroups_def)
    then have "validateGroupColumn (encodedGroups c rows) members (required c) (inDomain c) =
      (if length (groupFor c rows v # map (groupFor c rows) vs) > cardinality members then Inl CardinalityLimit
       else bindE (validateGroups (inDomain c) members None 0 (map (groupFor c rows) ?vs)) (\<lambda>(covered, sets).
            if required c \<and> covered \<noteq> cardinality members then Inl Coverage
            else if \<not> disjointIndexSets sets then Inl Coverage
            else Inr sets))"
      by (simp add: validateGroupColumn_def Cons del: validateGroups.simps)
    then show ?thesis using len all groupSets_disjoint(1) [OF assms(1), of c] unfolding val by (simp add: Cons)
  qed
qed

subsection \<open>The contract of a column\<close>

definition copyField :: "('x, 'v) column \<Rightarrow> 'x row \<Rightarrow> 'x row \<Rightarrow> 'x row" where
  "copyField c r0 r = (if inDomain c (getField c r0) then setField c (getField c r0) r else r)"

locale column_laws =
  fixes c :: "('x, 'v::linorder) column"
  assumes get_set_groups: "getGroups c (setGroups c g cols) = g"
    and Index_setField: "Index (setField c v r) = Index r"
    and get_setField: "getField c (setField c v r) = v"
begin

lemma store_encoded:
  "plain_indices (map Index rows) \<Longrightarrow> collectStore (grouped c) rows cols (length rows) = Inr (setGroups c (encodedGroups c rows) cols)"
  using buildGroups_encoded [of rows "length rows" c] by (simp add: grouped_def column_store_def)

lemma validate_encoded:
  assumes "indexed rows members" "required c \<Longrightarrow> (\<forall>r\<in>set rows. inDomain c (getField c r))" "getGroups c cols = encodedGroups c rows"
  shows "validateCol (grouped c) cols members = Inr (groupSets c rows)"
  using validate_collected [OF assms(1,2)] assms(3) by (simp add: grouped_def column_validate_def)

lemma Index_copyField [simp]: "Index (copyField c r0 r) = Index r"
  by (simp add: copyField_def Index_setField)

lemma expand_encoded:
  assumes ix: "indexed rows members" and pl: "placed pos rows" and h: "\<And>r. Index (h r) = Index r"
    and g: "getGroups c cols = encodedGroups c rows"
  shows "expandCol (grouped c) cols (groupSets c rows) pos (map h rows) = map (\<lambda>r. copyField c r (h r)) rows"
proof -
  let ?vs = "columnValues c rows"
  let ?es = "concat (map (\<lambda>v. map (Pair v) (forEach (setOf (carriers c rows v)))) ?vs)"
  have gs: "(case getGroups c cols of None \<Rightarrow> [] | Some gs \<Rightarrow> gs) = map (groupFor c rows) ?vs"
    unfolding g by (simp add: encodedGroups_def)
  have z: "zip (map (groupFor c rows) ?vs) (groupSets c rows) = map (\<lambda>v. (groupFor c rows v, setOf (carriers c rows v))) ?vs"
    by (simp add: groupSets_def zip_map_map zip_same_conv_map)
  have "expandCol (grouped c) cols (groupSets c rows) pos (map h rows)
      = fold (\<lambda>e. write_row pos (setField c (fst e)) (snd e)) ?es (map h rows)"
    unfolding fold_concat by (simp add: grouped_def column_expand_def gs z fold_map comp_def groupFor_def)
  also have "\<dots> = map (\<lambda>r. case map_of (map (\<lambda>e. (snd e, e)) ?es) (Index r) of None \<Rightarrow> h r | Some e \<Rightarrow> setField c (fst e) (h r)) rows"
  proof (rule fold_writes [OF pl h Index_setField])
    have "map snd ?es = concat (map forEach (groupSets c rows))" by (simp add: map_concat groupSets_def comp_def)
    then show "distinct (map snd ?es)" using groupSets_disjoint(2) [OF ix, of c] by simp
    show "snd ` set ?es \<subseteq> Index ` set rows"
      by (auto simp: forEach_expand carrier_set(2) [OF ix] dest!: subsetD [OF carriers_subset])
  qed
  also have "\<dots> = map (\<lambda>r. copyField c r (h r)) rows"
  proof (rule map_cong [OF refl])
    fix r
    assume r: "r \<in> set rows"
    have mem: "(v, i) \<in> set ?es \<longleftrightarrow> v \<in> domainValues c rows \<and> i \<in> set (carriers c rows v)" for v i
      by (auto simp: forEach_expand carrier_set(2) [OF ix])
    have d: "distinct (map fst (map (\<lambda>e. (snd e, e)) ?es))"
      using groupSets_disjoint(2) [OF ix, of c] by (simp add: map_concat groupSets_def comp_def)
    have same: "v = getField c r" if "Index r \<in> set (carriers c rows v)" for v
      using that r indexedD(1) [OF ix] by (auto simp: carriers_def plain_indices_def distinct_map dest: inj_onD)
    show "(case map_of (map (\<lambda>e. (snd e, e)) ?es) (Index r) of None \<Rightarrow> h r | Some e \<Rightarrow> setField c (fst e) (h r)) = copyField c r (h r)"
    proof (cases "inDomain c (getField c r)")
      case True
      then have "(getField c r, Index r) \<in> set ?es" unfolding mem using r by (auto simp: domainValues_def carriers_def)
      then have "(Index r, (getField c r, Index r)) \<in> set (map (\<lambda>e. (snd e, e)) ?es)" by force
      then have "map_of (map (\<lambda>e. (snd e, e)) ?es) (Index r) = Some (getField c r, Index r)" by (rule map_of_is_SomeI [OF d])
      then show ?thesis using True by (simp add: copyField_def)
    next
      case False
      have "map_of (map (\<lambda>e. (snd e, e)) ?es) (Index r) = None"
      proof (rule ccontr)
        assume "map_of (map (\<lambda>e. (snd e, e)) ?es) (Index r) \<noteq> None"
        then obtain e where "map_of (map (\<lambda>e. (snd e, e)) ?es) (Index r) = Some e" by blast
        then have "(Index r, e) \<in> set (map (\<lambda>e. (snd e, e)) ?es)" by (rule map_of_SomeD)
        then have "e \<in> set ?es \<and> snd e = Index r" by (auto simp only: set_map image_iff prod.inject)
        then have "(fst e, Index r) \<in> set ?es" by (metis prod.collapse)
        then have "fst e \<in> domainValues c rows" "Index r \<in> set (carriers c rows (fst e))" unfolding mem by simp_all
        then show False using same [of "fst e"] False by (simp add: domainValues_def)
      qed
      then show ?thesis using False by (simp add: copyField_def)
    qed
  qed
  finally show ?thesis .
qed

end

lemmas column_defs = phaseColumn_def runningRevisionColumn_def targetRevisionColumn_def incarnationColumn_def
  podCountColumn_def servingPodCountColumn_def availablePodCountColumn_def

interpretation phase: column_laws phaseColumn
  by unfold_locales (simp_all add: column_defs)

interpretation running: column_laws runningRevisionColumn
  by unfold_locales (simp_all add: column_defs)

interpretation target: column_laws targetRevisionColumn
  by unfold_locales (simp_all add: column_defs)

interpretation incarnation: column_laws incarnationColumn
  by unfold_locales (simp_all add: column_defs)

interpretation pods: column_laws podCountColumn
  by unfold_locales (simp_all add: column_defs)

interpretation serving: column_laws servingPodCountColumn
  by unfold_locales (simp_all add: column_defs)

interpretation available: column_laws availablePodCountColumn
  by unfold_locales (simp_all add: column_defs)

end
