(* ===== verification/IR_Columns_Roundtrip.thy ===== *)
theory IR_Columns_Roundtrip
  imports IR_Columns_Write
begin

section \<open>Decoding what was encoded\<close>

text \<open>
  \<open>payload rows\<close> is the payload of eligible rows written as one record and \<open>planOf rows\<close> the plan that
  validating it yields; the encoder produces the one, the validator the other, and expanding the plan gives
  back the rows without their Pod-derived fields.
\<close>

subsection \<open>Eligible rows\<close>

definition eligible :: "'x row list \<Rightarrow> nat \<Rightarrow> bool" where
  "eligible rows maxInstances \<longleftrightarrow> rows \<noteq> [] \<and> length rows \<le> maxInstances \<and> list_all encodableRow rows
     \<and> distinct (map Index rows) \<and> (\<forall>r\<in>set rows. 0 \<le> Index r)"

definition int32_rows :: "'x row list \<Rightarrow> bool" where
  "int32_rows rows \<longleftrightarrow> (\<forall>r\<in>set rows. Index r \<le> max_int32)"

abbreviation membersOf :: "'x row list \<Rightarrow> index_set" where
  "membersOf rows \<equiv> setOf (map Index rows)"

definition flagSet :: "int list \<Rightarrow> index_set option" where
  "flagSet is = (if is = [] then None else Some (setOf is))"

definition rowEntries :: "'x row list \<Rightarrow> 'x entry list" where
  "rowEntries rows = sort_key eIndex (List.map_filter entryOf rows)"

definition orderOf :: "'x row list \<Rightarrow> int list option" where
  "orderOf rows = (if ascending (map Index rows) then None else Some (map Index rows))"

definition admittedOf :: "'x row list \<Rightarrow> int list" where
  "admittedOf rows = map Index (filter Admitted rows)"

definition ordinalOneOf :: "'x row list \<Rightarrow> int list" where
  "ordinalOneOf rows = map Index (filter (\<lambda>r. ActiveOrdinal r = 1) rows)"

definition payload :: "'x row list \<Rightarrow> 'x columns" where
  "payload rows = \<lparr>Members = index_set_String (membersOf rows), RowOrder = orderOf rows,
     Phases = encodedGroups phaseColumn rows, RunningRevisions = encodedGroups runningRevisionColumn rows,
     TargetRevisions = encodedGroups targetRevisionColumn rows, Incarnations = encodedGroups incarnationColumn rows,
     PodCounts = encodedGroups podCountColumn rows, ServingPodCounts = encodedGroups servingPodCountColumn rows,
     AvailablePodCounts = encodedGroups availablePodCountColumn rows,
     cAdmitted = map_option index_set_String (flagSet (admittedOf rows)),
     ActiveOrdinalOne = map_option index_set_String (flagSet (ordinalOneOf rows)),
     Entries = (if rowEntries rows = [] then None else Some (rowEntries rows))\<rparr>"

definition planOf :: "'x row list \<Rightarrow> decodePlan" where
  "planOf rows = \<lparr>planMembers = membersOf rows, memberOffsets = prefixOffsets (membersOf rows), rowCount = length rows,
     rowOrder = orderOf rows,
     planGroups = [groupSets phaseColumn rows, groupSets runningRevisionColumn rows, groupSets targetRevisionColumn rows,
       groupSets incarnationColumn rows, groupSets podCountColumn rows, groupSets servingPodCountColumn rows,
       groupSets availablePodCountColumn rows],
     planAdmitted = flagSet (admittedOf rows), planActiveOrdinalOne = flagSet (ordinalOneOf rows)\<rparr>"

lemma eligible_indexed: "eligible rows m \<Longrightarrow> int32_rows rows \<Longrightarrow> indexed rows (membersOf rows)"
  by (auto simp: eligible_def int32_rows_def indexed_def plain_indices_def)

lemma rows_plain: "plain_indices (map Index rows) \<Longrightarrow> plain_indices (map Index (filter P rows))"
  by (auto simp: plain_indices_def distinct_map inj_on_def)

subsection \<open>Encoding yields the payload\<close>

lemma encodeOptional_flag:
  assumes "plain_indices (map Index rows)"
  shows "encodeOptionalIndexSet (map Index (filter P rows)) (length rows)
    = Inr (map_option index_set_String (flagSet (map Index (filter P rows))))"
proof (cases "map Index (filter P rows) = []")
  case False
  have "length (map Index (filter P rows)) \<le> length rows" by simp
  from setOf_spec(6) [OF rows_plain [OF assms] False this] False
  show ?thesis by (simp add: encodeOptionalIndexSet_def flagSet_def)
qed (simp add: encodeOptionalIndexSet_def flagSet_def)

lemma storeColumns_payload:
  assumes "plain_indices (map Index rows)"
  shows "storeColumns groupedColumns rows (length rows) cols = Inr (cols\<lparr>
     Phases := encodedGroups phaseColumn rows, RunningRevisions := encodedGroups runningRevisionColumn rows,
     TargetRevisions := encodedGroups targetRevisionColumn rows, Incarnations := encodedGroups incarnationColumn rows,
     PodCounts := encodedGroups podCountColumn rows, ServingPodCounts := encodedGroups servingPodCountColumn rows,
     AvailablePodCounts := encodedGroups availablePodCountColumn rows\<rparr>)"
  unfolding groupedColumns_def storeColumns.simps
    phase.store_encoded [OF assms] running.store_encoded [OF assms] target.store_encoded [OF assms]
    incarnation.store_encoded [OF assms] pods.store_encoded [OF assms] serving.store_encoded [OF assms]
    available.store_encoded [OF assms] bindE_simps
  by (simp add: column_defs)

lemma EncodeColumns_payload:
  assumes "eligible rows m" "int32_rows rows"
  shows "EncodeColumns rows m = Inr (payload rows)"
proof -
  have pl: "plain_indices (map Index rows)" using eligible_indexed [OF assms] by (simp add: indexed_def)
  have e: "rows \<noteq> []" "\<not> (m = 0 \<or> length rows > m)" "list_all encodableRow rows" "length (map Index rows) \<le> m"
    using assms(1) by (auto simp: eligible_def intro: Nat.gr0I)
  have mem: "indexSetFromIndices (map Index rows) m = Inr (membersOf rows)" using setOf_spec(5) [OF pl _ e(4)] e(1) by simp
  have en: "List.map_filter entryOf rows = [] \<longleftrightarrow> rowEntries rows = []"
    unfolding rowEntries_def by (metis length_0_conv length_sort)
  show ?thesis
    unfolding EncodeColumns_def Let_def mem bindE_simps storeColumns_payload [OF pl] encodeOptional_flag [OF pl] en
    using e by (simp add: payload_def zeroColumns_def orderOf_def admittedOf_def ordinalOneOf_def rowEntries_def)
qed

lemma EncodeColumns_refuses:
  assumes "\<not> eligible rows m" "int32_rows rows"
  shows "\<exists>e. EncodeColumns rows m = Inl e"
proof (cases "rows = [] \<or> m = 0 \<or> length rows > m \<or> \<not> list_all encodableRow rows")
  case True
  then show ?thesis by (auto simp: EncodeColumns_def)
next
  case False
  then have "\<not> encodable (map Index rows) m" using assms(1) by (auto simp: eligible_def encodable_def)
  then obtain e where "indexSetFromIndices (map Index rows) m = Inl e"
    using indexSetFromIndices_correct [of "map Index rows" m] assms(2) by (auto simp: int32_rows_def)
  then show ?thesis using False by (simp add: EncodeColumns_def)
qed

subsection \<open>Positions\<close>

lemma ascending_iff: "ascending is \<longleftrightarrow> sorted_wrt (<) is"
proof (induction "is" rule: ascending.induct)
  case (1 i j "is")
  then show ?case by (fastforce simp: not_le)
qed simp_all

definition rankIn :: "'x row list \<Rightarrow> int \<Rightarrow> nat" where
  "rankIn rows i = (case rankOfIndex (membersOf rows) i (prefixOffsets (membersOf rows)) of None \<Rightarrow> 0 | Some r \<Rightarrow> r)"

lemma rankIn_spec:
  assumes "indexed rows (membersOf rows)" "i \<in> Index ` set rows"
  shows "rankOfIndex (membersOf rows) i (prefixOffsets (membersOf rows)) = Some (rankIn rows i)"
    "rankIn rows i < length rows" "sort (map Index rows) ! rankIn rows i = i"
proof -
  note m = indexedD [OF assms(1)]
  have "canon 0 (intervals (membersOf rows))" using m(2) by (simp add: index_set_ok_def)
  then obtain r where "rankOfIndex (membersOf rows) i (prefixOffsets (membersOf rows)) = Some r"
      "r < length (forEach (membersOf rows))" "forEach (membersOf rows) ! r = i"
    using rank_position [of "membersOf rows" i] assms(2) m(3) by auto
  then show "rankOfIndex (membersOf rows) i (prefixOffsets (membersOf rows)) = Some (rankIn rows i)"
    "rankIn rows i < length rows" "sort (map Index rows) ! rankIn rows i = i"
    using m(5) by (simp_all add: rankIn_def)
qed

lemma rankIn_inj: "indexed rows (membersOf rows) \<Longrightarrow> inj_on (rankIn rows) (Index ` set rows)"
  using rankIn_spec(3) by (metis inj_onI)

lemma position_fold:
  "distinct (map f xs) \<Longrightarrow> (\<And>x. x \<in> set xs \<Longrightarrow> f x < length ps) \<Longrightarrow> k < length xs \<Longrightarrow>
   fold (\<lambda>(position, i) ps. ps[f i := position]) (enumerate m xs) ps ! f (xs ! k) = m + k"
proof (induction xs arbitrary: ps m k)
  case (Cons x xs)
  have keep: "fold (\<lambda>(position, i) ps. ps[f i := position]) (enumerate m xs) ps ! q = ps ! q" if "q \<notin> f ` set xs" for m q ps
    using that by (induction xs arbitrary: m ps) auto
  show ?case
  proof (cases k)
    case 0
    then show ?thesis using Cons.prems keep [of "f x"] by simp
  next
    case (Suc k')
    then show ?thesis using Cons.IH [of "ps[f x := m]" k' "Suc m"] Cons.prems by simp
  qed
qed simp

lemma placed_rowAt:
  assumes ix: "indexed rows (membersOf rows)"
  shows "placed (rowAt (planOf rows)) rows"
  unfolding placed_def
proof (intro allI impI)
  fix p
  assume p: "p < length rows"
  have dx: "distinct (map Index rows)" using indexedD(1) [OF ix] by (simp add: plain_indices_def)
  have i: "Index (rows ! p) \<in> Index ` set rows" using p by simp
  have ra: "rankAt (planOf rows) = rankIn rows" by (auto simp: rankAt_def planOf_def rankIn_def)
  show "rowAt (planOf rows) (Index (rows ! p)) = p"
  proof (cases "ascending (map Index rows)")
    case True
    then have "sort (map Index rows) = map Index rows" by (simp add: ascending_iff strict_sorted_iff sort_key_id_if_sorted)
    then have "map Index rows ! rankIn rows (Index (rows ! p)) = map Index rows ! p" using rankIn_spec(3) [OF ix i] p by simp
    then have "rankIn rows (Index (rows ! p)) = p"
      using nth_eq_iff_index_eq [OF dx, of "rankIn rows (Index (rows ! p))" p] rankIn_spec(2) [OF ix i] p by simp
    moreover have "rowOrder (planOf rows) = None" using True by (simp add: planOf_def orderOf_def)
    ultimately show ?thesis by (simp add: rowAt_def ra)
  next
    case False
    have d: "distinct (map (rankIn rows) (map Index rows))"
      using dx rankIn_inj [OF ix] by (simp add: distinct_map comp_inj_on)
    have "fold (\<lambda>(position, i) ps. ps[rankIn rows i := position]) (enumerate 0 (map Index rows)) (replicate (length rows) 0)
        ! rankIn rows (map Index rows ! p) = 0 + p"
      by (rule position_fold [OF d]) (use rankIn_spec(2) [OF ix] p in auto)
    moreover have "rowOrder (planOf rows) = Some (map Index rows)" "rowCount (planOf rows) = length rows"
      using False by (simp_all add: planOf_def orderOf_def)
    ultimately show ?thesis using p by (simp add: rowAt_def positionByRank_def ra)
  qed
qed

subsection \<open>Validation yields the plan\<close>

lemma validate_flag:
  assumes ix: "indexed rows (membersOf rows)"
  shows "validateOptionalIndexSet (map_option index_set_String (flagSet (map Index (filter P rows)))) (membersOf rows)
    = Inr (flagSet (map Index (filter P rows)))"
proof (cases "map Index (filter P rows) = []")
  case False
  note m = indexedD [OF ix]
  note s = setOf_spec [OF rows_plain [OF m(1)] False]
  have "IsSubsetOf (setOf (map Index (filter P rows))) (membersOf rows)"
    using subset_iff [OF s(1) m(2)] s(2) m(3) by auto
  then show ?thesis using False s(7) [of "length rows"] m(4) by (simp add: flagSet_def validateOptionalIndexSet_def)
qed (simp add: flagSet_def validateOptionalIndexSet_def)

lemma checkOrderOf_passes:
  assumes "\<And>i. i \<in> set is \<Longrightarrow> rankOfIndex members i offsets = Some (rk i) \<and> rk i < length seen \<and> \<not> seen ! rk i"
    and "distinct (map rk is)"
  shows "checkOrderOf members offsets seen is = None"
  using assms
proof (induction "is" arbitrary: seen)
  case (Cons i "is")
  have "checkOrderOf members offsets (seen[rk i := True]) is = None"
  proof (rule Cons.IH)
    fix j
    assume j: "j \<in> set is"
    then have "rk i \<noteq> rk j" using Cons.prems(2) by auto
    then show "rankOfIndex members j offsets = Some (rk j) \<and> rk j < length (seen[rk i := True]) \<and> \<not> seen[rk i := True] ! rk j"
      using Cons.prems(1) [of j] j by simp
  qed (use Cons.prems(2) in simp)
  then show ?case using Cons.prems(1) [of i] by simp
qed simp

lemma validate_order:
  assumes ix: "indexed rows (membersOf rows)"
  shows "validateRowOrder (orderOf rows) (membersOf rows) (prefixOffsets (membersOf rows)) = None"
proof (cases "ascending (map Index rows)")
  case False
  note m = indexedD [OF ix]
  have "checkOrderOf (membersOf rows) (prefixOffsets (membersOf rows)) (replicate (length rows) False) (map Index rows) = None"
    by (rule checkOrderOf_passes [where rk = "rankIn rows"])
      (use rankIn_spec [OF ix] rankIn_inj [OF ix] m(1) in \<open>auto simp: plain_indices_def distinct_map intro: comp_inj_on\<close>)
  then show ?thesis using False ix m(4) by (simp add: validateRowOrder_def orderOf_def indexed_def)
qed (simp add: validateRowOrder_def orderOf_def)

lemma checkEntries_passes:
  assumes "\<And>e. e \<in> set es \<Longrightarrow> Contains members (eIndex e) \<and> entryHasContent e" "sorted_wrt (<) (map eIndex es)"
    and "\<And>p e. previous = Some p \<Longrightarrow> e \<in> set es \<Longrightarrow> p < eIndex e"
  shows "checkEntries members previous es = None"
  using assms
proof (induction es arbitrary: previous)
  case (Cons e es)
  have "checkEntries members (Some (eIndex e)) es = None"
    by (rule Cons.IH) (use Cons.prems in auto)
  moreover have "previous \<noteq> Some (eIndex e)" "\<not> (case previous of None \<Rightarrow> False | Some p \<Rightarrow> eIndex e < p)"
    using Cons.prems(3) [of _ e] by (force split: option.splits)+
  ultimately show ?case using Cons.prems(1) [of e] by simp
qed simp

lemma entryOf_Some:
  "entryOf r = Some e \<longleftrightarrow> e = \<lparr>eIndex = Index r, eConditions = Conditions r, eReadySince = ReadySince r, eOperation = Operation r,
     eLastFailure = LastFailure r, eAnnounced = Announced r\<rparr> \<and> entryHasContent e"
  by (auto simp: entryOf_def entryHasContent_def)

lemma map_filter_entries: "List.map_filter entryOf rows = map (the \<circ> entryOf) (filter (\<lambda>r. entryOf r \<noteq> None) rows)"
  by (simp add: List.map_filter_def)

lemma rowEntries_keys:
  "map eIndex (rowEntries rows) = sort (map Index (filter (\<lambda>r. entryOf r \<noteq> None) rows))"
proof -
  have "map eIndex (List.map_filter entryOf rows) = map Index (filter (\<lambda>r. entryOf r \<noteq> None) rows)"
    unfolding map_filter_entries map_map by (rule map_cong) (auto simp: entryOf_def)
  then show ?thesis by (simp add: rowEntries_def map_sort_key)
qed

lemma rowEntries_iff: "e \<in> set (rowEntries rows) \<longleftrightarrow> (\<exists>r\<in>set rows. entryOf r = Some e)"
  by (force simp: rowEntries_def map_filter_entries)

lemma validate_entries:
  assumes ix: "indexed rows (membersOf rows)"
  shows "validateEntries (if rowEntries rows = [] then None else Some (rowEntries rows)) (membersOf rows) = None"
proof -
  note m = indexedD [OF ix]
  have cn: "canon 0 (intervals (membersOf rows))" using m(2) by (simp add: index_set_ok_def)
  have "plain_indices (map Index (filter (\<lambda>r. entryOf r \<noteq> None) rows))" using rows_plain [OF m(1)] .
  then have srt: "sorted_wrt (<) (map eIndex (rowEntries rows))"
    unfolding rowEntries_keys by (simp add: strict_sorted_iff plain_indices_def)
  have "length (rowEntries rows) = length (map eIndex (rowEntries rows))" by simp
  also have "\<dots> \<le> length rows" unfolding rowEntries_keys by simp
  finally have len: "length (rowEntries rows) \<le> cardinality (membersOf rows)" using m(4) by simp
  have "checkEntries (membersOf rows) None (rowEntries rows) = None"
  proof (rule checkEntries_passes [OF _ srt])
    fix e
    assume "e \<in> set (rowEntries rows)"
    then obtain r where r: "r \<in> set rows" "entryOf r = Some e" by (auto simp: rowEntries_iff)
    then have i: "eIndex e \<in> elems (membersOf rows)" using m(3) by (auto simp: entryOf_Some)
    then have "Contains (membersOf rows) (eIndex e)"
      using member_position [OF cn, of "eIndex e"] canon_bounds [OF cn i] by (simp add: Contains_def)
    then show "Contains (membersOf rows) (eIndex e) \<and> entryHasContent e" using r(2) unfolding entryOf_Some by blast
  qed simp
  then show ?thesis using len by (simp add: validateEntries_def)
qed

lemma validate_payload:
  assumes el: "eligible rows m" "int32_rows rows"
  shows "validateColumns (payload rows) m = Inr (planOf rows)"
proof -
  note ix = eligible_indexed [OF el]
  note mb = indexedD [OF ix]
  have m0: "m \<noteq> 0" using el(1) by (auto simp: eligible_def intro: Nat.gr0I)
  have ps: "parseIndexSet (Members (payload rows)) m = Inr (membersOf rows)"
    using parse_String [OF mb(2)] mb(4) el(1) by (simp add: payload_def eligible_def)
  have ph: "\<forall>r\<in>set rows. inDomain phaseColumn (getField phaseColumn r)"
    using el(1) by (auto simp: eligible_def list_all_iff encodableRow_def column_defs)
  have gr: "traverseE (\<lambda>c. validateCol c (payload rows) (membersOf rows)) groupedColumns = Inr (planGroups (planOf rows))"
    unfolding groupedColumns_def traverseE.simps planOf_def
    by (subst phase.validate_encoded [OF ix], use ph in simp, simp add: payload_def column_defs,
        subst running.validate_encoded [OF ix], simp add: column_defs, simp add: payload_def column_defs,
        subst target.validate_encoded [OF ix], simp add: column_defs, simp add: payload_def column_defs,
        subst incarnation.validate_encoded [OF ix], simp add: column_defs, simp add: payload_def column_defs,
        subst pods.validate_encoded [OF ix], simp add: column_defs, simp add: payload_def column_defs,
        subst serving.validate_encoded [OF ix], simp add: column_defs, simp add: payload_def column_defs,
        subst available.validate_encoded [OF ix], simp add: column_defs, simp add: payload_def column_defs, simp)
  have fl: "validateOptionalIndexSet (cAdmitted (payload rows)) (membersOf rows) = Inr (planAdmitted (planOf rows))"
    "validateOptionalIndexSet (ActiveOrdinalOne (payload rows)) (membersOf rows) = Inr (planActiveOrdinalOne (planOf rows))"
    using validate_flag [OF ix] by (simp_all add: payload_def planOf_def admittedOf_def ordinalOneOf_def)
  have en: "failWith (validateEntries (Entries (payload rows)) (membersOf rows)) = Inr ()"
    using validate_entries [OF ix] by (simp add: payload_def failWith_def)
  have ro: "failWith (validateRowOrder (RowOrder (payload rows)) (membersOf rows) (prefixOffsets (membersOf rows))) = Inr ()"
    using validate_order [OF ix] by (simp add: payload_def failWith_def)
  have big: "\<not> int (cardinality (membersOf rows)) > max_int64" using index_set_small [OF mb(2)] by simp
  show ?thesis
    unfolding validateColumns_def ps bindE_simps gr fl en ro
    using m0 big mb(4) by (simp add: planOf_def) (simp add: payload_def)
qed

subsection \<open>Expanding the plan\<close>

definition clearPodDerived :: "'x row \<Rightarrow> 'x row" where
  "clearPodDerived r = r\<lparr>ReadyPodCount := 0, ScheduledPodCount := 0, NodesOccupied := []\<rparr>"

lemma expand_flag:
  assumes ix: "indexed rows (membersOf rows)" and h: "\<And>r. Index (h r) = Index r" and f: "\<And>r. Index (f r) = Index r"
  shows "expandFlag (planOf rows) (flagSet (map Index (filter P rows))) f (map h rows)
    = map (\<lambda>r. if P r then f (h r) else h r) rows"
proof (cases "map Index (filter P rows) = []")
  case True
  then show ?thesis by (auto simp: expandFlag_def flagSet_def filter_empty_conv)
next
  case False
  note s = setOf_spec [OF rows_plain [OF indexedD(1) [OF ix]] False]
  let ?is = "sort (map Index (filter P rows))"
  have "expandFlag (planOf rows) (flagSet (map Index (filter P rows))) f (map h rows)
      = fold (\<lambda>i. write_row (rowAt (planOf rows)) f i) ?is (map h rows)"
    using False s(4) by (simp add: expandFlag_def flagSet_def)
  also have "\<dots> = map (\<lambda>r. case map_of (map (\<lambda>i. (i, i)) ?is) (Index r) of None \<Rightarrow> h r | Some e \<Rightarrow> f (h r)) rows"
    by (rule fold_writes [OF placed_rowAt [OF ix] h f, where key = "\<lambda>i. i"])
      (use rows_plain [OF indexedD(1) [OF ix]] in \<open>auto simp: plain_indices_def\<close>)
  also have "\<dots> = map (\<lambda>r. if P r then f (h r) else h r) rows"
  proof (rule map_cong [OF refl])
    fix r
    assume r: "r \<in> set rows"
    have "Index r \<in> Index ` set (filter P rows) \<longleftrightarrow> P r"
      using r indexedD(1) [OF ix] by (auto simp: plain_indices_def distinct_map dest: inj_onD)
    then show "(case map_of (map (\<lambda>i. (i, i)) ?is) (Index r) of None \<Rightarrow> h r | Some e \<Rightarrow> f (h r)) = (if P r then f (h r) else h r)"
      by (auto simp: map_of_map_restrict restrict_map_def)
  qed
  finally show ?thesis .
qed

lemma Index_expandEntry [simp]: "Index (expandEntry e r) = Index r"
  by (simp add: expandEntry_def Let_def)

lemma expand_entries:
  assumes ix: "indexed rows (membersOf rows)" and h: "\<And>r. Index (h r) = Index r"
  shows "fold (\<lambda>e. write_row (rowAt (planOf rows)) (expandEntry e) (eIndex e)) (rowEntries rows) (map h rows)
    = map (\<lambda>r. case entryOf r of None \<Rightarrow> h r | Some e \<Rightarrow> expandEntry e (h r)) rows"
proof -
  let ?es = "rowEntries rows"
  have pl: "plain_indices (map Index (filter (\<lambda>r. entryOf r \<noteq> None) rows))" using rows_plain [OF indexedD(1) [OF ix]] .
  have d: "distinct (map eIndex ?es)" unfolding rowEntries_keys using pl by (simp add: plain_indices_def)
  have "fold (\<lambda>e. write_row (rowAt (planOf rows)) (expandEntry e) (eIndex e)) ?es (map h rows)
    = map (\<lambda>r. case map_of (map (\<lambda>e. (eIndex e, e)) ?es) (Index r) of None \<Rightarrow> h r | Some e \<Rightarrow> expandEntry e (h r)) rows"
    by (rule fold_writes [OF placed_rowAt [OF ix] h Index_expandEntry d]) (auto simp: rowEntries_iff entryOf_Some)
  also have "\<dots> = map (\<lambda>r. case entryOf r of None \<Rightarrow> h r | Some e \<Rightarrow> expandEntry e (h r)) rows"
  proof (rule map_cong [OF refl])
    fix r
    assume r: "r \<in> set rows"
    have inj: "r' = r" if "r' \<in> set rows" "Index r' = Index r" for r'
      using that r indexedD(1) [OF ix] by (auto simp: plain_indices_def distinct_map dest: inj_onD)
    have "map_of (map (\<lambda>e. (eIndex e, e)) ?es) (Index r) = entryOf r"
    proof (cases "entryOf r")
      case None
      have "Index r \<notin> eIndex ` set ?es"
      proof
        assume "Index r \<in> eIndex ` set ?es"
        then obtain r' e where r': "r' \<in> set rows" "entryOf r' = Some e" "eIndex e = Index r" by (auto simp: rowEntries_iff)
        then have "Index r' = Index r" unfolding entryOf_Some by simp
        then show False using inj [of r'] None r' by simp
      qed
      then show ?thesis using None by (auto simp: map_of_eq_None_iff)
    next
      case (Some e)
      then have "e \<in> set ?es" "eIndex e = Index r" using r by (auto simp: rowEntries_iff entryOf_Some)
      then have "(Index r, e) \<in> set (map (\<lambda>e. (eIndex e, e)) ?es)" by force
      then show ?thesis using Some d by (simp add: map_of_is_SomeI comp_def)
    qed
    then show "(case map_of (map (\<lambda>e. (eIndex e, e)) ?es) (Index r) of None \<Rightarrow> h r | Some e \<Rightarrow> expandEntry e (h r))
        = (case entryOf r of None \<Rightarrow> h r | Some e \<Rightarrow> expandEntry e (h r))" by simp
  qed
  finally show ?thesis .
qed

definition blankRow :: "'x row \<Rightarrow> 'x row" where
  "blankRow r = zeroRow\<lparr>Index := Index r\<rparr>"

definition copyColumns :: "'x row \<Rightarrow> 'x row \<Rightarrow> 'x row" where
  "copyColumns r0 r = copyField availablePodCountColumn r0 (copyField servingPodCountColumn r0 (copyField podCountColumn r0
     (copyField incarnationColumn r0 (copyField targetRevisionColumn r0 (copyField runningRevisionColumn r0
     (copyField phaseColumn r0 r))))))"

lemma indexedRows_planOf: "indexed rows (membersOf rows) \<Longrightarrow> indexedRows (planOf rows) = map blankRow rows"
proof -
  assume ix: "indexed rows (membersOf rows)"
  show ?thesis
  proof (cases "ascending (map Index rows)")
    case True
    then have "sort (map Index rows) = map Index rows" by (simp add: ascending_iff strict_sorted_iff sort_key_id_if_sorted)
    then show ?thesis using True indexedD(5) [OF ix] by (simp add: indexedRows_def planOf_def orderOf_def blankRow_def)
  qed (simp add: indexedRows_def planOf_def orderOf_def blankRow_def)
qed

lemma expand_columns:
  assumes ix: "indexed rows (membersOf rows)"
  shows "fold (\<lambda>(c, sets) rs. expandCol c (payload rows) sets (rowAt (planOf rows)) rs)
      (zip groupedColumns (planGroups (planOf rows))) (map blankRow rows)
    = map (\<lambda>r. copyColumns r (blankRow r)) rows"
proof -
  note pl = placed_rowAt [OF ix]
  have blank: "Index (blankRow r) = Index r" for r :: "'a row" by (simp add: blankRow_def)
  note e = phase.expand_encoded [OF ix pl, of _ "payload rows"] running.expand_encoded [OF ix pl, of _ "payload rows"]
    target.expand_encoded [OF ix pl, of _ "payload rows"] incarnation.expand_encoded [OF ix pl, of _ "payload rows"]
    pods.expand_encoded [OF ix pl, of _ "payload rows"] serving.expand_encoded [OF ix pl, of _ "payload rows"]
    available.expand_encoded [OF ix pl, of _ "payload rows"]
  have g: "getGroups phaseColumn (payload rows) = encodedGroups phaseColumn rows"
    "getGroups runningRevisionColumn (payload rows) = encodedGroups runningRevisionColumn rows"
    "getGroups targetRevisionColumn (payload rows) = encodedGroups targetRevisionColumn rows"
    "getGroups incarnationColumn (payload rows) = encodedGroups incarnationColumn rows"
    "getGroups podCountColumn (payload rows) = encodedGroups podCountColumn rows"
    "getGroups servingPodCountColumn (payload rows) = encodedGroups servingPodCountColumn rows"
    "getGroups availablePodCountColumn (payload rows) = encodedGroups availablePodCountColumn rows"
    by (simp_all add: payload_def) (simp_all add: column_defs)
  show ?thesis unfolding planOf_def decodePlan.simps groupedColumns_def copyColumns_def
    unfolding planOf_def [symmetric]
    by (simp add: e g blank)
qed

definition rebuilt :: "'x row \<Rightarrow> 'x row" where
  "rebuilt r =
     (let r1 = copyColumns r (blankRow r);
          r2 = if Admitted r then r1\<lparr>Admitted := True\<rparr> else r1;
          r3 = if ActiveOrdinal r = 1 then r2\<lparr>ActiveOrdinal := 1\<rparr> else r2
      in case entryOf r of None \<Rightarrow> r3 | Some e \<Rightarrow> expandEntry e r3)"

lemma rebuilt_row:
  fixes r :: "'x row"
  assumes "encodableRow r"
  shows "rebuilt r = clearPodDerived r"
proof -
  have ph: "supportedPhase (Phase r)" and pos: "0 \<le> PodCount r" "0 \<le> ServingPodCount r" "0 \<le> AvailablePodCount r"
    and ord: "ActiveOrdinal r = 0 \<or> ActiveOrdinal r = 1"
    using assms by (simp_all add: encodableRow_def not_less)
  define full :: "bool \<Rightarrow> int \<Rightarrow> 'x row" where "full a o' = \<lparr>Index = Index r, Incarnation = Incarnation r, Phase = Phase r,
     RunningRevision = RunningRevision r, TargetRevision = TargetRevision r, PodCount = PodCount r, ReadyPodCount = 0,
     ServingPodCount = ServingPodCount r, AvailablePodCount = AvailablePodCount r, ScheduledPodCount = 0, Admitted = a,
     NodesOccupied = [], Conditions = [], ReadySince = None, Operation = None, ActiveOrdinal = o',
     LastFailure = None, Announced = []\<rparr>" for a o'
  have phz: "copyField phaseColumn r (blankRow r) = (blankRow r)\<lparr>Phase := Phase r\<rparr>"
    using ph by (simp add: copyField_def phaseColumn_def)
  have rv: "copyField runningRevisionColumn r q = q\<lparr>RunningRevision := RunningRevision r\<rparr>" if "RunningRevision q = []" for q :: "'x row"
    using that by (cases q) (auto simp: copyField_def runningRevisionColumn_def revisionInDomain_def)
  have tv: "copyField targetRevisionColumn r q = q\<lparr>TargetRevision := TargetRevision r\<rparr>" if "TargetRevision q = []" for q :: "'x row"
    using that by (cases q) (auto simp: copyField_def targetRevisionColumn_def revisionInDomain_def)
  have iv: "copyField incarnationColumn r q = q\<lparr>Incarnation := Incarnation r\<rparr>" if "Incarnation q = 0" for q :: "'x row"
    using that by (cases q) (auto simp: copyField_def incarnationColumn_def incarnationInDomain_def)
  have pv: "copyField podCountColumn r q = q\<lparr>PodCount := PodCount r\<rparr>" if "PodCount q = 0" for q :: "'x row"
    using that pos by (cases q) (auto simp: copyField_def podCountColumn_def countInDomain_def)
  have sv: "copyField servingPodCountColumn r q = q\<lparr>ServingPodCount := ServingPodCount r\<rparr>" if "ServingPodCount q = 0" for q :: "'x row"
    using that pos by (cases q) (auto simp: copyField_def servingPodCountColumn_def countInDomain_def)
  have av: "copyField availablePodCountColumn r q = q\<lparr>AvailablePodCount := AvailablePodCount r\<rparr>" if "AvailablePodCount q = 0" for q :: "'x row"
    using that pos by (cases q) (auto simp: copyField_def availablePodCountColumn_def countInDomain_def)
  have cols: "copyColumns r (blankRow r) = full False 0"
    unfolding copyColumns_def phz by (simp add: rv tv iv pv sv av blankRow_def zeroRow_def full_def)
  have flags: "(let r2 = if Admitted r then (full False 0)\<lparr>Admitted := True\<rparr> else full False 0
      in if ActiveOrdinal r = 1 then r2\<lparr>ActiveOrdinal := 1\<rparr> else r2) = full (Admitted r) (ActiveOrdinal r)"
    using ord by (auto simp: full_def)
  have "rebuilt r = (case entryOf r of None \<Rightarrow> full (Admitted r) (ActiveOrdinal r) | Some e \<Rightarrow> expandEntry e (full (Admitted r) (ActiveOrdinal r)))"
    unfolding rebuilt_def cols Let_def flags [unfolded Let_def] ..
  also have "\<dots> = clearPodDerived r"
    by (cases r) (simp add: entryOf_def expandEntry_def full_def clearPodDerived_def Let_def)
  finally show ?thesis .
qed

lemma expand_payload:
  assumes el: "eligible rows m" "int32_rows rows"
  shows "expandPlan (planOf rows) (payload rows) = map clearPodDerived rows"
proof -
  note ix = eligible_indexed [OF el]
  have en: "(case Entries (payload rows) of None \<Rightarrow> [] | Some es \<Rightarrow> es) = rowEntries rows" by (simp add: payload_def)
  have fl: "planAdmitted (planOf rows) = flagSet (map Index (filter Admitted rows))"
    "planActiveOrdinalOne (planOf rows) = flagSet (map Index (filter (\<lambda>r. ActiveOrdinal r = 1) rows))"
    by (simp_all add: planOf_def admittedOf_def ordinalOneOf_def)
  have i: "Index (copyColumns r (blankRow r)) = Index r" for r :: "'a row" by (simp add: copyColumns_def blankRow_def)
  have "expandPlan (planOf rows) (payload rows) = map rebuilt rows"
    unfolding expandPlan_def Let_def indexedRows_planOf [OF ix] expand_columns [OF ix] fl en
    by (simp add: expand_flag [OF ix] expand_entries [OF ix] i rebuilt_def Let_def)
  also have "\<dots> = map clearPodDerived rows"
    by (rule map_cong [OF refl], rule rebuilt_row) (use el(1) in \<open>auto simp: eligible_def list_all_iff\<close>)
  finally show ?thesis .
qed

lemma decode_encode:
  assumes "eligible rows m" "int32_rows rows"
  shows "DecodeColumns (Some (payload rows)) m = Inr (map clearPodDerived rows)"
  by (simp add: DecodeColumns_def validate_payload [OF assms] expand_payload [OF assms])

subsection \<open>Properties\<close>

definition sample_rows :: "string row list" where
  "sample_rows =
     [zeroRow\<lparr>Index := 3, Phase := ''Ready'', PodCount := 2, RunningRevision := ''r1'', Admitted := True, ReadyPodCount := 2\<rparr>,
      zeroRow\<lparr>Index := 1, Phase := ''Failed'', ActiveOrdinal := 1, Announced := [''x'']\<rparr>]"

text \<open>
  C4: the columnar payload loses nothing that is persisted. \<open>EncodeColumns\<close> succeeds exactly on eligible
  rows (not empty, within the limit, every value in its domain, indices distinct and not negative), and
  \<open>DecodeColumns\<close> of its result returns the same rows in the same order, with only the three Pod-derived
  fields (readyPodCount, scheduledPodCount, nodesOccupied) cleared.
\<close>

theorem EncodeColumns_roundtrip:
  assumes "int32_rows rows"
  shows "case EncodeColumns rows m of
           Inr cols \<Rightarrow> eligible rows m \<and> DecodeColumns (Some cols) m = Inr (map clearPodDerived rows)
         | Inl _ \<Rightarrow> \<not> eligible rows m"
proof (cases "eligible rows m")
  case True
  then show ?thesis using EncodeColumns_payload [OF True assms] decode_encode [OF True assms] by simp
next
  case False
  then show ?thesis using EncodeColumns_refuses [OF False assms] by auto
qed

lemma EncodeColumns_roundtrip_witness:
  "case EncodeColumns sample_rows 5 of
     Inr cols \<Rightarrow> eligible sample_rows 5 \<and> DecodeColumns (Some cols) 5 = Inr (map clearPodDerived sample_rows)
   | Inl _ \<Rightarrow> \<not> eligible sample_rows 5"
  by (rule EncodeColumns_roundtrip) (simp add: int32_rows_def sample_rows_def max_int32_def)

end
