(* ===== verification/IR_Status.thy ===== *)
theory IR_Status
  imports IR_Columns_Roundtrip
begin

section \<open>The representation union of a status (encoding.go, errors.go, candidate.go, reader.go)\<close>

text \<open>
  A status carries its rows either as the dense list or as columns. \<open>SelectCandidate\<close> builds both and picks
  the smaller serialization; \<open>Decode\<close> brings a stored status back to the dense shape. The size of a
  serialized status comes from \<^verbatim>\<open>encoding/json\<close> and is a parameter, a function from statuses to a
  marshalling error or a length; the theorems hold for every such function. The fields of a status outside the representation are one
  field \<open>others\<close> of a type parameter: this code copies them and does nothing else with them.
\<close>

subsection \<open>Status and encodings\<close>

datatype Encoding = EncodingDenseV1 | EncodingColumnarV2

record ('x, 's) status =
  others :: 's
  InstanceStatuses :: "'x row list"
  InstanceStatusEncoding :: "string option"
  InstanceStatusColumns :: "'x columns option"

definition InstanceStatusEncodingColumnarV2 :: string where
  "InstanceStatusEncodingColumnarV2 = ''ColumnarV2''"

definition ObservedEncoding :: "('x, 's) status option \<Rightarrow> codec_error + Encoding" where
  "ObservedEncoding st =
     (case st of None \<Rightarrow> Inr EncodingDenseV1
      | Some s \<Rightarrow>
          (case InstanceStatusEncoding s of
             None \<Rightarrow> if InstanceStatusColumns s \<noteq> None then Inl RepresentationUnion else Inr EncodingDenseV1
           | Some marker \<Rightarrow>
               if marker = InstanceStatusEncodingColumnarV2
               then (if InstanceStatusColumns s = None \<or> InstanceStatuses s \<noteq> [] then Inl RepresentationUnion
                     else Inr EncodingColumnarV2)
               else Inl UnknownEncoding))"

definition DecodeStatus :: "('x, 's) status option \<Rightarrow> nat \<Rightarrow> codec_error + 'x row list \<times> Encoding" where
  "DecodeStatus st maxInstances =
     bindE (ObservedEncoding st) (\<lambda>encoding.
       if encoding = EncodingDenseV1
       then (case st of None \<Rightarrow> Inr ([], EncodingDenseV1) | Some s \<Rightarrow> Inr (InstanceStatuses s, EncodingDenseV1))
       else bindE (DecodeColumns (case st of None \<Rightarrow> None | Some s \<Rightarrow> InstanceStatusColumns s) maxInstances)
              (\<lambda>rows. Inr (rows, EncodingColumnarV2)))"

definition ClearPodDerivedObservations :: "'x row list \<Rightarrow> 'x row list" where
  "ClearPodDerivedObservations rows = map clearPodDerived rows"

subsection \<open>Errors\<close>

text \<open>A failure is one of the codec's own, or one of the JSON encoder passed on.\<close>

datatype 'e status_error = CodecError codec_error | MarshalError 'e

fun catalogMessage :: "codec_error \<Rightarrow> string" where
  "catalogMessage UnknownEncoding = ''instance status encoding is unknown''"
| "catalogMessage RepresentationUnion = ''instance status representation is invalid''"
| "catalogMessage RangeSyntax = ''instance index set syntax is invalid''"
| "catalogMessage RangeOrder = ''instance index set order is invalid''"
| "catalogMessage RangeOverflow = ''instance index set exceeds the supported index domain''"
| "catalogMessage CardinalityLimit = ''instance status cardinality limit is invalid''"
| "catalogMessage Coverage = ''instance status column coverage is invalid''"
| "catalogMessage CanonicalOrder = ''instance status column order is not canonical''"
| "catalogMessage ValueDomain = ''instance status value is outside its supported domain''"

fun ErrorReasonOf :: "'e status_error \<Rightarrow> codec_error option" where
  "ErrorReasonOf (CodecError reason) = Some reason"
| "ErrorReasonOf (MarshalError e) = None"

definition codecFailure :: "codec_error + 'a \<Rightarrow> 'e status_error + 'a" where
  "codecFailure m = (case m of Inl r \<Rightarrow> Inl (CodecError r) | Inr x \<Rightarrow> Inr x)"

subsection \<open>Candidates\<close>

record ('x, 's) Candidate =
  candEncoding :: Encoding
  candStatus :: "('x, 's) status"
  candSize :: nat

record ('x, 's) Selection =
  DenseV1 :: "('x, 's) Candidate"
  ColumnarV2 :: "('x, 's) Candidate option"
  IneligibleReason :: "codec_error option"
  Selected :: Encoding

type_synonym ('x, 's, 'e) sizer = "('x, 's) status \<Rightarrow> 'e + nat"

definition serializedSize :: "('x, 's, 'e) sizer \<Rightarrow> ('x, 's) status \<Rightarrow> 'e status_error + nat" where
  "serializedSize marshal st = (case marshal st of Inl e \<Rightarrow> Inl (MarshalError e) | Inr n \<Rightarrow> Inr n)"

definition selectEncoding :: "nat \<Rightarrow> nat \<Rightarrow> Encoding" where
  "selectEncoding denseSize columnarSize = (if columnarSize < denseSize then EncodingColumnarV2 else EncodingDenseV1)"

definition DenseCandidate :: "('x, 's, 'e) sizer \<Rightarrow> ('x, 's) status option \<Rightarrow> 'e status_error + ('x, 's) Candidate" where
  "DenseCandidate marshal st =
     (case st of None \<Rightarrow> Inl (CodecError RepresentationUnion)
      | Some s \<Rightarrow>
          if InstanceStatusEncoding s \<noteq> None \<or> InstanceStatusColumns s \<noteq> None then Inl (CodecError RepresentationUnion)
          else let s' = s\<lparr>InstanceStatuses := ClearPodDerivedObservations (InstanceStatuses s)\<rparr>
               in bindE (serializedSize marshal s') (\<lambda>size.
                    Inr \<lparr>candEncoding = EncodingDenseV1, candStatus = s', candSize = size\<rparr>))"

definition SelectCandidate :: "('x, 's, 'e) sizer \<Rightarrow> ('x, 's) status option \<Rightarrow> nat \<Rightarrow> 'e status_error + ('x, 's) Selection" where
  "SelectCandidate marshal logical maxInstances =
     (case logical of None \<Rightarrow> Inl (CodecError RepresentationUnion)
      | Some s \<Rightarrow>
          if InstanceStatusEncoding s \<noteq> None \<or> InstanceStatusColumns s \<noteq> None then Inl (CodecError RepresentationUnion)
          else bindE (DenseCandidate marshal (Some s)) (\<lambda>dense.
            let selection = \<lparr>DenseV1 = dense, ColumnarV2 = None, IneligibleReason = None, Selected = EncodingDenseV1\<rparr>
            in case codecFailure (EncodeColumns (InstanceStatuses (candStatus dense)) maxInstances) of
                 Inl err \<Rightarrow>
                   (case ErrorReasonOf err of None \<Rightarrow> Inl err
                    | Some reason \<Rightarrow> Inr (selection\<lparr>IneligibleReason := Some reason\<rparr>))
               | Inr cols \<Rightarrow>
                   let columnar = (candStatus dense)\<lparr>InstanceStatuses := [],
                         InstanceStatusEncoding := Some InstanceStatusEncodingColumnarV2, InstanceStatusColumns := Some cols\<rparr>
                   in bindE (serializedSize marshal columnar) (\<lambda>columnarSize.
                        Inr (selection\<lparr>ColumnarV2 := Some \<lparr>candEncoding = EncodingColumnarV2, candStatus = columnar,
                                                         candSize = columnarSize\<rparr>,
                                      Selected := selectEncoding (candSize dense) columnarSize\<rparr>))))"

definition SelectedCandidate :: "('x, 's) Selection \<Rightarrow> ('x, 's) Candidate" where
  "SelectedCandidate sel =
     (case ColumnarV2 sel of
        Some c \<Rightarrow> if Selected sel = EncodingColumnarV2 then c else DenseV1 sel
      | None \<Rightarrow> DenseV1 sel)"

subsection \<open>Decoders and readers\<close>

record Decoder =
  maxInstances :: nat

definition NewDecoder :: "nat \<Rightarrow> Decoder" where
  "NewDecoder maxDecodedInstances = \<lparr>maxInstances = maxDecodedInstances\<rparr>"

definition zeroDecoder :: Decoder where
  "zeroDecoder = \<lparr>maxInstances = 0\<rparr>"

definition MaxDecodedInstances :: "Decoder \<Rightarrow> nat" where
  "MaxDecodedInstances d = maxInstances d"

definition Decode :: "Decoder \<Rightarrow> ('x, 's) status option \<Rightarrow> codec_error + ('x, 's) status option \<times> Encoding" where
  "Decode d ir =
     (case ir of None \<Rightarrow> Inr (None, EncodingDenseV1)
      | Some s \<Rightarrow>
          bindE (DecodeStatus (Some s) (maxInstances d)) (\<lambda>(rows, encoding).
            if encoding = EncodingColumnarV2
            then Inr (Some (s\<lparr>InstanceStatuses := rows, InstanceStatusEncoding := None, InstanceStatusColumns := None\<rparr>), encoding)
            else Inr (Some s, encoding)))"

text \<open>
  A reader either carries a decoder or is another client; reading through it is the Kubernetes client, a
  parameter that gives the fetched object or a fetch error.
\<close>

datatype 'r reader = Reader 'r Decoder | OtherReader 'r

definition NewReader :: "'r option \<Rightarrow> Decoder \<Rightarrow> 'r reader option" where
  "NewReader reads d = map_option (\<lambda>r. Reader r d) reads"

fun DecoderOf :: "'r reader \<Rightarrow> Decoder" where
  "DecoderOf (Reader r d) = d"
| "DecoderOf (OtherReader r) = zeroDecoder"

definition GetDecoded :: "('r reader \<Rightarrow> 'k \<Rightarrow> 'f + ('x, 's) status) \<Rightarrow> 'r reader \<Rightarrow> 'k \<Rightarrow> ('f + codec_error) + ('x, 's) status option \<times> Encoding" where
  "GetDecoded get reads key =
     (case get reads key of
        Inl e \<Rightarrow> Inl (Inl e)
      | Inr s \<Rightarrow> (case Decode (DecoderOf reads) (Some s) of Inl e \<Rightarrow> Inl (Inr e) | Inr res \<Rightarrow> Inr res))"

subsection \<open>Lemmas\<close>

lemma clearPodDerived_idem [simp]: "clearPodDerived (clearPodDerived r) = clearPodDerived r"
  by (simp add: clearPodDerived_def)

lemma Index_clear [simp]: "Index (clearPodDerived r) = Index r"
  by (simp add: clearPodDerived_def)

lemma int32_clear: "int32_rows (ClearPodDerivedObservations rows) \<longleftrightarrow> int32_rows rows"
  by (simp add: int32_rows_def ClearPodDerivedObservations_def)

lemma decode_of_encode:
  assumes "int32_rows rows" "EncodeColumns (ClearPodDerivedObservations rows) m = Inr cols"
  shows "DecodeColumns (Some cols) m = Inr (ClearPodDerivedObservations rows)"
proof -
  let ?rows = "ClearPodDerivedObservations rows"
  have i: "int32_rows ?rows" using assms(1) by (simp add: int32_clear)
  have el: "eligible ?rows m" using EncodeColumns_refuses [OF _ i, of m] assms(2) by fastforce
  have "DecodeColumns (Some cols) m = Inr (map clearPodDerived ?rows)"
    using decode_encode [OF el i] EncodeColumns_payload [OF el i] assms(2) by simp
  then show ?thesis by (simp add: ClearPodDerivedObservations_def)
qed

text \<open>The two shapes a selection has.\<close>

lemma SelectCandidate_cases:
  assumes "SelectCandidate marshal (Some s) m = Inr sel"
  obtains (ineligible) dsize reason where
      "InstanceStatusEncoding s = None" "InstanceStatusColumns s = None"
      "DenseV1 sel = \<lparr>candEncoding = EncodingDenseV1, candStatus = s\<lparr>InstanceStatuses := ClearPodDerivedObservations (InstanceStatuses s)\<rparr>, candSize = dsize\<rparr>"
      "EncodeColumns (ClearPodDerivedObservations (InstanceStatuses s)) m = Inl reason"
      "ColumnarV2 sel = None" "IneligibleReason sel = Some reason" "Selected sel = EncodingDenseV1"
  | (both) dsize csize cols where
      "InstanceStatusEncoding s = None" "InstanceStatusColumns s = None"
      "DenseV1 sel = \<lparr>candEncoding = EncodingDenseV1, candStatus = s\<lparr>InstanceStatuses := ClearPodDerivedObservations (InstanceStatuses s)\<rparr>, candSize = dsize\<rparr>"
      "EncodeColumns (ClearPodDerivedObservations (InstanceStatuses s)) m = Inr cols"
      "ColumnarV2 sel = Some \<lparr>candEncoding = EncodingColumnarV2, candStatus = s\<lparr>InstanceStatuses := [],
          InstanceStatusEncoding := Some InstanceStatusEncodingColumnarV2, InstanceStatusColumns := Some cols\<rparr>, candSize = csize\<rparr>"
      "IneligibleReason sel = None" "Selected sel = selectEncoding dsize csize"
proof -
  let ?d = "s\<lparr>InstanceStatuses := ClearPodDerivedObservations (InstanceStatuses s)\<rparr>"
  let ?e = "EncodeColumns (ClearPodDerivedObservations (InstanceStatuses s)) m"
  have sh: "InstanceStatusEncoding s = None" "InstanceStatusColumns s = None"
    using assms by (auto simp: SelectCandidate_def split: if_splits)
  obtain dsize where dsize: "serializedSize marshal ?d = Inr dsize"
    using assms sh by (cases "serializedSize marshal ?d") (simp_all add: SelectCandidate_def DenseCandidate_def Let_def)
  show thesis
  proof (cases ?e)
    case (Inl reason)
    then have "sel = \<lparr>DenseV1 = \<lparr>candEncoding = EncodingDenseV1, candStatus = ?d, candSize = dsize\<rparr>, ColumnarV2 = None,
        IneligibleReason = Some reason, Selected = EncodingDenseV1\<rparr>"
      using assms sh dsize by (simp add: SelectCandidate_def DenseCandidate_def Let_def codecFailure_def)
    then show thesis using ineligible [of dsize reason] sh Inl by simp
  next
    case (Inr cols)
    let ?c = "s\<lparr>InstanceStatuses := [], InstanceStatusEncoding := Some InstanceStatusEncodingColumnarV2, InstanceStatusColumns := Some cols\<rparr>"
    obtain csize where cs: "serializedSize marshal ?c = Inr csize"
      using assms sh dsize Inr
      by (cases "serializedSize marshal ?c") (simp_all add: SelectCandidate_def DenseCandidate_def Let_def codecFailure_def)
    have "sel = \<lparr>DenseV1 = \<lparr>candEncoding = EncodingDenseV1, candStatus = ?d, candSize = dsize\<rparr>,
        ColumnarV2 = Some \<lparr>candEncoding = EncodingColumnarV2, candStatus = ?c, candSize = csize\<rparr>,
        IneligibleReason = None, Selected = selectEncoding dsize csize\<rparr>"
      using assms sh dsize Inr cs by (simp add: SelectCandidate_def DenseCandidate_def Let_def codecFailure_def)
    then show thesis using both [of dsize cols csize] sh Inr by simp
  qed
qed

text \<open>Expansion writes into the rows it allocated: their number is the member count.\<close>

lemma fold_keeps_length: "(\<And>x r. length (f x r) = length r) \<Longrightarrow> length (fold f xs rows) = length rows"
  by (induction xs arbitrary: rows) simp_all

lemma length_write_row [simp]: "length (write_row pos f i rows) = length rows"
  by (simp add: write_row_def)

lemma length_column_expand: "length (column_expand c cols sets pos rows) = length rows"
  unfolding column_expand_def by (rule fold_keeps_length) (simp add: fold_keeps_length split_beta)

lemma length_expandCol: "c \<in> set groupedColumns \<Longrightarrow> length (expandCol c cols sets pos rows) = length rows"
  by (auto simp: groupedColumns_def grouped_def length_column_expand)

lemma length_expandPlan: "length (expandPlan p cols) = length (indexedRows p :: 'x row list)" for cols :: "'x columns"
proof -
  have "length (fold (\<lambda>(c, sets) rows. expandCol c cols sets (rowAt p) rows) css rows) = length rows"
    if "\<forall>(c, sets)\<in>set css. c \<in> set groupedColumns" for css and rows :: "'x row list"
    using that by (induction css arbitrary: rows) (auto simp: length_expandCol)
  moreover have "\<forall>(c, sets)\<in>set (zip groupedColumns (planGroups p)). c \<in> set (groupedColumns :: 'x groupedColumn list)"
    by (auto dest: set_zip_leftD)
  moreover have "length (expandFlag p fs f rows) = length rows" for fs f and rows :: "'x row list"
    by (auto simp: expandFlag_def fold_keeps_length split: option.splits)
  moreover have "length (fold (\<lambda>e. write_row (rowAt p) (expandEntry e) (eIndex e)) es rows) = length rows" for es and rows :: "'x row list"
    by (rule fold_keeps_length) simp
  ultimately show ?thesis by (simp add: expandPlan_def Let_def)
qed

lemma DecodeColumns_count:
  assumes "DecodeColumns (Some cols) m = Inr rows"
  shows "rows \<noteq> [] \<and> length rows \<le> m"
proof -
  obtain p where p: "validateColumns cols m = Inr p" "rows = expandPlan p cols"
    using assms by (auto simp: DecodeColumns_def bindE_Inr)
  then obtain mem where mem: "parseIndexSet (Members cols) m = Inr mem" "planMembers p = mem" "rowOrder p = RowOrder cols"
      "validateRowOrder (RowOrder cols) mem (prefixOffsets mem) = None"
    by (auto simp: validateColumns_def bindE_Inr failWith_def split: if_splits option.splits)
  note ok = parse_canonical [OF mem(1)]
  obtain v vs where "intervals mem = v # vs" using ok by (cases "intervals mem") (auto simp: index_set_ok_def)
  then have pos: "0 < cardinality mem" using ok by (auto simp: index_set_ok_def width_def)
  have "length (indexedRows p :: 'a row list) = cardinality mem"
  proof (cases "RowOrder cols")
    case None
    then show ?thesis using mem(2,3) ok length_expand [of "intervals mem"]
      by (simp add: indexedRows_def forEach_expand index_set_ok_def)
  next
    case (Some order)
    then show ?thesis using mem(3,4) by (simp add: indexedRows_def validateRowOrder_def split: if_splits)
  qed
  then show ?thesis using p(2) ok pos length_expandPlan [of p cols] by auto
qed

subsection \<open>Properties\<close>

definition sample_status :: "(string, nat) status" where
  "sample_status = \<lparr>others = 7, InstanceStatuses = sample_rows, InstanceStatusEncoding = None, InstanceStatusColumns = None\<rparr>"

text \<open>
  C18: whatever representation is selected for writing, a reader with the same bound gets back the logical
  status it came from with the Pod-derived row fields cleared and every other field unchanged, and is told
  the encoding that was written. The written size never exceeds the dense one, and columns are selected exactly when
  they were built and are strictly smaller.
\<close>

theorem SelectCandidate_decodes:
  assumes "int32_rows (InstanceStatuses s)" "SelectCandidate marshal (Some s) m = Inr sel"
  shows "Decode (NewDecoder m) (Some (candStatus (SelectedCandidate sel)))
      = Inr (Some (s\<lparr>InstanceStatuses := ClearPodDerivedObservations (InstanceStatuses s)\<rparr>), candEncoding (SelectedCandidate sel))
    \<and> candSize (SelectedCandidate sel) \<le> candSize (DenseV1 sel)
    \<and> (candEncoding (SelectedCandidate sel) = EncodingColumnarV2
        \<longleftrightarrow> (\<exists>c. ColumnarV2 sel = Some c \<and> candSize c < candSize (DenseV1 sel)))"
  using assms(2)
proof (cases rule: SelectCandidate_cases)
  case (ineligible dsize reason)
  then show ?thesis
    by (simp add: SelectedCandidate_def Decode_def DecodeStatus_def ObservedEncoding_def)
next
  case (both dsize csize cols)
  note dec = decode_of_encode [OF assms(1) both(4)]
  show ?thesis
  proof (cases "csize < dsize")
    case True
    then show ?thesis using both dec
      by (cases s) (simp add: SelectedCandidate_def selectEncoding_def Decode_def DecodeStatus_def ObservedEncoding_def NewDecoder_def)
  next
    case False
    then show ?thesis using both
      by (simp add: SelectedCandidate_def selectEncoding_def Decode_def DecodeStatus_def ObservedEncoding_def)
  qed
qed

text \<open>The witness takes the row count as the size of a dense status and one byte for columns.\<close>

definition sample_size :: "(string, nat, unit) sizer" where
  "sample_size st = Inr (Suc (length (InstanceStatuses st)))"

definition sample_selection :: "(string, nat) Selection" where
  "sample_selection = (case SelectCandidate sample_size (Some sample_status) 5 of Inr sel \<Rightarrow> sel | Inl _ \<Rightarrow> undefined)"

lemma sample_selects: "SelectCandidate sample_size (Some sample_status) 5 = Inr sample_selection"
proof -
  have i: "int32_rows (ClearPodDerivedObservations sample_rows)"
    by (simp add: int32_clear) (simp add: int32_rows_def sample_rows_def max_int32_def)
  have "eligible (ClearPodDerivedObservations sample_rows) 5"
    by (simp add: eligible_def ClearPodDerivedObservations_def clearPodDerived_def sample_rows_def encodableRow_def
        supportedPhase_def zeroRow_def)
  from EncodeColumns_payload [OF this i] show ?thesis
    by (simp add: sample_selection_def SelectCandidate_def sample_status_def DenseCandidate_def serializedSize_def sample_size_def
        codecFailure_def Let_def)
qed

lemma SelectCandidate_decodes_witness:
  "Decode (NewDecoder 5) (Some (candStatus (SelectedCandidate sample_selection)))
      = Inr (Some (sample_status\<lparr>InstanceStatuses := ClearPodDerivedObservations (InstanceStatuses sample_status)\<rparr>),
             candEncoding (SelectedCandidate sample_selection))
    \<and> candSize (SelectedCandidate sample_selection) \<le> candSize (DenseV1 sample_selection)
    \<and> (candEncoding (SelectedCandidate sample_selection) = EncodingColumnarV2
        \<longleftrightarrow> (\<exists>c. ColumnarV2 sample_selection = Some c \<and> candSize c < candSize (DenseV1 sample_selection)))"
  by (rule SelectCandidate_decodes [OF _ sample_selects])
    (simp add: sample_status_def int32_rows_def sample_rows_def max_int32_def)

text \<open>
  C34: a decoded status carries exactly one representation, the dense one: no marker and no columns, all
  other fields untouched, and decoding it again changes nothing. Rows expanded from columns are at least
  one and at most the configured bound, so a decoder without a bound accepts no columnar status.
\<close>

theorem Decode_dense_shape:
  assumes "Decode d (Some s) = Inr (res, encoding)"
  shows "\<exists>s'. res = Some s' \<and> ObservedEncoding (Some s') = Inr EncodingDenseV1 \<and> others s' = others s
    \<and> Decode d' (Some s') = Inr (Some s', EncodingDenseV1)
    \<and> (if encoding = EncodingColumnarV2
        then InstanceStatuses s' \<noteq> [] \<and> length (InstanceStatuses s') \<le> MaxDecodedInstances d \<and> 0 < MaxDecodedInstances d
        else s' = s)"
proof -
  obtain rows where d: "DecodeStatus (Some s) (maxInstances d) = Inr (rows, encoding)"
    using assms by (auto simp: Decode_def bindE_Inr split: if_splits)
  have o: "ObservedEncoding (Some s) = Inr encoding"
    using d by (auto simp: DecodeStatus_def bindE_Inr split: if_splits) (metis Encoding.exhaust)
  show ?thesis
  proof (cases encoding)
    case EncodingDenseV1
    then have "res = Some s" using assms d by (simp add: Decode_def)
    then show ?thesis using o EncodingDenseV1 by (simp add: Decode_def DecodeStatus_def)
  next
    case EncodingColumnarV2
    let ?s = "s\<lparr>InstanceStatuses := rows, InstanceStatusEncoding := None, InstanceStatusColumns := None\<rparr>"
    have r: "res = Some ?s" using assms d EncodingColumnarV2 by (simp add: Decode_def)
    obtain cols where "InstanceStatusColumns s = Some cols"
      using o EncodingColumnarV2 by (auto simp: ObservedEncoding_def split: option.splits if_splits)
    then have "DecodeColumns (Some cols) (maxInstances d) = Inr rows"
      using d o EncodingColumnarV2 by (auto simp: DecodeStatus_def bindE_Inr)
    then have c: "rows \<noteq> [] \<and> length rows \<le> maxInstances d" by (rule DecodeColumns_count)
    then have "0 < maxInstances d" by (cases rows) simp_all
    then show ?thesis using r c EncodingColumnarV2
      by (auto simp: ObservedEncoding_def Decode_def DecodeStatus_def MaxDecodedInstances_def)
  qed
qed

lemma Decode_dense_shape_witness:
  "\<exists>s'. Some sample_status = Some s' \<and> ObservedEncoding (Some s') = Inr EncodingDenseV1 \<and> others s' = others sample_status
    \<and> Decode zeroDecoder (Some s') = Inr (Some s', EncodingDenseV1)
    \<and> (if EncodingDenseV1 = EncodingColumnarV2
        then InstanceStatuses s' \<noteq> [] \<and> length (InstanceStatuses s') \<le> MaxDecodedInstances zeroDecoder \<and> 0 < MaxDecodedInstances zeroDecoder
        else s' = sample_status)"
  by (rule Decode_dense_shape [of zeroDecoder])
    (simp add: Decode_def DecodeStatus_def ObservedEncoding_def sample_status_def)

end
