(* ===== verification/TPU_Slice.thy ===== *)
theory TPU_Slice
  imports Index_Set_Codec
begin

section \<open>TPU slice shapes (pkg/tpuslice/shape.go)\<close>

text \<open>
  A topology is a slice shape of two or three dimensions; pods fill a slice exactly or not at all. The Go
  value is an array of three \<^verbatim>\<open>int64\<close> with a count of the used ones, the unused ones zero: it is the list
  of the used dimensions. Products are taken modulo the 64-bit wrap-around as the code takes them;
  \<open>ParseTopology\<close> is what keeps them exact. Error texts are constructors with the values they carry.
\<close>

subsection \<open>Topologies\<close>

record Topology =
  dims :: "int list"

datatype slice_error =
    WrongDimensionCount
  | NotCanonicalDim string
  | ChipOverflow
  | EmptyTopology
  | BadChipsPerHost int
  | PartialHosts int int
  | NoPods int
  | PodWithoutChips nat
  | UnequalPods int int
  | PodSpansHosts int int
  | PodNotDividingHost int int
  | NotFilled nat int int int
  | KeysUnset
  | NoAccelerator string

definition maxDims :: nat where "maxDims = 3"

definition canonicalDim :: "string \<Rightarrow> bool" where
  "canonicalDim p = (if p = [] \<or> hd p = CHR ''0'' then False else list_all is_digit p)"

fun parseDims :: "string list \<Rightarrow> int \<Rightarrow> int list \<Rightarrow> slice_error + int list" where
  "parseDims [] chips acc = Inr acc"
| "parseDims (p # ps) chips acc =
     (if \<not> canonicalDim p then Inl (NotCanonicalDim p)
      else case ParseDecimal max_int64 p of
          None \<Rightarrow> Inl ChipOverflow
        | Some d \<Rightarrow> if chips > max_int64 sdiv d then Inl ChipOverflow
                   else parseDims ps (wrap64 (chips * d)) (acc @ [d]))"

definition ParseTopology :: "string \<Rightarrow> slice_error + Topology" where
  "ParseTopology s =
     (let parts = Split (CHR ''x'') s
      in if length parts < 2 \<or> length parts > maxDims then Inl WrongDimensionCount
         else bindE (parseDims parts 1 []) (\<lambda>ds. Inr \<lparr>dims = ds\<rparr>))"

definition IsZero :: "Topology \<Rightarrow> bool" where
  "IsZero t \<longleftrightarrow> length (dims t) = 0"

definition topology_String :: "Topology \<Rightarrow> string" where
  "topology_String t = Join (map Itoa (dims t)) ''x''"

definition Chips :: "Topology \<Rightarrow> int" where
  "Chips t = (if IsZero t then 0 else foldl (\<lambda>chips d. wrap64 (chips * d)) 1 (dims t))"

definition Hosts :: "Topology \<Rightarrow> int \<Rightarrow> slice_error + int" where
  "Hosts t chipsPerHost =
     (if IsZero t then Inl EmptyTopology
      else if chipsPerHost \<le> 0 then Inl (BadChipsPerHost chipsPerHost)
      else if Chips t smod chipsPerHost \<noteq> 0 then Inl (PartialHosts (Chips t) chipsPerHost)
      else Inr (Chips t sdiv chipsPerHost))"

fun checkPods :: "int \<Rightarrow> nat \<Rightarrow> int list \<Rightarrow> slice_error option" where
  "checkPods perPod i [] = None"
| "checkPods perPod i (n # ns) =
     (if n \<le> 0 then Some (PodWithoutChips i)
      else if n \<noteq> perPod then Some (UnequalPods perPod n)
      else checkPods perPod (Suc i) ns)"

definition Tile :: "Topology \<Rightarrow> int \<Rightarrow> int list \<Rightarrow> slice_error option" where
  "Tile t chipsPerHost podChips =
     (case Hosts t chipsPerHost of
        Inl e \<Rightarrow> Some e
      | Inr hosts \<Rightarrow>
          (case podChips of
             [] \<Rightarrow> Some (NoPods (Chips t))
           | perPod # _ \<Rightarrow>
               (case checkPods perPod 0 podChips of
                  Some e \<Rightarrow> Some e
                | None \<Rightarrow>
                    if perPod > chipsPerHost then Some (PodSpansHosts perPod chipsPerHost)
                    else if chipsPerHost smod perPod \<noteq> 0 then Some (PodNotDividingHost perPod chipsPerHost)
                    else if Chips t smod perPod \<noteq> 0 \<or> int (length podChips) \<noteq> Chips t sdiv perPod
                      then Some (NotFilled (length podChips) perPod (Chips t) hosts)
                    else None)))"

subsection \<open>What a workload declares\<close>

record Keys =
  keyAccelerator :: string
  keyTopology :: string

record Shape =
  shapeAccelerator :: string
  shapeTopology :: Topology

definition FromNodeSelector :: "(string, string) gomap \<Rightarrow> Keys \<Rightarrow> slice_error + Shape option" where
  "FromNodeSelector nodeSelector keys =
     (if keyAccelerator keys = [] \<or> keyTopology keys = [] then Inl KeysUnset
      else case map_of nodeSelector (keyTopology keys) of
          None \<Rightarrow> Inr None
        | Some raw \<Rightarrow>
            (let accelerator = (case map_of nodeSelector (keyAccelerator keys) of None \<Rightarrow> [] | Some a \<Rightarrow> a)
             in if accelerator = [] then Inl (NoAccelerator raw)
                else bindE (ParseTopology raw) (\<lambda>t. Inr (Some \<lparr>shapeAccelerator = accelerator, shapeTopology = t\<rparr>))))"

text \<open>\<^verbatim>\<open>Value\<close> of \<^verbatim>\<open>resource.Quantity\<close> is the parameter \<open>value\<close>.\<close>

record 'q container =
  limits :: "(string, 'q) gomap"
  requests :: "(string, 'q) gomap"

definition ContainerChips :: "('q \<Rightarrow> int) \<Rightarrow> 'q container list \<Rightarrow> string \<Rightarrow> int" where
  "ContainerChips value containers res =
     foldl (\<lambda>tot c.
        case map_of (limits c) res of
          Some q \<Rightarrow> wrap64 (tot + value q)
        | None \<Rightarrow> (case map_of (requests c) res of Some q \<Rightarrow> wrap64 (tot + value q) | None \<Rightarrow> tot)) 0 containers"

subsection \<open>Well-formed topologies\<close>

definition topology_ok :: "Topology \<Rightarrow> bool" where
  "topology_ok t \<longleftrightarrow> 2 \<le> length (dims t) \<and> length (dims t) \<le> maxDims \<and> (\<forall>d\<in>set (dims t). 1 \<le> d)
     \<and> prod_list (dims t) \<le> max_int64"

lemma canonicalDim_iff: "canonicalDim p \<longleftrightarrow> (\<exists>n>0. p = Itoa_nat n)"
proof
  assume c: "canonicalDim p"
  then have p: "p \<noteq> []" "hd p \<noteq> CHR ''0''" "list_all is_digit p" by (auto simp: canonicalDim_def split: if_splits)
  then have "Itoa_nat (Atoi_nat p) = p" by (intro Itoa_nat_Atoi) (simp add: plain_numeral_def)
  then show "\<exists>n>0. p = Itoa_nat n" using Atoi_pos [OF p(1,3,2)] by metis
next
  assume "\<exists>n>0. p = Itoa_nat n"
  then obtain n where n: "0 < n" "p = Itoa_nat n" by blast
  then show "canonicalDim p"
    using hd_Itoa_nat [OF n(1)] plain_numeral_Itoa [of n] by (simp add: canonicalDim_def plain_numeral_def)
qed

lemma ParseDecimal_Itoa: "ParseDecimal limit (Itoa_nat n) = (if int n > limit then None else Some (int n))"
  using plain_numeral_Itoa [of n] by (simp add: ParseDecimal_def plain_numeral_def)

lemma prod_list_ge_1: "\<forall>d\<in>set ds. 1 \<le> d \<Longrightarrow> 1 \<le> prod_list (ds :: int list)"
proof (induction ds)
  case (Cons d ds)
  then have "1 * 1 \<le> d * prod_list ds" by (intro mult_mono) auto
  then show ?case by simp
qed simp

lemma le_div_iff: "0 < d \<Longrightarrow> a \<le> m div d \<longleftrightarrow> a * d \<le> (m::int)"
proof -
  assume d: "0 < d"
  have m: "m = (m div d) * d + m mod d" "0 \<le> m mod d" "m mod d < d" using d by simp_all
  show ?thesis
  proof
    assume "a \<le> m div d"
    then have "a * d \<le> (m div d) * d" using d by (simp add: mult_right_mono)
    then show "a * d \<le> m" using m(1,2) by linarith
  next
    assume le: "a * d \<le> m"
    show "a \<le> m div d"
    proof (rule ccontr)
      assume "\<not> a \<le> m div d"
      then have "((m div d) + 1) * d \<le> a * d" using d by (intro mult_right_mono) auto
      then show False using le m by (simp add: distrib_right)
    qed
  qed
qed

lemma chips_fit: "1 \<le> d \<Longrightarrow> \<not> chips > max_int64 sdiv d \<longleftrightarrow> chips * d \<le> max_int64"
  using le_div_iff [of d chips max_int64] by (simp add: sdiv_nonneg not_less max_int64_def)

lemma wrap_product: "1 \<le> a \<Longrightarrow> 1 \<le> d \<Longrightarrow> a * d \<le> max_int64 \<Longrightarrow> wrap64 (a * d) = a * d"
  by (rule wrap64_id) (simp add: max_int64_def zero_less_mult_iff order_trans [of _ 0])

lemma parseDims_Inr:
  "1 \<le> chips \<Longrightarrow> chips \<le> max_int64 \<Longrightarrow>
   parseDims ps chips acc = Inr out \<longleftrightarrow>
     (\<exists>ds. ps = map Itoa ds \<and> out = acc @ ds \<and> (\<forall>d\<in>set ds. 1 \<le> d) \<and> chips * prod_list ds \<le> max_int64)"
proof (induction ps arbitrary: chips acc)
  case Nil
  then show ?case by auto
next
  case (Cons p ps)
  show ?case
  proof (cases "canonicalDim p")
    case False
    have "p \<noteq> Itoa d" if d: "1 \<le> d" for d
    proof
      assume "p = Itoa d"
      then have "p = Itoa_nat (nat d) \<and> 0 < nat d" using d by (simp add: Itoa_def)
      then show False using False unfolding canonicalDim_iff by blast
    qed
    then have "\<not> (p # ps = map Itoa ds \<and> (\<forall>d\<in>set ds. 1 \<le> d))" for ds by (cases ds) auto
    then show ?thesis using False by auto
  next
    case True
    then obtain n where n: "0 < n" "p = Itoa_nat n" by (auto simp: canonicalDim_iff)
    define d where "d = int n"
    have d: "1 \<le> d" "p = Itoa d" using n by (simp_all add: d_def Itoa_def)
    have inj: "Itoa e = Itoa d \<longleftrightarrow> e = d" if "1 \<le> e" for e using that d(1) by (auto simp: Itoa_def)
    have split: "(\<exists>ds. p # ps = map Itoa ds \<and> out = acc @ ds \<and> (\<forall>d\<in>set ds. 1 \<le> d) \<and> chips * prod_list ds \<le> max_int64)
        \<longleftrightarrow> (\<exists>ds. ps = map Itoa ds \<and> out = (acc @ [d]) @ ds \<and> (\<forall>d\<in>set ds. 1 \<le> d) \<and> (chips * d) * prod_list ds \<le> max_int64)"
      (is "?L \<longleftrightarrow> ?R")
    proof
      assume ?L
      then obtain e ds where "Itoa e = p" "ps = map Itoa ds" "out = acc @ e # ds" "1 \<le> e" "\<forall>d\<in>set ds. 1 \<le> d"
          "chips * (e * prod_list ds) \<le> max_int64" by (auto simp: Cons_eq_map_conv)
      then show ?R using inj [of e] d(2) by (intro exI [of _ ds]) (simp add: mult.assoc)
    next
      assume ?R
      then obtain ds where "ps = map Itoa ds" "out = (acc @ [d]) @ ds" "\<forall>d\<in>set ds. 1 \<le> d" "(chips * d) * prod_list ds \<le> max_int64" by blast
      then show ?L using d by (intro exI [of _ "d # ds"]) (simp add: mult.assoc)
    qed
    show ?thesis
    proof (cases "d \<le> max_int64 \<and> chips * d \<le> max_int64")
      case fits: True
      have "1 * 1 \<le> chips * d" using Cons.prems(1) d(1) by (intro mult_mono) auto
      then have c1: "1 \<le> chips * d" by simp
      have "parseDims (p # ps) chips acc = parseDims ps (chips * d) (acc @ [d])"
        using True fits chips_fit [OF d(1), of chips] wrap_product [OF Cons.prems(1) d(1)] n
        by (simp add: ParseDecimal_Itoa d_def)
      then show ?thesis using Cons.IH [OF c1, of "acc @ [d]"] fits split by simp
    next
      case big: False
      have "parseDims (p # ps) chips acc = Inl ChipOverflow"
        using True big chips_fit [OF d(1), of chips] n by (auto simp: ParseDecimal_Itoa d_def)
      moreover have "\<not> (chips * d) * prod_list ds \<le> max_int64" if "\<forall>d\<in>set ds. 1 \<le> d" for ds
      proof -
        have "d \<le> chips * d" using Cons.prems(1) d(1) mult_right_mono [of 1 chips d] by simp
        then have "max_int64 < chips * d" using big by linarith
        also have "chips * d \<le> (chips * d) * prod_list ds"
          using prod_list_ge_1 [OF that] Cons.prems(1) d(1) mult_left_mono [of 1 "prod_list ds" "chips * d"] by simp
        finally show ?thesis by simp
      qed
      ultimately show ?thesis using split by auto
    qed
  qed
qed

lemma Split_digits:
  assumes "ds \<noteq> []" "\<forall>d\<in>set ds. 1 \<le> d"
  shows "Split (CHR ''x'') (Join (map Itoa ds) ''x'') = map Itoa ds"
proof (rule Split_Join)
  fix x
  assume "x \<in> set (map Itoa ds)"
  then obtain d where "x = Itoa d" "1 \<le> d" using assms(2) by auto
  then show "CHR ''x'' \<notin> set x" using Itoa_chars [of d "CHR ''x''"] by (auto simp: is_digit_def)
qed (use assms in simp)

lemma ParseTopology_iff: "ParseTopology s = Inr t \<longleftrightarrow> topology_ok t \<and> topology_String t = s"
proof
  assume p: "ParseTopology s = Inr t"
  let ?parts = "Split (CHR ''x'') s"
  have len: "2 \<le> length ?parts" "length ?parts \<le> maxDims" and "parseDims ?parts 1 [] = Inr (dims t)"
    using p by (auto simp: ParseTopology_def Let_def bindE_Inr split: if_splits)
  then have ds: "?parts = map Itoa (dims t)" "\<forall>d\<in>set (dims t). 1 \<le> d" "prod_list (dims t) \<le> max_int64"
    using parseDims_Inr [of 1 ?parts "[]" "dims t"] by (auto simp: max_int64_def)
  have "Join ?parts ''x'' = s" by (rule Join_Split)
  then show "topology_ok t \<and> topology_String t = s"
    using ds len length_map [of Itoa "dims t"] by (simp add: topology_ok_def topology_String_def)
next
  assume t: "topology_ok t \<and> topology_String t = s"
  have ne: "dims t \<noteq> []" using t by (auto simp: topology_ok_def)
  have sp: "Split (CHR ''x'') s = map Itoa (dims t)"
    using Split_digits [OF ne] t by (auto simp: topology_ok_def topology_String_def)
  have "parseDims (map Itoa (dims t)) 1 [] = Inr (dims t)"
    using parseDims_Inr [of 1 "map Itoa (dims t)" "[]" "dims t"] t by (auto simp: topology_ok_def max_int64_def)
  then show "ParseTopology s = Inr t"
    using t by (simp add: ParseTopology_def sp topology_ok_def not_less)
qed

interpretation topology_codec: codec topology_String ParseTopology topology_ok
  by unfold_locales (simp_all add: ParseTopology_iff)

subsection \<open>Counting\<close>

lemma Chips_product: "topology_ok t \<Longrightarrow> Chips t = prod_list (dims t)"
proof -
  assume t: "topology_ok t"
  have "foldl (\<lambda>chips d. wrap64 (chips * d)) a ds = a * prod_list ds"
    if "1 \<le> a" "\<forall>d\<in>set ds. 1 \<le> d" "a * prod_list ds \<le> max_int64" for a ds
    using that
  proof (induction ds arbitrary: a)
    case (Cons d ds)
    have p: "1 \<le> prod_list ds" using prod_list_ge_1 [of ds] Cons.prems(2) by simp
    have ad: "1 * 1 \<le> a * d" using Cons.prems by (intro mult_mono) auto
    have "a * d \<le> (a * d) * prod_list ds" using p ad mult_left_mono [of 1 "prod_list ds" "a * d"] by simp
    then have le: "a * d \<le> max_int64" using Cons.prems(3) by (simp add: mult.assoc)
    then have "wrap64 (a * d) = a * d" using wrap_product [of a d] Cons.prems by simp
    then show ?case using Cons.IH [of "a * d"] ad Cons.prems by (simp add: mult.assoc)
  qed simp
  from this [of 1 "dims t"] show "Chips t = prod_list (dims t)"
    using t by (auto simp: Chips_def IsZero_def topology_ok_def)
qed

lemma checkPods_None: "checkPods k i ns = None \<longleftrightarrow> (\<forall>n\<in>set ns. 0 < n \<and> n = k)"
  by (induction ns arbitrary: i) auto

lemma smod_zero_iff: "0 \<le> a \<Longrightarrow> 0 < b \<Longrightarrow> a smod b \<noteq> 0 \<longleftrightarrow> \<not> b dvd (a :: int)"
  by (simp add: smod_nonneg dvd_eq_mod_eq_0)

lemma Hosts_iff:
  assumes "topology_ok t"
  shows "Hosts t c = Inr h \<longleftrightarrow> 0 < c \<and> c dvd prod_list (dims t) \<and> h = prod_list (dims t) div c"
proof -
  have nz: "\<not> IsZero t" using assms by (auto simp: topology_ok_def IsZero_def)
  have pos: "0 \<le> Chips t" using prod_list_ge_1 [of "dims t"] assms by (simp add: Chips_product topology_ok_def)
  show ?thesis
  proof (cases "0 < c")
    case True
    then show ?thesis using nz smod_zero_iff [OF pos True] sdiv_nonneg [OF pos True] Chips_product [OF assms]
      by (auto simp: Hosts_def)
  qed (use nz in \<open>auto simp: Hosts_def\<close>)
qed

lemma Tile_None:
  assumes ok: "topology_ok t"
  shows "Tile t c pods = None \<longleftrightarrow>
    (\<exists>k. pods \<noteq> [] \<and> (\<forall>n\<in>set pods. n = k) \<and> 0 < k \<and> 0 < c \<and> k dvd c \<and> c dvd prod_list (dims t)
       \<and> int (length pods) * k = prod_list (dims t))"
proof (cases pods)
  case Nil
  then show ?thesis by (auto simp: Tile_def split: sum.splits)
next
  case (Cons k ks)
  let ?P = "prod_list (dims t)"
  have P: "0 \<le> ?P" "Chips t = ?P" using prod_list_ge_1 [of "dims t"] ok by (simp_all add: Chips_product topology_ok_def)
  have all: "(\<exists>k'. pods \<noteq> [] \<and> (\<forall>n\<in>set pods. n = k') \<and> R k') \<longleftrightarrow> (\<forall>n\<in>set pods. n = k) \<and> R k" for R
    using Cons by auto
  show ?thesis
  proof (cases "(\<exists>h. Hosts t c = Inr h) \<and> (\<forall>n\<in>set pods. 0 < n \<and> n = k)")
    case False
    then have "Tile t c pods \<noteq> None"
      using checkPods_None [of k 0 pods] Cons by (auto simp: Tile_def split: sum.splits option.splits)
    moreover have "\<not> ((\<forall>n\<in>set pods. n = k) \<and> 0 < k \<and> 0 < c \<and> k dvd c \<and> c dvd ?P \<and> int (length pods) * k = ?P)"
      using False Hosts_iff [OF ok, of c] by auto
    ultimately show ?thesis unfolding all by blast
  next
    case True
    then obtain h where h: "Hosts t c = Inr h" by blast
    have c: "0 < c" "c dvd ?P" using h by (simp_all add: Hosts_iff [OF ok])
    have k: "0 < k" "\<forall>n\<in>set pods. n = k" using True Cons by auto
    have eq: "int (length pods) = ?P div k \<longleftrightarrow> int (length pods) * k = ?P" if "k dvd ?P"
      using that k(1) by (metis dvd_div_mult_self nonzero_mult_div_cancel_right order_less_irrefl)
    have "Tile t c pods = None \<longleftrightarrow> \<not> k > c \<and> \<not> c smod k \<noteq> 0 \<and> \<not> (?P smod k \<noteq> 0 \<or> int (length pods) \<noteq> ?P sdiv k)"
    proof -
      have cp: "checkPods k 0 (k # ks) = None" using True checkPods_None [of k 0 pods] Cons by simp
      show ?thesis unfolding Tile_def h sum.case Cons list.case cp option.case P(2) by (simp split: if_split)
    qed
    also have "\<dots> \<longleftrightarrow> k \<le> c \<and> k dvd c \<and> k dvd ?P \<and> int (length pods) * k = ?P"
      using smod_zero_iff [OF _ k(1), of c] smod_zero_iff [OF P(1) k(1)] sdiv_nonneg [OF P(1) k(1)] c(1) eq by auto
    also have "\<dots> \<longleftrightarrow> k dvd c \<and> int (length pods) * k = ?P"
    proof -
      have "int (length pods) * k = ?P \<Longrightarrow> k dvd ?P" by (metis dvd_triv_right)
      moreover have "k dvd c \<Longrightarrow> k \<le> c" using c(1) by (rule zdvd_imp_le [rotated])
      ultimately show ?thesis by blast
    qed
    finally show ?thesis unfolding all using c k by blast
  qed
qed

subsection \<open>Properties\<close>

text \<open>
  C38: \<open>ParseTopology\<close> accepts exactly the printed forms of topologies of two or three positive dimensions
  whose chip count fits a 64-bit integer, and \<open>String\<close> of the result is the input; the chip count of an
  accepted topology is the product of its dimensions, without wrap-around.
\<close>

theorem ParseTopology_roundtrip:
  "ParseTopology s = Inr t \<longleftrightarrow> (topology_ok t \<and> topology_String t = s \<and> Chips t = prod_list (dims t))"
  using topology_codec.dec_iff [of s t] Chips_product [of t] by blast

text \<open>
  C37: \<open>Tile\<close> accepts pods on a parsed topology exactly when they fill it: at least one pod, every pod
  requesting the same positive number of chips, that number dividing the chips of a host, the topology a
  whole number of hosts, and the requests adding up to the chips of the topology.
\<close>

theorem Tile_exact:
  assumes "ParseTopology s = Inr t"
  shows "Tile t c pods = None \<longleftrightarrow>
    (\<exists>k. pods \<noteq> [] \<and> (\<forall>n\<in>set pods. n = k) \<and> 0 < k \<and> 0 < c \<and> k dvd c \<and> c dvd prod_list (dims t)
       \<and> sum_list pods = prod_list (dims t))"
proof -
  have ok: "topology_ok t" using assms by (simp add: ParseTopology_iff)
  have "sum_list pods = int (length pods) * k" if "\<forall>n\<in>set pods. n = k" for k
    using that by (induction pods) (auto simp: distrib_right)
  then show ?thesis unfolding Tile_None [OF ok] by (intro ex_cong) auto
qed

lemma Tile_exact_witness:
  "Tile \<lparr>dims = [2, 4]\<rparr> 4 [4, 4] = None \<longleftrightarrow>
    (\<exists>k::int. [4, 4 :: int] \<noteq> [] \<and> (\<forall>n\<in>set [4, 4]. n = k) \<and> 0 < k \<and> 0 < (4 :: int) \<and> k dvd 4
       \<and> 4 dvd prod_list (dims \<lparr>dims = [2, 4]\<rparr>) \<and> sum_list [4, 4] = prod_list (dims \<lparr>dims = [2, 4]\<rparr>))"
  by (rule Tile_exact [of "''2x4''"]) code_simp

end
