(* ===== verification/Model_Version.thy ===== *)
theory Model_Version
  imports Go_Strings
begin

section \<open>Model framework versions (pkg/modelver/util.go)\<close>

text \<open>
  Parsing a version string and comparing two versions. The numbers are \<^verbatim>\<open>uint64\<close>: \<open>ParseDecimal\<close> with
  the 64-bit limit refuses larger ones. Error texts are constructors with the field and the text at fault.
\<close>

definition max_uint64 :: int where "max_uint64 = 18446744073709551615"

datatype part = MajorPart | MinorPart | PatchPart | PrereleasePart | BuildPart | DevPart

datatype version_error =
    VersionEmpty
  | InvalidCharacters part string
  | LeadingZeroes part string
  | NotUint64 string
  | MetaEmpty part

record Version =
  Major :: int
  MajorPrefix :: string
  Minor :: int
  Patch :: int
  Pre :: "string list"
  Build :: "string list"
  Dev :: "string list"
  Precision :: nat

definition containsOnlyNumbers :: "string \<Rightarrow> bool" where
  "containsOnlyNumbers s = list_all is_digit s"

definition hasLeadingZeroes :: "string \<Rightarrow> bool" where
  "hasLeadingZeroes s \<longleftrightarrow> length s > 1 \<and> hd s = CHR ''0''"

definition parseNumeric :: "string \<Rightarrow> part \<Rightarrow> version_error + int" where
  "parseNumeric s field =
     (if \<not> containsOnlyNumbers s then Inl (InvalidCharacters field s)
      else if hasLeadingZeroes s then Inl (LeadingZeroes field s)
      else case ParseDecimal max_uint64 s of None \<Rightarrow> Inl (NotUint64 s) | Some n \<Rightarrow> Inr n)"

definition acceptedMajorVersionPrefixes :: "string list" where
  "acceptedMajorVersionPrefixes = [''v'']"

fun stripPrefix :: "string list \<Rightarrow> string \<Rightarrow> string \<times> string" where
  "stripPrefix [] s = ([], s)"
| "stripPrefix (p # ps) s = (if take (length p) s = p then (p, drop (length p) s) else stripPrefix ps s)"

text \<open>Cutting a suffix off at the first occurrence of a separator, split at the dots.\<close>

definition cutMeta :: "char \<Rightarrow> string \<Rightarrow> string list \<times> string" where
  "cutMeta sep s =
     (case dropWhile (\<lambda>c. c \<noteq> sep) s of
        [] \<Rightarrow> ([], s)
      | _ # rest \<Rightarrow> (Split (CHR ''.'') rest, takeWhile (\<lambda>c. c \<noteq> sep) s))"

definition checkMeta :: "part \<Rightarrow> string list \<Rightarrow> version_error + string list" where
  "checkMeta field strs = (if list_ex (\<lambda>x. x = []) strs then Inl (MetaEmpty field) else Inr strs)"

definition Parse :: "string \<Rightarrow> version_error + Version" where
  "Parse s =
     (if s = [] then Inl VersionEmpty
      else let parts = SplitN (CHR ''.'') s 3; precision = length parts;
               (majorPrefix, majorStr) = stripPrefix acceptedMajorVersionPrefixes (parts ! 0)
           in bindE (parseNumeric majorStr MajorPart) (\<lambda>major.
              bindE (parseNumeric (if precision > 1 then parts ! 1 else ''0'') MinorPart) (\<lambda>minor.
              let (build, patchStr1) = cutMeta (CHR ''+'') (if precision > 2 then parts ! 2 else ''0'');
                  (prerelease, patchStr2) = cutMeta (CHR ''-'') patchStr1;
                  (dev, patchStr3) = cutMeta (CHR ''.'') patchStr2
              in bindE (parseNumeric patchStr3 PatchPart) (\<lambda>patch.
                 bindE (checkMeta PrereleasePart prerelease) (\<lambda>pre.
                 bindE (checkMeta BuildPart build) (\<lambda>bld.
                 bindE (checkMeta DevPart dev) (\<lambda>dv.
                   Inr \<lparr>Major = major, MajorPrefix = majorPrefix, Minor = minor, Patch = patch, Pre = pre,
                        Build = bld, Dev = dv, Precision = precision\<rparr>)))))))"

definition ContainsUnofficialVersion :: "Version \<Rightarrow> bool" where
  "ContainsUnofficialVersion v \<longleftrightarrow> length (Pre v) > 0 \<or> length (Build v) > 0 \<or> length (Dev v) > 0"

definition compareUint64 :: "int \<Rightarrow> int \<Rightarrow> int" where
  "compareUint64 a b = (if a > b then 1 else if a < b then -1 else 0)"

definition strings_Compare :: "string \<Rightarrow> string \<Rightarrow> int" where
  "strings_Compare a b = (if a = b then 0 else if a < b then -1 else 1)"

fun compareStringSlices :: "string list \<Rightarrow> string list \<Rightarrow> int" where
  "compareStringSlices (a # as) (b # bs) = (if a \<noteq> b then strings_Compare a b else compareStringSlices as bs)"
| "compareStringSlices as bs = compareUint64 (int (length as)) (int (length bs))"

definition CompareVersion :: "Version \<Rightarrow> Version \<Rightarrow> int" where
  "CompareVersion v w =
     (let c1 = compareUint64 (Major v) (Major w); c2 = compareUint64 (Minor v) (Minor w);
          c3 = compareUint64 (Patch v) (Patch w); c4 = compareStringSlices (Pre v) (Pre w);
          c5 = compareStringSlices (Build v) (Build w); c6 = compareStringSlices (Dev v) (Dev w)
      in if c1 \<noteq> 0 then c1 else if c2 \<noteq> 0 then c2 else if c3 \<noteq> 0 then c3
         else if c4 \<noteq> 0 then c4 else if c5 \<noteq> 0 then c5 else if c6 \<noteq> 0 then c6 else 0)"

definition version_Equal :: "Version \<Rightarrow> Version \<Rightarrow> bool" where
  "version_Equal v w \<longleftrightarrow> CompareVersion v w = 0"

definition GreaterThan :: "Version \<Rightarrow> Version \<Rightarrow> bool" where
  "GreaterThan v w \<longleftrightarrow> CompareVersion v w = 1"

definition GreaterThanOrEqual :: "Version \<Rightarrow> Version \<Rightarrow> bool" where
  "GreaterThanOrEqual v w \<longleftrightarrow> CompareVersion v w \<ge> 0"

subsection \<open>The order that is compared\<close>

text \<open>The fields compared, under the lexicographic order.\<close>

definition sort_key_of :: "Version \<Rightarrow> int \<times> int \<times> int \<times> string list \<times> string list \<times> string list" where
  "sort_key_of v = (Major v, Minor v, Patch v, Pre v, Build v, Dev v)"

definition three_way :: "'a::linorder \<Rightarrow> 'a \<Rightarrow> int" where
  "three_way a b = (if a < b then -1 else if a = b then 0 else 1)"

lemma three_way_prod: "three_way (a, x) (b, y) = (if three_way a b \<noteq> 0 then three_way a b else three_way x y)"
  by (auto simp: three_way_def)

lemma three_way_zero [simp]: "three_way a b = 0 \<longleftrightarrow> a = b"
  by (auto simp: three_way_def)

lemma compareUint64_three_way: "compareUint64 a b = three_way a b"
  by (simp add: compareUint64_def three_way_def)

lemma Nil_less_iff: "[] < bs \<longleftrightarrow> bs \<noteq> ([] :: 'a::order list)"
  by (cases bs) simp_all

lemma compareStringSlices_three_way: "compareStringSlices as bs = three_way as bs"
  by (induction as bs rule: compareStringSlices.induct)
    (auto simp: three_way_def strings_Compare_def compareUint64_def Nil_less_iff)

lemma CompareVersion_three_way: "CompareVersion v w = three_way (sort_key_of v) (sort_key_of w)"
  by (simp add: CompareVersion_def sort_key_of_def three_way_prod compareUint64_three_way compareStringSlices_three_way Let_def)

subsection \<open>Plain versions\<close>

lemma parseNumeric_Itoa: "0 \<le> n \<Longrightarrow> n \<le> max_uint64 \<Longrightarrow> parseNumeric (Itoa n) field = Inr n"
  using plain_numeral_Itoa [of "nat n"]
  by (auto simp: parseNumeric_def containsOnlyNumbers_def hasLeadingZeroes_def plain_numeral_def ParseDecimal_def Itoa_def)

lemma parseNumeric_Inr:
  "parseNumeric s field = Inr n \<longleftrightarrow> 0 \<le> n \<and> n \<le> max_uint64 \<and> s = Itoa n"
proof
  assume p: "parseNumeric s field = Inr n"
  then have "plain_numeral s" "n = int (Atoi_nat s)" "n \<le> max_uint64"
    by (auto simp: parseNumeric_def containsOnlyNumbers_def hasLeadingZeroes_def plain_numeral_def ParseDecimal_def split: if_splits)
  then show "0 \<le> n \<and> n \<le> max_uint64 \<and> s = Itoa n" using Itoa_nat_Atoi [of s] by (simp add: Itoa_def)
qed (simp add: parseNumeric_Itoa)

subsection \<open>The printed form\<close>

text \<open>
  The code has no printer; \<open>render\<close> writes a version the way the comment on \<^verbatim>\<open>Parse\<close> lists them, and the
  parser turns out to accept exactly these spellings.
\<close>

definition metaText :: "char \<Rightarrow> string list \<Rightarrow> string" where
  "metaText sep xs = (if xs = [] then [] else sep # Join xs ''.'')"

definition patchText :: "Version \<Rightarrow> string" where
  "patchText v = ((Itoa (Patch v) @ metaText (CHR ''.'') (Dev v)) @ metaText (CHR ''-'') (Pre v)) @ metaText (CHR ''+'') (Build v)"

definition render :: "Version \<Rightarrow> string" where
  "render v = MajorPrefix v @ Itoa (Major v)
     @ (if Precision v > 1 then CHR ''.'' # Itoa (Minor v) @ (if Precision v > 2 then CHR ''.'' # patchText v else []) else [])"

definition meta_ok :: "char set \<Rightarrow> string list \<Rightarrow> bool" where
  "meta_ok forbidden xs \<longleftrightarrow> (\<forall>x\<in>set xs. x \<noteq> [] \<and> set x \<inter> forbidden = {})"

definition is_uint64 :: "int \<Rightarrow> bool" where
  "is_uint64 n \<longleftrightarrow> 0 \<le> n \<and> n \<le> max_uint64"

definition version_ok :: "Version \<Rightarrow> bool" where
  "version_ok v \<longleftrightarrow> MajorPrefix v \<in> {[], ''v''} \<and> is_uint64 (Major v) \<and> is_uint64 (Minor v) \<and> is_uint64 (Patch v)
     \<and> Precision v \<in> {1, 2, 3} \<and> (Precision v < 2 \<longrightarrow> Minor v = 0)
     \<and> (Precision v < 3 \<longrightarrow> Patch v = 0 \<and> Pre v = [] \<and> Build v = [] \<and> Dev v = [])
     \<and> meta_ok {CHR ''.'', CHR ''-'', CHR ''+''} (Dev v) \<and> meta_ok {CHR ''.'', CHR ''+''} (Pre v) \<and> meta_ok {CHR ''.''} (Build v)"

lemma cutMeta_iff:
  "cutMeta sep s = (xs, t) \<longleftrightarrow> sep \<notin> set t \<and> (\<forall>x\<in>set xs. CHR ''.'' \<notin> set x) \<and> s = t @ metaText sep xs"
proof
  assume c: "cutMeta sep s = (xs, t)"
  show "sep \<notin> set t \<and> (\<forall>x\<in>set xs. CHR ''.'' \<notin> set x) \<and> s = t @ metaText sep xs"
  proof (cases "dropWhile (\<lambda>c. c \<noteq> sep) s")
    case Nil
    have "xs = []" "t = s" using c unfolding cutMeta_def Nil by simp_all
    moreover have "sep \<notin> set s" using Nil cut_at(1) by fastforce
    ultimately show ?thesis by (simp add: metaText_def)
  next
    case (Cons d rest)
    have x: "xs = Split (CHR ''.'') rest" "t = takeWhile (\<lambda>c. c \<noteq> sep) s" using c unfolding cutMeta_def Cons by simp_all
    then have "s = t @ metaText sep xs" using cut_parts(1) [OF Cons] by (simp add: metaText_def Join_Split)
    then show ?thesis using x cut_parts(2) [OF Cons] Split_no_sep by auto
  qed
next
  assume h: "sep \<notin> set t \<and> (\<forall>x\<in>set xs. CHR ''.'' \<notin> set x) \<and> s = t @ metaText sep xs"
  show "cutMeta sep s = (xs, t)"
  proof (cases "xs = []")
    case True
    then have s: "s = t" "dropWhile (\<lambda>c. c \<noteq> sep) t = []" using h by (auto simp: metaText_def)
    show ?thesis using True unfolding cutMeta_def s by simp
  next
    case False
    then have s: "s = t @ sep # Join xs ''.''" using h by (simp add: metaText_def)
    have "Split (CHR ''.'') (Join xs ''.'') = xs" using Split_Join [OF False] h by blast
    then show ?thesis unfolding cutMeta_def s using h by (simp add: cut_at)
  qed
qed

lemma checkMeta_Inr: "checkMeta field xs = Inr ys \<longleftrightarrow> ys = xs \<and> (\<forall>x\<in>set xs. x \<noteq> [])"
  by (auto simp: checkMeta_def list_ex_iff)

lemma metaText_chars: "c \<noteq> sep \<Longrightarrow> c \<noteq> CHR ''.'' \<Longrightarrow> c \<in> set (metaText sep xs) \<longleftrightarrow> (\<exists>x\<in>set xs. c \<in> set x)"
  by (auto simp: metaText_def Join_chars)

lemma Itoa_first: "0 \<le> n \<Longrightarrow> c \<in> set (Itoa n) \<Longrightarrow> is_digit c"
  by (simp add: Itoa_def Itoa_nat_digits)

lemma strip_numeric:
  "stripPrefix acceptedMajorVersionPrefixes a = (p, ms) \<and> parseNumeric ms field = Inr n
     \<longleftrightarrow> p \<in> {[], ''v''} \<and> is_uint64 n \<and> a = p @ Itoa n \<and> ms = Itoa n"
proof -
  have "take 1 (Itoa n) \<noteq> ''v''" if "0 \<le> n"
    using Itoa_first [OF that, of "CHR ''v''"] by (cases "Itoa n") (auto simp: is_digit_def)
  moreover have "take 1 a = ''v'' \<longleftrightarrow> (\<exists>r. a = ''v'' @ r)" by (cases a) auto
  ultimately show ?thesis
    by (auto simp: acceptedMajorVersionPrefixes_def parseNumeric_Inr is_uint64_def split: if_splits)
qed

lemma patch_cuts:
  "(cutMeta (CHR ''+'') t = (b, p1) \<and> cutMeta (CHR ''-'') p1 = (pr, p2) \<and> cutMeta (CHR ''.'') p2 = (d, p3)
      \<and> parseNumeric p3 field = Inr n \<and> (\<forall>x\<in>set pr \<union> set b \<union> set d. x \<noteq> []))
   \<longleftrightarrow> is_uint64 n \<and> p3 = Itoa n \<and> p2 = p3 @ metaText (CHR ''.'') d \<and> p1 = p2 @ metaText (CHR ''-'') pr
      \<and> t = p1 @ metaText (CHR ''+'') b \<and> meta_ok {CHR ''.'', CHR ''-'', CHR ''+''} d \<and> meta_ok {CHR ''.'', CHR ''+''} pr
      \<and> meta_ok {CHR ''.''} b"
  (is "?L \<longleftrightarrow> ?R")
proof -
  have dig: "c \<notin> set (Itoa n)" if "is_uint64 n" "c \<in> {CHR ''+'', CHR ''-'', CHR ''.''}" for c
    using Itoa_first [of n c] that by (auto simp: is_uint64_def is_digit_def)
  have n: "parseNumeric p3 field = Inr n \<longleftrightarrow> is_uint64 n \<and> p3 = Itoa n" by (auto simp: parseNumeric_Inr is_uint64_def)
  note mc = metaText_chars [of "CHR ''+''" "CHR ''-''" pr] metaText_chars [of "CHR ''+''" "CHR ''.''" d] metaText_chars [of "CHR ''-''" "CHR ''.''" d]
  show ?thesis
  proof (cases "is_uint64 n \<and> p3 = Itoa n \<and> p2 = p3 @ metaText (CHR ''.'') d \<and> p1 = p2 @ metaText (CHR ''-'') pr
      \<and> t = p1 @ metaText (CHR ''+'') b")
    case False
    then show ?thesis unfolding n cutMeta_iff by blast
  next
    case True
    have plus: "CHR ''+'' \<notin> set p1 \<longleftrightarrow> (\<forall>x\<in>set pr \<union> set d. CHR ''+'' \<notin> set x)"
      using True dig [of "CHR ''+''"] mc(1,2) by auto
    have minus: "CHR ''-'' \<notin> set p2 \<longleftrightarrow> (\<forall>x\<in>set d. CHR ''-'' \<notin> set x)"
      using True dig [of "CHR ''-''"] mc(3) by auto
    have dot: "CHR ''.'' \<notin> set p3" using True dig [of "CHR ''.''"] by auto
    have "?L \<longleftrightarrow> (CHR ''+'' \<notin> set p1 \<and> (\<forall>x\<in>set b. CHR ''.'' \<notin> set x)) \<and> (CHR ''-'' \<notin> set p2 \<and> (\<forall>x\<in>set pr. CHR ''.'' \<notin> set x))
        \<and> (\<forall>x\<in>set d. CHR ''.'' \<notin> set x) \<and> (\<forall>x\<in>set pr \<union> set b \<union> set d. x \<noteq> [])"
      unfolding n cutMeta_iff using True dot by blast
    also have "\<dots> \<longleftrightarrow> meta_ok {CHR ''.'', CHR ''-'', CHR ''+''} d \<and> meta_ok {CHR ''.'', CHR ''+''} pr \<and> meta_ok {CHR ''.''} b"
      unfolding plus minus meta_ok_def by auto
    finally show ?thesis using True by blast
  qed
qed

lemma Parse_parts:
  assumes "s \<noteq> []" "SplitN (CHR ''.'') s 3 = parts"
  shows "Parse s = Inr v \<longleftrightarrow> MajorPrefix v \<in> {[], ''v''} \<and> is_uint64 (Major v) \<and> parts ! 0 = MajorPrefix v @ Itoa (Major v)
     \<and> is_uint64 (Minor v) \<and> (if length parts > 1 then parts ! 1 else ''0'') = Itoa (Minor v)
     \<and> is_uint64 (Patch v) \<and> (if length parts > 2 then parts ! 2 else ''0'') = patchText v
     \<and> meta_ok {CHR ''.'', CHR ''-'', CHR ''+''} (Dev v) \<and> meta_ok {CHR ''.'', CHR ''+''} (Pre v) \<and> meta_ok {CHR ''.''} (Build v)
     \<and> Precision v = length parts"
proof -
  let ?t = "if length parts > 2 then parts ! 2 else ''0''" and ?m = "if length parts > 1 then parts ! 1 else ''0''"
  obtain p ms where p: "stripPrefix acceptedMajorVersionPrefixes (parts ! 0) = (p, ms)" by (rule prod.exhaust)
  obtain b p1 where b: "cutMeta (CHR ''+'') ?t = (b, p1)" by (rule prod.exhaust)
  obtain pr p2 where pr: "cutMeta (CHR ''-'') p1 = (pr, p2)" by (rule prod.exhaust)
  obtain d p3 where d: "cutMeta (CHR ''.'') p2 = (d, p3)" by (rule prod.exhaust)
  have "Parse s = Inr v \<longleftrightarrow> parseNumeric ms MajorPart = Inr (Major v) \<and> parseNumeric ?m MinorPart = Inr (Minor v)
      \<and> parseNumeric p3 PatchPart = Inr (Patch v) \<and> (\<forall>x\<in>set pr \<union> set b \<union> set d. x \<noteq> [])
      \<and> MajorPrefix v = p \<and> Pre v = pr \<and> Build v = b \<and> Dev v = d \<and> Precision v = length parts"
    unfolding Parse_def Let_def assms(2) p b pr d prod.case using assms(1)
    by (cases v) (auto simp: bindE_Inr checkMeta_Inr)
  also have "\<dots> \<longleftrightarrow> (stripPrefix acceptedMajorVersionPrefixes (parts ! 0) = (MajorPrefix v, ms) \<and> parseNumeric ms MajorPart = Inr (Major v))
      \<and> parseNumeric ?m MinorPart = Inr (Minor v)
      \<and> (cutMeta (CHR ''+'') ?t = (Build v, p1) \<and> cutMeta (CHR ''-'') p1 = (Pre v, p2) \<and> cutMeta (CHR ''.'') p2 = (Dev v, p3)
          \<and> parseNumeric p3 PatchPart = Inr (Patch v) \<and> (\<forall>x\<in>set (Pre v) \<union> set (Build v) \<union> set (Dev v). x \<noteq> []))
      \<and> Precision v = length parts"
    unfolding p b pr d prod.inject by blast
  also have "\<dots> \<longleftrightarrow> (MajorPrefix v \<in> {[], ''v''} \<and> is_uint64 (Major v) \<and> parts ! 0 = MajorPrefix v @ Itoa (Major v) \<and> ms = Itoa (Major v))
      \<and> (is_uint64 (Minor v) \<and> ?m = Itoa (Minor v))
      \<and> (is_uint64 (Patch v) \<and> p3 = Itoa (Patch v) \<and> p2 = p3 @ metaText (CHR ''.'') (Dev v) \<and> p1 = p2 @ metaText (CHR ''-'') (Pre v)
      \<and> ?t = p1 @ metaText (CHR ''+'') (Build v) \<and> meta_ok {CHR ''.'', CHR ''-'', CHR ''+''} (Dev v) \<and> meta_ok {CHR ''.'', CHR ''+''} (Pre v)
      \<and> meta_ok {CHR ''.''} (Build v)) \<and> Precision v = length parts"
    unfolding strip_numeric patch_cuts by (simp only: parseNumeric_Inr is_uint64_def conj_assoc)
  finally have big: "Parse s = Inr v \<longleftrightarrow> \<dots>" .
  show ?thesis
  proof
    assume "Parse s = Inr v"
    then show "MajorPrefix v \<in> {[], ''v''} \<and> is_uint64 (Major v) \<and> parts ! 0 = MajorPrefix v @ Itoa (Major v)
     \<and> is_uint64 (Minor v) \<and> ?m = Itoa (Minor v) \<and> is_uint64 (Patch v) \<and> ?t = patchText v
     \<and> meta_ok {CHR ''.'', CHR ''-'', CHR ''+''} (Dev v) \<and> meta_ok {CHR ''.'', CHR ''+''} (Pre v) \<and> meta_ok {CHR ''.''} (Build v)
     \<and> Precision v = length parts" unfolding big patchText_def by blast
  next
    assume h: "MajorPrefix v \<in> {[], ''v''} \<and> is_uint64 (Major v) \<and> parts ! 0 = MajorPrefix v @ Itoa (Major v)
     \<and> is_uint64 (Minor v) \<and> ?m = Itoa (Minor v) \<and> is_uint64 (Patch v) \<and> ?t = patchText v
     \<and> meta_ok {CHR ''.'', CHR ''-'', CHR ''+''} (Dev v) \<and> meta_ok {CHR ''.'', CHR ''+''} (Pre v) \<and> meta_ok {CHR ''.''} (Build v)
     \<and> Precision v = length parts"
    have ms: "ms = Itoa (Major v)" using strip_numeric [of "parts ! 0" "MajorPrefix v" "Itoa (Major v)" MajorPart "Major v"] h p by simp
    let ?p2 = "Itoa (Patch v) @ metaText (CHR ''.'') (Dev v)"
    let ?p1 = "?p2 @ metaText (CHR ''-'') (Pre v)"
    have "cutMeta (CHR ''+'') ?t = (Build v, ?p1) \<and> cutMeta (CHR ''-'') ?p1 = (Pre v, ?p2) \<and> cutMeta (CHR ''.'') ?p2 = (Dev v, Itoa (Patch v))"
      using patch_cuts [of ?t "Build v" ?p1 "Pre v" ?p2 "Dev v" "Itoa (Patch v)" PatchPart "Patch v"] h unfolding patchText_def by blast
    then have "p1 = ?p1" "p2 = ?p2" "p3 = Itoa (Patch v)" using b pr d by auto
    then show "Parse s = Inr v" unfolding big using h ms unfolding patchText_def by blast
  qed
qed

lemma Itoa_no_dot: "is_uint64 n \<Longrightarrow> CHR ''.'' \<notin> set (Itoa n)"
  using Itoa_first [of n "CHR ''.''"] by (auto simp: is_uint64_def is_digit_def)

lemma Itoa_zero: "''0'' = Itoa n \<longleftrightarrow> n = 0"
proof -
  have "char_of (48 :: nat) = CHR ''0''" by code_simp
  then have z: "''0'' = Itoa_nat 0" by (simp add: Itoa_nat.simps digit_def)
  show ?thesis unfolding z by (auto simp: Itoa_def) (metis Itoa_nat_digits list.set_intros(1) not_digit(1))
qed

lemma patchText_zero:
  assumes "is_uint64 (Patch v)"
  shows "''0'' = patchText v \<longleftrightarrow> Patch v = 0 \<and> Dev v = [] \<and> Pre v = [] \<and> Build v = []"
proof
  assume z: "''0'' = patchText v"
  then have "length (patchText v) = 1" by (metis length_Cons list.size(3) One_nat_def)
  moreover have "0 < length (Itoa (Patch v))" by (simp add: Itoa_def)
  ultimately have "metaText (CHR ''.'') (Dev v) = []" "metaText (CHR ''-'') (Pre v) = []" "metaText (CHR ''+'') (Build v) = []"
    unfolding patchText_def length_append length_0_conv [symmetric] by linarith+
  then show "Patch v = 0 \<and> Dev v = [] \<and> Pre v = [] \<and> Build v = []"
    using z Itoa_zero [of "Patch v"] by (auto simp: patchText_def metaText_def split: if_splits)
next
  assume "Patch v = 0 \<and> Dev v = [] \<and> Pre v = [] \<and> Build v = []"
  then show "''0'' = patchText v" using Itoa_zero [of 0] by (simp add: patchText_def metaText_def)
qed

definition headText :: "Version \<Rightarrow> string" where
  "headText v = MajorPrefix v @ Itoa (Major v)"

definition head_ok :: "Version \<Rightarrow> bool" where
  "head_ok v \<longleftrightarrow> MajorPrefix v \<in> {[], ''v''} \<and> is_uint64 (Major v)"

lemma headText_no_dot: "head_ok v \<Longrightarrow> CHR ''.'' \<notin> set (headText v)"
  using Itoa_no_dot [of "Major v"] by (auto simp: headText_def head_ok_def)

lemma render_cases:
  "Precision v = 1 \<Longrightarrow> render v = headText v"
  "Precision v = 2 \<Longrightarrow> render v = headText v @ CHR ''.'' # Itoa (Minor v)"
  "Precision v = 3 \<Longrightarrow> render v = headText v @ CHR ''.'' # Itoa (Minor v) @ CHR ''.'' # patchText v"
  by (simp_all add: render_def headText_def)

lemma Parse_iff: "Parse s = Inr v \<longleftrightarrow> version_ok v \<and> render v = s"
proof (cases "s = []")
  case True
  have "render v \<noteq> []" by (simp add: render_def Itoa_def)
  then show ?thesis using True by (auto simp: Parse_def)
next
  case False
  define parts where "parts = SplitN (CHR ''.'') s 3"
  define metas where "metas \<longleftrightarrow> meta_ok {CHR ''.'', CHR ''-'', CHR ''+''} (Dev v) \<and> meta_ok {CHR ''.'', CHR ''+''} (Pre v) \<and> meta_ok {CHR ''.''} (Build v)"
  have P: "Parse s = Inr v \<longleftrightarrow> head_ok v \<and> parts ! 0 = headText v \<and> is_uint64 (Minor v) \<and> (if length parts > 1 then parts ! 1 else ''0'') = Itoa (Minor v)
     \<and> is_uint64 (Patch v) \<and> (if length parts > 2 then parts ! 2 else ''0'') = patchText v \<and> metas \<and> Precision v = length parts"
    unfolding Parse_parts [OF False parts_def [symmetric]] head_ok_def headText_def metas_def by blast
  have V: "version_ok v \<longleftrightarrow> head_ok v \<and> is_uint64 (Minor v) \<and> is_uint64 (Patch v) \<and> metas \<and> Precision v \<in> {1, 2, 3}
     \<and> (Precision v < 2 \<longrightarrow> Minor v = 0) \<and> (Precision v < 3 \<longrightarrow> Patch v = 0 \<and> Dev v = [] \<and> Pre v = [] \<and> Build v = [])"
    unfolding version_ok_def head_ok_def metas_def by blast
  have dots: "head_ok v \<Longrightarrow> CHR ''.'' \<notin> set (headText v)" "is_uint64 (Minor v) \<Longrightarrow> CHR ''.'' \<notin> set (Itoa (Minor v))"
    by (simp_all add: headText_no_dot Itoa_no_dot)
  consider (one) "CHR ''.'' \<notin> set s" "parts = [s]"
    | (two) a b where "CHR ''.'' \<notin> set a" "CHR ''.'' \<notin> set b" "s = a @ CHR ''.'' # b" "parts = [a, b]"
    | (three) a b r where "CHR ''.'' \<notin> set a" "CHR ''.'' \<notin> set b" "s = a @ CHR ''.'' # b @ CHR ''.'' # r" "parts = [a, b, r]"
    using SplitN_3 [of "CHR ''.''" s parts] parts_def by blast
  then show ?thesis
  proof cases
    case one
    have "version_ok v \<and> render v = s \<Longrightarrow> Precision v = 1" using one(1) render_cases [of v] V by auto
    then have "version_ok v \<and> render v = s \<longleftrightarrow> Precision v = 1 \<and> version_ok v \<and> s = headText v" using render_cases(1) [of v] by auto
    moreover have "Parse s = Inr v \<longleftrightarrow> Precision v = 1 \<and> version_ok v \<and> s = headText v"
      unfolding P V one(2) by (simp add: Itoa_zero patchText_zero cong: conj_cong) blast
    ultimately show ?thesis by blast
  next
    case (two a b)
    have "version_ok v \<and> render v = s \<Longrightarrow> Precision v = 2"
    proof -
      assume h: "version_ok v \<and> render v = s"
      have "Precision v = 1 \<Longrightarrow> CHR ''.'' \<notin> set s" using h V dots(1) render_cases(1) [of v] by metis
      then have "Precision v \<noteq> 1" unfolding two(3) by auto
      moreover have "Precision v \<noteq> 3"
      proof
        assume "Precision v = 3"
        then have "headText v @ CHR ''.'' # (Itoa (Minor v) @ CHR ''.'' # patchText v) = a @ CHR ''.'' # b"
          using h two(3) render_cases(3) [of v] by simp
        then have "b = Itoa (Minor v) @ CHR ''.'' # patchText v" using cut_unique two(1) dots(1) h V by metis
        then show False using two(2) by simp
      qed
      ultimately show ?thesis using h V by auto
    qed
    moreover have "Precision v = 2 \<Longrightarrow> head_ok v \<Longrightarrow> render v = s \<longleftrightarrow> headText v = a \<and> Itoa (Minor v) = b"
      using two(1,3) render_cases(2) [of v] dots(1) cut_unique [of "CHR ''.''" "headText v" a "Itoa (Minor v)" b] by simp
    ultimately have "version_ok v \<and> render v = s \<longleftrightarrow> Precision v = 2 \<and> version_ok v \<and> headText v = a \<and> Itoa (Minor v) = b"
      using V by blast
    moreover have "Parse s = Inr v \<longleftrightarrow> Precision v = 2 \<and> version_ok v \<and> headText v = a \<and> Itoa (Minor v) = b"
      unfolding P V two(4) by (simp add: patchText_zero numeral_2_eq_2 cong: conj_cong) blast
    ultimately show ?thesis by blast
  next
    case (three a b r)
    have "version_ok v \<and> render v = s \<Longrightarrow> Precision v = 3"
    proof -
      assume h: "version_ok v \<and> render v = s"
      have "Precision v = 1 \<Longrightarrow> CHR ''.'' \<notin> set s" using h V dots(1) render_cases(1) [of v] by metis
      then have "Precision v \<noteq> 1" unfolding three(3) by auto
      moreover have "Precision v \<noteq> 2"
      proof
        assume "Precision v = 2"
        then have "headText v @ CHR ''.'' # Itoa (Minor v) = a @ CHR ''.'' # (b @ CHR ''.'' # r)"
          using h three(3) render_cases(2) [of v] by simp
        then have "Itoa (Minor v) = b @ CHR ''.'' # r" using cut_unique three(1) dots(1) h V by metis
        then show False using dots(2) h V by auto
      qed
      ultimately show ?thesis using h V by auto
    qed
    moreover have "Precision v = 3 \<Longrightarrow> head_ok v \<Longrightarrow> is_uint64 (Minor v) \<Longrightarrow>
        render v = s \<longleftrightarrow> headText v = a \<and> Itoa (Minor v) = b \<and> patchText v = r"
      using three(1-3) render_cases(3) [of v] dots cut_unique [of "CHR ''.''" "headText v" a] cut_unique [of "CHR ''.''" "Itoa (Minor v)" b] by simp
    ultimately have "version_ok v \<and> render v = s
        \<longleftrightarrow> Precision v = 3 \<and> version_ok v \<and> headText v = a \<and> Itoa (Minor v) = b \<and> patchText v = r" using V by blast
    moreover have "Parse s = Inr v \<longleftrightarrow> Precision v = 3 \<and> version_ok v \<and> headText v = a \<and> Itoa (Minor v) = b \<and> patchText v = r"
      unfolding P V three(4) by (simp add: numeral_3_eq_3 cong: conj_cong) blast
    ultimately show ?thesis by blast
  qed
qed

interpretation version_codec: codec render Parse version_ok
  by unfold_locales (simp_all add: Parse_iff)

subsection \<open>Properties\<close>

text \<open>
  \<open>Parse\<close> accepts exactly the spellings a version can be written in (prefix, one to three numbers
  within 64 bits and without leading zeroes, then dev, prerelease and build parts without empty pieces), and
  the parsed version determines the spelling: two different strings never parse to the same version.
\<close>

lemma Parse_roundtrip: "Parse s = Inr v \<longleftrightarrow> version_ok v \<and> render v = s"
  by (rule version_codec.dec_iff)

text \<open>
  \<open>CompareVersion\<close> is the three-way comparison of a total order, the lexicographic one on major,
  minor, patch, prerelease, build and dev parts: versions are equal when these six agree, swapping
  the arguments negates the result, and \<open>GreaterThanOrEqual\<close> is \<open>GreaterThan\<close> or \<open>Equal\<close>. A version
  with a prerelease part is greater than the same version without one. The comment on the \<^verbatim>\<open>Build\<close> field says it has no
  precedence; the comparison does not keep to it, as the second lemma shows.
\<close>

lemma CompareVersion_order:
  "CompareVersion v w = three_way (sort_key_of v) (sort_key_of w)
   \<and> CompareVersion w v = - CompareVersion v w
   \<and> (version_Equal v w \<longleftrightarrow> sort_key_of v = sort_key_of w)
   \<and> (GreaterThanOrEqual v w \<longleftrightarrow> GreaterThan v w \<or> version_Equal v w)"
  by (auto simp: CompareVersion_three_way version_Equal_def GreaterThan_def GreaterThanOrEqual_def three_way_def split: if_splits)

lemma CompareVersion_build:
  assumes "b \<noteq> Build v"
  shows "\<not> version_Equal (v\<lparr>Build := b\<rparr>) v \<and> (GreaterThan (v\<lparr>Build := b\<rparr>) v \<longleftrightarrow> Build v < b)"
  using assms by (auto simp: version_Equal_def GreaterThan_def CompareVersion_three_way sort_key_of_def three_way_def split: if_splits)

end
