(* ===== verification/Runtime_Inheritance.thy ===== *)
theory Runtime_Inheritance
  imports Prelude
begin

section \<open>Serving runtime inheritance (pkg/runtimeinheritance)\<close>

text \<open>
  A runtime may inherit from another one by name. \<open>Resolve\<close> walks the chain of parents and merges their
  specs; \<open>Descendants\<close> walks the other way, from a runtime to everything below it.

  A spec is an opaque value of type \<open>'s\<close>; the Go pointers to it are options. JSON documents are values
  of \<open>json\<close>; marshalling, the strategic merge patch and unmarshalling are the parameter \<open>json_api\<close>. Reads
  go through the Kubernetes client, the parameter \<open>client\<close>: a read finds an object, reports that it does not exist, or fails.
\<close>

subsection \<open>Merging (merge.go)\<close>

datatype json = JNull | JBool bool | JNumber string | JString string | JArray "json list" | JObject "(string \<times> json) list"

fun stripNullsValue :: "json \<Rightarrow> json" where
  "stripNullsValue (JObject kvs) =
     JObject (map (\<lambda>kv. (fst kv, stripNullsValue (snd kv))) (filter (\<lambda>kv. snd kv \<noteq> JNull) kvs))"
| "stripNullsValue (JArray vs) = JArray (map stripNullsValue vs)"
| "stripNullsValue v = v"

record ('s, 'e) json_api =
  marshalSpec :: "'s \<Rightarrow> 'e + json"
  strategicMergePatch :: "json \<Rightarrow> json \<Rightarrow> 'e + json"
  unmarshalSpec :: "json \<Rightarrow> 'e + 's"

definition Merge :: "('s, 'e) json_api \<Rightarrow> 's option \<Rightarrow> 's option \<Rightarrow> 'e + 's option" where
  "Merge api parent child =
     (case (parent, child) of
        (None, None) \<Rightarrow> Inr None
      | (None, Some c) \<Rightarrow> Inr (Some c)
      | (Some p, None) \<Rightarrow> Inr (Some p)
      | (Some p, Some c) \<Rightarrow>
          bindE (marshalSpec api p) (\<lambda>parentJSON.
          bindE (marshalSpec api c) (\<lambda>childJSON.
          bindE (strategicMergePatch api parentJSON (stripNullsValue childJSON)) (\<lambda>mergedJSON.
          bindE (unmarshalSpec api mergedJSON) (\<lambda>merged. Inr (Some merged))))))"

subsection \<open>Resolving a chain (resolve.go)\<close>

record 's RuntimeRef =
  refName :: name
  refSpec :: "'s option"
  ParentName :: name

datatype ('a, 'e) read = Found 'a | NotFound | ReadError 'e

type_synonym ('s, 'e) fetcher = "name \<Rightarrow> ('s RuntimeRef, 'e) read"

datatype 'e resolve_error =
    NilStart
  | ParentNotFoundError name "name list"
  | CycleError "name list"
  | MaxDepthExceededError int "name list"
  | FetchError name 'e
  | MergeError name 'e

function walkChain :: "('s, 'e) fetcher \<Rightarrow> int \<Rightarrow> 's RuntimeRef \<Rightarrow> name set \<Rightarrow> name list \<Rightarrow> 's option list
    \<Rightarrow> 'e resolve_error + name list \<times> 's option list" where
  "walkChain fetch maxDepth current visited chain specs =
     (if ParentName current = [] then Inr (chain, specs)
      else if int (length chain) \<ge> maxDepth then Inl (MaxDepthExceededError maxDepth chain)
      else if ParentName current \<in> visited then Inl (CycleError (chain @ [ParentName current]))
      else case fetch (ParentName current) of
          NotFound \<Rightarrow> Inl (ParentNotFoundError (ParentName current) chain)
        | ReadError e \<Rightarrow> Inl (FetchError (ParentName current) e)
        | Found parent \<Rightarrow> walkChain fetch maxDepth parent (insert (refName parent) visited)
                           (chain @ [refName parent]) (specs @ [refSpec parent]))"
  by pat_completeness auto
termination
  by (relation "measure (\<lambda>(fetch, maxDepth, current, visited, chain, specs). nat maxDepth - length chain)") auto

declare walkChain.simps [simp del]

fun mergeFrom :: "('s, 'e) json_api \<Rightarrow> 's option \<Rightarrow> (name \<times> 's option) list \<Rightarrow> 'e resolve_error + 's option" where
  "mergeFrom api effective [] = Inr effective"
| "mergeFrom api effective ((n, spec) # rest) =
     (case Merge api effective spec of Inl e \<Rightarrow> Inl (MergeError n e) | Inr merged \<Rightarrow> mergeFrom api merged rest)"

definition Resolve :: "('s, 'e) json_api \<Rightarrow> 's RuntimeRef option \<Rightarrow> ('s, 'e) fetcher \<Rightarrow> int \<Rightarrow> 'e resolve_error + 's option \<times> name list" where
  "Resolve api start fetch maxDepth =
     (case start of None \<Rightarrow> Inl NilStart
      | Some s \<Rightarrow>
          bindE (walkChain fetch maxDepth s {refName s} [refName s] [refSpec s]) (\<lambda>(chainChildFirst, specsChildFirst).
            let chain = rev chainChildFirst; specsRootFirst = rev specsChildFirst
            in bindE (mergeFrom api (hd specsRootFirst) (zip (tl chain) (tl specsRootFirst))) (\<lambda>effective.
                 Inr (effective, chain))))"

subsection \<open>Reading runtimes (fetch.go, from_client.go)\<close>

record 's runtime =
  rtName :: name
  rtNamespace :: name
  rtAnnotations :: "(string, string) gomap"
  rtSpec :: 's

definition RuntimeInheritFromAnnotationKey :: string where
  "RuntimeInheritFromAnnotationKey = ''ome.io/inherit-from''"

definition RuntimeInheritMaxDepth :: int where
  "RuntimeInheritMaxDepth = 5"

definition inheritFrom :: "'s runtime \<Rightarrow> name" where
  "inheritFrom r = (case map_of (rtAnnotations r) RuntimeInheritFromAnnotationKey of None \<Rightarrow> [] | Some p \<Rightarrow> p)"

record ('s, 'e) client =
  getClusterRuntime :: "name \<Rightarrow> ('s runtime, 'e) read"
  getRuntime :: "name \<Rightarrow> name \<Rightarrow> ('s runtime, 'e) read"
  listClusterRuntimes :: "'e + 's runtime list"
  listRuntimes :: "name option \<Rightarrow> 'e + 's runtime list"

definition RuntimeRef_of :: "'s runtime \<Rightarrow> 's RuntimeRef" where
  "RuntimeRef_of r = \<lparr>refName = rtName r, refSpec = Some (rtSpec r), ParentName = inheritFrom r\<rparr>"

definition fetchClusterRuntime :: "('s, 'e) client \<Rightarrow> ('s, 'e) fetcher" where
  "fetchClusterRuntime c n =
     (case getClusterRuntime c n of Found r \<Rightarrow> Found (RuntimeRef_of r) | NotFound \<Rightarrow> NotFound | ReadError e \<Rightarrow> ReadError e)"

definition ClusterRuntimeFetcher :: "('s, 'e) client \<Rightarrow> ('s, 'e) fetcher" where
  "ClusterRuntimeFetcher c = fetchClusterRuntime c"

definition NamespacedRuntimeFetcher :: "('s, 'e) client \<Rightarrow> name \<Rightarrow> ('s, 'e) fetcher" where
  "NamespacedRuntimeFetcher c namespace n =
     (case getRuntime c namespace n of
        Found r \<Rightarrow> Found (RuntimeRef_of r)
      | ReadError e \<Rightarrow> ReadError e
      | NotFound \<Rightarrow> fetchClusterRuntime c n)"

datatype 'e start_error = StartNotFound | StartReadError 'e | ResolveError "'e resolve_error"

definition resolveStart :: "('s, 'e) json_api \<Rightarrow> ('s RuntimeRef, 'e) read \<Rightarrow> ('s, 'e) fetcher \<Rightarrow> 'e start_error + 's option \<times> name list" where
  "resolveStart api start fetch =
     (case start of
        NotFound \<Rightarrow> Inl StartNotFound
      | ReadError e \<Rightarrow> Inl (StartReadError e)
      | Found ref \<Rightarrow> (case Resolve api (Some ref) fetch RuntimeInheritMaxDepth of
                        Inl e \<Rightarrow> Inl (ResolveError e) | Inr res \<Rightarrow> Inr res))"

definition ResolveClusterRuntime :: "('s, 'e) json_api \<Rightarrow> ('s, 'e) client \<Rightarrow> name \<Rightarrow> 'e start_error + 's option \<times> name list" where
  "ResolveClusterRuntime api c n = resolveStart api (fetchClusterRuntime c n) (ClusterRuntimeFetcher c)"

definition ResolveNamespacedRuntime :: "('s, 'e) json_api \<Rightarrow> ('s, 'e) client \<Rightarrow> name \<Rightarrow> name \<Rightarrow> 'e start_error + 's option \<times> name list" where
  "ResolveNamespacedRuntime api c namespace n =
     resolveStart api
       (case getRuntime c namespace n of Found r \<Rightarrow> Found (RuntimeRef_of r) | NotFound \<Rightarrow> NotFound | ReadError e \<Rightarrow> ReadError e)
       (NamespacedRuntimeFetcher c namespace)"

subsection \<open>Descendants (descendants.go)\<close>

record NamespacedName =
  nnNamespace :: name
  nnName :: name

definition keyOf :: "'s runtime \<Rightarrow> NamespacedName" where
  "keyOf r = \<lparr>nnNamespace = rtNamespace r, nnName = rtName r\<rparr>"

definition indexChild :: "name \<Rightarrow> NamespacedName \<Rightarrow> (name, NamespacedName list) gomap \<Rightarrow> (name, NamespacedName list) gomap" where
  "indexChild parent child m =
     (if parent = [] then m
      else AList.update parent ((case map_of m parent of None \<Rightarrow> [] | Some cs \<Rightarrow> cs) @ [child]) m)"

definition childrenByParentName :: "('s, 'e) client \<Rightarrow> NamespacedName \<Rightarrow> 'e + (name, NamespacedName list) gomap" where
  "childrenByParentName c rt =
     bindE (if nnNamespace rt = []
            then bindE (listClusterRuntimes c) (\<lambda>csrs.
                   Inr (fold (\<lambda>r. indexChild (inheritFrom r) \<lparr>nnNamespace = [], nnName = rtName r\<rparr>) csrs []))
            else Inr []) (\<lambda>byParentName.
     bindE (listRuntimes c (if nnNamespace rt \<noteq> [] then Some (nnNamespace rt) else None)) (\<lambda>srs.
       Inr (fold (\<lambda>r. indexChild (inheritFrom r) (keyOf r)) srs byParentName)))"

fun freshChildren :: "NamespacedName \<Rightarrow> NamespacedName list \<Rightarrow> NamespacedName list \<Rightarrow> NamespacedName list" where
  "freshChildren current visited [] = []"
| "freshChildren current visited (child # cs) =
     (if nnNamespace current \<noteq> [] \<and> nnNamespace child \<noteq> nnNamespace current then freshChildren current visited cs
      else if child \<in> set visited then freshChildren current visited cs
      else child # freshChildren current (visited @ [child]) cs)"

definition childrenOf :: "(name, NamespacedName list) gomap \<Rightarrow> NamespacedName \<Rightarrow> NamespacedName list" where
  "childrenOf byParentName n = (case map_of byParentName (nnName n) of None \<Rightarrow> [] | Some cs \<Rightarrow> cs)"

lemma freshChildren_set:
  "set (freshChildren cur vis cs) = {c \<in> set cs. c \<notin> set vis \<and> (nnNamespace cur = [] \<or> nnNamespace c = nnNamespace cur)}"
  by (induction cur vis cs rule: freshChildren.induct) auto

lemma freshChildren_distinct: "distinct (freshChildren cur vis cs)"
  by (induction cur vis cs rule: freshChildren.induct) (auto simp: freshChildren_set)

definition universe :: "(name, NamespacedName list) gomap \<Rightarrow> NamespacedName set" where
  "universe byParentName = (\<Union>cs\<in>set (map snd byParentName). set cs)"

lemma childrenOf_universe: "set (childrenOf byP n) \<subseteq> universe byP"
proof (cases "map_of byP (nnName n)")
  case (Some cs)
  then have "(nnName n, cs) \<in> set byP" by (rule map_of_SomeD)
  then show ?thesis using Some by (force simp: childrenOf_def universe_def)
qed (simp add: childrenOf_def)

lemma card_fresh:
  assumes "set new \<subseteq> U - V" "distinct new" "finite U"
  shows "card (U - (V \<union> set new)) + length new = card (U - V)"
proof -
  have "U - V = (U - (V \<union> set new)) \<union> set new" "(U - (V \<union> set new)) \<inter> set new = {}" using assms(1) by auto
  then show ?thesis using assms(2,3) card_Un_disjoint [of "U - (V \<union> set new)" "set new"] by (simp add: distinct_card)
qed

function descend :: "(name, NamespacedName list) gomap \<Rightarrow> NamespacedName list \<Rightarrow> NamespacedName list \<Rightarrow> NamespacedName list \<Rightarrow> NamespacedName list" where
  "descend byParentName [] visited out = out"
| "descend byParentName (current # queue) visited out =
     (let new = freshChildren current visited (childrenOf byParentName current)
      in descend byParentName (queue @ new) (visited @ new) (out @ new))"
  by pat_completeness auto
termination
proof (relation "measure (\<lambda>(byP, queue, visited, out). 2 * card (universe byP - set visited) + length queue)")
  fix byP :: "(name, NamespacedName list) gomap" and current queue visited out new
  assume new: "new = freshChildren current visited (childrenOf byP current)"
  have sub: "set new \<subseteq> universe byP - set visited"
    unfolding new freshChildren_set using childrenOf_universe [of byP current] by auto
  have d: "distinct new" unfolding new by (rule freshChildren_distinct)
  have "finite (universe byP)" by (simp add: universe_def)
  from card_fresh [OF sub d this]
  show "((byP, queue @ new, visited @ new, out @ new), byP, current # queue, visited, out)
    \<in> measure (\<lambda>(byP, queue, visited, out). 2 * card (universe byP - set visited) + length queue)" by simp
qed simp

declare descend.simps(2) [simp del]

definition Descendants :: "('s, 'e) client \<Rightarrow> NamespacedName \<Rightarrow> 'e + NamespacedName list" where
  "Descendants c rt = bindE (childrenByParentName c rt) (\<lambda>byParentName. Inr (descend byParentName [rt] [rt] []))"

subsection \<open>The chain that is resolved\<close>

text \<open>\<open>linked fetch refs\<close>: each runtime's parent is the next one, and the last has none.\<close>

fun linked :: "('s, 'e) fetcher \<Rightarrow> 's RuntimeRef list \<Rightarrow> bool" where
  "linked fetch [] = False"
| "linked fetch [r] \<longleftrightarrow> ParentName r = []"
| "linked fetch (r # p # rest) \<longleftrightarrow> ParentName r \<noteq> [] \<and> fetch (ParentName r) = Found p \<and> linked fetch (p # rest)"

definition names_agree :: "('s, 'e) fetcher \<Rightarrow> bool" where
  "names_agree fetch \<longleftrightarrow> (\<forall>n r. fetch n = Found r \<longrightarrow> refName r = n)"

definition fits :: "int \<Rightarrow> name list \<Rightarrow> 's RuntimeRef list \<Rightarrow> bool" where
  "fits maxDepth chain refs \<longleftrightarrow> distinct (map refName refs) \<and> set (map refName refs) \<inter> set chain = {}
     \<and> (refs \<noteq> [] \<longrightarrow> int (length chain + length refs) \<le> maxDepth)"

lemma fits_Cons:
  "fits maxDepth chain (p # refs) \<longleftrightarrow> refName p \<notin> set chain \<and> int (length chain) < maxDepth \<and> fits maxDepth (chain @ [refName p]) refs"
  by (auto simp: fits_def)

lemma walkChain_iff:
  assumes "names_agree fetch" "visited = set chain"
  shows "walkChain fetch maxDepth current visited chain specs = Inr res
    \<longleftrightarrow> (\<exists>refs. linked fetch (current # refs) \<and> fits maxDepth chain refs
          \<and> res = (chain @ map refName refs, specs @ map refSpec refs))"
  using assms
proof (induction fetch maxDepth current visited chain specs rule: walkChain.induct)
  case (1 fetch maxDepth current visited chain specs)
  note step = walkChain.simps [of fetch maxDepth current visited chain specs]
  show ?case
  proof (cases "ParentName current = []")
    case True
    then have "linked fetch (current # refs) \<longleftrightarrow> refs = []" for refs by (cases refs) auto
    then show ?thesis using True by (auto simp: step fits_def)
  next
    case False
    have tl: "linked fetch (current # refs) \<longleftrightarrow> (\<exists>p rest. refs = p # rest \<and> fetch (ParentName current) = Found p \<and> linked fetch (p # rest))" for refs
      using False by (cases refs) auto
    show ?thesis
    proof (cases "int (length chain) \<ge> maxDepth \<or> ParentName current \<in> visited \<or> (\<forall>p. fetch (ParentName current) \<noteq> Found p)")
      case True
      have "\<nexists>r. walkChain fetch maxDepth current visited chain specs = Inr r"
        using False True by (auto simp: step split: read.splits)
      moreover have "\<not> (linked fetch (current # refs) \<and> fits maxDepth chain refs)" for refs
        using True 1(2,3) unfolding tl by (auto simp: fits_Cons names_agree_def)
      ultimately show ?thesis by blast
    next
      case go: False
      then obtain p where p: "fetch (ParentName current) = Found p" by blast
      have eq: "walkChain fetch maxDepth current visited chain specs
          = walkChain fetch maxDepth p (insert (refName p) visited) (chain @ [refName p]) (specs @ [refSpec p])"
        using False go p by (simp add: step)
      have nm: "refName p = ParentName current" using 1(2) p by (simp add: names_agree_def)
      have ih: "walkChain fetch maxDepth p (insert (refName p) visited) (chain @ [refName p]) (specs @ [refSpec p]) = Inr res
        \<longleftrightarrow> (\<exists>refs. linked fetch (p # refs) \<and> fits maxDepth (chain @ [refName p]) refs
              \<and> res = ((chain @ [refName p]) @ map refName refs, (specs @ [refSpec p]) @ map refSpec refs))"
        by (rule 1(1) [OF False _ _ p 1(2)]) (use go 1(3) in auto)
      show ?thesis unfolding eq ih tl using go p nm 1(3) by (auto simp: fits_Cons)
    qed
  qed
qed

lemma Resolve_Inr:
  assumes "names_agree fetch"
  shows "Resolve api (Some s) fetch maxDepth = Inr (effective, chain) \<longleftrightarrow>
    (\<exists>refs. linked fetch (s # refs) \<and> fits maxDepth [refName s] refs \<and> chain = rev (map refName (s # refs))
       \<and> mergeFrom api (hd (rev (map refSpec (s # refs)))) (zip (tl chain) (tl (rev (map refSpec (s # refs))))) = Inr effective)"
proof -
  have w: "walkChain fetch maxDepth s {refName s} [refName s] [refSpec s] = Inr res
    \<longleftrightarrow> (\<exists>refs. linked fetch (s # refs) \<and> fits maxDepth [refName s] refs
          \<and> res = (map refName (s # refs), map refSpec (s # refs)))" for res
    using walkChain_iff [OF assms, of "{refName s}" "[refName s]" maxDepth s "[refSpec s]" res] by simp
  have "Resolve api (Some s) fetch maxDepth = Inr (effective, chain) \<longleftrightarrow>
    (\<exists>ch sp. walkChain fetch maxDepth s {refName s} [refName s] [refSpec s] = Inr (ch, sp) \<and> chain = rev ch
       \<and> mergeFrom api (hd (rev sp)) (zip (tl (rev ch)) (tl (rev sp))) = Inr effective)"
    by (auto simp: Resolve_def bindE_Inr Let_def)
  then show ?thesis unfolding w by blast
qed

end
