(* ===== verification/Runtime_Descendants.thy ===== *)
theory Runtime_Descendants
  imports Runtime_Inheritance
begin

section \<open>Walking up and walking down agree\<close>

text \<open>
  \<open>Descendants\<close> lists what is reachable over child edges, and covers what \<open>Resolve\<close> walks, as long as no
  namespaced runtime hides the parent of a cluster-scoped one. The last lemma of the theory shows what is lost
  otherwise.
\<close>

subsection \<open>Reachable runtimes\<close>

definition child_edges :: "(name, NamespacedName list) gomap \<Rightarrow> (NamespacedName \<times> NamespacedName) set" where
  "child_edges byP = {(p, c). c \<in> set (childrenOf byP p) \<and> (nnNamespace p = [] \<or> nnNamespace c = nnNamespace p)}"

definition walk_inv :: "(name, NamespacedName list) gomap \<Rightarrow> NamespacedName \<Rightarrow> NamespacedName list \<Rightarrow> NamespacedName list \<Rightarrow> NamespacedName list \<Rightarrow> bool" where
  "walk_inv byP rt queue visited out \<longleftrightarrow> visited = rt # out \<and> distinct visited \<and> set queue \<subseteq> set visited
     \<and> set visited \<subseteq> (child_edges byP)\<^sup>* `` {rt}
     \<and> (\<forall>v\<in>set visited - set queue. child_edges byP `` {v} \<subseteq> set visited)"

lemma walk_inv_step:
  assumes inv: "walk_inv byP rt (cur # queue) visited out" and new: "new = freshChildren cur visited (childrenOf byP cur)"
  shows "walk_inv byP rt (queue @ new) (visited @ new) (out @ new)"
proof -
  have s: "set new = child_edges byP `` {cur} - set visited"
    by (auto simp: new freshChildren_set child_edges_def)
  have cur: "cur \<in> (child_edges byP)\<^sup>* `` {rt}" using inv by (auto simp: walk_inv_def)
  have "set new \<subseteq> (child_edges byP)\<^sup>* `` {rt}" using s cur by (auto intro: rtrancl_into_rtrancl)
  moreover have "child_edges byP `` {cur} \<subseteq> set (visited @ new)" using s by auto
  moreover have "distinct (visited @ new)" using inv freshChildren_distinct [of cur visited] s by (auto simp: walk_inv_def new)
  moreover have "child_edges byP `` {v} \<subseteq> set (visited @ new)" if "v \<in> set (visited @ new) - set (queue @ new)" for v
  proof (cases "v = cur")
    case False
    then have "v \<in> set visited - set (cur # queue)" using that by auto
    then have "child_edges byP `` {v} \<subseteq> set visited" using inv unfolding walk_inv_def by blast
    then show ?thesis by auto
  qed (use calculation(2) in simp)
  ultimately show ?thesis using inv by (auto simp: walk_inv_def)
qed

lemma queue_walk_end:
  assumes "walk_inv byP rt [] visited out"
  shows "distinct out" "set out = (child_edges byP)\<^sup>* `` {rt} - {rt}"
proof -
  have v: "visited = rt # out" "distinct visited" "set visited \<subseteq> (child_edges byP)\<^sup>* `` {rt}"
    and closed: "\<And>v. v \<in> set visited \<Longrightarrow> child_edges byP `` {v} \<subseteq> set visited"
    using assms unfolding walk_inv_def list.set(1) Diff_empty by blast+
  have "w \<in> set visited" if "(rt, w) \<in> (child_edges byP)\<^sup>*" for w
    using that by (induction rule: rtrancl_induct) (use v(1) closed in auto)
  then show "distinct out" "set out = (child_edges byP)\<^sup>* `` {rt} - {rt}" using v by auto
qed

lemma descend_reachable:
  "walk_inv byP rt queue visited out \<Longrightarrow>
   distinct (descend byP queue visited out) \<and> set (descend byP queue visited out) = (child_edges byP)\<^sup>* `` {rt} - {rt}"
proof (induction byP queue visited out rule: descend.induct)
  case (1 byP visited out)
  then show ?case using queue_walk_end by simp
next
  case (2 byP cur queue visited out)
  then show ?case using walk_inv_step by (simp add: descend.simps(2) Let_def)
qed

lemma descend_all:
  "distinct (descend byP [rt] [rt] []) \<and> set (descend byP [rt] [rt] []) = (child_edges byP)\<^sup>* `` {rt} - {rt}"
  by (rule descend_reachable) (simp add: walk_inv_def)

subsection \<open>The index of children\<close>

lemma childrenOf_Nil [simp]: "childrenOf [] n = []"
  by (simp add: childrenOf_def)

lemma indexChild_children:
  "set (childrenOf (indexChild p c m) n) = (if p \<noteq> [] \<and> p = nnName n then insert c (set (childrenOf m n)) else set (childrenOf m n))"
  by (auto simp: indexChild_def childrenOf_def map_of_update_if split: option.splits)

lemma fold_indexChild:
  "set (childrenOf (fold (\<lambda>r. indexChild (inheritFrom r) (key r)) rs m) n)
    = set (childrenOf m n) \<union> {key r | r. r \<in> set rs \<and> inheritFrom r \<noteq> [] \<and> inheritFrom r = nnName n}"
  by (induction rs arbitrary: m) (auto simp: indexChild_children)

text \<open>
  What the client promises: its reads and its lists are of one snapshot, and an object is found under its
  own name.
\<close>

definition snapshot :: "('s, 'e) client \<Rightarrow> 's runtime list \<Rightarrow> 's runtime list \<Rightarrow> bool" where
  "snapshot c csrs srs \<longleftrightarrow> listClusterRuntimes c = Inr csrs \<and> listRuntimes c None = Inr srs
     \<and> (\<forall>ns. listRuntimes c (Some ns) = Inr (filter (\<lambda>r. rtNamespace r = ns) srs))
     \<and> (\<forall>n r. getClusterRuntime c n = Found r \<longrightarrow> r \<in> set csrs \<and> rtName r = n)
     \<and> (\<forall>ns n r. getRuntime c ns n = Found r \<longrightarrow> r \<in> set srs \<and> rtNamespace r = ns \<and> rtName r = n)
     \<and> (\<forall>r\<in>set csrs. rtNamespace r = []) \<and> (\<forall>r\<in>set srs. rtNamespace r \<noteq> [])"

lemma snapshot_index:
  assumes "snapshot c csrs srs"
  shows "\<exists>byP. childrenByParentName c rt = Inr byP \<and>
    (\<forall>n. set (childrenOf byP n) = {keyOf r | r. r \<in> (if nnNamespace rt = [] then set csrs \<union> set srs else {r \<in> set srs. rtNamespace r = nnNamespace rt})
        \<and> inheritFrom r \<noteq> [] \<and> inheritFrom r = nnName n})"
proof (cases "nnNamespace rt = []")
  case True
  have k: "\<lparr>nnNamespace = [], nnName = rtName r\<rparr> = keyOf r" if "r \<in> set csrs" for r
    using that assms by (simp add: snapshot_def keyOf_def)
  define m where "m = fold (\<lambda>r. indexChild (inheritFrom r) \<lparr>nnNamespace = [], nnName = rtName r\<rparr>) csrs []"
  have m: "set (childrenOf m n) = {keyOf r | r. r \<in> set csrs \<and> inheritFrom r \<noteq> [] \<and> inheritFrom r = nnName n}" for n
    unfolding m_def fold_indexChild using k by auto metis
  have "childrenByParentName c rt = Inr (fold (\<lambda>r. indexChild (inheritFrom r) (keyOf r)) srs m)"
    using True assms by (simp add: childrenByParentName_def snapshot_def m_def)
  then show ?thesis using True by (auto simp: fold_indexChild m)
next
  case False
  then have "childrenByParentName c rt = Inr (fold (\<lambda>r. indexChild (inheritFrom r) (keyOf r)) (filter (\<lambda>r. rtNamespace r = nnNamespace rt) srs) [])"
    using assms by (simp add: childrenByParentName_def snapshot_def)
  then show ?thesis using False by (auto simp: fold_indexChild)
qed

subsection \<open>The parents Resolve reads\<close>

definition parentIn :: "('s, 'e) client \<Rightarrow> name \<Rightarrow> 's runtime \<Rightarrow> 's runtime \<Rightarrow> bool" where
  "parentIn c ns r p \<longleftrightarrow> inheritFrom r \<noteq> [] \<and> (getRuntime c ns (inheritFrom r) = Found p
     \<or> getRuntime c ns (inheritFrom r) = NotFound \<and> getClusterRuntime c (inheritFrom r) = Found p)"

lemma fetcher_parentIn:
  "ParentName (RuntimeRef_of r) \<noteq> [] \<and> NamespacedRuntimeFetcher c ns (ParentName (RuntimeRef_of r)) = Found ref
    \<longleftrightarrow> (\<exists>p. parentIn c ns r p \<and> ref = RuntimeRef_of p)"
  by (auto simp: NamespacedRuntimeFetcher_def fetchClusterRuntime_def parentIn_def RuntimeRef_of_def split: read.splits)

text \<open>\<open>ancestry c ns rs\<close>: each runtime of the list reads the next one as its parent.\<close>

fun ancestry :: "('s, 'e) client \<Rightarrow> name \<Rightarrow> 's runtime list \<Rightarrow> bool" where
  "ancestry c ns (r # p # rest) \<longleftrightarrow> parentIn c ns r p \<and> ancestry c ns (p # rest)"
| "ancestry c ns rs \<longleftrightarrow> rs \<noteq> []"

lemma ancestry_Cons: "ancestry c ns (r # rs) \<longleftrightarrow> rs = [] \<or> (\<exists>p rest. rs = p # rest \<and> parentIn c ns r p \<and> ancestry c ns rs)"
  by (cases rs) auto

lemma linked_ancestry:
  "linked (NamespacedRuntimeFetcher c ns) (RuntimeRef_of r # refs) \<Longrightarrow> \<exists>rs. refs = map RuntimeRef_of rs \<and> ancestry c ns (r # rs)"
proof (induction refs arbitrary: r)
  case Nil
  then show ?case by (intro exI [of _ "[]"]) simp
next
  case (Cons ref refs)
  have "ParentName (RuntimeRef_of r) \<noteq> [] \<and> NamespacedRuntimeFetcher c ns (ParentName (RuntimeRef_of r)) = Found ref"
    "linked (NamespacedRuntimeFetcher c ns) (ref # refs)" using Cons.prems by simp_all
  then obtain p where p: "parentIn c ns r p" "ref = RuntimeRef_of p" unfolding fetcher_parentIn by blast
  then obtain rs where "refs = map RuntimeRef_of rs" "ancestry c ns (p # rs)"
    using Cons.IH [of p] \<open>linked _ (ref # refs)\<close> by blast
  then show ?case using p by (intro exI [of _ "p # rs"]) simp
qed

text \<open>Cluster-scoped runtimes inherit from cluster scope only, the rule the comments state.\<close>

definition scope_kept :: "'s runtime list \<Rightarrow> bool" where
  "scope_kept rs \<longleftrightarrow> (\<forall>i. Suc i < length rs \<longrightarrow> rtNamespace (rs ! i) = [] \<longrightarrow> rtNamespace (rs ! Suc i) = [])"

lemma scope_kept_Cons: "scope_kept (r # p # rest) \<longleftrightarrow> (rtNamespace r = [] \<longrightarrow> rtNamespace p = []) \<and> scope_kept (p # rest)"
  unfolding scope_kept_def by (auto simp: All_less_Suc2 nth_Cons split: nat.splits)

lemma ancestry_members:
  assumes sn: "snapshot c csrs srs" and an: "ancestry c ns (r # rs)" and r: "r \<in> set srs \<and> rtNamespace r = ns \<or> r \<in> set csrs"
    and x: "x \<in> set (r # rs)"
  shows "x \<in> set srs \<and> rtNamespace x = ns \<or> x \<in> set csrs"
  using an r x
proof (induction rs arbitrary: r)
  case (Cons p rs)
  have "p \<in> set srs \<and> rtNamespace p = ns \<or> p \<in> set csrs"
    using Cons.prems(1) sn by (auto simp: parentIn_def snapshot_def)
  then show ?case using Cons.IH [of p] Cons.prems by auto
qed simp

lemma ancestry_reaches:
  assumes sn: "snapshot c csrs srs" and an: "ancestry c ns (r # rs)" and sk: "scope_kept (r # rs)"
    and r: "r \<in> set srs \<and> rtNamespace r = ns \<or> r \<in> set csrs"
    and byP: "childrenByParentName c (keyOf (last (r # rs))) = Inr byP"
  shows "(keyOf (last (r # rs)), keyOf r) \<in> (child_edges byP)\<^sup>*"
  using an sk r byP
proof (induction rs arbitrary: r)
  case (Cons p rs)
  have pr: "parentIn c ns r p" and an': "ancestry c ns (p # rs)" using Cons.prems(1) by simp_all
  have p: "p \<in> set srs \<and> rtNamespace p = ns \<or> p \<in> set csrs" "rtName p = inheritFrom r" "inheritFrom r \<noteq> []"
    using pr sn by (auto simp: parentIn_def snapshot_def)
  have sk': "rtNamespace r = [] \<longrightarrow> rtNamespace p = []" "scope_kept (p # rs)" using Cons.prems(2) by (simp_all add: scope_kept_Cons)
  have l: "last (r # p # rs) = last (p # rs)" by simp
  have up: "(keyOf (last (p # rs)), keyOf p) \<in> (child_edges byP)\<^sup>*"
    using Cons.IH [OF an' sk'(2) p(1)] Cons.prems(4) unfolding l by simp
  have listed: "r \<in> (if nnNamespace (keyOf (last (p # rs))) = [] then set csrs \<union> set srs
      else {r \<in> set srs. rtNamespace r = nnNamespace (keyOf (last (p # rs)))})"
  proof (cases "rtNamespace (last (p # rs)) = []")
    case True
    then show ?thesis using Cons.prems(3) by (auto simp: keyOf_def)
  next
    case False
    have "rtNamespace (last (p # rs)) = ns"
      using ancestry_members [OF sn an' p(1), of "last (p # rs)"] False sn by (auto simp: snapshot_def)
    moreover have "rtNamespace r \<noteq> []"
    proof
      assume "rtNamespace r = []"
      have "rtNamespace (last (q # qs)) = []" if "scope_kept (q # qs)" "rtNamespace q = []" for q qs
        using that by (induction qs arbitrary: q) (simp_all add: scope_kept_Cons)
      from this [OF sk'(2)] show False using False sk'(1) \<open>rtNamespace r = []\<close> by blast
    qed
    ultimately show ?thesis using Cons.prems(3) False sn by (auto simp: keyOf_def snapshot_def)
  qed
  have "keyOf r \<in> set (childrenOf byP (keyOf p))"
    using snapshot_index [OF sn, of "keyOf (last (p # rs))"] Cons.prems(4) listed p(2,3) unfolding l by (auto simp: keyOf_def)
  moreover have "rtNamespace p = [] \<or> rtNamespace r = rtNamespace p"
    using sk'(1) p(1) Cons.prems(3) sn by (auto simp: snapshot_def)
  ultimately have "(keyOf p, keyOf r) \<in> child_edges byP" by (simp add: child_edges_def keyOf_def)
  then show ?case unfolding l using up by (rule rtrancl_into_rtrancl [rotated])
qed simp

subsection \<open>From a resolved chain to the descendants\<close>

text \<open>The runtime a namespaced walk reads for a name: the one of the namespace, else the cluster-scoped one.\<close>

definition fetchedKey :: "('s, 'e) client \<Rightarrow> name \<Rightarrow> name \<Rightarrow> NamespacedName" where
  "fetchedKey c ns n = \<lparr>nnNamespace = (case getRuntime c ns n of Found _ \<Rightarrow> ns | _ \<Rightarrow> []), nnName = n\<rparr>"

text \<open>No runtime of the namespace has the name of the parent of a cluster-scoped runtime.\<close>

definition unshadowed :: "('s, 'e) client \<Rightarrow> name \<Rightarrow> 's runtime list \<Rightarrow> bool" where
  "unshadowed c ns csrs \<longleftrightarrow> (\<forall>q \<in> set csrs. inheritFrom q \<noteq> [] \<longrightarrow> getRuntime c ns (inheritFrom q) = NotFound)"

lemma ancestry_prefix: "ancestry c ns (xs @ y # zs) \<Longrightarrow> ancestry c ns (xs @ [y])"
  by (induction xs rule: induct_list012) (auto simp: ancestry_Cons)

lemma ancestry_scope_kept:
  assumes "snapshot c csrs srs" "unshadowed c ns csrs" "ancestry c ns (r # rs)" "r \<in> set srs \<and> rtNamespace r = ns \<or> r \<in> set csrs"
  shows "scope_kept (r # rs)"
  using assms(3,4)
proof (induction rs arbitrary: r)
  case Nil
  then show ?case by (simp add: scope_kept_def)
next
  case (Cons p rs)
  have pr: "parentIn c ns r p" "ancestry c ns (p # rs)" using Cons.prems(1) by simp_all
  then have p: "p \<in> set srs \<and> rtNamespace p = ns \<or> p \<in> set csrs" using assms(1) by (auto simp: parentIn_def snapshot_def)
  have "rtNamespace p = []" if "rtNamespace r = []"
  proof -
    have "r \<in> set csrs" using that Cons.prems(2) assms(1) by (auto simp: snapshot_def)
    then have "getClusterRuntime c (inheritFrom r) = Found p" using pr(1) assms(2) by (auto simp: parentIn_def unshadowed_def)
    then show ?thesis using assms(1) by (simp add: snapshot_def)
  qed
  then show ?case using Cons.IH [OF pr(2) p] by (simp add: scope_kept_Cons)
qed

lemma ancestry_fetched:
  assumes "snapshot c csrs srs" "ancestry c ns (xs @ [p])" "xs \<noteq> []"
  shows "NamespacedRuntimeFetcher c ns (rtName p) = Found (RuntimeRef_of p)" "keyOf p = fetchedKey c ns (rtName p)"
proof -
  have "\<exists>q. parentIn c ns q p" using assms(2,3)
    by (induction xs rule: induct_list012) (auto simp: ancestry_Cons)
  then obtain q where q: "parentIn c ns q p" by blast
  then have "rtName p = inheritFrom q" using assms(1) by (auto simp: parentIn_def snapshot_def)
  then show "NamespacedRuntimeFetcher c ns (rtName p) = Found (RuntimeRef_of p)" "keyOf p = fetchedKey c ns (rtName p)"
    using q assms(1) by (auto simp: parentIn_def snapshot_def NamespacedRuntimeFetcher_def fetchClusterRuntime_def fetchedKey_def keyOf_def)
qed

lemma ancestor_covered:
  assumes sn: "snapshot c csrs srs" and un: "unshadowed c ns csrs" and an: "ancestry c ns (r # xs @ [p])"
    and r: "r \<in> set srs \<and> rtNamespace r = ns \<or> r \<in> set csrs" and other: "keyOf r \<noteq> keyOf p"
  shows "\<exists>out. Descendants c (keyOf p) = Inr out \<and> keyOf r \<in> set out"
proof -
  obtain byP where b: "childrenByParentName c (keyOf (last (r # xs @ [p]))) = Inr byP" using snapshot_index [OF sn] by blast
  have "(keyOf p, keyOf r) \<in> (child_edges byP)\<^sup>*"
    using ancestry_reaches [OF sn an ancestry_scope_kept [OF sn un an r] r b] by simp
  then show ?thesis using b descend_all [of byP "keyOf p"] other by (auto simp: Descendants_def)
qed

lemma resolved_covered:
  assumes sn: "snapshot c csrs srs" and un: "unshadowed c ns csrs" and r: "r \<in> set srs \<and> rtNamespace r = ns \<or> r \<in> set csrs"
    and res: "Resolve api (Some (RuntimeRef_of r)) (NamespacedRuntimeFetcher c ns) depth = Inr (effective, chain)"
    and m: "m \<in> set chain" "m \<noteq> rtName r"
  shows "\<exists>p out. NamespacedRuntimeFetcher c ns m = Found (RuntimeRef_of p) \<and> keyOf p = fetchedKey c ns m
     \<and> Descendants c (keyOf p) = Inr out \<and> keyOf r \<in> set out"
proof -
  have "names_agree (NamespacedRuntimeFetcher c ns)"
    using sn by (auto simp: names_agree_def NamespacedRuntimeFetcher_def fetchClusterRuntime_def snapshot_def RuntimeRef_of_def split: read.splits)
  from res [unfolded Resolve_Inr [OF this]] obtain refs where
    refs: "linked (NamespacedRuntimeFetcher c ns) (RuntimeRef_of r # refs)" "chain = rev (map refName (RuntimeRef_of r # refs))" by blast
  obtain rs where rs: "refs = map RuntimeRef_of rs" "ancestry c ns (r # rs)" using linked_ancestry [OF refs(1)] by blast
  have "m \<in> rtName ` set rs" using m refs(2) rs(1) by (auto simp: RuntimeRef_of_def)
  then obtain p xs zs where p: "m = rtName p" "rs = xs @ p # zs" by (auto simp: in_set_conv_decomp)
  have an: "ancestry c ns (r # xs @ [p])" using ancestry_prefix [of c ns "r # xs" p zs] rs(2) p(2) by simp
  have "keyOf r \<noteq> keyOf p" using m(2) p(1) by (auto simp: keyOf_def)
  then show ?thesis
    using ancestry_fetched [OF sn, of ns "r # xs" p] ancestor_covered [OF sn un an r] an p(1) by auto
qed

text \<open>A walk in cluster scope is a namespaced one that finds nothing in the namespace.\<close>

definition clusterOnly :: "('s, 'e) client \<Rightarrow> ('s, 'e) client" where
  "clusterOnly c = c\<lparr>getRuntime := \<lambda>_ _. NotFound\<rparr>"

lemma clusterOnly_fetcher: "NamespacedRuntimeFetcher (clusterOnly c) ns = ClusterRuntimeFetcher c"
  by (intro ext) (simp add: NamespacedRuntimeFetcher_def ClusterRuntimeFetcher_def fetchClusterRuntime_def clusterOnly_def)

lemma clusterOnly_simps:
  "snapshot c csrs srs \<Longrightarrow> snapshot (clusterOnly c) csrs srs" "unshadowed (clusterOnly c) ns csrs"
  "Descendants (clusterOnly c) = Descendants c" "fetchedKey (clusterOnly c) ns m = \<lparr>nnNamespace = [], nnName = m\<rparr>"
  by (auto simp: snapshot_def clusterOnly_def unshadowed_def Descendants_def childrenByParentName_def fetchedKey_def fun_eq_iff)

subsection \<open>Properties\<close>

text \<open>
  C39: \<open>Descendants\<close> lists each runtime reachable from the root over child edges exactly once, and never
  the root itself, on every hierarchy, cyclic ones included.
\<close>

theorem Descendants_reachable:
  "case Descendants c rt of
     Inr out \<Rightarrow> (\<exists>byP. childrenByParentName c rt = Inr byP \<and> distinct out \<and> set out = (child_edges byP)\<^sup>* `` {rt} - {rt})
   | Inl e \<Rightarrow> childrenByParentName c rt = Inl e"
  using descend_all by (cases "childrenByParentName c rt") (auto simp: Descendants_def)

text \<open>
  C26: \<open>Resolve\<close> returns a spec exactly when the inherit-from references lead from the start, over distinct
  runtimes within the depth limit, to a runtime without a parent; the chain it returns is that path, root
  first, and the spec is the merge along it.
\<close>

theorem Resolve_iff:
  assumes "names_agree fetch"
  shows "Resolve api (Some s) fetch maxDepth = Inr (effective, chain) \<longleftrightarrow>
    (\<exists>refs. linked fetch (s # refs) \<and> fits maxDepth [refName s] refs \<and> chain = rev (map refName (s # refs))
       \<and> mergeFrom api (hd (rev (map refSpec (s # refs)))) (zip (tl chain) (tl (rev (map refSpec (s # refs))))) = Inr effective)"
  by (rule Resolve_Inr [OF assms])

text \<open>The witness resolves a runtime with one parent; the patch keeps the child document.\<close>

definition child_api :: "(json, unit) json_api" where
  "child_api = \<lparr>marshalSpec = Inr, strategicMergePatch = (\<lambda>p c. Inr c), unmarshalSpec = Inr\<rparr>"

definition child_ref :: "json RuntimeRef" where
  "child_ref = \<lparr>refName = ''a'', refSpec = Some (JBool True), ParentName = ''b''\<rparr>"

definition base_fetch :: "(json, unit) fetcher" where
  "base_fetch n = (if n = ''b'' then Found \<lparr>refName = ''b'', refSpec = Some JNull, ParentName = []\<rparr> else NotFound)"

lemma Resolve_iff_witness:
  "Resolve child_api (Some child_ref) base_fetch 5 = Inr (Some (JBool True), [''b'', ''a'']) \<longleftrightarrow>
    (\<exists>refs. linked base_fetch (child_ref # refs) \<and> fits 5 [refName child_ref] refs \<and> [''b'', ''a''] = rev (map refName (child_ref # refs))
       \<and> mergeFrom child_api (hd (rev (map refSpec (child_ref # refs)))) (zip (tl [''b'', ''a'']) (tl (rev (map refSpec (child_ref # refs)))))
           = Inr (Some (JBool True)))"
  by (rule Resolve_iff) (simp add: names_agree_def base_fetch_def split: if_splits)

text \<open>
  C17: event fan-out misses nobody as long as no namespaced runtime hides the parent of a cluster-scoped one. When
  a namespaced runtime resolves, every other runtime of the resolved chain, which is the one the fetcher reads for
  that name, has it among its \<open>Descendants\<close>. When a cluster-scoped runtime resolves, so does every other runtime of
  its chain, and this needs no condition on shadowing.
\<close>

theorem Descendants_covers_Resolve:
  assumes "snapshot c csrs srs"
  shows "(unshadowed c ns csrs \<longrightarrow> ResolveNamespacedRuntime api c ns n = Inr (effective, chain) \<longrightarrow>
      (\<forall>m \<in> set chain - {n}. \<exists>p out. NamespacedRuntimeFetcher c ns m = Found (RuntimeRef_of p) \<and> keyOf p = fetchedKey c ns m
         \<and> Descendants c (keyOf p) = Inr out \<and> \<lparr>nnNamespace = ns, nnName = n\<rparr> \<in> set out))
   \<and> (ResolveClusterRuntime api c n = Inr (effective, chain) \<longrightarrow>
      (\<forall>m \<in> set chain - {n}. \<exists>out. Descendants c \<lparr>nnNamespace = [], nnName = m\<rparr> = Inr out \<and> \<lparr>nnNamespace = [], nnName = n\<rparr> \<in> set out))"
proof (intro conjI impI ballI)
  fix m assume un: "unshadowed c ns csrs" and res: "ResolveNamespacedRuntime api c ns n = Inr (effective, chain)" and m: "m \<in> set chain - {n}"
  obtain r where r: "getRuntime c ns n = Found r" "Resolve api (Some (RuntimeRef_of r)) (NamespacedRuntimeFetcher c ns) RuntimeInheritMaxDepth = Inr (effective, chain)"
    using res by (auto simp: ResolveNamespacedRuntime_def resolveStart_def split: read.splits sum.splits)
  have "r \<in> set srs" "rtNamespace r = ns" "rtName r = n" using r(1) assms by (auto simp: snapshot_def)
  then show "\<exists>p out. NamespacedRuntimeFetcher c ns m = Found (RuntimeRef_of p) \<and> keyOf p = fetchedKey c ns m
      \<and> Descendants c (keyOf p) = Inr out \<and> \<lparr>nnNamespace = ns, nnName = n\<rparr> \<in> set out"
    using resolved_covered [OF assms un _ r(2), of m] m by (simp add: keyOf_def [of r])
next
  fix m assume res: "ResolveClusterRuntime api c n = Inr (effective, chain)" and m: "m \<in> set chain - {n}"
  obtain r where r: "getClusterRuntime c n = Found r" "Resolve api (Some (RuntimeRef_of r)) (ClusterRuntimeFetcher c) RuntimeInheritMaxDepth = Inr (effective, chain)"
    using res by (auto simp: ResolveClusterRuntime_def resolveStart_def fetchClusterRuntime_def split: read.splits sum.splits)
  have "r \<in> set csrs" "rtNamespace r = []" "rtName r = n" using r(1) assms by (auto simp: snapshot_def)
  then show "\<exists>out. Descendants c \<lparr>nnNamespace = [], nnName = m\<rparr> = Inr out \<and> \<lparr>nnNamespace = [], nnName = n\<rparr> \<in> set out"
    using resolved_covered [OF clusterOnly_simps(1) [OF assms] clusterOnly_simps(2), of r ns api, unfolded clusterOnly_fetcher, OF _ r(2), of m] m
    by (auto simp: clusterOnly_simps keyOf_def [of r])
qed

text \<open>A client over two lists of objects.\<close>

definition clientOf :: "'s runtime list \<Rightarrow> 's runtime list \<Rightarrow> ('s, unit) client" where
  "clientOf csrs srs =
     \<lparr>getClusterRuntime = (\<lambda>n. case find (\<lambda>r. rtName r = n) csrs of None \<Rightarrow> NotFound | Some r \<Rightarrow> Found r),
      getRuntime = (\<lambda>ns n. case find (\<lambda>r. rtNamespace r = ns \<and> rtName r = n) srs of None \<Rightarrow> NotFound | Some r \<Rightarrow> Found r),
      listClusterRuntimes = Inr csrs,
      listRuntimes = (\<lambda>ns. Inr (case ns of None \<Rightarrow> srs | Some n \<Rightarrow> filter (\<lambda>r. rtNamespace r = n) srs))\<rparr>"

lemma clientOf_snapshot:
  "\<forall>r\<in>set csrs. rtNamespace r = [] \<Longrightarrow> \<forall>r\<in>set srs. rtNamespace r \<noteq> [] \<Longrightarrow> snapshot (clientOf csrs srs) csrs srs"
  by (auto simp: snapshot_def clientOf_def dest: find_SomeD split: option.splits)

definition rt_of :: "name \<Rightarrow> name \<Rightarrow> name \<Rightarrow> json runtime" where
  "rt_of ns n parent = \<lparr>rtName = n, rtNamespace = ns,
     rtAnnotations = (if parent = [] then [] else [(RuntimeInheritFromAnnotationKey, parent)]), rtSpec = JString n\<rparr>"

definition demoClient :: "(json, unit) client" where
  "demoClient = clientOf [rt_of [] ''p'' [], rt_of [] ''b'' ''p''] [rt_of ''n'' ''a'' ''p'']"

theorem Descendants_covers_Resolve_witness:
  "ResolveNamespacedRuntime child_api demoClient ''n'' ''a'' = Inr (Some (JString ''a''), [''p'', ''a''])
     \<and> (\<exists>out. Descendants demoClient \<lparr>nnNamespace = [], nnName = ''p''\<rparr> = Inr out \<and> \<lparr>nnNamespace = ''n'', nnName = ''a''\<rparr> \<in> set out)
   \<and> ResolveClusterRuntime child_api demoClient ''b'' = Inr (Some (JString ''b''), [''p'', ''b''])
     \<and> (\<exists>out. Descendants demoClient \<lparr>nnNamespace = [], nnName = ''p''\<rparr> = Inr out \<and> \<lparr>nnNamespace = [], nnName = ''b''\<rparr> \<in> set out)"
proof -
  have sn: "snapshot demoClient [rt_of [] ''p'' [], rt_of [] ''b'' ''p''] [rt_of ''n'' ''a'' ''p'']"
    unfolding demoClient_def by (rule clientOf_snapshot) (simp_all add: rt_of_def)
  have un: "unshadowed demoClient ''n'' [rt_of [] ''p'' [], rt_of [] ''b'' ''p'']" by code_simp
  have a: "ResolveNamespacedRuntime child_api demoClient ''n'' ''a'' = Inr (Some (JString ''a''), [''p'', ''a''])" by code_simp
  have b: "ResolveClusterRuntime child_api demoClient ''b'' = Inr (Some (JString ''b''), [''p'', ''b''])" by code_simp
  have key: "fetchedKey demoClient ''n'' ''p'' = \<lparr>nnNamespace = [], nnName = ''p''\<rparr>" by code_simp
  note covers = Descendants_covers_Resolve [OF sn]
  show ?thesis
    using covers [THEN conjunct1, rule_format, OF un a, of "''p''"] covers [THEN conjunct2, rule_format, OF b, of "''p''"] a b key by auto
qed

text \<open>
  The scope rule the comments state is not what \<open>Resolve\<close> does. A namespaced runtime \<open>a\<close> inherits
  from the cluster runtime \<open>p\<close>, and \<open>p\<close> from \<open>q\<close>: the namespaced fetcher that continues the walk finds
  the namespaced \<open>q\<close>, so \<open>a\<close> renders with it; but \<open>a\<close> is not among the \<open>Descendants\<close> of that \<open>q\<close>, so an edit
  of \<open>q\<close> does not reach it.
\<close>

lemma Descendants_misses_scope_hop:
  "ResolveNamespacedRuntime child_api (clientOf [rt_of [] ''p'' ''q''] [rt_of ''n'' ''a'' ''p'', rt_of ''n'' ''q'' []]) ''n'' ''a''
     = Inr (Some (JString ''a''), [''q'', ''p'', ''a''])
   \<and> Descendants (clientOf [rt_of [] ''p'' ''q''] [rt_of ''n'' ''a'' ''p'', rt_of ''n'' ''q'' []]) (keyOf (rt_of ''n'' ''q'' [])) = Inr []"
  by code_simp

end
