(* ===== verification/Go_Time.thy ===== *)
theory Go_Time
  imports Prelude
begin

section \<open>Instants and durations\<close>

text \<open>
  What the components use of Go's \<^verbatim>\<open>time\<close> package. An instant is the number of nanoseconds since the
  zero \<^verbatim>\<open>time.Time\<close>, so the zero value is 0; a duration is an \<^verbatim>\<open>int64\<close> of nanoseconds. The difference
  of two instants saturates at the bounds of \<^verbatim>\<open>int64\<close>, and turning a number of minutes into a duration
  wraps around, as both do in Go.
\<close>

type_synonym time = int
type_synonym duration = int

definition Hour :: duration where "Hour = 3600000000000"
definition Minute :: duration where "Minute = 60000000000"

definition time_Sub :: "time \<Rightarrow> time \<Rightarrow> duration" where
  "time_Sub t u = max (- max_int64 - 1) (min max_int64 (t - u))"

definition minutes :: "int \<Rightarrow> duration" where
  "minutes m = wrap64 (m * Minute)"

named_theorems time_simps \<open>comparing saturated differences\<close>

lemma time_Sub_le [time_simps]: "d < max_int64 \<Longrightarrow> - max_int64 - 1 \<le> d \<Longrightarrow> time_Sub t u \<le> d \<longleftrightarrow> t - u \<le> d"
  by (auto simp: time_Sub_def)

lemma time_Sub_less [time_simps]: "d \<le> max_int64 \<Longrightarrow> - max_int64 - 1 < d \<Longrightarrow> time_Sub t u < d \<longleftrightarrow> t - u < d"
  by (auto simp: time_Sub_def)

lemma time_Sub_le_Hour [simp]: "time_Sub t u \<le> Hour \<longleftrightarrow> t - u \<le> Hour"
  by (simp add: time_simps Hour_def max_int64_def)

lemma minutes_id: "0 \<le> m \<Longrightarrow> m \<le> 153722867 \<Longrightarrow> minutes m = m * Minute"
  by (simp add: minutes_def wrap64_def Minute_def)

end
