(* ===== verification/Alfred_Ledger.thy ===== *)
theory Alfred_Ledger
  imports Go_Time
begin

section \<open>Alfred's memory between passes\<close>

text \<open>
  \<^verbatim>\<open>pkg/alfred/engine/state.go\<close>, with the parts of \<^verbatim>\<open>pkg/alfred/snapshot/types.go\<close> the engine reads.
  Alfred moves instances off bad nodes. Its ledger keeps what the cluster cannot carry: the dispatches of
  the last hour, which still claim capacity on their targets, and the outcomes of recent migrations, which
  feed a circuit breaker. The lemmas state what the ledger keeps over a pass and what trips the breaker.
\<close>

subsection \<open>The snapshot\<close>

text \<open>\<^verbatim>\<open>types.NamespacedName\<close>, and the spelling its \<^verbatim>\<open>String\<close> method gives.\<close>

type_synonym object_name = "name \<times> name"

definition object_String :: "object_name \<Rightarrow> string" where
  "object_String w = fst w @ ''/'' @ snd w"

record pod_info =
  GPUs :: int
  Terminating :: bool
  StartTime :: "time option"

record inst =
  Index :: int
  Pods :: "pod_info list"

record component =
  Instances :: "inst list"

record in_flight =
  UUID :: string
  RequestedAt :: time

record workload =
  Components :: "(string, component) gomap"
  Movable :: bool
  CooldownOverride :: "duration option"
  LastMigration :: "time option"
  ActiveMigrations :: "in_flight list"
  MalformedRequests :: "(string, string) gomap"
  MigrationStateValid :: bool

record machine =
  FreeGPUs :: int
  HealthState :: string
  Requested :: bool
  Cordoned :: bool
  ScaleDownMarked :: bool

record cluster_snapshot =
  Timestamp :: time
  Nodes :: "(name, machine) gomap"
  Workloads :: "(object_name, workload) gomap"

definition Quarantined :: "string \<Rightarrow> bool" where
  "Quarantined state \<longleftrightarrow> state \<noteq> [] \<and> state \<noteq> ''Clear''"

definition UnavailableAsTarget :: "machine option \<Rightarrow> bool" where
  "UnavailableAsTarget n = (case n of None \<Rightarrow> True
     | Some m \<Rightarrow> Quarantined (HealthState m) \<or> Requested m \<or> Cordoned m \<or> ScaleDownMarked m)"

subsection \<open>The ledger\<close>

definition breakerWindow :: nat where "breakerWindow = 10"
definition breakerPause :: duration where "breakerPause = 60 * Minute"
definition breakerMinTrips :: nat where "breakerMinTrips = 4"
definition ledgerRetention :: duration where "ledgerRetention = Hour"

record DispatchRecord =
  dr_Workload :: object_name
  dr_FromNode :: name
  dr_Target :: name
  dr_GPUs :: int
  dr_Health :: bool
  dr_At :: time
  absorbed :: bool

record Ledger =
  dispatches :: "DispatchRecord list"
  outcomes :: "bool list"
  breakerTil :: time

definition NewLedger :: Ledger where
  "NewLedger = \<lparr>dispatches = [], outcomes = [], breakerTil = 0\<rparr>"

definition RecordDispatch :: "DispatchRecord \<Rightarrow> Ledger \<Rightarrow> Ledger" where
  "RecordDispatch rec l = l\<lparr>dispatches := dispatches l @ [rec]\<rparr>"

definition RecordOutcome :: "bool \<Rightarrow> time \<Rightarrow> Ledger \<Rightarrow> Ledger" where
  "RecordOutcome success now l =
     (let os = outcomes l @ [success];
          os = (if length os > breakerWindow then drop (length os - breakerWindow) os else os);
          failures = length (filter Not os)
      in if length os \<ge> breakerMinTrips \<and> failures * 2 > length os
         then l\<lparr>outcomes := [], breakerTil := now + breakerPause\<rparr>
         else l\<lparr>outcomes := os\<rparr>)"

definition BreakerOpen :: "Ledger \<Rightarrow> time \<Rightarrow> bool" where
  "BreakerOpen l now \<longleftrightarrow> now < breakerTil l"

definition absorbRecord :: "cluster_snapshot \<Rightarrow> DispatchRecord \<Rightarrow> DispatchRecord" where
  "absorbRecord snap rec =
     (if absorbed rec then rec
      else case map_of (Workloads snap) (dr_Workload rec) of
             None \<Rightarrow> rec\<lparr>absorbed := True\<rparr>
           | Some w \<Rightarrow> (case LastMigration w of
                         None \<Rightarrow> rec
                       | Some m \<Rightarrow> if m > dr_At rec then rec\<lparr>absorbed := True\<rparr> else rec))"

definition AbsorbSnapshot :: "cluster_snapshot \<Rightarrow> time \<Rightarrow> Ledger \<Rightarrow> Ledger" where
  "AbsorbSnapshot snap now l = l\<lparr>dispatches :=
     map (absorbRecord snap) (filter (\<lambda>rec. \<not> time_Sub now (dr_At rec) > ledgerRetention) (dispatches l))\<rparr>"

definition DispatchesWithinHour :: "Ledger \<Rightarrow> time \<Rightarrow> int" where
  "DispatchesWithinHour l now = int (length (filter (\<lambda>rec. time_Sub now (dr_At rec) \<le> Hour) (dispatches l)))"

definition NodeCooling :: "Ledger \<Rightarrow> name \<Rightarrow> duration \<Rightarrow> time \<Rightarrow> bool" where
  "NodeCooling l node window now \<longleftrightarrow> node \<noteq> []
     \<and> (\<exists>rec \<in> set (dispatches l). \<not> time_Sub now (dr_At rec) \<ge> window
          \<and> (dr_Target rec = node \<or> dr_FromNode rec = node \<and> \<not> dr_Health rec))"

fun claimsOf :: "DispatchRecord list \<Rightarrow> (name, int) gomap \<Rightarrow> (name, int) gomap" where
  "claimsOf [] claims = claims"
| "claimsOf (rec # recs) claims = claimsOf recs
     (if absorbed rec \<or> dr_Target rec = [] then claims
      else AList.update (dr_Target rec) (wrap64 (get0 claims (dr_Target rec) + dr_GPUs rec)) claims)"

definition ActiveClaims :: "Ledger \<Rightarrow> (name, int) gomap" where
  "ActiveClaims l = claimsOf (dispatches l) []"

subsection \<open>The circuit breaker\<close>

text \<open>\<open>recent\<close> is the window of outcomes the breaker looks at, \<open>tripping\<close> the verdict on it.\<close>

definition recent :: "bool list \<Rightarrow> bool list" where
  "recent os = drop (length os - breakerWindow) os"

definition tripping :: "bool list \<Rightarrow> bool" where
  "tripping os \<longleftrightarrow> breakerMinTrips \<le> length os \<and> length os < length (filter Not os) * 2"

definition quiet :: "bool list \<Rightarrow> bool" where
  "quiet os \<longleftrightarrow> (\<forall>k \<le> length os. \<not> tripping (recent (take k os)))"

definition recordAll :: "(bool \<times> time) list \<Rightarrow> Ledger \<Rightarrow> Ledger" where
  "recordAll os l = fold (\<lambda>(success, now). RecordOutcome success now) os l"

lemma recent_recent_snoc: "recent (recent os @ [x]) = recent (os @ [x])"
proof (cases "length os \<le> breakerWindow")
  case False
  then have "Suc (length os - breakerWindow) = Suc (length os) - breakerWindow" by simp
  with False show ?thesis by (simp add: recent_def breakerWindow_def)
qed (simp add: recent_def)

lemma window_recent: "(if breakerWindow < length os then drop (length os - breakerWindow) os else os) = recent os"
  by (simp add: recent_def)

lemma RecordOutcome_recent:
  "RecordOutcome success now l =
     (let os = recent (outcomes l @ [success])
      in if tripping os then l\<lparr>outcomes := [], breakerTil := now + breakerPause\<rparr> else l\<lparr>outcomes := os\<rparr>)"
  by (simp only: RecordOutcome_def Let_def window_recent tripping_def)

lemma quiet_Nil [simp]: "quiet []"
  by (simp add: quiet_def recent_def tripping_def breakerMinTrips_def)

lemma quiet_snoc: "quiet (os @ [x]) \<longleftrightarrow> quiet os \<and> \<not> tripping (recent (os @ [x]))"
  by (auto simp: quiet_def le_Suc_eq)

lemma recordAll_snoc: "recordAll (os @ [(success, now)]) l = RecordOutcome success now (recordAll os l)"
  by (simp add: recordAll_def)

text \<open>
  C23: The breaker's state is a function of the history of outcomes. There is a last trip or none; since
  then no window of recent outcomes was majority failure, the ledger holds exactly the window since that
  trip, and execution is held until an hour after the outcome that tripped it. The window that tripped
  had at least four outcomes and more than half of them failed.
\<close>

theorem breaker_history:
  "\<exists>before tripped since. os = before @ tripped @ since
     \<and> quiet (map fst (butlast tripped)) \<and> quiet (map fst since)
     \<and> outcomes (recordAll os NewLedger) = recent (map fst since)
     \<and> (if tripped = [] then before = [] \<and> breakerTil (recordAll os NewLedger) = 0
        else tripping (recent (map fst tripped))
          \<and> breakerTil (recordAll os NewLedger) = snd (last tripped) + breakerPause)"
proof (induction os rule: rev_induct)
  case Nil
  show ?case
    by (intro exI [of _ "[]"]) (simp add: recordAll_def NewLedger_def recent_def)
next
  case (snoc x os)
  obtain success now where x: "x = (success, now)" by fastforce
  let ?l = "recordAll os NewLedger"
  obtain before tripped since where os: "os = before @ tripped @ since"
    and q: "quiet (map fst (butlast tripped))" "quiet (map fst since)"
    and outs: "outcomes ?l = recent (map fst since)"
    and til: "if tripped = [] then before = [] \<and> breakerTil ?l = 0
        else tripping (recent (map fst tripped)) \<and> breakerTil ?l = snd (last tripped) + breakerPause"
    using snoc by blast
  have step: "recordAll (os @ [x]) NewLedger = RecordOutcome success now ?l" by (simp add: x recordAll_snoc)
  have window: "recent (outcomes ?l @ [success]) = recent (map fst (since @ [x]))"
    by (simp add: outs recent_recent_snoc x)
  show ?case
  proof (cases "tripping (recent (map fst (since @ [x])))")
    case True
    have "os @ [x] = (before @ tripped) @ (since @ [x]) @ []" by (simp add: os)
    moreover have "outcomes (recordAll (os @ [x]) NewLedger) = recent (map fst [])"
      "breakerTil (recordAll (os @ [x]) NewLedger) = snd (last (since @ [x])) + breakerPause"
      using True unfolding step RecordOutcome_recent Let_def window by (simp_all add: recent_def [of "[]"]) (simp add: x)
    ultimately show ?thesis using True q(2) by (intro exI [of _ "before @ tripped"] exI [of _ "since @ [x]"] exI [of _ "[]"]) simp
  next
    case False
    then have "quiet (map fst (since @ [x]))" using q by (simp add: quiet_snoc)
    moreover have "os @ [x] = before @ tripped @ (since @ [x])" by (simp add: os)
    moreover have "outcomes (recordAll (os @ [x]) NewLedger) = recent (map fst (since @ [x]))"
      "breakerTil (recordAll (os @ [x]) NewLedger) = breakerTil ?l"
      using False by (simp_all add: step RecordOutcome_recent window Let_def del: map_append)
    ultimately show ?thesis using q(1) til
      by - (rule exI [of _ before], rule exI [of _ tripped], rule exI [of _ "since @ [x]"], auto)
  qed
qed

subsection \<open>What a pass keeps\<close>

lemma absorbRecord_fields [simp]:
  "dr_At (absorbRecord snap rec) = dr_At rec" "dr_Target (absorbRecord snap rec) = dr_Target rec"
  "dr_FromNode (absorbRecord snap rec) = dr_FromNode rec" "dr_Health (absorbRecord snap rec) = dr_Health rec"
  "dr_GPUs (absorbRecord snap rec) = dr_GPUs rec" "dr_Workload (absorbRecord snap rec) = dr_Workload rec"
  by (simp_all add: absorbRecord_def split: option.splits)

lemma AbsorbSnapshot_fields [simp]:
  "outcomes (AbsorbSnapshot snap now l) = outcomes l" "breakerTil (AbsorbSnapshot snap now l) = breakerTil l"
  by (simp_all add: AbsorbSnapshot_def)

text \<open>Reconciling the ledger with a snapshot forgets nothing the hourly cap or a cooldown of up to an hour reads.\<close>

lemma AbsorbSnapshot_hourly: "DispatchesWithinHour (AbsorbSnapshot snap now l) now = DispatchesWithinHour l now"
proof -
  have "filter (\<lambda>rec. time_Sub now (dr_At rec) \<le> Hour) (map (absorbRecord snap) (filter (\<lambda>rec. \<not> time_Sub now (dr_At rec) > ledgerRetention) rs))
      = map (absorbRecord snap) (filter (\<lambda>rec. time_Sub now (dr_At rec) \<le> Hour) rs)" for rs
    by (induction rs) (auto simp: ledgerRetention_def not_less)
  then show ?thesis by (simp add: DispatchesWithinHour_def AbsorbSnapshot_def)
qed

lemma AbsorbSnapshot_cooling:
  assumes "window \<le> Hour"
  shows "NodeCooling (AbsorbSnapshot snap now l) node window now = NodeCooling l node window now"
  using assms by (fastforce simp: NodeCooling_def AbsorbSnapshot_def ledgerRetention_def)

subsection \<open>Claims on capacity\<close>

text \<open>\<open>is_gpu\<close>: a GPU count small enough that the sum of two stays an \<^verbatim>\<open>int64\<close>.\<close>

definition is_gpu :: "int \<Rightarrow> bool" where
  "is_gpu g \<longleftrightarrow> 0 \<le> g \<and> g \<le> max_int64 div 2"

definition claim_on :: "name \<Rightarrow> DispatchRecord \<Rightarrow> int" where
  "claim_on n rec = (if absorbed rec \<or> dr_Target rec = [] \<or> dr_Target rec \<noteq> n then 0 else dr_GPUs rec)"

lemma claimsOf_get0:
  assumes "\<forall>rec \<in> set recs. 0 \<le> dr_GPUs rec" "\<forall>n. 0 \<le> get0 m n \<and> get0 m n + (\<Sum>rec\<leftarrow>recs. dr_GPUs rec) \<le> max_int64"
  shows "get0 (claimsOf recs m) n = get0 m n + (\<Sum>rec\<leftarrow>recs. claim_on n rec)"
  using assms
proof (induction recs m rule: claimsOf.induct)
  case (2 rec recs m)
  let ?m = "if absorbed rec \<or> dr_Target rec = [] then m
      else AList.update (dr_Target rec) (wrap64 (get0 m (dr_Target rec) + dr_GPUs rec)) m"
  have rest: "0 \<le> (\<Sum>rec\<leftarrow>recs. dr_GPUs rec)" using 2(2) by (intro sum_list_nonneg) auto
  have bound: "0 \<le> get0 m x \<and> get0 m x + (dr_GPUs rec + (\<Sum>rec\<leftarrow>recs. dr_GPUs rec)) \<le> max_int64" for x
    using 2(3) by auto
  have gpus: "0 \<le> dr_GPUs rec" using 2(2) by simp
  have wrap: "wrap64 (get0 m x + dr_GPUs rec) = get0 m x + dr_GPUs rec" for x
    using bound [of x] rest gpus by (intro wrap64_id) (simp add: max_int64_def)
  have claim: "get0 ?m x = get0 m x + claim_on x rec" for x
    by (simp add: claim_on_def gomap_simps wrap)
  have "0 \<le> claim_on x rec \<and> claim_on x rec \<le> dr_GPUs rec" for x
    using gpus by (simp add: claim_on_def)
  with claim have "\<forall>x. 0 \<le> get0 ?m x \<and> get0 ?m x + (\<Sum>rec\<leftarrow>recs. dr_GPUs rec) \<le> max_int64"
    using bound by (smt (verit))
  then have "get0 (claimsOf recs ?m) n = get0 ?m n + (\<Sum>rec\<leftarrow>recs. claim_on n rec)" using 2(1) 2(2) by simp
  then show ?case using claim [of n] by simp
qed simp

definition ledger_sizes :: "Ledger \<Rightarrow> bool" where
  "ledger_sizes l \<longleftrightarrow> (\<forall>rec \<in> set (dispatches l). 0 \<le> dr_GPUs rec) \<and> (\<Sum>rec\<leftarrow>dispatches l. dr_GPUs rec) \<le> max_int64 div 2"

lemma ActiveClaims_get0:
  assumes "ledger_sizes l"
  shows "get0 (ActiveClaims l) n = (\<Sum>rec\<leftarrow>dispatches l. claim_on n rec)" "is_gpu (get0 (ActiveClaims l) n)"
proof -
  show eq: "get0 (ActiveClaims l) n = (\<Sum>rec\<leftarrow>dispatches l. claim_on n rec)"
    using assms claimsOf_get0 [of "dispatches l" "[]" n] by (simp add: ActiveClaims_def ledger_sizes_def get0_def [of "[]"] max_int64_def)
  have "0 \<le> claim_on n rec \<and> claim_on n rec \<le> dr_GPUs rec" if "rec \<in> set (dispatches l)" for rec
    using assms that by (simp add: claim_on_def ledger_sizes_def)
  then have "0 \<le> (\<Sum>rec\<leftarrow>dispatches l. claim_on n rec)"
    "(\<Sum>rec\<leftarrow>dispatches l. claim_on n rec) \<le> (\<Sum>rec\<leftarrow>dispatches l. dr_GPUs rec)"
    by (auto intro!: sum_list_nonneg sum_list_mono)
  then show "is_gpu (get0 (ActiveClaims l) n)" using assms by (simp add: eq is_gpu_def ledger_sizes_def)
qed

lemma ledger_sizes_absorb:
  assumes "ledger_sizes l"
  shows "ledger_sizes (AbsorbSnapshot snap now l)"
proof -
  have "(\<Sum>rec\<leftarrow>filter P rs. dr_GPUs rec) \<le> (\<Sum>rec\<leftarrow>rs. dr_GPUs rec)" if "\<forall>rec \<in> set rs. 0 \<le> dr_GPUs rec" for P rs
    using that by (induction rs) auto
  from this [of "dispatches l" "\<lambda>rec. \<not> time_Sub now (dr_At rec) > ledgerRetention"] show ?thesis
    using assms by (auto simp: ledger_sizes_def AbsorbSnapshot_def comp_def)
qed

end
