(* ===== verification/Alfred_Arbiter.thy ===== *)
theory Alfred_Arbiter
  imports Alfred_Ledger
begin

section \<open>Arbitration of migrations\<close>

text \<open>
  \<^verbatim>\<open>pkg/alfred/engine/arbiter.go\<close>. Every policy proposes candidates; the arbiter runs them, most urgent
  first, through one list of gates and admits what the global bounds allow. The theorems state the bounds:
  the caps, one action per workload, no landing on a node that is unavailable, being emptied or cooling, and
  no node promised more than it has free.

  A score is a finite float and is modelled by the rational it stands for. The snapshot's maps hold
  no nil pointers, as its builder leaves them.
\<close>

subsection \<open>Candidates, configuration and decisions\<close>

abbreviation ReasonNodeUnhealthy :: string where "ReasonNodeUnhealthy \<equiv> ''NodeUnhealthy''"
abbreviation ReasonNodeMaintenance :: string where "ReasonNodeMaintenance \<equiv> ''NodeMaintenance''"
abbreviation ReasonFragmentation :: string where "ReasonFragmentation \<equiv> ''Fragmentation''"

record candidate =
  c_Policy :: string
  c_Workload :: object_name
  c_Component :: string
  c_Instance :: int
  c_Mode :: string
  c_Reason :: string
  c_FromNode :: name
  c_HintTargetNodes :: "name list"
  c_PlacementTargetNodes :: "name list"
  c_Executable :: bool
  c_SurgeShaped :: bool
  c_TPUSlice :: bool
  c_FootprintGPUs :: int
  c_Score :: rat

record alfred_config =
  Mode :: string
  OMENativeMigrationEnabled :: "bool option"
  PerWorkloadCooldownMinutes :: int
  PerNodeCooldownMinutes :: int
  RecentPlacementCooldownMinutes :: int
  HealthCooldownFloorMinutes :: int
  MaxInFlightMigrations :: int
  MaxMigrationsPerHour :: int

definition PerWorkloadCooldown :: "alfred_config \<Rightarrow> duration" where
  "PerWorkloadCooldown cfg = minutes (PerWorkloadCooldownMinutes cfg)"

definition PerNodeCooldown :: "alfred_config \<Rightarrow> duration" where
  "PerNodeCooldown cfg = minutes (PerNodeCooldownMinutes cfg)"

definition RecentPlacementCooldown :: "alfred_config \<Rightarrow> duration" where
  "RecentPlacementCooldown cfg = minutes (RecentPlacementCooldownMinutes cfg)"

definition HealthCooldownFloor :: "alfred_config \<Rightarrow> duration" where
  "HealthCooldownFloor cfg = minutes (HealthCooldownFloorMinutes cfg)"

record decision =
  d_Candidate :: candidate
  d_Admitted :: bool
  d_DispatchStatus :: string
  d_RequestUUID :: string
  d_DispatchReason :: string
  d_Reason :: string
  d_Target :: name
  d_CooldownOverridden :: bool

definition rejected :: "candidate \<Rightarrow> string \<Rightarrow> decision" where
  "rejected c reason = \<lparr>d_Candidate = c, d_Admitted = False, d_DispatchStatus = [], d_RequestUUID = [],
     d_DispatchReason = [], d_Reason = reason, d_Target = [], d_CooldownOverridden = False\<rparr>"

definition admission :: "candidate \<Rightarrow> name \<Rightarrow> bool \<Rightarrow> decision" where
  "admission c target overridden = \<lparr>d_Candidate = c, d_Admitted = True, d_DispatchStatus = [], d_RequestUUID = [],
     d_DispatchReason = [], d_Reason = [], d_Target = target, d_CooldownOverridden = overridden\<rparr>"

datatype AutoscalerIntent = IntentIdle | IntentScaling | IntentUnknown

record arbiter =
  a_Ledger :: "Ledger option"
  a_AutoscalerIntent :: "(cluster_snapshot \<Rightarrow> string \<Rightarrow> AutoscalerIntent) option"

subsection \<open>The state of one pass\<close>

record admitState =
  st_arbiter :: arbiter
  st_snap :: cluster_snapshot
  st_cfg :: alfred_config
  st_now :: time
  breakerOpen :: bool
  evacuating :: "name set"
  claims :: "(name, int) gomap"
  landed :: "name set"
  admittedWorkloads :: "string set"
  inFlight :: int
  hourly :: int
  admitted :: int

definition candidatePriority :: "candidate \<Rightarrow> int" where
  "candidatePriority c =
     (if c_Reason c = ReasonNodeUnhealthy then 2 else if c_Reason c = ReasonNodeMaintenance then 1 else 0)"

definition startsWithinHour :: "time \<Rightarrow> workload \<Rightarrow> int" where
  "startsWithinHour now w =
     int (length (filter (\<lambda>m. time_Sub now (RequestedAt m) \<le> Hour) (ActiveMigrations w)))
     + (case LastMigration w of None \<Rightarrow> 0 | Some m \<Rightarrow> if time_Sub now m \<le> Hour then 1 else 0)"

definition migrationLoad :: "cluster_snapshot \<Rightarrow> Ledger option \<Rightarrow> time \<Rightarrow> int \<times> int" where
  "migrationLoad snap ledger now =
     (let ws = map snd (Workloads snap);
          live = (\<Sum>w\<leftarrow>ws. int (length (ActiveMigrations w)));
          snapshotHour = (\<Sum>w\<leftarrow>ws. startsWithinHour now w)
      in (live, case ledger of None \<Rightarrow> snapshotHour
                | Some l \<Rightarrow> if DispatchesWithinHour l now > snapshotHour then DispatchesWithinHour l now else snapshotHour))"

definition newAdmitState :: "arbiter \<Rightarrow> cluster_snapshot \<Rightarrow> alfred_config \<Rightarrow> candidate list \<Rightarrow> time \<Rightarrow> admitState" where
  "newAdmitState a snap cfg ordered now =
     (let a = a\<lparr>a_Ledger := map_option (AbsorbSnapshot snap now) (a_Ledger a)\<rparr>;
          (live, hour) = migrationLoad snap (a_Ledger a) now
      in \<lparr>st_arbiter = a, st_snap = snap, st_cfg = cfg, st_now = now,
          breakerOpen = (case a_Ledger a of None \<Rightarrow> False | Some l \<Rightarrow> BreakerOpen l now),
          evacuating = set (map c_FromNode (filter (\<lambda>c.
             (c_Reason c = ReasonNodeUnhealthy \<or> c_Reason c = ReasonNodeMaintenance) \<and> c_FromNode c \<noteq> []) ordered)),
          claims = (case a_Ledger a of None \<Rightarrow> [] | Some l \<Rightarrow> ActiveClaims l),
          landed = {}, admittedWorkloads = {}, inFlight = live, hourly = hour, admitted = 0\<rparr>)"

definition lookupInstance :: "workload option \<Rightarrow> candidate \<Rightarrow> inst option" where
  "lookupInstance w c = (case w of None \<Rightarrow> None
     | Some w \<Rightarrow> (case map_of (Components w) (c_Component c) of None \<Rightarrow> None
                  | Some cp \<Rightarrow> find (\<lambda>i. Index i = c_Instance c) (Instances cp)))"

subsection \<open>Choosing a target\<close>

text \<open>The flags record why a node did not fit the pod being placed, for the reason of a rejection.\<close>

record saw =
  sawEvacuating :: bool
  sawUnavailable :: bool
  sawLanded :: bool
  sawCooling :: bool

definition resetSaw :: saw where
  "resetSaw = \<lparr>sawEvacuating = False, sawUnavailable = False, sawLanded = False, sawCooling = False\<rparr>"

definition cooling :: "admitState \<Rightarrow> name \<Rightarrow> bool" where
  "cooling st node = (case a_Ledger (st_arbiter st) of None \<Rightarrow> False
     | Some l \<Rightarrow> NodeCooling l node (PerNodeCooldown (st_cfg st)) (st_now st))"

definition fits :: "admitState \<Rightarrow> name \<Rightarrow> int \<Rightarrow> saw \<Rightarrow> bool \<times> saw" where
  "fits st node gpus s = (case map_of (Nodes (st_snap st)) node of
       None \<Rightarrow> (False, s)
     | Some n \<Rightarrow>
         if UnavailableAsTarget (Some n) then (False, s\<lparr>sawUnavailable := True\<rparr>)
         else if node \<in> evacuating st then (False, s\<lparr>sawEvacuating := True\<rparr>)
         else if node \<in> landed st then (False, s\<lparr>sawLanded := True\<rparr>)
         else if cooling st node then (False, s\<lparr>sawCooling := True\<rparr>)
         else (wrap64 (FreeGPUs n - get0 (claims st) node) \<ge> gpus, s))"

fun firstFit :: "admitState \<Rightarrow> (name \<Rightarrow> int) \<Rightarrow> name list \<Rightarrow> saw \<Rightarrow> name option \<times> saw" where
  "firstFit st need [] s = (None, s)"
| "firstFit st need (hint # hints) s =
     (case fits st hint (need hint) s of (ok, s') \<Rightarrow> if ok then (Some hint, s') else firstFit st need hints s')"

definition unplacedReason :: "saw \<Rightarrow> string" where
  "unplacedReason s =
     (if sawUnavailable s then ''TargetUnavailable''
      else if sawEvacuating s then ''TargetUnderEvacuation''
      else if sawLanded s then ''TargetNodeBusy''
      else if sawCooling s then ''NodeCooldown''
      else ''NoCapacity'')"

fun placePods :: "admitState \<Rightarrow> name list \<Rightarrow> int list \<Rightarrow> name \<Rightarrow> (name, int) gomap \<Rightarrow> string + name \<times> (name, int) gomap" where
  "placePods st targets [] first placement = Inr (first, placement)"
| "placePods st targets (gpus # pods) first placement =
     (case firstFit st (\<lambda>hint. wrap64 (gpus + get0 placement hint)) targets resetSaw of
        (None, s) \<Rightarrow> Inl (unplacedReason s)
      | (Some hint, s) \<Rightarrow> placePods st targets pods (if first = [] then hint else first)
                            (AList.update hint (wrap64 (get0 placement hint + gpus)) placement))"

definition surgePods :: "candidate \<Rightarrow> inst \<Rightarrow> int list" where
  "surgePods c i =
     (let pods = sort_key uminus (filter (\<lambda>g. g > 0) (map GPUs (Pods i)))
      in if pods = [] \<and> c_FootprintGPUs c > 0 then [c_FootprintGPUs c] else pods)"

definition targetNodes :: "candidate \<Rightarrow> name list" where
  "targetNodes c = (if c_PlacementTargetNodes c = [] then c_HintTargetNodes c else c_PlacementTargetNodes c)"

definition selectTarget :: "admitState \<Rightarrow> candidate \<Rightarrow> inst \<Rightarrow> string + name \<times> (name, int) gomap" where
  "selectTarget st c i =
     (if c_TPUSlice c then Inr ([], [])
      else if \<not> c_SurgeShaped c
      then (case fst (firstFit st (\<lambda>_. c_FootprintGPUs c) (targetNodes c) resetSaw) of
              None \<Rightarrow> Inr ([], [])
            | Some hint \<Rightarrow> Inr (hint, [(hint, c_FootprintGPUs c)]))
      else placePods st (targetNodes c) (surgePods c i) [] [])"

subsection \<open>One candidate\<close>

definition isHealth :: "candidate \<Rightarrow> bool" where
  "isHealth c \<longleftrightarrow> c_Reason c = ReasonNodeUnhealthy"

text \<open>The cooldown of the workload: \<open>None\<close> rejects, \<open>Some b\<close> passes with \<open>b\<close> telling whether the floor overrode it.\<close>

definition workloadCooldown :: "admitState \<Rightarrow> candidate \<Rightarrow> workload \<Rightarrow> bool option" where
  "workloadCooldown st c w =
     (let window = (case CooldownOverride w of None \<Rightarrow> PerWorkloadCooldown (st_cfg st) | Some d \<Rightarrow> d)
      in case LastMigration w of
           None \<Rightarrow> Some False
         | Some m \<Rightarrow>
             let age = time_Sub (st_now st) m
             in if isHealth c then if age < HealthCooldownFloor (st_cfg st) then None else Some (age < window)
                else if age < window then None else Some False)"

definition placementWindow :: "admitState \<Rightarrow> candidate \<Rightarrow> duration" where
  "placementWindow st c =
     (if isHealth c then HealthCooldownFloor (st_cfg st) else RecentPlacementCooldown (st_cfg st))"

definition freshlyPlaced :: "admitState \<Rightarrow> candidate \<Rightarrow> inst \<Rightarrow> bool" where
  "freshlyPlaced st c i \<longleftrightarrow> (\<exists>p \<in> set (Pods i). case StartTime p of None \<Rightarrow> False
     | Some t \<Rightarrow> time_Sub (st_now st) t < placementWindow st c)"

definition autoscalerBusy :: "admitState \<Rightarrow> string \<Rightarrow> bool" where
  "autoscalerBusy st key = (case a_AutoscalerIntent (st_arbiter st) of None \<Rightarrow> False
     | Some intent \<Rightarrow> intent (st_snap st) key \<noteq> IntentIdle)"

definition claimNode :: "name \<times> int \<Rightarrow> admitState \<Rightarrow> admitState" where
  "claimNode p st = st\<lparr>landed := insert (fst p) (landed st),
     claims := AList.update (fst p) (wrap64 (get0 (claims st) (fst p) + snd p)) (claims st)\<rparr>"

definition admit :: "string \<Rightarrow> (name, int) gomap \<Rightarrow> admitState \<Rightarrow> admitState" where
  "admit key placement st = fold claimNode placement
     (st\<lparr>admitted := admitted st + 1, admittedWorkloads := insert key (admittedWorkloads st)\<rparr>)"

text \<open>The gates that reject a candidate before a target is chosen, in order; \<open>Inr\<close> is the instance to move.\<close>

definition gates :: "admitState \<Rightarrow> candidate \<Rightarrow> string + inst \<times> bool" where
  "gates st c =
     (if breakerOpen st then Inl ''CircuitBreakerOpen''
      else case (map_of (Workloads (st_snap st)) (c_Workload c),
                 lookupInstance (map_of (Workloads (st_snap st)) (c_Workload c)) c) of
        (Some w, Some i) \<Rightarrow>
          if \<not> Movable w then Inl ''NotMovable''
          else if MalformedRequests w \<noteq> [] then Inl ''MalformedRequestPending''
          else if \<not> MigrationStateValid w then Inl ''MigrationStateInvalid''
          else if \<exists>p \<in> set (Pods i). Terminating p then Inl ''InstanceTerminating''
          else if ActiveMigrations w \<noteq> [] \<or> object_String (c_Workload c) \<in> admittedWorkloads st then Inl ''WorkloadBusy''
          else if autoscalerBusy st (object_String (c_Workload c)) then Inl ''AutoscalerActive''
          else (case workloadCooldown st c w of
                  None \<Rightarrow> Inl ''Cooldown''
                | Some overridden \<Rightarrow>
                    if freshlyPlaced st c i then Inl ''PlacementCooldown''
                    else if \<not> isHealth c \<and> cooling st (c_FromNode c) then Inl ''NodeCooldown''
                    else Inr (i, overridden))
      | _ \<Rightarrow> Inl ''InstanceGone'')"

definition decide :: "admitState \<Rightarrow> candidate \<Rightarrow> decision \<times> admitState" where
  "decide st c = (case gates st c of
       Inl reason \<Rightarrow> (rejected c reason, st)
     | Inr (i, overridden) \<Rightarrow>
         (case selectTarget st c i of
            Inl reason \<Rightarrow> (rejected c reason, st)
          | Inr (target, placement) \<Rightarrow>
              if inFlight st + admitted st \<ge> MaxInFlightMigrations (st_cfg st) then (rejected c ''InFlightCap'', st)
              else if hourly st + admitted st \<ge> MaxMigrationsPerHour (st_cfg st) then (rejected c ''HourlyCap'', st)
              else (admission c target overridden, admit (object_String (c_Workload c)) placement st)))"

subsection \<open>One pass\<close>

fun decideAll :: "admitState \<Rightarrow> candidate list \<Rightarrow> decision list \<times> admitState" where
  "decideAll st [] = ([], st)"
| "decideAll st (c # cs) = (let (d, st1) = decide st c; (ds, st2) = decideAll st1 cs in (d # ds, st2))"

definition arbitrationOrder :: "candidate list \<Rightarrow> candidate list" where
  "arbitrationOrder cands =
     sort_key (\<lambda>c. (- candidatePriority c, - c_Score c, c_FootprintGPUs c)) (filter c_Executable cands)"

definition Admit :: "arbiter \<Rightarrow> cluster_snapshot \<Rightarrow> candidate list \<Rightarrow> alfred_config \<Rightarrow> time \<Rightarrow> decision list \<times> arbiter" where
  "Admit a snap cands cfg now =
     (let ordered = arbitrationOrder cands; st = newAdmitState a snap cfg ordered now
      in (fst (decideAll st ordered), st_arbiter st))"

subsection \<open>What one decision changes\<close>

definition fixedParts :: "admitState \<Rightarrow> arbiter \<times> cluster_snapshot \<times> alfred_config \<times> time \<times> bool \<times> name set \<times> int \<times> int" where
  "fixedParts st = (st_arbiter st, st_snap st, st_cfg st, st_now st, breakerOpen st, evacuating st, inFlight st, hourly st)"

lemma fold_claimNode_fixed [simp]: "fixedParts (fold claimNode ps st) = fixedParts st"
  "admitted (fold claimNode ps st) = admitted st" "admittedWorkloads (fold claimNode ps st) = admittedWorkloads st"
  by (induction ps arbitrary: st) (simp_all add: claimNode_def fixedParts_def)

lemma admit_fields [simp]:
  "fixedParts (admit key placement st) = fixedParts st" "admitted (admit key placement st) = admitted st + 1"
  "admittedWorkloads (admit key placement st) = insert key (admittedWorkloads st)"
  by (simp_all add: admit_def) (simp add: fixedParts_def)

lemma gates_reason: "gates st c = Inl reason \<Longrightarrow> reason \<noteq> []"
  by (auto simp: gates_def split: if_splits option.splits)

lemma placePods_reason: "placePods st targets pods first placement = Inl reason \<Longrightarrow> reason \<noteq> []"
  by (induction st targets pods first placement rule: placePods.induct)
    (auto simp: unplacedReason_def split: prod.splits option.splits if_splits)

lemma selectTarget_reason: "selectTarget st c i = Inl reason \<Longrightarrow> reason \<noteq> []"
  by (auto simp: selectTarget_def Let_def split: if_splits option.splits dest: placePods_reason)

lemma verdict_cases:
  assumes "decide st c = (d, st')"
  obtains (rejected) reason where "d = rejected c reason" "reason \<noteq> []" "st' = st"
  | (admitted) i overridden target placement where "gates st c = Inr (i, overridden)"
      "selectTarget st c i = Inr (target, placement)" "d = admission c target overridden"
      "inFlight st + admitted st < MaxInFlightMigrations (st_cfg st)" "hourly st + admitted st < MaxMigrationsPerHour (st_cfg st)"
      "st' = admit (object_String (c_Workload c)) placement st"
proof (cases "gates st c")
  case (Inl reason)
  then show ?thesis using assms gates_reason that(1) by (auto simp: decide_def)
next
  case (Inr r)
  obtain i overridden where r: "r = (i, overridden)" by fastforce
  show ?thesis
  proof (cases "selectTarget st c i")
    case (Inl reason)
    then show ?thesis using assms Inr r selectTarget_reason that(1) by (auto simp: decide_def)
  next
    case sel: (Inr t)
    obtain target placement where "t = (target, placement)" by fastforce
    then show ?thesis using assms Inr r sel that by (auto simp: decide_def not_le split: if_splits)
  qed
qed

lemma rejected_fields [simp]: "d_Candidate (rejected c reason) = c" "\<not> d_Admitted (rejected c reason)" "d_Reason (rejected c reason) = reason"
  by (simp_all add: rejected_def)

lemma admission_fields [simp]: "d_Candidate (admission c target b) = c" "d_Admitted (admission c target b)" "d_Reason (admission c target b) = []"
  "d_Target (admission c target b) = target" "d_CooldownOverridden (admission c target b) = b"
  by (simp_all add: admission_def)

lemma decide_keeps:
  assumes "decide st c = (d, st')"
  shows "fixedParts st' = fixedParts st" "d_Candidate d = c" "d_Admitted d \<longleftrightarrow> d_Reason d = []"
  using assms by (cases rule: verdict_cases; simp)+

lemma decideAll_ConsE:
  assumes "decideAll st (c # cs) = (ds, st')"
  obtains d st1 ds1 where "decide st c = (d, st1)" "decideAll st1 cs = (ds1, st')" "ds = d # ds1"
  using assms that by (auto split: prod.splits)

lemma decideAll_keeps:
  assumes "decideAll st cs = (ds, st')"
  shows "fixedParts st' = fixedParts st \<and> map d_Candidate ds = cs \<and> (\<forall>d \<in> set ds. d_Admitted d \<longleftrightarrow> d_Reason d = [])"
  using assms
proof (induction cs arbitrary: st ds)
  case (Cons c cs)
  from Cons.prems obtain d st1 ds1 where d: "decide st c = (d, st1)" "decideAll st1 cs = (ds1, st')" "ds = d # ds1"
    by (rule decideAll_ConsE)
  show ?case using Cons.IH [OF d(2)] decide_keeps [OF d(1)] d(3) by simp
qed simp

subsection \<open>The caps\<close>

definition admissions :: "decision list \<Rightarrow> candidate list" where
  "admissions ds = map d_Candidate (filter d_Admitted ds)"

lemma decideAll_caps:
  assumes "decideAll st cs = (ds, st')"
  shows "admitted st' = admitted st + int (length (admissions ds))"
    "admissions ds = [] \<or> inFlight st + admitted st + int (length (admissions ds)) \<le> MaxInFlightMigrations (st_cfg st)
       \<and> hourly st + admitted st + int (length (admissions ds)) \<le> MaxMigrationsPerHour (st_cfg st)"
    "distinct (map (\<lambda>c. object_String (c_Workload c)) (admissions ds))"
    "\<forall>c \<in> set (admissions ds). object_String (c_Workload c) \<notin> admittedWorkloads st"
proof -
  have "admitted st' = admitted st + int (length (admissions ds))
    \<and> (admissions ds = [] \<or> inFlight st + admitted st + int (length (admissions ds)) \<le> MaxInFlightMigrations (st_cfg st)
       \<and> hourly st + admitted st + int (length (admissions ds)) \<le> MaxMigrationsPerHour (st_cfg st))
    \<and> distinct (map (\<lambda>c. object_String (c_Workload c)) (admissions ds))
    \<and> (\<forall>c \<in> set (admissions ds). object_String (c_Workload c) \<notin> admittedWorkloads st)"
    using assms
  proof (induction cs arbitrary: st ds)
    case (Cons c cs)
    from Cons.prems obtain d st1 ds1 where d: "decide st c = (d, st1)" and rest: "decideAll st1 cs = (ds1, st')" and eqs: "ds = d # ds1"
      by (rule decideAll_ConsE)
    note IH = Cons.IH [OF rest]
    from d show ?case
    proof (cases rule: verdict_cases)
      case rejected
      then show ?thesis using IH by (simp add: eqs admissions_def)
    next
      case (admitted i overridden target placement)
      have "object_String (c_Workload c) \<notin> admittedWorkloads st"
        using admitted(1) by (auto simp: gates_def split: if_splits option.splits)
      moreover have "st_cfg st1 = st_cfg st" "inFlight st1 = inFlight st" "hourly st1 = hourly st"
        using admit_fields(1) [of "object_String (c_Workload c)" placement st] admitted(6) by (simp_all add: fixedParts_def)
      ultimately show ?thesis using IH admitted(3-6) by (auto simp: eqs admissions_def)
    qed
  qed (simp add: admissions_def)
  then show "admitted st' = admitted st + int (length (admissions ds))"
    "admissions ds = [] \<or> inFlight st + admitted st + int (length (admissions ds)) \<le> MaxInFlightMigrations (st_cfg st)
       \<and> hourly st + admitted st + int (length (admissions ds)) \<le> MaxMigrationsPerHour (st_cfg st)"
    "distinct (map (\<lambda>c. object_String (c_Workload c)) (admissions ds))"
    "\<forall>c \<in> set (admissions ds). object_String (c_Workload c) \<notin> admittedWorkloads st" by blast+
qed

text \<open>
  \<open>eligible\<close>: what the snapshot must show of a candidate that is admitted. Its workload is present, may be
  moved, has no migration and no malformed request, no pod of the instance is being deleted, and the
  last migration is as old as the candidate's class requires.
\<close>

definition cooled :: "alfred_config \<Rightarrow> time \<Rightarrow> candidate \<Rightarrow> workload \<Rightarrow> bool" where
  "cooled cfg now c w = (case LastMigration w of None \<Rightarrow> True
     | Some m \<Rightarrow> time_Sub now m \<ge> (if isHealth c then HealthCooldownFloor cfg
                  else case CooldownOverride w of None \<Rightarrow> PerWorkloadCooldown cfg | Some d \<Rightarrow> d))"

definition eligible :: "cluster_snapshot \<Rightarrow> alfred_config \<Rightarrow> time \<Rightarrow> candidate \<Rightarrow> bool" where
  "eligible snap cfg now c = (case map_of (Workloads snap) (c_Workload c) of None \<Rightarrow> False
     | Some w \<Rightarrow> (case lookupInstance (Some w) c of None \<Rightarrow> False
         | Some i \<Rightarrow> Movable w \<and> MalformedRequests w = [] \<and> MigrationStateValid w \<and> ActiveMigrations w = []
             \<and> (\<forall>p \<in> set (Pods i). \<not> Terminating p) \<and> cooled cfg now c w))"

lemma gates_Inr:
  assumes "gates st c = Inr (i, overridden)"
  shows "\<not> breakerOpen st" "eligible (st_snap st) (st_cfg st) (st_now st) c"
    "lookupInstance (map_of (Workloads (st_snap st)) (c_Workload c)) c = Some i"
    "object_String (c_Workload c) \<notin> admittedWorkloads st"
proof -
  obtain w where w: "map_of (Workloads (st_snap st)) (c_Workload c) = Some w"
    "lookupInstance (Some w) c = Some i" "workloadCooldown st c w = Some overridden"
    using assms by (auto simp: gates_def split: if_splits option.splits)
  have "cooled (st_cfg st) (st_now st) c w"
    using w(3) by (auto simp: workloadCooldown_def cooled_def Let_def not_less split: option.splits if_splits)
  then show "eligible (st_snap st) (st_cfg st) (st_now st) c"
    using assms w by (auto simp: gates_def eligible_def split: if_splits option.splits)
  show "lookupInstance (map_of (Workloads (st_snap st)) (c_Workload c)) c = Some i" using w by simp
  show "\<not> breakerOpen st" "object_String (c_Workload c) \<notin> admittedWorkloads st"
    using assms w by (auto simp: gates_def split: if_splits option.splits)
qed

lemma decideAll_eligible:
  assumes "decideAll st cs = (ds, st')"
  shows "\<forall>c \<in> set (admissions ds). \<not> breakerOpen st \<and> eligible (st_snap st) (st_cfg st) (st_now st) c"
  using assms
proof (induction cs arbitrary: st ds)
  case (Cons c cs)
  from Cons.prems obtain d st1 ds1 where d: "decide st c = (d, st1)" and rest: "decideAll st1 cs = (ds1, st')" and eqs: "ds = d # ds1"
    by (rule decideAll_ConsE)
  have same: "breakerOpen st1 = breakerOpen st" "st_snap st1 = st_snap st" "st_cfg st1 = st_cfg st" "st_now st1 = st_now st"
    using decide_keeps(1) [OF d] by (simp_all add: fixedParts_def)
  note IH = Cons.IH [OF rest, unfolded same]
  from d show ?case
  proof (cases rule: verdict_cases)
    case (admitted i overridden target placement)
    show ?thesis using IH gates_Inr(1,2) [OF admitted(1)] by (simp add: eqs admissions_def admitted(3))
  qed (use IH in \<open>simp add: eqs admissions_def\<close>)
qed (simp add: admissions_def)

lemma newAdmitState_fields:
  assumes "newAdmitState a snap cfg ordered now = st"
  shows "st_snap st = snap" "st_cfg st = cfg" "st_now st = now" "admitted st = 0" "landed st = {}" "admittedWorkloads st = {}"
    "a_Ledger (st_arbiter st) = map_option (AbsorbSnapshot snap now) (a_Ledger a)"
    "(inFlight st, hourly st) = migrationLoad snap (a_Ledger (st_arbiter st)) now"
    "breakerOpen st = (case a_Ledger a of None \<Rightarrow> False | Some l \<Rightarrow> BreakerOpen l now)"
    "claims st = (case a_Ledger (st_arbiter st) of None \<Rightarrow> [] | Some l \<Rightarrow> ActiveClaims l)"
  using assms by (auto simp: newAdmitState_def Let_def BreakerOpen_def split: prod.splits option.splits)

lemma Admit_run:
  assumes "Admit a snap cands cfg now = (ds, a')"
  obtains st st' where "newAdmitState a snap cfg (arbitrationOrder cands) now = st"
    "decideAll st (arbitrationOrder cands) = (ds, st')" "a' = st_arbiter st"
  using assms that by (auto simp: Admit_def Let_def) (metis prod.collapse)

text \<open>
  C10: Alfred as a whole stays within its budget, whatever the policies propose. In one pass the admitted
  moves, added to the migrations in flight and to those of the last hour, stay within both caps; no
  workload is moved twice; and every admitted candidate was proposed as executable and is eligible. While
  the circuit breaker is open nothing is admitted.
\<close>

theorem Admit_caps:
  assumes "Admit a snap cands cfg now = (ds, a')" "migrationLoad snap (a_Ledger a') now = (live, hour)"
  shows "(admissions ds = [] \<or> live + int (length (admissions ds)) \<le> MaxInFlightMigrations cfg
       \<and> hour + int (length (admissions ds)) \<le> MaxMigrationsPerHour cfg)
     \<and> distinct (map c_Workload (admissions ds))
     \<and> (\<forall>c \<in> set (admissions ds). c \<in> set cands \<and> c_Executable c \<and> eligible snap cfg now c
          \<and> (case a_Ledger a of None \<Rightarrow> True | Some l \<Rightarrow> \<not> BreakerOpen l now))"
proof -
  from assms(1) obtain st st' where st: "newAdmitState a snap cfg (arbitrationOrder cands) now = st"
    "decideAll st (arbitrationOrder cands) = (ds, st')" "a' = st_arbiter st" by (rule Admit_run)
  note f = newAdmitState_fields [OF st(1)]
  have "set (admissions ds) \<subseteq> d_Candidate ` set ds" by (auto simp: admissions_def)
  also have "\<dots> = set (arbitrationOrder cands)" using decideAll_keeps [OF st(2)] by (metis list.set_map)
  finally have "\<forall>c \<in> set (admissions ds). c \<in> set cands \<and> c_Executable c" by (auto simp: arbitrationOrder_def)
  moreover have "distinct (map c_Workload (admissions ds))"
    using decideAll_caps(3) [OF st(2)] by (auto simp: distinct_map inj_on_def)
  ultimately show ?thesis
    using decideAll_caps(2) [OF st(2)] decideAll_eligible [OF st(2)] f assms(2) st(3) by (auto split: option.splits)
qed

subsection \<open>The order of urgency\<close>

definition capped :: "admitState \<Rightarrow> bool" where
  "capped st \<longleftrightarrow> inFlight st + admitted st \<ge> MaxInFlightMigrations (st_cfg st) \<or> hourly st + admitted st \<ge> MaxMigrationsPerHour (st_cfg st)"

definition capReasons :: "string set" where
  "capReasons = {''InFlightCap'', ''HourlyCap''}"

lemma placePods_no_cap: "placePods st targets pods first placement = Inl reason \<Longrightarrow> reason \<notin> capReasons"
  by (induction st targets pods first placement rule: placePods.induct)
    (auto simp: unplacedReason_def capReasons_def split: prod.splits option.splits if_splits)

lemma decide_cap_reason:
  assumes "decide st c = (d, st')" "d_Reason d \<in> capReasons"
  shows "capped st \<and> st' = st"
proof (cases "gates st c")
  case (Inl reason)
  then have "reason \<notin> capReasons" by (auto simp: gates_def capReasons_def split: if_splits option.splits)
  then show ?thesis using assms Inl by (auto simp: decide_def)
next
  case (Inr r)
  obtain i overridden where r: "r = (i, overridden)" by fastforce
  have "reason \<notin> capReasons" if "selectTarget st c i = Inl reason" for reason
    using that by (auto simp: selectTarget_def Let_def split: if_splits option.splits dest: placePods_no_cap)
  then show ?thesis using assms Inr r
    by (auto simp: decide_def capped_def capReasons_def split: sum.splits if_splits prod.splits)
qed

lemma decideAll_capped:
  assumes "decideAll st cs = (ds, st')" "capped st"
  shows "admissions ds = []"
  using decideAll_caps(2) [OF assms(1)] assms(2) by (cases "admissions ds") (auto simp: capped_def)

lemma decideAll_cap_order:
  assumes "decideAll st cs = (ds, st')" "i < j" "j < length ds" "d_Reason (ds ! i) \<in> capReasons"
  shows "\<not> d_Admitted (ds ! j)"
  using assms
proof (induction cs arbitrary: st ds i j)
  case (Cons c cs)
  from Cons.prems(1) obtain d st1 ds1 where d: "decide st c = (d, st1)" and rest: "decideAll st1 cs = (ds1, st')" and eqs: "ds = d # ds1"
    by (rule decideAll_ConsE)
  obtain j' where j: "j = Suc j'" using Cons.prems(2) by (cases j) auto
  show ?case
  proof (cases i)
    case 0
    then have "capped st1" using decide_cap_reason [OF d] Cons.prems(4) eqs by auto
    then have "filter d_Admitted ds1 = []" using decideAll_capped [OF rest] by (simp add: admissions_def)
    then show ?thesis using Cons.prems(3) by (auto simp: eqs j filter_empty_conv)
  next
    case (Suc i')
    then show ?thesis using Cons.IH [OF rest, of i' j'] Cons.prems by (simp add: eqs j)
  qed
qed simp

text \<open>
  C22: The budget goes to the most urgent candidates. The decisions are the executable candidates, node
  failures before maintenance before the rest, higher scores first within a class, then smaller
  footprints; and once a candidate is turned away for a cap, no less urgent one is admitted.
\<close>

theorem Admit_priority:
  assumes "Admit a snap cands cfg now = (ds, a')" "i < j" "j < length ds"
  shows "mset (map d_Candidate ds) = mset (filter c_Executable cands)
     \<and> (candidatePriority (d_Candidate (ds ! i)), c_Score (d_Candidate (ds ! i)), - c_FootprintGPUs (d_Candidate (ds ! i)))
       \<ge> (candidatePriority (d_Candidate (ds ! j)), c_Score (d_Candidate (ds ! j)), - c_FootprintGPUs (d_Candidate (ds ! j)))
     \<and> (d_Reason (ds ! i) \<in> {''InFlightCap'', ''HourlyCap''} \<longrightarrow> \<not> d_Admitted (ds ! j))"
proof -
  from assms(1) obtain st st' where st: "decideAll st (arbitrationOrder cands) = (ds, st')" by (rule Admit_run)
  define key where "key = (\<lambda>c. (- candidatePriority c, - c_Score c, c_FootprintGPUs c))"
  have ds: "map d_Candidate ds = arbitrationOrder cands" using decideAll_keeps [OF st] by simp
  then have "sorted (map key (map d_Candidate ds))" by (simp only: arbitrationOrder_def key_def [symmetric] sorted_sort_key)
  then have "map key (map d_Candidate ds) ! i \<le> map key (map d_Candidate ds) ! j"
    using assms(2,3) by (intro sorted_nth_mono) auto
  then have "key (d_Candidate (ds ! i)) \<le> key (d_Candidate (ds ! j))" using assms(2,3) by simp
  moreover have "mset (map d_Candidate ds) = mset (filter c_Executable cands)" by (simp only: ds arbitrationOrder_def mset_sort)
  ultimately show ?thesis
    using decideAll_cap_order [OF st assms(2,3)] by (auto simp: key_def capReasons_def less_eq_prod_def less_prod_def)
qed

subsection \<open>An example pass\<close>

text \<open>
  Three workloads on a failing node \<^verbatim>\<open>n1\<close>, a free node \<^verbatim>\<open>n2\<close> on which an earlier dispatch still claims two
  GPUs, and room for one migration at a time.
\<close>

definition demoWorkload :: "int list \<Rightarrow> workload" where
  "demoWorkload gpus = \<lparr>Components = [(''engine'', \<lparr>Instances = [\<lparr>Index = 0,
       Pods = map (\<lambda>g. \<lparr>GPUs = g, Terminating = False, StartTime = None\<rparr>) gpus\<rparr>]\<rparr>)],
     Movable = True, CooldownOverride = None, LastMigration = None, ActiveMigrations = [], MalformedRequests = [],
     MigrationStateValid = True\<rparr>"

definition demoMachine :: "int \<Rightarrow> string \<Rightarrow> machine" where
  "demoMachine gpus state = \<lparr>FreeGPUs = gpus, HealthState = state, Requested = False, Cordoned = False, ScaleDownMarked = False\<rparr>"

definition demoSnapshot :: cluster_snapshot where
  "demoSnapshot = \<lparr>Timestamp = 100 * Hour, Nodes = [(''n1'', demoMachine 0 ''Unhealthy''), (''n2'', demoMachine 8 ''Clear'')],
     Workloads = [((''ns'', ''w1''), demoWorkload [2, 4]), ((''ns'', ''w2''), demoWorkload []),
                  ((''ns'', ''w3''), demoWorkload []), ((''ns'', ''w4''), demoWorkload [2])]\<rparr>"

definition demoCandidate :: "name \<Rightarrow> string \<Rightarrow> int \<Rightarrow> candidate" where
  "demoCandidate w reason gpus = \<lparr>c_Policy = ''nodehealth'', c_Workload = (''ns'', w), c_Component = ''engine'', c_Instance = 0,
     c_Mode = ''OMENative'', c_Reason = reason, c_FromNode = ''n1'', c_HintTargetNodes = [''n1'', ''n2''],
     c_PlacementTargetNodes = [], c_Executable = True, c_SurgeShaped = True, c_TPUSlice = False, c_FootprintGPUs = gpus, c_Score = 1 / 2\<rparr>"

definition demoCandidates :: "candidate list" where
  "demoCandidates = [demoCandidate ''w3'' ReasonFragmentation 0, demoCandidate ''w2'' ReasonNodeMaintenance 0,
     demoCandidate ''w1'' ReasonNodeUnhealthy 6]"

definition demoConfig :: alfred_config where
  "demoConfig = \<lparr>Mode = ''execute'', OMENativeMigrationEnabled = Some True, PerWorkloadCooldownMinutes = 30, PerNodeCooldownMinutes = 10, RecentPlacementCooldownMinutes = 15,
     HealthCooldownFloorMinutes = 5, MaxInFlightMigrations = 1, MaxMigrationsPerHour = 4\<rparr>"

definition demoArbiter :: arbiter where
  "demoArbiter = \<lparr>a_Ledger = Some \<lparr>dispatches = [\<lparr>dr_Workload = (''ns'', ''w4''), dr_FromNode = ''n1'', dr_Target = ''n2'',
       dr_GPUs = 2, dr_Health = True, dr_At = 100 * Hour - 30 * Minute, absorbed = False\<rparr>], outcomes = [], breakerTil = 0\<rparr>,
     a_AutoscalerIntent = None\<rparr>"

definition demoPass :: "decision list \<times> arbiter" where
  "demoPass = Admit demoArbiter demoSnapshot demoCandidates demoConfig (100 * Hour)"

lemma demoPass_eq: "Admit demoArbiter demoSnapshot demoCandidates demoConfig (100 * Hour) = (fst demoPass, snd demoPass)"
  by (simp add: demoPass_def)

lemma demo_admissions: "admissions (fst demoPass) = [demoCandidate ''w1'' ReasonNodeUnhealthy 6]"
  by code_simp

theorem Admit_caps_witness:
  "migrationLoad demoSnapshot (a_Ledger (snd demoPass)) (100 * Hour) = (0, 1)
     \<and> admissions (fst demoPass) = [demoCandidate ''w1'' ReasonNodeUnhealthy 6]
     \<and> 0 + int (length (admissions (fst demoPass))) \<le> MaxInFlightMigrations demoConfig
     \<and> 1 + int (length (admissions (fst demoPass))) \<le> MaxMigrationsPerHour demoConfig
     \<and> eligible demoSnapshot demoConfig (100 * Hour) (demoCandidate ''w1'' ReasonNodeUnhealthy 6)"
proof -
  have load: "migrationLoad demoSnapshot (a_Ledger (snd demoPass)) (100 * Hour) = (0, 1)" by code_simp
  show ?thesis using Admit_caps [OF demoPass_eq load] load demo_admissions by simp
qed

theorem Admit_priority_witness:
  "d_Reason (fst demoPass ! 1) = ''InFlightCap'' \<and> \<not> d_Admitted (fst demoPass ! 2)
     \<and> map (c_Workload \<circ> d_Candidate) (fst demoPass) = [(''ns'', ''w1''), (''ns'', ''w2''), (''ns'', ''w3'')]"
proof -
  have reason: "d_Reason (fst demoPass ! 1) = ''InFlightCap''" by code_simp
  have order: "map (c_Workload \<circ> d_Candidate) (fst demoPass) = [(''ns'', ''w1''), (''ns'', ''w2''), (''ns'', ''w3'')]" by code_simp
  from order have "length (fst demoPass) = 3" by (metis length_map length_Cons list.size(3) numeral_3_eq_3)
  then show ?thesis using Admit_priority [OF demoPass_eq, of 1 2] reason order by simp
qed

end
