(* ===== verification/Alfred_Placement.thy ===== *)
theory Alfred_Placement
  imports Alfred_Arbiter
begin

section \<open>No node is promised more than it has\<close>

text \<open>
  What the arbiter's choice of targets guarantees. A \<open>plan\<close> of an admission lists where each replacement
  pod goes; added up by node it is the placement the code claims, and its first node is the target the
  decision names. Over a whole pass the plans of all admissions, together with the claims of earlier dispatches
  that are still running, fit into the free GPUs of every node they touch.
\<close>

subsection \<open>Fitting one pod\<close>

definition usable :: "admitState \<Rightarrow> name \<Rightarrow> bool" where
  "usable st node \<longleftrightarrow> \<not> UnavailableAsTarget (map_of (Nodes (st_snap st)) node) \<and> node \<notin> evacuating st \<and> \<not> cooling st node"

definition free :: "cluster_snapshot \<Rightarrow> name \<Rightarrow> int" where
  "free snap node = (case map_of (Nodes snap) node of None \<Rightarrow> 0 | Some m \<Rightarrow> FreeGPUs m)"

definition room :: "admitState \<Rightarrow> name \<Rightarrow> int" where
  "room st node = free (st_snap st) node - get0 (claims st) node"

definition sizes :: "admitState \<Rightarrow> bool" where
  "sizes st \<longleftrightarrow> (\<forall>m \<in> snd ` set (Nodes (st_snap st)). is_gpu (FreeGPUs m)) \<and> (\<forall>n. is_gpu (get0 (claims st) n))"

definition open_for :: "admitState \<Rightarrow> name \<Rightarrow> int \<Rightarrow> bool" where
  "open_for st node g \<longleftrightarrow> usable st node \<and> node \<notin> landed st \<and> g \<le> room st node"

lemma free_bound:
  assumes "sizes st"
  shows "0 \<le> free (st_snap st) node" "free (st_snap st) node \<le> max_int64 div 2"
  using assms map_of_SomeD [of "Nodes (st_snap st)" node]
  by (force simp: free_def sizes_def is_gpu_def max_int64_def split: option.splits)+

lemma room_bounds:
  assumes "sizes st"
  shows "room st node \<le> max_int64 div 2" "is_int64 (room st node)"
proof -
  note free_bound [OF assms, of node]
  moreover have "0 \<le> get0 (claims st) node" "get0 (claims st) node \<le> max_int64 div 2"
    using assms by (simp_all add: sizes_def is_gpu_def)
  ultimately show "room st node \<le> max_int64 div 2" "is_int64 (room st node)"
    by (simp_all add: room_def max_int64_def)
qed

lemma fits_open:
  assumes "fst (fits st node g s)" "sizes st"
  shows "open_for st node g"
proof -
  obtain m where m: "map_of (Nodes (st_snap st)) node = Some m" "wrap64 (FreeGPUs m - get0 (claims st) node) \<ge> g"
    "usable st node" "node \<notin> landed st"
    using assms(1) by (auto simp: fits_def usable_def split: option.splits if_splits)
  have "FreeGPUs m - get0 (claims st) node = room st node" by (simp add: room_def free_def m(1))
  then show ?thesis using m wrap64_id [OF room_bounds(2) [OF assms(2)]] by (simp add: open_for_def)
qed

lemma firstFit_open:
  assumes "fst (firstFit st need hints s) = Some h" "sizes st"
  shows "h \<in> set hints \<and> open_for st h (need h)"
  using assms(1)
proof (induction hints arbitrary: s)
  case (Cons hint hints)
  obtain ok s' where f: "fits st hint (need hint) s = (ok, s')" by fastforce
  show ?case
  proof (cases ok)
    case True
    then show ?thesis using Cons.prems f fits_open [of st hint "need hint" s] assms(2) by simp
  qed (use Cons f in simp)
qed simp

subsection \<open>Placing the pods of a surge\<close>

definition load :: "(name \<times> int) list \<Rightarrow> name \<Rightarrow> int" where
  "load plan node = (\<Sum>p\<leftarrow>plan. if fst p = node then snd p else 0)"

lemma load_simps [simp]: "load [] n = 0" "load (p # ps) n = (if fst p = n then snd p else 0) + load ps n"
  "load (ps @ qs) n = load ps n + load qs n"
  by (simp_all add: load_def)

lemma load_outside: "n \<notin> fst ` set ps \<Longrightarrow> load ps n = 0"
  by (induction ps) auto

lemma load_nonneg: "\<forall>p \<in> set ps. 0 \<le> snd p \<Longrightarrow> 0 \<le> load ps n"
  by (induction ps) auto

text \<open>The target a decision names: the first node of the plan, skipping the empty name.\<close>

definition firstNode :: "(name \<times> int) list \<Rightarrow> name" where
  "firstNode plan = (case filter (\<lambda>n. n \<noteq> []) (map fst plan) of [] \<Rightarrow> [] | n # _ \<Rightarrow> n)"

lemma firstNode_simps [simp]: "firstNode [] = []" "firstNode (p # ps) = (if fst p = [] then firstNode ps else fst p)"
  by (simp_all add: firstNode_def)

lemma placePods_plan:
  assumes "placePods st targets pods first pl = Inr (f, pl')" "sizes st" "\<forall>g \<in> set pods. is_gpu g"
    "\<forall>n. is_gpu (get0 pl n)" "gomap_ok pl"
  shows "\<exists>plan. map snd plan = pods \<and> fst ` set plan \<subseteq> set targets \<and> (\<forall>n \<in> fst ` set plan. open_for st n (get0 pl' n))
     \<and> (\<forall>n. get0 pl' n = get0 pl n + load plan n) \<and> keys_of pl' = keys_of pl \<union> fst ` set plan \<and> gomap_ok pl'
     \<and> f = (if first = [] then firstNode plan else first)"
  using assms(1,3-5)
proof (induction pods arbitrary: first pl)
  case Nil
  then show ?case by auto
next
  case (Cons g pods)
  let ?need = "\<lambda>hint. wrap64 (g + get0 pl hint)"
  obtain h where h: "fst (firstFit st ?need targets resetSaw) = Some h"
    using Cons.prems(1) by (auto split: prod.splits option.splits)
  define pl1 where "pl1 = AList.update h (wrap64 (get0 pl h + g)) pl"
  have run: "placePods st targets pods (if first = [] then h else first) pl1 = Inr (f, pl')"
    using Cons.prems(1) h by (auto simp: pl1_def split: prod.splits option.splits)
  have fit: "h \<in> set targets" "open_for st h (?need h)" using firstFit_open [OF h assms(2)] by auto
  have "is_gpu g" "is_gpu (get0 pl h)" using Cons.prems(2,3) by auto
  then have nowrap: "wrap64 (get0 pl h + g) = get0 pl h + g" "wrap64 (g + get0 pl h) = get0 pl h + g"
    by (simp_all add: wrap64_id is_gpu_def max_int64_def add.commute)
  have at: "get0 pl1 n = get0 pl n + (if h = n then g else 0)" for n by (simp add: pl1_def gomap_simps nowrap)
  have "open_for st h (get0 pl1 h)" using fit(2) by (simp add: at nowrap)
  then have "is_gpu (get0 pl1 h)"
    using \<open>is_gpu g\<close> \<open>is_gpu (get0 pl h)\<close> room_bounds(1) [OF assms(2), of h] by (simp add: is_gpu_def open_for_def at)
  then have "\<forall>n. is_gpu (get0 pl1 n)" using Cons.prems(3) by (metis at add.right_neutral)
  moreover have "gomap_ok pl1" using Cons.prems(4) by (simp add: pl1_def gomap_ok_update)
  ultimately have "\<exists>plan. map snd plan = pods \<and> fst ` set plan \<subseteq> set targets \<and> (\<forall>n \<in> fst ` set plan. open_for st n (get0 pl' n))
     \<and> (\<forall>n. get0 pl' n = get0 pl1 n + load plan n) \<and> keys_of pl' = keys_of pl1 \<union> fst ` set plan \<and> gomap_ok pl'
     \<and> f = (if (if first = [] then h else first) = [] then firstNode plan else if first = [] then h else first)"
    using Cons.IH [OF run] Cons.prems(2) by simp
  then obtain plan where plan: "map snd plan = pods" "fst ` set plan \<subseteq> set targets" "\<forall>n \<in> fst ` set plan. open_for st n (get0 pl' n)"
      "\<forall>n. get0 pl' n = get0 pl1 n + load plan n" "keys_of pl' = keys_of pl1 \<union> fst ` set plan" "gomap_ok pl'"
      "f = (if (if first = [] then h else first) = [] then firstNode plan else if first = [] then h else first)"
    by (elim exE conjE)
  have keys1: "keys_of pl1 = insert h (keys_of pl)" by (simp only: pl1_def keys_of_update)
  have "open_for st h (get0 pl' h)"
    using plan(3,4) \<open>open_for st h (get0 pl1 h)\<close> load_outside [of h plan] by (cases "h \<in> fst ` set plan") auto
  then show ?case
    by (intro exI [of _ "(h, g) # plan"] conjI) (use plan fit(1) in \<open>simp_all add: at keys1 del: set_map\<close>)
qed

subsection \<open>One decision\<close>

text \<open>
  \<open>placed\<close>: the plan of a decision. Its first node is the target of the decision. A surge has every pod of the instance
  placed on one of the candidate's targets; any other move has its footprint there, or no target at all.
\<close>

definition placed :: "cluster_snapshot \<Rightarrow> decision \<Rightarrow> (name \<times> int) list \<Rightarrow> bool" where
  "placed snap d plan \<longleftrightarrow> (let c = d_Candidate d in
     d_Target d = firstNode plan
     \<and> (if \<not> d_Admitted d \<or> c_TPUSlice c then plan = []
        else fst ` set plan \<subseteq> set (targetNodes c)
          \<and> (if c_SurgeShaped c
             then (case lookupInstance (map_of (Workloads snap) (c_Workload c)) c of None \<Rightarrow> False
                   | Some i \<Rightarrow> map snd plan = surgePods c i)
             else plan = [] \<or> map snd plan = [c_FootprintGPUs c])))"

text \<open>
  The placements a pass claims: for each candidate the one \<open>selectTarget\<close> chose in the state it was decided in,
  if it was admitted. \<open>addsUp\<close>: a placement is a plan added up by node.
\<close>

definition placementOf :: "admitState \<Rightarrow> candidate \<Rightarrow> (name, int) gomap" where
  "placementOf st c = (if \<not> d_Admitted (fst (decide st c)) then []
     else case gates st c of Inl _ \<Rightarrow> [] | Inr (i, _) \<Rightarrow> (case selectTarget st c i of Inl _ \<Rightarrow> [] | Inr (_, placement) \<Rightarrow> placement))"

fun placements :: "admitState \<Rightarrow> candidate list \<Rightarrow> (name, int) gomap list" where
  "placements st [] = []"
| "placements st (c # cs) = placementOf st c # placements (snd (decide st c)) cs"

definition addsUp :: "(name \<times> int) list \<Rightarrow> (name, int) gomap \<Rightarrow> bool" where
  "addsUp plan placement \<longleftrightarrow> keys_of placement = fst ` set plan \<and> (\<forall>n. get0 placement n = load plan n)"

definition pod_sizes :: "cluster_snapshot \<Rightarrow> bool" where
  "pod_sizes snap \<longleftrightarrow> (\<forall>w \<in> snd ` set (Workloads snap). \<forall>cp \<in> snd ` set (Components w).
     \<forall>i \<in> set (Instances cp). \<forall>p \<in> set (Pods i). is_gpu (GPUs p))"

lemma surgePods_sizes:
  assumes "pod_sizes snap" "lookupInstance (map_of (Workloads snap) (c_Workload c)) c = Some i" "is_gpu (c_FootprintGPUs c)"
  shows "\<forall>g \<in> set (surgePods c i). is_gpu g"
proof -
  obtain w cp where "map_of (Workloads snap) (c_Workload c) = Some w" "map_of (Components w) (c_Component c) = Some cp" "i \<in> set (Instances cp)"
    using assms(2) by (auto simp: lookupInstance_def split: option.splits dest: find_SomeD)
  then have "\<forall>p \<in> set (Pods i). is_gpu (GPUs p)"
    using assms(1) by (auto simp: pod_sizes_def dest!: map_of_SomeD)
  then show ?thesis using assms(3) by (auto simp: surgePods_def Let_def)
qed

lemma fold_claimNode_claims:
  assumes "gomap_ok ps"
  shows "landed (fold claimNode ps st) = landed st \<union> keys_of ps"
    "get0 (claims (fold claimNode ps st)) n = (if n \<in> keys_of ps then wrap64 (get0 (claims st) n + get0 ps n) else get0 (claims st) n)"
  using assms
proof (induction ps arbitrary: st)
  case (Cons p ps)
  { case 1 then show ?case using Cons.IH(1) by (auto simp: claimNode_def) }
  { case 2 then show ?case using Cons.IH(2) by (cases p) (auto simp: claimNode_def gomap_simps get0_def) }
qed simp_all

lemma decide_plan:
  assumes d: "decide st c = (d, st')" and sz: "sizes st" "pod_sizes (st_snap st)" "is_gpu (c_FootprintGPUs c)"
  shows "\<exists>plan. placed (st_snap st) d plan \<and> addsUp plan (placementOf st c) \<and> landed st' = landed st \<union> fst ` set plan \<and> sizes st'
     \<and> (\<forall>n \<in> fst ` set plan. open_for st n (load plan n)) \<and> (\<forall>n. get0 (claims st') n = get0 (claims st) n + load plan n)"
  using d
proof (cases rule: verdict_cases)
  case rejected
  then show ?thesis using sz d by (intro exI [of _ "[]"]) (simp add: placed_def rejected_def placementOf_def addsUp_def get0_def)
next
  case (admitted i overridden target placement)
  note inst = gates_Inr(3) [OF admitted(1)]
  have claimed: "placementOf st c = placement" using d admitted(1-3) by (simp add: placementOf_def admission_def)
  have snap: "st_snap st' = st_snap st" using decide_keeps(1) [OF d] by (simp add: fixedParts_def)
  obtain plan where plan: "placed (st_snap st) d plan" "\<forall>n \<in> fst ` set plan. open_for st n (load plan n)"
    "\<forall>n. get0 placement n = load plan n" "keys_of placement = fst ` set plan" "gomap_ok placement"
    "\<forall>p \<in> set plan. 0 \<le> snd p"
  proof (cases "c_TPUSlice c")
    case True
    then show ?thesis using that [of "[]"] admitted(2,3) by (simp add: selectTarget_def placed_def get0_def)
  next
    case False
    show ?thesis
    proof (cases "c_SurgeShaped c")
      case True
      then have "placePods st (targetNodes c) (surgePods c i) [] [] = Inr (target, placement)"
        using admitted(2) False by (simp add: selectTarget_def)
      from placePods_plan [OF this sz(1) surgePods_sizes [OF sz(2) inst sz(3)]] obtain plan where
        plan: "map snd plan = surgePods c i" "fst ` set plan \<subseteq> set (targetNodes c)" "\<forall>n \<in> fst ` set plan. open_for st n (get0 placement n)"
        "\<forall>n. get0 placement n = load plan n" "keys_of placement = fst ` set plan" "gomap_ok placement" "target = firstNode plan"
        by (auto simp: get0_def [of "[]"] is_gpu_def max_int64_def)
      have "\<forall>g \<in> snd ` set plan. is_gpu g"
        using surgePods_sizes [OF sz(2) inst sz(3)] plan(1) by (metis list.set_map)
      then have "\<forall>p \<in> set plan. 0 \<le> snd p" by (auto simp: is_gpu_def)
      then show ?thesis using that [of plan] plan False True inst admitted(3) by (simp add: placed_def Let_def)
    next
      case direct: False
      then consider "placement = []" "target = []" | h where "placement = [(h, c_FootprintGPUs c)]" "target = h" "fst (firstFit st (\<lambda>_. c_FootprintGPUs c) (targetNodes c) resetSaw) = Some h"
        using admitted(2) False by (auto simp: selectTarget_def split: option.splits)
      then show ?thesis
      proof cases
        case 1
        then show ?thesis using that [of "[]"] direct False admitted(3) by (simp add: placed_def Let_def get0_def)
      next
        case 2
        then show ?thesis using that [of placement] firstFit_open [OF 2(3) sz(1)] direct False admitted(3) sz(3)
          by (simp add: placed_def Let_def get0_def is_gpu_def)
      qed
    qed
  qed
  have next_claims: "get0 (claims st') n = get0 (claims st) n + load plan n \<and> is_gpu (get0 (claims st') n)" for n
  proof (cases "n \<in> fst ` set plan")
    case True
    have "is_gpu (get0 (claims st) n)" "0 \<le> load plan n" using sz(1) load_nonneg [OF plan(6)] by (auto simp: sizes_def)
    moreover have "get0 (claims st) n + load plan n \<le> max_int64 div 2"
      using plan(2) True free_bound [OF sz(1), of n] by (auto simp: open_for_def room_def)
    ultimately have "is_gpu (get0 (claims st) n + load plan n)" by (simp add: is_gpu_def)
    moreover from this have "wrap64 (get0 (claims st) n + load plan n) = get0 (claims st) n + load plan n"
      by (intro wrap64_id) (simp add: is_gpu_def max_int64_def)
    ultimately show ?thesis using True plan(3,4)
      by (simp add: admitted(6) admit_def fold_claimNode_claims(2) [OF plan(5)])
  next
    case False
    then show ?thesis using sz(1) plan(4) load_outside [OF False]
      by (simp add: admitted(6) admit_def fold_claimNode_claims(2) [OF plan(5)] sizes_def)
  qed
  moreover have "landed st' = landed st \<union> fst ` set plan"
    using plan(4) by (simp add: admitted(6) admit_def fold_claimNode_claims(1) [OF plan(5)])
  moreover have "sizes st'" using sz(1) next_claims [THEN conjunct2] by (simp add: sizes_def snap)
  moreover have "addsUp plan (placementOf st c)" using plan(3,4) by (simp add: addsUp_def claimed)
  ultimately show ?thesis using plan(1,2) by blast
qed

subsection \<open>A whole pass\<close>

definition all_open :: "admitState \<Rightarrow> (name \<times> int) list list \<Rightarrow> bool" where
  "all_open st plans \<longleftrightarrow> (\<forall>n \<in> fst ` set (concat plans). open_for st n (load (concat plans) n))"

fun disjoint_plans :: "(name \<times> int) list list \<Rightarrow> bool" where
  "disjoint_plans [] = True"
| "disjoint_plans (p # ps) \<longleftrightarrow> fst ` set p \<inter> fst ` set (concat ps) = {} \<and> disjoint_plans ps"

lemma decideAll_plans:
  assumes "decideAll st cs = (ds, st')" "sizes st" "pod_sizes (st_snap st)" "\<forall>c \<in> set cs. is_gpu (c_FootprintGPUs c)"
  shows "\<exists>plans. list_all2 (placed (st_snap st)) ds plans \<and> list_all2 addsUp plans (placements st cs) \<and> all_open st plans \<and> disjoint_plans plans"
  using assms
proof (induction cs arbitrary: st ds)
  case Nil
  then show ?case by (simp add: all_open_def)
next
  case (Cons c cs)
  from Cons.prems(1) obtain d st1 ds1 where d: "decide st c = (d, st1)" and rest: "decideAll st1 cs = (ds1, st')" and ds: "ds = d # ds1"
    by (rule decideAll_ConsE)
  obtain plan where plan: "placed (st_snap st) d plan" "addsUp plan (placementOf st c)" "landed st1 = landed st \<union> fst ` set plan" "sizes st1"
      "\<forall>n \<in> fst ` set plan. open_for st n (load plan n)" "\<forall>n. get0 (claims st1) n = get0 (claims st) n + load plan n"
    using decide_plan [OF d Cons.prems(2,3)] Cons.prems(4) by auto
  have same: "st_snap st1 = st_snap st" "usable st1 n = usable st n" for n
    using decide_keeps(1) [OF d] by (simp_all add: fixedParts_def usable_def cooling_def cong: option.case_cong)
  obtain plans where plans: "list_all2 (placed (st_snap st)) ds1 plans" "all_open st1 plans" "disjoint_plans plans"
      "list_all2 addsUp plans (placements st1 cs)"
    using Cons.IH [OF rest plan(4)] Cons.prems(3,4) same(1) by auto
  have later: "n \<notin> fst ` set plan" "open_for st n (load (concat plans) n)" if "n \<in> fst ` set (concat plans)" for n
  proof -
    have o: "open_for st1 n (load (concat plans) n)" using plans(2) that unfolding all_open_def by blast
    then show "n \<notin> fst ` set plan" using plan(3) by (auto simp: open_for_def)
    then have "load plan n = 0" by (rule load_outside)
    then show "open_for st n (load (concat plans) n)"
      using o plan(3,6) same by (simp add: open_for_def room_def)
  qed
  have "open_for st n (load (concat (plan # plans)) n)" if "n \<in> fst ` set (concat (plan # plans))" for n
  proof (cases "n \<in> fst ` set (concat plans)")
    case True
    then show ?thesis using later [OF True] load_outside [of n plan] by simp
  next
    case False
    then have "n \<in> fst ` set plan" using that by auto
    with plan(5) have "open_for st n (load plan n)" by (rule bspec)
    then show ?thesis using load_outside [OF False] by simp
  qed
  then have "all_open st (plan # plans)" unfolding all_open_def by blast
  moreover have "disjoint_plans (plan # plans)" using later(1) plans(3) by auto
  ultimately show ?case using plan(1,2) plans(1,4) ds d by (intro exI [of _ "plan # plans"]) simp
qed

text \<open>\<open>gpu_sizes\<close>: GPU counts are not negative and the sum of any two fits into an \<^verbatim>\<open>int64\<close>.\<close>

definition gpu_sizes :: "arbiter \<Rightarrow> cluster_snapshot \<Rightarrow> candidate list \<Rightarrow> bool" where
  "gpu_sizes a snap cands \<longleftrightarrow> (\<forall>m \<in> snd ` set (Nodes snap). is_gpu (FreeGPUs m)) \<and> pod_sizes snap
     \<and> (\<forall>c \<in> set cands. is_gpu (c_FootprintGPUs c)) \<and> (case a_Ledger a of None \<Rightarrow> True | Some l \<Rightarrow> ledger_sizes l)"

definition claimed :: "arbiter \<Rightarrow> name \<Rightarrow> int" where
  "claimed a n = (case a_Ledger a of None \<Rightarrow> 0 | Some l \<Rightarrow> \<Sum>rec\<leftarrow>dispatches l. claim_on n rec)"

definition evacuated :: "candidate list \<Rightarrow> name \<Rightarrow> bool" where
  "evacuated cands n \<longleftrightarrow> n \<noteq> [] \<and> (\<exists>c \<in> set cands. c_Executable c
     \<and> (c_Reason c = ReasonNodeUnhealthy \<or> c_Reason c = ReasonNodeMaintenance) \<and> c_FromNode c = n)"

text \<open>
  C9: No node is promised more than it has. Each decision of a pass has a plan: its first node is the target
  the decision names, it places every pod of a surge on one of the candidate's targets, and added up by node it is the placement that
  \<open>selectTarget\<close> chose and the pass claimed. A move that is no surge places its footprint on the named target, and plans
  nothing only if it names none. On every node of these plans the planned pods of the whole pass, added to the claims of the
  dispatches still running, fit into its free GPUs; the node is available, is not being emptied in this pass, and is
  used by one admission only.
\<close>

theorem Admit_no_overcommit:
  assumes "Admit a snap cands cfg now = (ds, a')" "gpu_sizes a snap cands"
  shows "\<exists>plans. list_all2 (placed snap) ds plans
     \<and> list_all2 addsUp plans (placements (newAdmitState a snap cfg (arbitrationOrder cands) now) (arbitrationOrder cands))
     \<and> disjoint_plans plans
     \<and> (\<forall>n \<in> fst ` set (concat plans). \<not> UnavailableAsTarget (map_of (Nodes snap) n) \<and> \<not> evacuated cands n
          \<and> claimed a' n + load (concat plans) n \<le> free snap n)"
proof -
  from assms(1) obtain st st' where st: "newAdmitState a snap cfg (arbitrationOrder cands) now = st"
    "decideAll st (arbitrationOrder cands) = (ds, st')" "a' = st_arbiter st" by (rule Admit_run)
  note f = newAdmitState_fields [OF st(1)]
  have claims: "get0 (claims st) n = claimed a' n \<and> is_gpu (get0 (claims st) n)" for n
  proof (cases "a_Ledger a")
    case None
    then show ?thesis using f by (simp add: st(3) claimed_def get0_def is_gpu_def max_int64_def)
  next
    case (Some l)
    then have "ledger_sizes (AbsorbSnapshot snap now l)" using assms(2) by (simp add: gpu_sizes_def ledger_sizes_absorb)
    from ActiveClaims_get0 [OF this] show ?thesis using f Some by (simp add: st(3) claimed_def)
  qed
  have "sizes st" using assms(2) claims [THEN conjunct2] f(1) by (simp add: sizes_def gpu_sizes_def)
  then obtain plans where plans: "list_all2 (placed snap) ds plans" "all_open st plans" "disjoint_plans plans"
      "list_all2 addsUp plans (placements st (arbitrationOrder cands))"
    using decideAll_plans [OF st(2)] assms(2) f(1) by (auto simp: gpu_sizes_def arbitrationOrder_def)
  have evac: "evacuating st = {n. evacuated cands n}"
    unfolding st(1) [symmetric] by (auto simp: newAdmitState_def Let_def evacuated_def arbitrationOrder_def split: prod.splits)
  have "\<not> UnavailableAsTarget (map_of (Nodes snap) n) \<and> \<not> evacuated cands n \<and> claimed a' n + load (concat plans) n \<le> free snap n"
    if "n \<in> fst ` set (concat plans)" for n
  proof -
    have "open_for st n (load (concat plans) n)" using plans(2) that unfolding all_open_def by blast
    then show ?thesis using claims [of n] by (simp add: open_for_def usable_def room_def f(1) evac)
  qed
  then show ?thesis unfolding st(1) using plans(1,3,4) by blast
qed

theorem Admit_no_overcommit_witness:
  "claimed (snd demoPass) ''n2'' = 2 \<and> map d_Target (fst demoPass) = [''n2'', [], []]
     \<and> placements (newAdmitState demoArbiter demoSnapshot demoConfig (arbitrationOrder demoCandidates) (100 * Hour)) (arbitrationOrder demoCandidates)
         = [[(''n2'', 6)], [], []]
     \<and> (\<exists>plans. list_all2 (placed demoSnapshot) (fst demoPass) plans \<and> list_all2 addsUp plans [[(''n2'', 6)], [], []] \<and> disjoint_plans plans
          \<and> (\<forall>n \<in> fst ` set (concat plans). \<not> UnavailableAsTarget (map_of (Nodes demoSnapshot) n) \<and> \<not> evacuated demoCandidates n
               \<and> claimed (snd demoPass) n + load (concat plans) n \<le> free demoSnapshot n))"
proof -
  have sizes: "gpu_sizes demoArbiter demoSnapshot demoCandidates" by code_simp
  have "claimed (snd demoPass) ''n2'' = 2" by code_simp
  moreover have "map d_Target (fst demoPass) = [''n2'', [], []]" by code_simp
  moreover have "placements (newAdmitState demoArbiter demoSnapshot demoConfig (arbitrationOrder demoCandidates) (100 * Hour)) (arbitrationOrder demoCandidates)
      = [[(''n2'', 6)], [], []]" by code_simp
  ultimately show ?thesis using Admit_no_overcommit [OF demoPass_eq sizes] by simp
qed

end
