(* ===== verification/Alfred_Journal.thy ===== *)
theory Alfred_Journal
  imports Alfred_Arbiter
begin

section \<open>The dispatch journal\<close>

text \<open>
  \<^verbatim>\<open>pkg/alfred/engine/dispatch_journal.go\<close> and \<^verbatim>\<open>dispatch_request.go\<close>. Before Alfred asks for a migration
  it writes the intent into a journal kept in a ConfigMap, so that a new leader knows what may already have
  been asked for. This theory has the journal, its validation, its pruning, and the request an entry
  carries.

  UUIDs, the name rules of Kubernetes, JSON and the formatting of times are parameters, collected in
  \<open>journal_api\<close>. Decoding a journal stands for the strict decoding of the stored text: duplicate members,
  unknown fields, trailing data and a missing instance are refused.
\<close>

subsection \<open>Entries\<close>

abbreviation dispatchPrepared :: string where "dispatchPrepared \<equiv> ''prepared''"
abbreviation dispatchSubmitted :: string where "dispatchSubmitted \<equiv> ''submitted''"
abbreviation dispatchAcknowledged :: string where "dispatchAcknowledged \<equiv> ''acknowledged''"
abbreviation dispatchCompleted :: string where "dispatchCompleted \<equiv> ''completed''"
abbreviation dispatchFailed :: string where "dispatchFailed \<equiv> ''failed''"
abbreviation dispatchStalled :: string where "dispatchStalled \<equiv> ''stalled''"

definition dispatchStateMaxBytes :: nat where "dispatchStateMaxBytes = 512 * 1024"
definition dispatchMaxEntries :: nat where "dispatchMaxEntries = 256"
definition dispatchPayloadMax :: nat where "dispatchPayloadMax = 4096"
definition dispatchHistoryTTL :: duration where "dispatchHistoryTTL = Hour"

record dispatchEntry =
  e_UUID :: string
  e_Workload :: object_name
  e_WorkloadUID :: string
  e_IRName :: name
  e_IRUID :: string
  e_Component :: string
  e_Instance :: int
  e_FromNode :: name
  e_Targets :: "name list"
  e_Payload :: string
  e_SourceFingerprint :: string
  e_CreatedAt :: time
  e_LastAttempt :: "time option"
  e_AcknowledgedAt :: "time option"
  e_CompletedAt :: "time option"
  e_Phase :: string
  e_Reason :: string

text \<open>\<open>Entries\<close> is \<open>None\<close> for the nil slice.\<close>

record dispatchJournal =
  Version :: string
  Entries :: "dispatchEntry list option"
  BackoffUntil :: "time option"

definition entries :: "dispatchJournal \<Rightarrow> dispatchEntry list" where
  "entries j = (case Entries j of None \<Rightarrow> [] | Some es \<Rightarrow> es)"

definition terminal :: "dispatchEntry \<Rightarrow> bool" where
  "terminal e \<longleftrightarrow> (e_Phase e = dispatchCompleted \<or> e_Phase e = dispatchFailed)
     \<and> (case e_CompletedAt e of None \<Rightarrow> False | Some t \<Rightarrow> \<not> t < e_CreatedAt e)"

definition retained :: "time \<Rightarrow> dispatchEntry \<Rightarrow> bool" where
  "retained cutoff e \<longleftrightarrow> \<not> terminal e \<or> (case e_CompletedAt e of None \<Rightarrow> True | Some t \<Rightarrow> \<not> t < cutoff)"

definition prune :: "time \<Rightarrow> dispatchJournal \<Rightarrow> dispatchJournal" where
  "prune now j = j\<lparr>Entries := map_option (filter (retained (now - dispatchHistoryTTL))) (Entries j)\<rparr>"

subsection \<open>Requests\<close>

record migrationRequest =
  r_SchemaVersion :: string
  r_Component :: string
  r_Instance :: int
  r_FromNode :: name
  r_HintTargetNodes :: "name list"
  r_Reason :: string
  r_RequestedAt :: string
  r_RequestedBy :: string

record journal_api =
  ParseUUID :: "string \<Rightarrow> string option"
  RFC4122 :: "string \<Rightarrow> bool"
  IsDNS1123Label :: "string \<Rightarrow> bool"
  IsDNS1123Subdomain :: "string \<Rightarrow> bool"
  JSONValid :: "string \<Rightarrow> bool"
  FormatTime :: "time \<Rightarrow> string"
  MarshalRequest :: "migrationRequest \<Rightarrow> string option"
  DecodeRequest :: "string \<Rightarrow> migrationRequest option"
  MarshalJournal :: "dispatchJournal \<Rightarrow> string option"
  DecodeJournal :: "string \<Rightarrow> dispatchJournal option"

definition supportedComponents :: "string list" where
  "supportedComponents = [''router'', ''engine'', ''decoder'']"

fun hintsValid :: "journal_api \<Rightarrow> name \<Rightarrow> name set \<Rightarrow> name list \<Rightarrow> bool" where
  "hintsValid J from seen [] = True"
| "hintsValid J from seen (hint # hints) =
     (if hint = from \<or> hint \<in> seen \<or> \<not> IsDNS1123Subdomain J hint then False
      else hintsValid J from (insert hint seen) hints)"

definition request_validate :: "journal_api \<Rightarrow> migrationRequest \<Rightarrow> string option" where
  "request_validate J r =
     (if r_SchemaVersion r \<noteq> ''v1'' \<or> r_Instance r < 0 \<or> \<not> IsDNS1123Subdomain J (r_FromNode r) then Some ''invalid migration source''
      else if r_Component r \<notin> set supportedComponents then Some ''unsupported migration component''
      else if length (r_HintTargetNodes r) > 8 then Some ''too many migration hints''
      else if \<not> hintsValid J (r_FromNode r) {} (r_HintTargetNodes r) then Some ''invalid migration hint''
      else None)"

definition newDispatchEntry :: "journal_api \<Rightarrow> string \<Rightarrow> candidate \<Rightarrow> string \<Rightarrow> name \<Rightarrow> string \<Rightarrow> string \<Rightarrow> time \<Rightarrow> string + dispatchEntry" where
  "newDispatchEntry J uuid c owner irName irUID fingerprint now =
     (let req = \<lparr>r_SchemaVersion = ''v1'', r_Component = c_Component c, r_Instance = c_Instance c, r_FromNode = c_FromNode c,
                 r_HintTargetNodes = c_HintTargetNodes c, r_Reason = c_Reason c, r_RequestedAt = FormatTime J now, r_RequestedBy = ''alfred''\<rparr>
      in case request_validate J req of
           Some err \<Rightarrow> Inl err
         | None \<Rightarrow> (case MarshalRequest J req of
             None \<Rightarrow> Inl ''invalid bounded migration payload''
           | Some raw \<Rightarrow>
               if length raw > 4096 then Inl ''invalid bounded migration payload''
               else Inr \<lparr>e_UUID = uuid, e_Workload = c_Workload c, e_WorkloadUID = owner, e_IRName = irName, e_IRUID = irUID,
                     e_Component = c_Component c, e_Instance = c_Instance c, e_FromNode = c_FromNode c, e_Targets = [],
                     e_Payload = raw, e_SourceFingerprint = fingerprint, e_CreatedAt = now, e_LastAttempt = None,
                     e_AcknowledgedAt = None, e_CompletedAt = None, e_Phase = dispatchPrepared, e_Reason = []\<rparr>))"

definition requestForEntry :: "journal_api \<Rightarrow> dispatchEntry \<Rightarrow> string + migrationRequest" where
  "requestForEntry J e = (case DecodeRequest J (e_Payload e) of
       None \<Rightarrow> Inl ''malformed payload''
     | Some r \<Rightarrow>
         (case request_validate J r of
            Some err \<Rightarrow> Inl err
          | None \<Rightarrow>
              if r_Component r \<noteq> e_Component e \<or> r_Instance r \<noteq> e_Instance e \<or> r_FromNode r \<noteq> e_FromNode e
                 \<or> r_RequestedBy r \<noteq> ''alfred'' \<or> r_RequestedAt r \<noteq> FormatTime J (e_CreatedAt e)
              then Inl ''journal payload identity mismatch'' else Inr r))"

subsection \<open>Validation\<close>

text \<open>The checks of an entry: its intent, then the times and the phase.\<close>

definition validateIntent :: "journal_api \<Rightarrow> dispatchEntry \<Rightarrow> string + string" where
  "validateIntent J e = (case ParseUUID J (e_UUID e) of
       None \<Rightarrow> Inl ''UUID is not RFC4122''
     | Some u \<Rightarrow>
         if \<not> RFC4122 J u then Inl ''UUID is not RFC4122''
         else if \<not> IsDNS1123Label J (fst (e_Workload e)) \<or> \<not> IsDNS1123Subdomain J (snd (e_Workload e)) then Inl ''workload identity is invalid''
         else if e_WorkloadUID e = [] then Inl ''workload UID is required''
         else if \<not> IsDNS1123Subdomain J (e_IRName e) then Inl ''InferenceReplica name is invalid''
         else if e_IRUID e = [] then Inl ''InferenceReplica UID is required''
         else if e_Component e \<notin> set supportedComponents then Inl ''component is invalid''
         else if e_Instance e < 0 then Inl ''instance must be nonnegative''
         else if e_FromNode e = [] then Inl ''source node is required''
         else if e_SourceFingerprint e = [] then Inl ''source fingerprint is required''
         else if length (e_Payload e) > dispatchPayloadMax \<or> \<not> JSONValid J (e_Payload e) then Inl ''payload is invalid''
         else if e_CreatedAt e = 0 then Inl ''creation time is required''
         else if (case e_LastAttempt e of None \<Rightarrow> False | Some t \<Rightarrow> t < e_CreatedAt e) then Inl ''last attempt predates creation''
         else Inr u)"

definition validateDispatchEntry :: "journal_api \<Rightarrow> dispatchEntry \<Rightarrow> string + string" where
  "validateDispatchEntry J e = bindE (validateIntent J e) (\<lambda>u.
         if (case e_AcknowledgedAt e of None \<Rightarrow> False | Some t \<Rightarrow> t < e_CreatedAt e) then Inl ''acknowledgement predates creation''
         else if e_Phase e = dispatchCompleted \<or> e_Phase e = dispatchFailed
         then if \<not> terminal e then Inl ''terminal phase has invalid completion time'' else Inr u
         else if e_Phase e \<in> {dispatchPrepared, dispatchSubmitted, dispatchAcknowledged, dispatchStalled}
         then if e_CompletedAt e \<noteq> None then Inl ''unresolved phase carries completion time'' else Inr u
         else Inl ''phase is invalid'')"

fun validateEntries :: "journal_api \<Rightarrow> string set \<Rightarrow> dispatchEntry list \<Rightarrow> string option" where
  "validateEntries J seen [] = None"
| "validateEntries J seen (e # es) = (case validateDispatchEntry J e of
       Inl err \<Rightarrow> Some (''entry is invalid: '' @ err)
     | Inr u \<Rightarrow> if u \<in> seen then Some ''entry has duplicate UUID'' else validateEntries J (insert u seen) es)"

definition validateDispatchJournal :: "journal_api \<Rightarrow> dispatchJournal \<Rightarrow> string option" where
  "validateDispatchJournal J j =
     (if Version j \<noteq> ''v1'' then Some ''unsupported version''
      else case Entries j of
        None \<Rightarrow> Some ''entries are required''
      | Some es \<Rightarrow>
          if length es > dispatchMaxEntries then Some ''exceeds entry limit''
          else if BackoffUntil j = Some 0 then Some ''invalid backoff time''
          else validateEntries J {} es)"

subsection \<open>Loading and saving\<close>

text \<open>A resource version is a number, zero for the empty one.\<close>

record config_map =
  cm_Namespace :: name
  cm_Name :: name
  cm_ResourceVersion :: nat
  cm_Data :: "(string, string) gomap"

definition dispatchStateName :: name where "dispatchStateName = ''alfred-dispatch-state''"
definition dispatchStateKey :: string where "dispatchStateKey = ''state.json''"

text \<open>\<open>got\<close> is what reading the ConfigMap returned.\<close>

definition loadDispatchJournal :: "journal_api \<Rightarrow> config_map option \<Rightarrow> string + config_map \<times> dispatchJournal" where
  "loadDispatchJournal J got = (case got of
       None \<Rightarrow> Inl ''load dispatch state ConfigMap''
     | Some cm \<Rightarrow> (case map_of (cm_Data cm) dispatchStateKey of
           None \<Rightarrow> Inl ''dispatch state ConfigMap is missing state data''
         | Some raw \<Rightarrow>
             if length raw > dispatchStateMaxBytes then Inl ''dispatch state exceeds size limit''
             else (case DecodeJournal J raw of
                 None \<Rightarrow> Inl ''dispatch state contains malformed or unsupported JSON''
               | Some j \<Rightarrow> (case validateDispatchJournal J j of Some err \<Rightarrow> Inl err | None \<Rightarrow> Inr (cm, j)))))"

text \<open>The object handed to the update call, or why none is.\<close>

definition saveDispatchJournal :: "journal_api \<Rightarrow> config_map \<Rightarrow> dispatchJournal \<Rightarrow> string + config_map" where
  "saveDispatchJournal J cm j =
     (if cm_Name cm \<noteq> dispatchStateName \<or> cm_Namespace cm = [] then Inl ''dispatch state ConfigMap has invalid identity''
      else if cm_ResourceVersion cm = 0 then Inl ''dispatch state ConfigMap has no observed resourceVersion''
      else case validateDispatchJournal J j of
        Some err \<Rightarrow> Inl err
      | None \<Rightarrow> (case MarshalJournal J j of
          None \<Rightarrow> Inl ''dispatch state cannot be encoded''
        | Some raw \<Rightarrow>
            if length raw > dispatchStateMaxBytes then Inl ''dispatch state exceeds size limit''
            else Inr (cm\<lparr>cm_Data := AList.update dispatchStateKey raw (cm_Data cm)\<rparr>)))"

subsection \<open>What a stored journal promises\<close>

text \<open>The journal a ConfigMap holds, if it can be loaded.\<close>

definition journalOf :: "journal_api \<Rightarrow> config_map \<Rightarrow> dispatchJournal option" where
  "journalOf J cm = (case loadDispatchJournal J (Some cm) of Inl _ \<Rightarrow> None | Inr r \<Rightarrow> Some (snd r))"

text \<open>JSON gives back what was encoded.\<close>

definition decodes :: "journal_api \<Rightarrow> bool" where
  "decodes J \<longleftrightarrow> (\<forall>j raw. MarshalJournal J j = Some raw \<longrightarrow> DecodeJournal J raw = Some j)"

lemma load_Inr: "loadDispatchJournal J (Some cm) = Inr (cm', j) \<longleftrightarrow> cm' = cm \<and> journalOf J cm = Some j"
  by (auto simp: journalOf_def loadDispatchJournal_def Let_def split: option.splits sum.splits if_splits)

lemma load_None: "loadDispatchJournal J None \<noteq> Inr r"
  by (simp add: loadDispatchJournal_def)

lemma journalOf_valid: "journalOf J cm = Some j \<Longrightarrow> validateDispatchJournal J j = None"
  by (auto simp: journalOf_def loadDispatchJournal_def split: option.splits sum.splits if_splits)

lemma journalOf_version [simp]: "journalOf J (cm\<lparr>cm_ResourceVersion := v\<rparr>) = journalOf J cm"
  by (simp add: journalOf_def loadDispatchJournal_def split: option.splits sum.splits)

text \<open>What is saved is what is loaded.\<close>

lemma save_journal:
  assumes "decodes J" "saveDispatchJournal J cm j = Inr cm'"
  shows "journalOf J cm' = Some j" "cm_ResourceVersion cm' = cm_ResourceVersion cm"
proof -
  from assms(2) obtain raw where valid: "validateDispatchJournal J j = None" and raw: "MarshalJournal J j = Some raw"
    and small: "\<not> length raw > dispatchStateMaxBytes" and cm': "cm' = cm\<lparr>cm_Data := AList.update dispatchStateKey raw (cm_Data cm)\<rparr>"
    by (auto simp: saveDispatchJournal_def split: if_splits option.splits)
  then show "cm_ResourceVersion cm' = cm_ResourceVersion cm" by simp
  have "DecodeJournal J raw = Some j" using assms(1) raw by (simp add: decodes_def)
  then show "journalOf J cm' = Some j" using valid small cm' by (simp add: journalOf_def loadDispatchJournal_def update_conv')
qed

lemma validateDispatchEntry_uuid: "validateDispatchEntry J e = Inr u \<Longrightarrow> ParseUUID J (e_UUID e) = Some u"
  by (auto simp: validateDispatchEntry_def validateIntent_def bindE_Inr split: option.splits if_splits)

lemma validateEntries_None:
  assumes "validateEntries J seen es = None"
  shows "(\<forall>e \<in> set es. \<exists>u. validateDispatchEntry J e = Inr u \<and> u \<notin> seen) \<and> distinct (map e_UUID es)"
  using assms
proof (induction es arbitrary: seen)
  case (Cons e es)
  obtain u where u: "validateDispatchEntry J e = Inr u" "u \<notin> seen" "validateEntries J (insert u seen) es = None"
    using Cons.prems by (auto split: sum.splits if_splits)
  note IH = Cons.IH [OF u(3)]
  have "e_UUID e \<notin> e_UUID ` set es"
  proof
    assume "e_UUID e \<in> e_UUID ` set es"
    then obtain e' where e': "e' \<in> set es" "e_UUID e' = e_UUID e" by auto
    then obtain u' where "validateDispatchEntry J e' = Inr u'" "u' \<notin> insert u seen" using IH by blast
    then show False using e'(2) validateDispatchEntry_uuid [of J e' u'] validateDispatchEntry_uuid [OF u(1)] by simp
  qed
  then show ?case using IH u by auto
qed simp

lemma valid_entries:
  assumes "validateDispatchJournal J j = None"
  shows "\<forall>e \<in> set (entries j). \<exists>u. validateDispatchEntry J e = Inr u" "distinct (map e_UUID (entries j))" "Entries j \<noteq> None"
proof -
  obtain es where es: "Entries j = Some es" "validateEntries J {} es = None"
    using assms by (auto simp: validateDispatchJournal_def split: option.splits if_splits)
  then show "\<forall>e \<in> set (entries j). \<exists>u. validateDispatchEntry J e = Inr u" "distinct (map e_UUID (entries j))" "Entries j \<noteq> None"
    using validateEntries_None [OF es(2)] by (auto simp: entries_def)
qed

subsection \<open>An example\<close>

text \<open>An API whose checks accept every name, and an entry for a move of \<^verbatim>\<open>ns/w1\<close>.\<close>

definition demoAPI :: journal_api where
  "demoAPI = \<lparr>ParseUUID = (\<lambda>s. if CHR ''/'' \<in> set s then None else Some s), RFC4122 = (\<lambda>_. True),
     IsDNS1123Label = (\<lambda>_. True), IsDNS1123Subdomain = (\<lambda>_. True), JSONValid = (\<lambda>_. True), FormatTime = (\<lambda>_. ''t''),
     MarshalRequest = (\<lambda>_. Some ''r''), DecodeRequest = (\<lambda>_. None), MarshalJournal = (\<lambda>_. None), DecodeJournal = (\<lambda>_. None)\<rparr>"

definition demoEntry :: "string \<Rightarrow> time \<Rightarrow> string \<Rightarrow> time option \<Rightarrow> dispatchEntry" where
  "demoEntry uuid created phase completed = \<lparr>e_UUID = uuid, e_Workload = (''ns'', ''w1''), e_WorkloadUID = ''o'', e_IRName = ''ir'',
     e_IRUID = ''i'', e_Component = ''engine'', e_Instance = 0, e_FromNode = ''n1'', e_Targets = [''n2''], e_Payload = ''r'',
     e_SourceFingerprint = ''f'', e_CreatedAt = created, e_LastAttempt = None, e_AcknowledgedAt = None, e_CompletedAt = completed,
     e_Phase = phase, e_Reason = []\<rparr>"

definition demoJournal :: dispatchJournal where
  "demoJournal = \<lparr>Version = ''v1'', Entries = Some [demoEntry ''u1'' (90 * Hour) dispatchCompleted (Some (91 * Hour)),
     demoEntry ''u2'' (98 * Hour) dispatchCompleted (Some (99 * Hour))], BackoffUntil = None\<rparr>"

end
