(* ===== verification/Alfred_Budget.thy ===== *)
theory Alfred_Budget
  imports Alfred_Journal Go_Strings
begin

section \<open>The budget of the dispatcher\<close>

text \<open>
  \<^verbatim>\<open>pkg/alfred/engine/dispatch_budget.go\<close>. The dispatcher counts migrations by identity, over the request
  annotations of the services, the migration rows of the replicas and its own journal, and withholds a
  move that would exceed a limit. Finished journal entries are pruned once no cooldown can need them; the
  theorem is that pruning never changes a verdict of the budget.
\<close>

subsection \<open>What is captured of the cluster\<close>

record owner_reference =
  or_Kind :: string
  or_Name :: name
  or_UID :: string
  or_Controller :: "bool option"

record MigrationStatus =
  m_RequestUUID :: string
  m_Trigger :: string
  m_SourceInstance :: int
  m_FromNode :: name
  m_Phase :: string
  m_StartedAt :: time
  m_Deadline :: time
  m_CompletedAt :: "time option"

record service =
  sv_Name :: object_name
  sv_UID :: string
  sv_ResourceVersion :: nat
  sv_Generation :: int
  sv_Annotations :: "(string, string) gomap"

record replica =
  ir_Name :: object_name
  ir_UID :: string
  ir_Generation :: int
  ir_OwnerReferences :: "owner_reference list"
  ir_Component :: string
  ir_ParentRef :: "name option"
  ir_Migrations :: "MigrationStatus list"

text \<open>An object of the capture, read as a Node; \<open>None\<close> in a capture for one that cannot be.\<close>

record captured_object =
  ob_Kind :: string
  ob_APIVersion :: string
  ob_Name :: name
  ob_Conditions :: "(string, string) gomap"

record capture =
  InferenceServices :: "service list"
  InferenceReplicas :: "replica list"
  Objects :: "captured_object option list"

definition migrationRequestPrefix :: string where
  "migrationRequestPrefix = ''ome.io/migration-request-v1-''"

definition AlfredCooldownMinutesAnnotationKey :: string where
  "AlfredCooldownMinutesAnnotationKey = ''alfred.ome.io/cooldown-minutes''"

text \<open>\<^verbatim>\<open>strings.HasPrefix\<close> and \<^verbatim>\<open>strconv.ParseInt\<close> in base 10.\<close>

definition HasPrefix :: "string \<Rightarrow> string \<Rightarrow> bool" where
  "HasPrefix s p \<longleftrightarrow> take (length p) s = p"

definition ParseInt64 :: "string \<Rightarrow> int option" where
  "ParseInt64 s =
     (let (neg, ds) = (case s of [] \<Rightarrow> (False, []) | c # cs \<Rightarrow> if c = CHR ''-'' then (True, cs) else if c = CHR ''+'' then (False, cs) else (False, s));
          v = (if neg then - int (Atoi_nat ds) else int (Atoi_nat ds))
      in if ds \<noteq> [] \<and> list_all is_digit ds \<and> is_int64 v then Some v else None)"

subsection \<open>Cooldowns\<close>

definition dispatchCooldownDuration :: "int \<Rightarrow> duration option" where
  "dispatchCooldownDuration m = (if m < 0 \<or> m > max_int64 div Minute then None else Some (wrap64 (m * Minute)))"

definition dispatchConfigCooldownsValid :: "alfred_config \<Rightarrow> bool" where
  "dispatchConfigCooldownsValid cfg \<longleftrightarrow> (\<forall>m \<in> set [PerNodeCooldownMinutes cfg, PerWorkloadCooldownMinutes cfg,
     HealthCooldownFloorMinutes cfg, RecentPlacementCooldownMinutes cfg]. dispatchCooldownDuration m \<noteq> None)"

definition dispatchWorkloadCooldown :: "service \<Rightarrow> alfred_config \<Rightarrow> duration option" where
  "dispatchWorkloadCooldown owner cfg = (case map_of (sv_Annotations owner) AlfredCooldownMinutesAnnotationKey of
       Some raw \<Rightarrow> (case ParseInt64 raw of None \<Rightarrow> None | Some m \<Rightarrow> dispatchCooldownDuration m)
     | None \<Rightarrow> dispatchCooldownDuration (PerWorkloadCooldownMinutes cfg))"

fun widestOverride :: "alfred_config \<Rightarrow> service list \<Rightarrow> duration \<Rightarrow> duration option" where
  "widestOverride cfg [] window = Some window"
| "widestOverride cfg (s # ss) window = (case dispatchWorkloadCooldown s cfg of
       None \<Rightarrow> None | Some override \<Rightarrow> widestOverride cfg ss (max window override))"

definition dispatchHistoryWindow :: "capture \<Rightarrow> alfred_config \<Rightarrow> duration option" where
  "dispatchHistoryWindow s cfg =
     (if \<not> dispatchConfigCooldownsValid cfg then None
      else widestOverride cfg (InferenceServices s)
        (max (max (max dispatchHistoryTTL (PerNodeCooldown cfg)) (PerWorkloadCooldown cfg)) (HealthCooldownFloor cfg)))"

definition pruneDispatchHistory :: "dispatchJournal \<Rightarrow> duration \<Rightarrow> time \<Rightarrow> dispatchJournal" where
  "pruneDispatchHistory j window now = prune (now + (dispatchHistoryTTL - max dispatchHistoryTTL window)) j"

definition existingUUID :: "dispatchEntry option \<Rightarrow> string" where
  "existingUUID e = (case e of None \<Rightarrow> [] | Some e \<Rightarrow> e_UUID e)"

definition entryCooling :: "name \<Rightarrow> duration \<Rightarrow> time \<Rightarrow> dispatchEntry option \<Rightarrow> dispatchEntry \<Rightarrow> bool" where
  "entryCooling node window now existing e \<longleftrightarrow> e_UUID e \<noteq> existingUUID existing
     \<and> \<not> time_Sub now (case e_CompletedAt e of None \<Rightarrow> e_CreatedAt e | Some t \<Rightarrow> t) \<ge> window
     \<and> (e_FromNode e = node \<or> node \<in> set (e_Targets e))"

definition journalNodeCooling :: "dispatchJournal \<Rightarrow> name \<Rightarrow> duration \<Rightarrow> time \<Rightarrow> dispatchEntry option \<Rightarrow> bool" where
  "journalNodeCooling j node window now existing \<longleftrightarrow> (\<exists>e \<in> set (entries j). entryCooling node window now existing e)"

subsection \<open>Counting identities\<close>

definition identityKey :: "string \<Rightarrow> string \<Rightarrow> string" where
  "identityKey owner uuid = owner @ ''/'' @ uuid"

text \<open>The identities seen so far: those active, those of the last hour, and the workload's cooldown.\<close>

record tally =
  active :: "string set"
  recentKeys :: "string set"
  workloadWindow :: duration

definition requestKeys :: "service \<Rightarrow> string set" where
  "requestKeys s = set (map (\<lambda>a. identityKey (sv_UID s) (drop (length migrationRequestPrefix) a))
     (filter (\<lambda>a. HasPrefix a migrationRequestPrefix) (map fst (sv_Annotations s))))"

fun tallyServices :: "alfred_config \<Rightarrow> candidate \<Rightarrow> service list \<Rightarrow> tally \<Rightarrow> string + tally" where
  "tallyServices cfg c [] t = Inr t"
| "tallyServices cfg c (s # ss) t = (case dispatchWorkloadCooldown s cfg of
       None \<Rightarrow> Inl ''InvalidCooldown''
     | Some window \<Rightarrow> tallyServices cfg c ss
         \<lparr>active = active t \<union> requestKeys s, recentKeys = recentKeys t \<union> requestKeys s,
          workloadWindow = (if sv_Name s = c_Workload c then window else workloadWindow t)\<rparr>)"

fun tallyMigrations :: "time \<Rightarrow> string \<Rightarrow> MigrationStatus list \<Rightarrow> tally \<Rightarrow> string + tally" where
  "tallyMigrations now owner [] t = Inr t"
| "tallyMigrations now owner (m # ms) t =
     (if m_RequestUUID m = [] \<or> m_StartedAt m = 0 \<or> m_StartedAt m > now then Inl ''MigrationStateInvalid''
      else let k = identityKey owner (m_RequestUUID m);
               t' = (if time_Sub now (m_StartedAt m) \<le> Hour then t\<lparr>recentKeys := insert k (recentKeys t)\<rparr> else t)
           in if m_Phase m \<in> {''Completed'', ''Failed'', ''Relocated''} then tallyMigrations now owner ms t'
              else if m_Phase m \<in> {''Accepted'', ''SurgePending'', ''SurgeReady'', ''Draining''}
              then tallyMigrations now owner ms (t'\<lparr>active := insert k (active t')\<rparr>)
              else Inl ''MigrationStateInvalid'')"

definition owningService :: "replica \<Rightarrow> string" where
  "owningService ir = (case find (\<lambda>ref. or_Kind ref = ''InferenceService'') (ir_OwnerReferences ir) of None \<Rightarrow> [] | Some ref \<Rightarrow> or_UID ref)"

fun tallyReplicas :: "time \<Rightarrow> replica list \<Rightarrow> tally \<Rightarrow> string + tally" where
  "tallyReplicas now [] t = Inr t"
| "tallyReplicas now (ir # irs) t =
     (if owningService ir = [] \<and> ir_Migrations ir \<noteq> [] then Inl ''MigrationStateInvalid''
      else bindE (tallyMigrations now (owningService ir) (ir_Migrations ir) t) (tallyReplicas now irs))"

definition tallyEntry :: "time \<Rightarrow> dispatchEntry \<Rightarrow> tally \<Rightarrow> tally" where
  "tallyEntry now e t =
     (let k = identityKey (e_WorkloadUID e) (e_UUID e)
      in t\<lparr>active := (if terminal e then active t else insert k (active t)),
           recentKeys := (if time_Sub now (e_CreatedAt e) \<le> Hour then insert k (recentKeys t) else recentKeys t)\<rparr>)"

definition coolingWorkload :: "candidate \<Rightarrow> duration \<Rightarrow> time \<Rightarrow> dispatchEntry option \<Rightarrow> dispatchEntry \<Rightarrow> bool" where
  "coolingWorkload c window now existing e \<longleftrightarrow> e_UUID e \<noteq> existingUUID existing \<and> e_Workload e = c_Workload c
     \<and> (case e_CompletedAt e of None \<Rightarrow> False | Some t \<Rightarrow> time_Sub now t < window)"

fun tallyEntries :: "candidate \<Rightarrow> time \<Rightarrow> dispatchEntry option \<Rightarrow> dispatchEntry list \<Rightarrow> tally \<Rightarrow> string + tally" where
  "tallyEntries c now existing [] t = Inr t"
| "tallyEntries c now existing (e # es) t =
     (if coolingWorkload c (workloadWindow t) now existing e then Inl ''Cooldown''
      else tallyEntries c now existing es (tallyEntry now e t))"

definition dispatchBudget :: "capture \<Rightarrow> dispatchJournal \<Rightarrow> candidate \<Rightarrow> alfred_config \<Rightarrow> time \<Rightarrow> dispatchEntry option \<Rightarrow> string" where
  "dispatchBudget s j c cfg now existing =
     (if \<not> dispatchConfigCooldownsValid cfg then ''InvalidCooldown''
      else let own = (case existing of None \<Rightarrow> [] | Some e \<Rightarrow> identityKey (e_WorkloadUID e) (e_UUID e));
               zero = \<lparr>active = {}, recentKeys = {}, workloadWindow = PerWorkloadCooldown cfg\<rparr>
           in case bindE (tallyServices cfg c (InferenceServices s) zero) (\<lambda>t.
                bindE (tallyReplicas now (InferenceReplicas s)
                  (if c_Reason c = ReasonNodeUnhealthy then t\<lparr>workloadWindow := HealthCooldownFloor cfg\<rparr> else t))
                (tallyEntries c now existing (entries j))) of
              Inl reason \<Rightarrow> reason
            | Inr t \<Rightarrow>
                if active t - {own} \<noteq> {} then ''InFlightCap''
                else if int (card (recentKeys t - {own})) \<ge> MaxMigrationsPerHour cfg then ''HourlyCap''
                else if (case BackoffUntil j of None \<Rightarrow> False | Some t \<Rightarrow> now < t) then ''FailureBackoff''
                else if c_Reason c \<noteq> ReasonNodeUnhealthy \<and> journalNodeCooling j (c_FromNode c) (PerNodeCooldown cfg) now existing
                then ''NodeCooldown'' else [])"

subsection \<open>What the window covers\<close>

lemma int64_wrap [simp]: "wrap64 x \<le> max_int64"
  using wrap64_range [of x] by simp

lemma dispatchCooldownDuration_int64: "dispatchCooldownDuration m = Some d \<Longrightarrow> d \<le> max_int64"
  by (auto simp: dispatchCooldownDuration_def split: if_splits)

lemma dispatchWorkloadCooldown_int64: "dispatchWorkloadCooldown s cfg = Some d \<Longrightarrow> d \<le> max_int64"
  by (auto simp: dispatchWorkloadCooldown_def split: option.splits dest: dispatchCooldownDuration_int64)

lemma widestOverride_ge:
  assumes "widestOverride cfg ss w0 = Some w"
  shows "w0 \<le> w \<and> (\<forall>s \<in> set ss. \<forall>d. dispatchWorkloadCooldown s cfg = Some d \<longrightarrow> d \<le> w)"
  using assms
proof (induction ss arbitrary: w0)
  case (Cons s ss)
  then obtain d where d: "dispatchWorkloadCooldown s cfg = Some d" "widestOverride cfg ss (max w0 d) = Some w"
    by (auto split: option.splits)
  show ?case using Cons.IH [OF d(2)] d(1) by auto
qed simp

lemma dispatchHistoryWindow_ge:
  assumes "dispatchHistoryWindow s cfg = Some w"
  shows "dispatchHistoryTTL \<le> w" "PerNodeCooldown cfg \<le> w" "PerWorkloadCooldown cfg \<le> w" "HealthCooldownFloor cfg \<le> w"
    "\<forall>sv \<in> set (InferenceServices s). \<forall>d. dispatchWorkloadCooldown sv cfg = Some d \<longrightarrow> d \<le> w"
proof -
  have "widestOverride cfg (InferenceServices s)
      (max (max (max dispatchHistoryTTL (PerNodeCooldown cfg)) (PerWorkloadCooldown cfg)) (HealthCooldownFloor cfg)) = Some w"
    using assms by (simp add: dispatchHistoryWindow_def split: if_splits)
  from widestOverride_ge [OF this]
  show "dispatchHistoryTTL \<le> w" "PerNodeCooldown cfg \<le> w" "PerWorkloadCooldown cfg \<le> w" "HealthCooldownFloor cfg \<le> w"
    "\<forall>sv \<in> set (InferenceServices s). \<forall>d. dispatchWorkloadCooldown sv cfg = Some d \<longrightarrow> d \<le> w" by simp_all
qed

lemma tallyServices_window:
  assumes "tallyServices cfg c ss t = Inr t'"
  shows "workloadWindow t' = workloadWindow t \<or> (\<exists>s \<in> set ss. dispatchWorkloadCooldown s cfg = Some (workloadWindow t'))"
  using assms
proof (induction ss arbitrary: t)
  case (Cons s ss)
  then obtain d where d: "dispatchWorkloadCooldown s cfg = Some d" by (auto split: option.splits)
  then show ?case using Cons.IH Cons.prems by (fastforce split: if_splits)
qed simp

lemma tallyMigrations_window: "tallyMigrations now owner ms t = Inr t' \<Longrightarrow> workloadWindow t' = workloadWindow t"
  by (induction ms arbitrary: t) (auto simp: Let_def split: if_splits)

lemma tallyReplicas_window: "tallyReplicas now irs t = Inr t' \<Longrightarrow> workloadWindow t' = workloadWindow t"
  by (induction irs arbitrary: t) (auto simp: bindE_Inr dest: tallyMigrations_window split: if_splits)

subsection \<open>What the budget counts\<close>

text \<open>The UUID of an identity is what follows its last slash.\<close>

definition keyUUID :: "string \<Rightarrow> string" where
  "keyUUID k = rev (takeWhile (\<lambda>c. c \<noteq> CHR ''/'') (rev k))"

lemma keyUUID_identityKey:
  assumes "CHR ''/'' \<notin> set uuid"
  shows "keyUUID (identityKey owner uuid) = uuid"
proof -
  have "takeWhile (\<lambda>c. c \<noteq> CHR ''/'') (rev uuid @ CHR ''/'' # rev owner) = rev uuid"
    using assms by (subst takeWhile_append2) auto
  moreover have "rev (identityKey owner uuid) = rev uuid @ CHR ''/'' # rev owner" by (simp add: identityKey_def)
  ultimately show ?thesis unfolding keyUUID_def by (simp only: rev_rev_ident)
qed

lemma identityKey_nonempty [simp]: "identityKey owner uuid \<noteq> []" "[] \<noteq> identityKey owner uuid"
  by (simp_all add: identityKey_def)

lemma tally_reasons [simp]: "tallyServices cfg c ss t \<noteq> Inl []" "tallyMigrations now owner ms t \<noteq> Inl []"
  "tallyReplicas now irs t \<noteq> Inl []" "tallyEntries c now existing es t \<noteq> Inl []"
proof -
  show "tallyServices cfg c ss t \<noteq> Inl []" by (induction ss arbitrary: t) (auto split: option.splits)
  show row: "tallyMigrations now owner ms t \<noteq> Inl []" for owner ms t by (induction ms arbitrary: t) (auto simp: Let_def)
  show "tallyReplicas now irs t \<noteq> Inl []"
    by (induction irs arbitrary: t) (auto simp: bindE_def row split: sum.splits dest: row [THEN notE])
  show "tallyEntries c now existing es t \<noteq> Inl []" by (induction es arbitrary: t) auto
qed

definition tallied :: "tally \<Rightarrow> bool" where
  "tallied t \<longleftrightarrow> finite (recentKeys t) \<and> [] \<notin> recentKeys t"

lemma tallied_insert: "tallied t \<Longrightarrow> tallied (t\<lparr>recentKeys := insert (identityKey owner uuid) (recentKeys t)\<rparr>)"
  by (simp add: tallied_def)

lemma tallyServices_tallied: "tallyServices cfg c ss t = Inr t' \<Longrightarrow> tallied t \<Longrightarrow> tallied t'"
proof (induction ss arbitrary: t)
  case (Cons s ss)
  have "finite (requestKeys s)" "[] \<notin> requestKeys s" by (auto simp: requestKeys_def)
  then show ?case using Cons by (auto simp: tallied_def split: option.splits)
qed simp

lemma tallyMigrations_tallied: "tallyMigrations now owner ms t = Inr t' \<Longrightarrow> tallied t \<Longrightarrow> tallied t'"
proof (induction ms arbitrary: t)
  case (Cons m ms)
  then show ?case using tallied_insert [of t owner "m_RequestUUID m"] by (auto simp: Let_def tallied_def split: if_splits)
qed simp

lemma tallyReplicas_tallied: "tallyReplicas now irs t = Inr t' \<Longrightarrow> tallied t \<Longrightarrow> tallied t'"
  by (induction irs arbitrary: t) (auto simp: bindE_Inr dest: tallyMigrations_tallied split: if_splits)

lemma tallyEntries_tallied:
  assumes "tallyEntries c now existing es t = Inr t'" "tallied t"
  shows "tallied t' \<and> recentKeys t \<subseteq> recentKeys t'
     \<and> (\<forall>e \<in> set es. now - e_CreatedAt e \<le> Hour \<longrightarrow> identityKey (e_WorkloadUID e) (e_UUID e) \<in> recentKeys t')"
  using assms
proof (induction es arbitrary: t)
  case (Cons e es)
  have step: "tallied (tallyEntry now e t)" "recentKeys t \<subseteq> recentKeys (tallyEntry now e t)"
    "now - e_CreatedAt e \<le> Hour \<Longrightarrow> identityKey (e_WorkloadUID e) (e_UUID e) \<in> recentKeys (tallyEntry now e t)"
    using Cons.prems(2) tallied_insert [of t "e_WorkloadUID e" "e_UUID e"] by (auto simp: tallyEntry_def Let_def tallied_def)
  have "tallyEntries c now existing es (tallyEntry now e t) = Inr t'" using Cons.prems(1) by (simp split: if_splits)
  from Cons.IH [OF this step(1)] show ?case using step(2,3) by auto
qed simp

text \<open>A passed budget leaves room for one more intent in the hour.\<close>

lemma passed:
  assumes "dispatchBudget s j c cfg now None = []"
  shows "\<exists>t1 t2 t. tallyServices cfg c (InferenceServices s) \<lparr>active = {}, recentKeys = {}, workloadWindow = PerWorkloadCooldown cfg\<rparr> = Inr t1
     \<and> tallyReplicas now (InferenceReplicas s) (if c_Reason c = ReasonNodeUnhealthy then t1\<lparr>workloadWindow := HealthCooldownFloor cfg\<rparr> else t1) = Inr t2
     \<and> tallyEntries c now None (entries j) t2 = Inr t \<and> int (card (recentKeys t - {[]})) < MaxMigrationsPerHour cfg"
  using assms unfolding dispatchBudget_def Let_def
  by (auto simp: bindE_def split: sum.splits if_splits)

lemma dispatchBudget_room:
  assumes pass: "dispatchBudget s j c cfg now None = []" and slash: "\<forall>e \<in> set (entries j). CHR ''/'' \<notin> set (e_UUID e)"
  shows "int (card {e_UUID e | e. e \<in> set (entries j) \<and> now - e_CreatedAt e \<le> Hour}) < MaxMigrationsPerHour cfg"
proof -
  let ?zero = "\<lparr>active = {}, recentKeys = {}, workloadWindow = PerWorkloadCooldown cfg\<rparr>"
  let ?pick = "\<lambda>t. if c_Reason c = ReasonNodeUnhealthy then t\<lparr>workloadWindow := HealthCooldownFloor cfg\<rparr> else t"
  let ?recent = "{e_UUID e | e. e \<in> set (entries j) \<and> now - e_CreatedAt e \<le> Hour}"
  obtain t1 t2 t where t: "tallyServices cfg c (InferenceServices s) ?zero = Inr t1" "tallyReplicas now (InferenceReplicas s) (?pick t1) = Inr t2"
    "tallyEntries c now None (entries j) t2 = Inr t" and room: "int (card (recentKeys t - {[]})) < MaxMigrationsPerHour cfg"
    using passed [OF pass] by blast
  have "tallied ?zero" by (simp add: tallied_def)
  then have "tallied t1" using tallyServices_tallied t(1) by blast
  then have "tallied (?pick t1)" by (simp add: tallied_def)
  then have "tallied t2" using tallyReplicas_tallied t(2) by blast
  note counted = tallyEntries_tallied [OF t(3) this]
  have "?recent \<subseteq> keyUUID ` recentKeys t"
  proof
    fix u assume "u \<in> ?recent"
    then obtain e where e: "e \<in> set (entries j)" "now - e_CreatedAt e \<le> Hour" "u = e_UUID e" by blast
    then have "identityKey (e_WorkloadUID e) (e_UUID e) \<in> recentKeys t" using counted by blast
    then show "u \<in> keyUUID ` recentKeys t" using e slash keyUUID_identityKey [of "e_UUID e" "e_WorkloadUID e"] by (metis imageI)
  qed
  then have "card ?recent \<le> card (recentKeys t)"
    using counted unfolding tallied_def by (meson card_image_le card_mono finite_imageI le_trans)
  moreover have "recentKeys t - {[]} = recentKeys t" using counted by (auto simp: tallied_def)
  ultimately show ?thesis using room by simp
qed

subsection \<open>Pruned entries are irrelevant\<close>

text \<open>An entry that may be pruned completed longer ago than the window.\<close>

definition outlived :: "duration \<Rightarrow> time \<Rightarrow> dispatchEntry \<Rightarrow> bool" where
  "outlived w now e \<longleftrightarrow> \<not> retained (now - max dispatchHistoryTTL w) e"

lemma outlivedD:
  assumes "outlived w now e" "now \<le> now'"
  obtains t where "terminal e" "e_CompletedAt e = Some t" "e_CreatedAt e \<le> t" "now' - t > max dispatchHistoryTTL w"
proof -
  from assms(1) obtain t where t: "terminal e" "e_CompletedAt e = Some t" "t < now - max dispatchHistoryTTL w"
    by (auto simp: outlived_def retained_def split: option.splits)
  moreover have "e_CreatedAt e \<le> t" using t(1,2) by (simp add: terminal_def)
  moreover have "now' - t > max dispatchHistoryTTL w" using t(3) assms(2) by linarith
  ultimately show ?thesis using that by blast
qed

lemma time_Sub_beyond: "window \<le> max_int64 \<Longrightarrow> window \<le> t - u \<Longrightarrow> \<not> time_Sub t u < window"
  by (auto simp: time_Sub_def)

lemma outlived_tally:
  assumes "outlived w now e" "now \<le> now'"
  shows "tallyEntry now' e t = t"
proof -
  obtain u where u: "terminal e" "e_CreatedAt e \<le> u" "now' - u > max dispatchHistoryTTL w"
    using outlivedD [OF assms] by metis
  then have "\<not> now' - e_CreatedAt e \<le> Hour" by (simp add: dispatchHistoryTTL_def)
  then show ?thesis using u(1) by (simp add: tallyEntry_def Let_def)
qed

lemma outlived_workload:
  assumes "outlived w now e" "now \<le> now'" "window \<le> w" "window \<le> max_int64"
  shows "\<not> coolingWorkload c window now' existing e"
proof -
  obtain u where u: "e_CompletedAt e = Some u" "now' - u > max dispatchHistoryTTL w"
    using outlivedD [OF assms(1,2)] by metis
  then show ?thesis using time_Sub_beyond [OF assms(4), of now' u] assms(3) by (simp add: coolingWorkload_def)
qed

lemma outlived_node:
  assumes "outlived w now e" "now \<le> now'" "window \<le> w" "window \<le> max_int64"
  shows "\<not> entryCooling node window now' existing e"
proof -
  obtain u where u: "e_CompletedAt e = Some u" "now' - u > max dispatchHistoryTTL w"
    using outlivedD [OF assms(1,2)] by metis
  then show ?thesis using time_Sub_beyond [OF assms(4), of now' u] assms(3) by (simp add: entryCooling_def)
qed

lemma tallyEntries_filter:
  assumes "now \<le> now'" "workloadWindow t \<le> w" "workloadWindow t \<le> max_int64"
  shows "tallyEntries c now' existing (filter (\<lambda>e. \<not> outlived w now e) es) t = tallyEntries c now' existing es t"
  using assms(2,3)
proof (induction es arbitrary: t)
  case (Cons e es)
  have "workloadWindow (tallyEntry now' e t) = workloadWindow t" by (simp add: tallyEntry_def Let_def)
  then show ?case
    using Cons outlived_tally [of w now e now' t] outlived_workload [of w now e now' "workloadWindow t" c existing] assms(1)
    by simp
qed simp

lemma entries_prune: "entries (pruneDispatchHistory j w now) = filter (\<lambda>e. \<not> outlived w now e) (entries j)"
  by (auto simp: pruneDispatchHistory_def prune_def entries_def outlived_def split: option.splits)

lemma prune_fields [simp]: "BackoffUntil (pruneDispatchHistory j w now) = BackoffUntil j" "Version (pruneDispatchHistory j w now) = Version j"
  by (simp_all add: pruneDispatchHistory_def prune_def)

lemma journalNodeCooling_prune:
  assumes "now \<le> now'" "window \<le> w" "window \<le> max_int64"
  shows "journalNodeCooling (pruneDispatchHistory j w now) node window now' existing = journalNodeCooling j node window now' existing"
  using outlived_node [OF _ assms] by (auto simp: journalNodeCooling_def entries_prune)

text \<open>
  C19: Pruning the journal never changes a verdict of the budget. Whatever window a journal was pruned
  with, at any later time the budget decides every candidate, new or retried, as it would with the full
  history, as long as the cooldowns then in force are covered by that window; so does the cooldown of a
  target node.
\<close>

theorem prune_keeps_budget:
  assumes "dispatchHistoryWindow s cfg = Some w'" "w' \<le> w" "now \<le> now'"
  shows "dispatchBudget s (pruneDispatchHistory j w now) c cfg now' existing = dispatchBudget s j c cfg now' existing
     \<and> journalNodeCooling (pruneDispatchHistory j w now) node (PerNodeCooldown cfg) now' existing
       = journalNodeCooling j node (PerNodeCooldown cfg) now' existing"
proof -
  note win = dispatchHistoryWindow_ge [OF assms(1)]
  have int64: "PerNodeCooldown cfg \<le> max_int64" "PerWorkloadCooldown cfg \<le> max_int64" "HealthCooldownFloor cfg \<le> max_int64"
    by (simp_all add: PerNodeCooldown_def PerWorkloadCooldown_def HealthCooldownFloor_def minutes_def)
  let ?zero = "\<lparr>active = {}, recentKeys = {}, workloadWindow = PerWorkloadCooldown cfg\<rparr>"
  let ?pick = "\<lambda>t. if c_Reason c = ReasonNodeUnhealthy then t\<lparr>workloadWindow := HealthCooldownFloor cfg\<rparr> else t"
  have step: "tallyEntries c now' existing (filter (\<lambda>e. \<not> outlived w now e) (entries j)) t2 = tallyEntries c now' existing (entries j) t2"
    if t1: "tallyServices cfg c (InferenceServices s) ?zero = Inr t1" and t2: "tallyReplicas now' (InferenceReplicas s) (?pick t1) = Inr t2" for t1 t2
  proof (rule tallyEntries_filter [OF assms(3)])
    have "workloadWindow t1 \<le> w' \<and> workloadWindow t1 \<le> max_int64"
      using tallyServices_window [OF t1] win(3,5) int64(2) dispatchWorkloadCooldown_int64 by fastforce
    then have "workloadWindow t2 \<le> w' \<and> workloadWindow t2 \<le> max_int64"
      using tallyReplicas_window [OF t2] win(4) int64(3) by (simp split: if_splits)
    then show "workloadWindow t2 \<le> w" "workloadWindow t2 \<le> max_int64" using assms(2) by auto
  qed
  have tallies: "bindE (tallyServices cfg c (InferenceServices s) ?zero) (\<lambda>t. bindE (tallyReplicas now' (InferenceReplicas s) (?pick t))
        (tallyEntries c now' existing (filter (\<lambda>e. \<not> outlived w now e) (entries j))))
      = bindE (tallyServices cfg c (InferenceServices s) ?zero) (\<lambda>t. bindE (tallyReplicas now' (InferenceReplicas s) (?pick t))
        (tallyEntries c now' existing (entries j)))"
    using step by (simp add: bindE_def split: sum.splits)
  have cooling: "journalNodeCooling (pruneDispatchHistory j w now) n (PerNodeCooldown cfg) now' existing
      = journalNodeCooling j n (PerNodeCooldown cfg) now' existing" for n
    using win(2) assms(2) int64(1) by (intro journalNodeCooling_prune [OF assms(3)]) auto
  show ?thesis unfolding dispatchBudget_def Let_def entries_prune tallies cooling prune_fields by (intro conjI refl)
qed

definition demoService :: service where
  "demoService = \<lparr>sv_Name = (''ns'', ''w1''), sv_UID = ''o'', sv_ResourceVersion = 7, sv_Generation = 1,
     sv_Annotations = [(AlfredCooldownMinutesAnnotationKey, ''120'')]\<rparr>"

definition demoCapture :: capture where
  "demoCapture = \<lparr>InferenceServices = [demoService], InferenceReplicas = [], Objects = []\<rparr>"

text \<open>The move of \<^verbatim>\<open>u1\<close> is forgotten and that of \<^verbatim>\<open>u2\<close>, still cooling, is kept.\<close>

theorem prune_keeps_budget_witness:
  "dispatchHistoryWindow demoCapture demoConfig = Some (2 * Hour)
     \<and> map e_UUID (entries (pruneDispatchHistory demoJournal (2 * Hour) (100 * Hour))) = [''u2'']
     \<and> dispatchBudget demoCapture (pruneDispatchHistory demoJournal (2 * Hour) (100 * Hour)) (demoCandidate ''w1'' ReasonFragmentation 0) demoConfig
         (100 * Hour + Minute) None
       = dispatchBudget demoCapture demoJournal (demoCandidate ''w1'' ReasonFragmentation 0) demoConfig (100 * Hour + Minute) None
     \<and> dispatchBudget demoCapture demoJournal (demoCandidate ''w1'' ReasonFragmentation 0) demoConfig (100 * Hour + Minute) None = ''Cooldown''"
proof -
  have window: "dispatchHistoryWindow demoCapture demoConfig = Some (2 * Hour)" by code_simp
  have kept: "map e_UUID (entries (pruneDispatchHistory demoJournal (2 * Hour) (100 * Hour))) = [''u2'']" by code_simp
  have later: "100 * Hour \<le> 100 * Hour + Minute" by code_simp
  have verdict: "dispatchBudget demoCapture demoJournal (demoCandidate ''w1'' ReasonFragmentation 0) demoConfig (100 * Hour + Minute) None = ''Cooldown''"
    by code_simp
  show ?thesis using window kept verdict prune_keeps_budget [OF window order_refl later, of demoJournal "demoCandidate ''w1'' ReasonFragmentation 0" None "''n1''"]
    by blast
qed

end
