(* ===== verification/Alfred_Reconcile.thy ===== *)
theory Alfred_Reconcile
  imports Alfred_Budget
begin

section \<open>Reconciling journal entries\<close>

text \<open>
  \<^verbatim>\<open>pkg/alfred/engine/dispatch_reconcile.go\<close>: an unresolved entry is compared with what the API server
  shows of its request: the annotation on the service and the migration row of the replica. The theorem
  says which conclusions an entry may draw.
\<close>

definition Second :: duration where "Second = 1000000000"

definition Truncate :: "time \<Rightarrow> duration \<Rightarrow> time" where
  "Truncate t d = t - t mod d"

record DispatchOptions =
  APIVersion :: string
  AcknowledgementTimeout :: duration
  FailureBackoff :: duration

text \<open>The readings of the clock while one entry is reconciled, in the order they are taken.\<close>

record readings =
  at_match :: time
  at_phase :: time
  at_stall :: time
  at_backoff :: time

definition stallAfterDeadline :: "DispatchOptions \<Rightarrow> readings \<Rightarrow> string \<Rightarrow> dispatchEntry \<Rightarrow> dispatchEntry" where
  "stallAfterDeadline opts clk reason e =
     (if time_Sub (at_stall clk) (e_CreatedAt e) \<ge> AcknowledgementTimeout opts
      then e\<lparr>e_Phase := dispatchStalled, e_Reason := reason\<rparr> else e)"

definition ownedBy :: "replica \<Rightarrow> service \<Rightarrow> bool" where
  "ownedBy ir owner \<longleftrightarrow> (\<exists>ref \<in> set (ir_OwnerReferences ir). or_Kind ref = ''InferenceService''
     \<and> or_Name ref = snd (sv_Name owner) \<and> or_UID ref = sv_UID owner \<and> or_Controller ref = Some True)"

text \<open>The row is the entry's: same trigger and source, started by clk and not before the entry, at the precision of the API.\<close>

definition rowMatches :: "time \<Rightarrow> dispatchEntry \<Rightarrow> MigrationStatus \<Rightarrow> bool" where
  "rowMatches now e m \<longleftrightarrow> \<not> (m_Trigger m \<noteq> ''Manual'' \<or> m_SourceInstance m \<noteq> e_Instance e \<or> m_FromNode m \<noteq> e_FromNode e
     \<or> m_StartedAt m = 0 \<or> m_StartedAt m > now \<or> m_StartedAt m < Truncate (e_CreatedAt e) Second)"

definition acknowledge :: "MigrationStatus \<Rightarrow> dispatchEntry \<Rightarrow> dispatchEntry" where
  "acknowledge m e = (case e_AcknowledgedAt e of
       Some _ \<Rightarrow> e
     | None \<Rightarrow> e\<lparr>e_AcknowledgedAt := Some (if m_StartedAt m < e_CreatedAt e then e_CreatedAt e else m_StartedAt m)\<rparr>)"

definition reconcileRow :: "DispatchOptions \<Rightarrow> readings \<Rightarrow> MigrationStatus \<Rightarrow> dispatchEntry \<Rightarrow> dispatchEntry" where
  "reconcileRow opts clk m e =
     (if \<not> rowMatches (at_match clk) e m then stallAfterDeadline opts clk ''MigrationStatusInvalid'' e
      else if m_Phase m = ''Completed'' \<or> m_Phase m = ''Failed''
      then (case m_CompletedAt m of
              None \<Rightarrow> stallAfterDeadline opts clk ''MigrationStatusInvalid'' e
            | Some t \<Rightarrow>
                if t < m_StartedAt m \<or> t > at_phase clk then stallAfterDeadline opts clk ''MigrationStatusInvalid'' e
                else (acknowledge m (e\<lparr>e_CompletedAt := Some (if t < e_CreatedAt e then e_CreatedAt e else t)\<rparr>))
                  \<lparr>e_Phase := (if m_Phase m = ''Failed'' then dispatchFailed else dispatchCompleted),
                   e_Reason := ''TerminalStatusObserved''\<rparr>)
      else if m_Phase m \<in> {''Accepted'', ''SurgePending'', ''SurgeReady'', ''Draining''}
      then if m_Deadline m = 0 \<or> \<not> m_Deadline m > m_StartedAt m \<or> m_CompletedAt m \<noteq> None
           then stallAfterDeadline opts clk ''MigrationStatusInvalid'' e
           else if at_phase clk > m_Deadline m
           then (acknowledge m e)\<lparr>e_Phase := dispatchStalled, e_Reason := ''ConsumerDeadlineExceeded''\<rparr>
           else (acknowledge m e)\<lparr>e_Phase := dispatchAcknowledged, e_Reason := ''UUIDStatusObserved''\<rparr>
      else stallAfterDeadline opts clk ''MigrationStatusInvalid'' e)"

definition reconcileRequest :: "DispatchOptions \<Rightarrow> readings \<Rightarrow> service \<Rightarrow> dispatchEntry \<Rightarrow> dispatchEntry" where
  "reconcileRequest opts clk owner e =
     (if e_AcknowledgedAt e \<noteq> None then e\<lparr>e_Phase := dispatchStalled, e_Reason := ''AcknowledgedStatusMissing''\<rparr>
      else case map_of (sv_Annotations owner) (migrationRequestPrefix @ e_UUID e) of
        None \<Rightarrow> stallAfterDeadline opts clk ''AcknowledgementTimeout'' e
      | Some payload \<Rightarrow>
          if payload \<noteq> e_Payload e then e\<lparr>e_Phase := dispatchStalled, e_Reason := ''RequestPayloadChanged''\<rparr>
          else stallAfterDeadline opts clk ''AcknowledgementTimeout''
            (if e_Phase e \<noteq> dispatchStalled then e\<lparr>e_Phase := dispatchSubmitted, e_Reason := ''RequestAnnotationObserved''\<rparr> else e))"

definition reconcileDispatch :: "DispatchOptions \<Rightarrow> readings \<Rightarrow> (object_name \<Rightarrow> service option) \<Rightarrow> (object_name \<Rightarrow> replica option)
    \<Rightarrow> dispatchEntry \<Rightarrow> dispatchEntry" where
  "reconcileDispatch opts clk getOwner getReplica e = (case getOwner (e_Workload e) of
       None \<Rightarrow> stallAfterDeadline opts clk ''OwnerUnavailable'' e
     | Some owner \<Rightarrow>
         if sv_UID owner \<noteq> e_WorkloadUID e then stallAfterDeadline opts clk ''OwnerUnavailable'' e
         else (case getReplica (fst (e_Workload e), e_IRName e) of
             None \<Rightarrow> stallAfterDeadline opts clk ''ReplicaUnavailable'' e
           | Some ir \<Rightarrow>
               if ir_UID ir \<noteq> e_IRUID e then stallAfterDeadline opts clk ''ReplicaUnavailable'' e
               else if \<not> ownedBy ir owner \<or> ir_Component ir \<noteq> e_Component e
               then stallAfterDeadline opts clk ''ReplicaIdentityChanged'' e
               else (case filter (\<lambda>m. m_RequestUUID m = e_UUID e) (ir_Migrations ir) of
                   [] \<Rightarrow> reconcileRequest opts clk owner e
                 | [m] \<Rightarrow> reconcileRow opts clk m e
                 | _ \<Rightarrow> stallAfterDeadline opts clk ''MigrationStatusInvalid'' e)))"

subsection \<open>What may change in an entry\<close>

text \<open>\<open>sameIntent\<close>: the parts of an entry that identify what was asked for.\<close>

definition sameIntent :: "dispatchEntry \<Rightarrow> dispatchEntry \<Rightarrow> bool" where
  "sameIntent e e' \<longleftrightarrow> e' = e\<lparr>e_AcknowledgedAt := e_AcknowledgedAt e', e_CompletedAt := e_CompletedAt e',
     e_Phase := e_Phase e', e_Reason := e_Reason e'\<rparr>"

lemma sameIntent_refl [simp]: "sameIntent e e"
  by (simp add: sameIntent_def)

lemma sameIntentD:
  assumes "sameIntent e e'"
  shows "e_UUID e' = e_UUID e" "e_Workload e' = e_Workload e" "e_WorkloadUID e' = e_WorkloadUID e" "e_IRName e' = e_IRName e"
    "e_IRUID e' = e_IRUID e" "e_Component e' = e_Component e" "e_Instance e' = e_Instance e" "e_FromNode e' = e_FromNode e"
    "e_SourceFingerprint e' = e_SourceFingerprint e" "e_Payload e' = e_Payload e" "e_CreatedAt e' = e_CreatedAt e"
    "e_LastAttempt e' = e_LastAttempt e" "e_Targets e' = e_Targets e"
  using assms by (cases e; cases e'; simp add: sameIntent_def)+

text \<open>\<open>settles e e'\<close>: the shapes a reconciled entry can take. Unresolved, it carries no completion time; resolved, a valid one.\<close>

definition unresolvedPhases :: "string set" where
  "unresolvedPhases = {dispatchPrepared, dispatchSubmitted, dispatchAcknowledged, dispatchStalled}"

definition ackOK :: "dispatchEntry \<Rightarrow> bool" where
  "ackOK e \<longleftrightarrow> (\<forall>t. e_AcknowledgedAt e = Some t \<longrightarrow> e_CreatedAt e \<le> t)"

definition settles :: "dispatchEntry \<Rightarrow> dispatchEntry \<Rightarrow> bool" where
  "settles e e' \<longleftrightarrow> sameIntent e e' \<and> ackOK e'
     \<and> (e_Phase e' \<in> unresolvedPhases \<and> e_CompletedAt e' = None \<or> terminal e')"

lemma validateIntent_same: "sameIntent e e' \<Longrightarrow> validateIntent J e' = validateIntent J e"
  by (simp only: validateIntent_def sameIntentD)

lemma validateDispatchEntry_Inr:
  "validateDispatchEntry J e = Inr u \<longleftrightarrow> validateIntent J e = Inr u \<and> ackOK e
     \<and> (e_Phase e \<in> unresolvedPhases \<and> e_CompletedAt e = None \<or> terminal e)"
proof (cases "validateIntent J e")
  case (Inr v)
  have ack: "(case e_AcknowledgedAt e of None \<Rightarrow> False | Some t \<Rightarrow> t < e_CreatedAt e) \<longleftrightarrow> \<not> ackOK e"
    by (auto simp: ackOK_def split: option.splits)
  show ?thesis
  proof (cases "e_Phase e = dispatchCompleted \<or> e_Phase e = dispatchFailed")
    case True
    then have "e_Phase e \<notin> unresolvedPhases" by (auto simp: unresolvedPhases_def)
    then show ?thesis using True by (auto simp: validateDispatchEntry_def Inr ack)
  next
    case False
    then have "\<not> terminal e" by (simp add: terminal_def)
    then show ?thesis using False by (auto simp: validateDispatchEntry_def Inr ack unresolvedPhases_def [symmetric])
  qed
qed (simp add: validateDispatchEntry_def)

lemma settles_valid:
  assumes "validateDispatchEntry J e = Inr u" "settles e e'"
  shows "validateDispatchEntry J e' = Inr u"
  using assms validateIntent_same [of e e' J] by (simp add: validateDispatchEntry_Inr settles_def)

named_theorems settle_intros \<open>shapes of a reconciled entry\<close>

definition unresolved :: "dispatchEntry \<Rightarrow> bool" where
  "unresolved e \<longleftrightarrow> e_Phase e \<in> unresolvedPhases \<and> e_CompletedAt e = None \<and> ackOK e"

lemma stalled_settles [settle_intros]: "unresolved e \<Longrightarrow> settles e (e\<lparr>e_Phase := dispatchStalled, e_Reason := r\<rparr>)"
  "unresolved e \<Longrightarrow> settles e (stallAfterDeadline opts clk r e)"
  by (simp_all add: unresolved_def settles_def sameIntent_def ackOK_def unresolvedPhases_def stallAfterDeadline_def)

lemma acknowledge_facts:
  assumes "ackOK e"
  shows "ackOK ((acknowledge m e)\<lparr>e_Phase := p, e_Reason := r\<rparr>)" "sameIntent e ((acknowledge m e)\<lparr>e_Phase := p, e_Reason := r\<rparr>)"
    "e_CompletedAt (acknowledge m e) = e_CompletedAt e"
  using assms by (auto simp: ackOK_def acknowledge_def sameIntent_def split: option.splits)

lemma acknowledged_settles [settle_intros]:
  "unresolved e \<Longrightarrow> p \<in> unresolvedPhases \<Longrightarrow> settles e ((acknowledge m e)\<lparr>e_Phase := p, e_Reason := r\<rparr>)"
  by (simp add: unresolved_def settles_def acknowledge_facts)

lemma completed_settles [settle_intros]:
  assumes "unresolved e" "e_CreatedAt e \<le> t" "p = dispatchCompleted \<or> p = dispatchFailed"
  shows "settles e ((acknowledge m (e\<lparr>e_CompletedAt := Some t\<rparr>))\<lparr>e_Phase := p, e_Reason := r\<rparr>)"
  using assms by (auto simp: unresolved_def settles_def sameIntent_def ackOK_def acknowledge_def terminal_def split: option.splits)

lemma reconcileRow_settles:
  assumes "unresolved e"
  shows "settles e (reconcileRow opts clk m e)"
  using assms unfolding reconcileRow_def
  by (auto intro!: settle_intros simp: unresolvedPhases_def split: option.splits)

lemma reconcileRequest_settles:
  assumes "unresolved e"
  shows "settles e (reconcileRequest opts clk owner e)"
proof -
  have "unresolved (e\<lparr>e_Phase := dispatchSubmitted, e_Reason := r\<rparr>)" for r
    using assms by (simp add: unresolved_def unresolvedPhases_def ackOK_def)
  then have "settles (e\<lparr>e_Phase := dispatchSubmitted, e_Reason := r\<rparr>) (stallAfterDeadline opts clk r' (e\<lparr>e_Phase := dispatchSubmitted, e_Reason := r\<rparr>))" for r r'
    by (rule stalled_settles)
  then have "settles e (stallAfterDeadline opts clk r' (e\<lparr>e_Phase := dispatchSubmitted, e_Reason := r\<rparr>))" for r r'
    by (auto simp: settles_def sameIntent_def stallAfterDeadline_def)
  then show ?thesis using assms by (auto intro!: settle_intros simp: reconcileRequest_def split: option.splits)
qed

lemma reconcileDispatch_settles:
  assumes "unresolved e"
  shows "settles e (reconcileDispatch opts clk getOwner getReplica e)"
  unfolding reconcileDispatch_def
  by (auto intro!: settle_intros reconcileRow_settles reconcileRequest_settles assms split: option.splits list.splits)

subsection \<open>What a reconciled entry proves\<close>

text \<open>\<open>located\<close>: the service and the replica of an entry were read and are the ones it was written for.\<close>

definition located :: "(object_name \<Rightarrow> service option) \<Rightarrow> (object_name \<Rightarrow> replica option) \<Rightarrow> dispatchEntry \<Rightarrow> service \<Rightarrow> replica \<Rightarrow> bool" where
  "located getOwner getReplica e owner ir \<longleftrightarrow> getOwner (e_Workload e) = Some owner \<and> sv_UID owner = e_WorkloadUID e
     \<and> getReplica (fst (e_Workload e), e_IRName e) = Some ir \<and> ir_UID ir = e_IRUID e \<and> ownedBy ir owner \<and> ir_Component ir = e_Component e"

definition rowsOf :: "dispatchEntry \<Rightarrow> replica \<Rightarrow> MigrationStatus list" where
  "rowsOf e ir = filter (\<lambda>m. m_RequestUUID m = e_UUID e) (ir_Migrations ir)"

lemma unresolved_not_terminal: "unresolved e \<Longrightarrow> \<not> terminal e"
  by (auto simp: unresolved_def unresolvedPhases_def terminal_def)

lemma stall_unresolved: "unresolved e \<Longrightarrow> unresolved (stallAfterDeadline opts clk r e)"
  by (simp add: stallAfterDeadline_def unresolved_def unresolvedPhases_def ackOK_def)

lemma reconcileDispatch_located:
  assumes "located getOwner getReplica e owner ir"
  shows "reconcileDispatch opts clk getOwner getReplica e = (case rowsOf e ir of
       [] \<Rightarrow> reconcileRequest opts clk owner e
     | [m] \<Rightarrow> reconcileRow opts clk m e
     | _ \<Rightarrow> stallAfterDeadline opts clk ''MigrationStatusInvalid'' e)"
  using assms by (simp add: located_def reconcileDispatch_def rowsOf_def)

lemma reconcileDispatch_unlocated:
  assumes "\<forall>owner ir. \<not> located getOwner getReplica e owner ir"
  shows "\<exists>r. reconcileDispatch opts clk getOwner getReplica e = stallAfterDeadline opts clk r e"
  using assms by (auto simp: located_def reconcileDispatch_def split: option.splits)

lemma reconcileRequest_unresolved:
  assumes "unresolved e"
  shows "unresolved (reconcileRequest opts clk owner e)"
  using assms by (auto simp: reconcileRequest_def stallAfterDeadline_def unresolved_def unresolvedPhases_def ackOK_def split: option.splits)

lemma reconcileRow_terminal:
  assumes "unresolved e" "terminal (reconcileRow opts clk m e)"
  shows "rowMatches (at_match clk) e m" "m_Phase m = ''Completed'' \<or> m_Phase m = ''Failed''"
    "e_Phase (reconcileRow opts clk m e) = (if m_Phase m = ''Failed'' then dispatchFailed else dispatchCompleted)"
proof -
  have no: "\<not> terminal (stallAfterDeadline opts clk r e)" for r
    using assms(1) by (intro unresolved_not_terminal stall_unresolved)
  show match: "rowMatches (at_match clk) e m" using assms(2) no by (auto simp: reconcileRow_def split: if_splits)
  show phase: "m_Phase m = ''Completed'' \<or> m_Phase m = ''Failed''"
    using assms(2) no match by (auto simp: reconcileRow_def terminal_def split: if_splits)
  show "e_Phase (reconcileRow opts clk m e) = (if m_Phase m = ''Failed'' then dispatchFailed else dispatchCompleted)"
    using assms(2) no match phase by (auto simp: reconcileRow_def split: if_splits option.splits)
qed

text \<open>\<open>consistentRow\<close>: a terminal row says when it ended, a running one has a deadline and no end.\<close>

definition consistentRow :: "time \<Rightarrow> MigrationStatus \<Rightarrow> bool" where
  "consistentRow now m \<longleftrightarrow>
     m_Phase m \<in> {''Completed'', ''Failed''} \<and> (\<exists>t. m_CompletedAt m = Some t \<and> m_StartedAt m \<le> t \<and> t \<le> now)
     \<or> m_Phase m \<in> {''Accepted'', ''SurgePending'', ''SurgeReady'', ''Draining''} \<and> m_Deadline m \<noteq> 0 \<and> m_StartedAt m < m_Deadline m
       \<and> m_CompletedAt m = None"

text \<open>\<open>untraced\<close>: what the service and the replica show does not prove that the request of the entry arrived.\<close>

definition untraced :: "readings \<Rightarrow> service \<Rightarrow> replica \<Rightarrow> dispatchEntry \<Rightarrow> bool" where
  "untraced clk owner ir e \<longleftrightarrow> (case rowsOf e ir of
       [] \<Rightarrow> map_of (sv_Annotations owner) (migrationRequestPrefix @ e_UUID e) = None
     | [m] \<Rightarrow> \<not> rowMatches (at_match clk) e m \<or> \<not> consistentRow (at_phase clk) m
     | _ \<Rightarrow> True)"

lemma stall_prepared:
  assumes "e_Phase (stallAfterDeadline opts clk r e) = dispatchPrepared"
  shows "e_Phase e = dispatchPrepared \<and> time_Sub (at_stall clk) (e_CreatedAt e) < AcknowledgementTimeout opts"
  using assms by (simp add: stallAfterDeadline_def split: if_splits)

lemma reconcileRow_prepared:
  assumes "e_Phase (reconcileRow opts clk m e) = dispatchPrepared"
  shows "e_Phase e = dispatchPrepared \<and> time_Sub (at_stall clk) (e_CreatedAt e) < AcknowledgementTimeout opts"
    "\<not> rowMatches (at_match clk) e m \<or> \<not> consistentRow (at_phase clk) m"
proof -
  show "e_Phase e = dispatchPrepared \<and> time_Sub (at_stall clk) (e_CreatedAt e) < AcknowledgementTimeout opts"
    using assms by (auto simp: reconcileRow_def stallAfterDeadline_def split: if_splits option.splits)
  show "\<not> rowMatches (at_match clk) e m \<or> \<not> consistentRow (at_phase clk) m"
  proof (rule ccontr)
    assume "\<not> (\<not> rowMatches (at_match clk) e m \<or> \<not> consistentRow (at_phase clk) m)"
    then show False using assms by (auto simp: reconcileRow_def consistentRow_def split: if_splits)
  qed
qed

lemma reconcileRequest_prepared:
  assumes "e_Phase (reconcileRequest opts clk owner e) = dispatchPrepared"
  shows "e_Phase e = dispatchPrepared \<and> time_Sub (at_stall clk) (e_CreatedAt e) < AcknowledgementTimeout opts"
    "map_of (sv_Annotations owner) (migrationRequestPrefix @ e_UUID e) = None"
  using assms by (auto simp: reconcileRequest_def stallAfterDeadline_def split: if_splits option.splits)

lemma reconcileDispatch_prepared:
  assumes "e_Phase (reconcileDispatch opts clk getOwner getReplica e) = dispatchPrepared"
  shows "e_Phase e = dispatchPrepared \<and> time_Sub (at_stall clk) (e_CreatedAt e) < AcknowledgementTimeout opts"
    "located getOwner getReplica e owner ir \<Longrightarrow> untraced clk owner ir e"
proof -
  have here: "e_Phase e = dispatchPrepared \<and> time_Sub (at_stall clk) (e_CreatedAt e) < AcknowledgementTimeout opts \<and> untraced clk owner ir e"
    if "located getOwner getReplica e owner ir" for owner ir
  proof -
    note eq = reconcileDispatch_located [OF that, of opts clk]
    consider "rowsOf e ir = []" | m where "rowsOf e ir = [m]" | m m' ms where "rowsOf e ir = m # m' # ms"
      by (metis list.exhaust)
    then show ?thesis
    proof cases
      case 1
      then show ?thesis using assms eq reconcileRequest_prepared [of opts clk owner e] by (simp add: untraced_def)
    next
      case (2 m)
      then show ?thesis using assms eq reconcileRow_prepared [of opts clk m e] by (simp add: untraced_def)
    next
      case 3
      then show ?thesis using assms eq stall_prepared [of opts clk _ e] by (simp add: untraced_def)
    qed
  qed
  show "located getOwner getReplica e owner ir \<Longrightarrow> untraced clk owner ir e" using here by blast
  show "e_Phase e = dispatchPrepared \<and> time_Sub (at_stall clk) (e_CreatedAt e) < AcknowledgementTimeout opts"
  proof (cases "\<exists>owner ir. located getOwner getReplica e owner ir")
    case True
    then show ?thesis using here by blast
  next
    case False
    then obtain r where "reconcileDispatch opts clk getOwner getReplica e = stallAfterDeadline opts clk r e"
      using reconcileDispatch_unlocated [of getOwner getReplica e opts clk] by blast
    then show ?thesis using assms stall_prepared by simp
  qed
qed

text \<open>
  C20: Reconciliation draws only conclusions the cluster supports. The entry stays valid and keeps what was
  asked for. It is closed only on the one migration row that carries its UUID, for the same source, begun
  no earlier than the second the entry was written in, and with the outcome of that row; a lost or unreadable object never closes
  it. It stays prepared, and may be asked for again, only if it was prepared before, its acknowledgement is not
  overdue, and the objects, where they could be read, show no sound trace of the request: either no row carries its
  UUID and the request annotation is absent, or the rows that carry it are several, or the only one does not
  match or is inconsistent.
\<close>

theorem reconcile_sound:
  assumes "validateDispatchEntry J e = Inr u" "\<not> terminal e"
    and e': "e' = reconcileDispatch opts clk getOwner getReplica e"
  shows "validateDispatchEntry J e' = Inr u \<and> sameIntent e e'
     \<and> (terminal e' \<longrightarrow> (\<exists>owner ir m. located getOwner getReplica e owner ir \<and> rowsOf e ir = [m] \<and> rowMatches (at_match clk) e m
          \<and> (e_Phase e' = dispatchCompleted \<longleftrightarrow> m_Phase m = ''Completed'') \<and> (e_Phase e' = dispatchFailed \<longleftrightarrow> m_Phase m = ''Failed'')))
     \<and> (e_Phase e' = dispatchPrepared \<longrightarrow> e_Phase e = dispatchPrepared \<and> time_Sub (at_stall clk) (e_CreatedAt e) < AcknowledgementTimeout opts
          \<and> (\<forall>owner ir. located getOwner getReplica e owner ir \<longrightarrow> untraced clk owner ir e))"
proof -
  have un: "unresolved e" using assms(1,2) by (simp add: unresolved_def validateDispatchEntry_Inr)
  have settles: "settles e e'" unfolding e' by (rule reconcileDispatch_settles [OF un])
  have closed: "\<exists>owner ir m. located getOwner getReplica e owner ir \<and> rowsOf e ir = [m] \<and> rowMatches (at_match clk) e m
          \<and> (e_Phase e' = dispatchCompleted \<longleftrightarrow> m_Phase m = ''Completed'') \<and> (e_Phase e' = dispatchFailed \<longleftrightarrow> m_Phase m = ''Failed'')"
    if t: "terminal e'"
  proof -
    have no: "\<not> terminal (stallAfterDeadline opts clk r e)" for r
      using un by (intro unresolved_not_terminal stall_unresolved)
    obtain owner ir where loc: "located getOwner getReplica e owner ir"
      using t reconcileDispatch_unlocated [of getOwner getReplica e opts clk] no e' by metis
    note eq = reconcileDispatch_located [OF loc, of opts clk, folded e']
    obtain m where m: "rowsOf e ir = [m]"
      using t eq no unresolved_not_terminal [OF reconcileRequest_unresolved [OF un]] by (auto split: list.splits)
    then have "e' = reconcileRow opts clk m e" using eq by simp
    with t have "rowMatches (at_match clk) e m" "m_Phase m = ''Completed'' \<or> m_Phase m = ''Failed''"
      "e_Phase e' = (if m_Phase m = ''Failed'' then dispatchFailed else dispatchCompleted)"
      using reconcileRow_terminal [OF un, of opts clk m] by simp_all
    with loc m show ?thesis by - (rule exI [of _ owner], rule exI [of _ ir], rule exI [of _ m], auto)
  qed
  have retry: "e_Phase e = dispatchPrepared \<and> time_Sub (at_stall clk) (e_CreatedAt e) < AcknowledgementTimeout opts
      \<and> (\<forall>owner ir. located getOwner getReplica e owner ir \<longrightarrow> untraced clk owner ir e)"
    if p: "e_Phase e' = dispatchPrepared"
    using p reconcileDispatch_prepared [of opts clk getOwner getReplica e] unfolding e' by blast
  show ?thesis using settles_valid [OF assms(1) settles] settles closed retry by (simp add: settles_def)
qed

definition demoReplica :: "MigrationStatus list \<Rightarrow> replica" where
  "demoReplica rows = \<lparr>ir_Name = (''ns'', ''ir''), ir_UID = ''i'', ir_Generation = 1,
     ir_OwnerReferences = [\<lparr>or_Kind = ''InferenceService'', or_Name = ''w1'', or_UID = ''o'', or_Controller = Some True\<rparr>],
     ir_Component = ''engine'', ir_ParentRef = Some ''w1'', ir_Migrations = rows\<rparr>"

definition demoRow :: MigrationStatus where
  "demoRow = \<lparr>m_RequestUUID = ''u3'', m_Trigger = ''Manual'', m_SourceInstance = 0, m_FromNode = ''n1'', m_Phase = ''Completed'',
     m_StartedAt = 99 * Hour, m_Deadline = 0, m_CompletedAt = Some (99 * Hour + Minute)\<rparr>"

definition demoReadings :: readings where
  "demoReadings = \<lparr>at_match = 100 * Hour, at_phase = 100 * Hour, at_stall = 100 * Hour, at_backoff = 100 * Hour\<rparr>"

definition demoOptions :: DispatchOptions where
  "demoOptions = \<lparr>APIVersion = ''v1'', AcknowledgementTimeout = 10 * Minute, FailureBackoff = 10 * Minute\<rparr>"

abbreviation demoReconciled :: dispatchEntry where
  "demoReconciled \<equiv> reconcileDispatch demoOptions demoReadings (\<lambda>_. Some demoService) (\<lambda>_. Some (demoReplica [demoRow]))
     (demoEntry ''u3'' (98 * Hour) dispatchSubmitted None)"

theorem reconcile_sound_witness:
  "e_Phase demoReconciled = dispatchCompleted \<and> validateDispatchEntry demoAPI demoReconciled = Inr ''u3''
     \<and> sameIntent (demoEntry ''u3'' (98 * Hour) dispatchSubmitted None) demoReconciled
     \<and> (\<exists>owner ir m. located (\<lambda>_. Some demoService) (\<lambda>_. Some (demoReplica [demoRow])) (demoEntry ''u3'' (98 * Hour) dispatchSubmitted None) owner ir
          \<and> rowMatches (100 * Hour) (demoEntry ''u3'' (98 * Hour) dispatchSubmitted None) m \<and> m_Phase m = ''Completed'')"
proof -
  have valid: "validateDispatchEntry demoAPI (demoEntry ''u3'' (98 * Hour) dispatchSubmitted None) = Inr ''u3''" by code_simp
  have pending: "\<not> terminal (demoEntry ''u3'' (98 * Hour) dispatchSubmitted None)" by code_simp
  have closed: "terminal demoReconciled" by code_simp
  have phase: "e_Phase demoReconciled = dispatchCompleted" by code_simp
  have at: "at_match demoReadings = 100 * Hour" by (simp add: demoReadings_def)
  show ?thesis
    using reconcile_sound [OF valid pending refl, of demoOptions demoReadings "\<lambda>_. Some demoService" "\<lambda>_. Some (demoReplica [demoRow])"] closed phase
    unfolding at by blast
qed

subsection \<open>The pass over the journal\<close>

text \<open>
  Each entry has its own readings of the clock and of its service and replica. A newly failed or stalled entry starts the backoff;
  the entries that changed or are still open are reported.
\<close>

type_synonym look = "readings \<times> (object_name \<Rightarrow> service option) \<times> (object_name \<Rightarrow> replica option)"

definition reconcileEntry :: "DispatchOptions \<Rightarrow> look \<Rightarrow> dispatchEntry \<Rightarrow> dispatchEntry" where
  "reconcileEntry opts l e = (if terminal e then e else reconcileDispatch opts (fst l) (fst (snd l)) (snd (snd l)) e)"

definition startsBackoff :: "dispatchEntry \<Rightarrow> dispatchEntry \<Rightarrow> bool" where
  "startsBackoff before e \<longleftrightarrow> (e_Phase e = dispatchFailed \<or> e_Phase e = dispatchStalled) \<and> e_Phase before \<noteq> e_Phase e"

record reconciled =
  rc_Entries :: "dispatchEntry list"
  rc_Backoff :: "time option"
  rc_Reports :: "dispatchEntry list"

definition reconcileStep :: "DispatchOptions \<Rightarrow> look \<Rightarrow> dispatchEntry \<Rightarrow> reconciled \<Rightarrow> reconciled" where
  "reconcileStep opts l e acc =
     (let e' = reconcileEntry opts l e
      in acc\<lparr>rc_Entries := rc_Entries acc @ [e'],
             rc_Backoff := (if \<not> terminal e \<and> startsBackoff e e' then Some (at_backoff (fst l) + FailureBackoff opts) else rc_Backoff acc),
             rc_Reports := (if \<not> terminal e \<and> (e \<noteq> e' \<or> \<not> terminal e') then rc_Reports acc @ [e'] else rc_Reports acc)\<rparr>)"

fun reconcileEntries :: "DispatchOptions \<Rightarrow> (nat \<Rightarrow> look) \<Rightarrow> nat \<Rightarrow> dispatchEntry list \<Rightarrow> reconciled \<Rightarrow> reconciled" where
  "reconcileEntries opts look i [] acc = acc"
| "reconcileEntries opts look i (e # es) acc = reconcileEntries opts look (i + 1) es (reconcileStep opts (look i) e acc)"

definition reconcileDispatches :: "DispatchOptions \<Rightarrow> (nat \<Rightarrow> look) \<Rightarrow> dispatchJournal \<Rightarrow> dispatchJournal \<times> dispatchEntry list" where
  "reconcileDispatches opts look j =
     (let r = reconcileEntries opts look 0 (entries j) \<lparr>rc_Entries = [], rc_Backoff = BackoffUntil j, rc_Reports = []\<rparr>
      in (j\<lparr>Entries := map_option (\<lambda>_. rc_Entries r) (Entries j), BackoffUntil := rc_Backoff r\<rparr>, rc_Reports r))"

lemma reconcileEntries_list:
  "rc_Entries (reconcileEntries opts look i es acc) = rc_Entries acc @ map (\<lambda>k. reconcileEntry opts (look (i + k)) (es ! k)) [0..<length es]"
proof (induction es arbitrary: i acc)
  case (Cons e es)
  have "[0..<length (e # es)] = 0 # map Suc [0..<length es]" by (simp add: upt_conv_Cons map_Suc_upt del: upt_Suc)
  then show ?case using Cons by (simp add: reconcileStep_def Let_def del: upt_Suc)
qed simp

lemma reconcileEntry_valid:
  assumes "validateDispatchEntry J e = Inr u"
  shows "validateDispatchEntry J (reconcileEntry opts l e) = Inr u" "sameIntent e (reconcileEntry opts l e)"
    "terminal e \<Longrightarrow> reconcileEntry opts l e = e"
proof -
  have "settles e (reconcileEntry opts l e)" if "\<not> terminal e"
    using that assms reconcileDispatch_settles [of e] by (simp add: reconcileEntry_def unresolved_def validateDispatchEntry_Inr)
  then show "validateDispatchEntry J (reconcileEntry opts l e) = Inr u" "sameIntent e (reconcileEntry opts l e)"
    using assms settles_valid [OF assms] by (cases "terminal e"; simp add: reconcileEntry_def settles_def)+
qed (simp add: reconcileEntry_def)

end
