(* ===== verification/Alfred_Protocol.thy ===== *)
theory Alfred_Protocol
  imports Alfred_Reconcile
begin

section \<open>The dispatch protocol\<close>

text \<open>
  The abstract machine behind the dispatcher: which journals may follow each other in the ConfigMap, and when
  a request may be sent. The states keep every journal ever stored, newest first, and every request ever
  sent. The dispatcher is shown to refine this machine; its invariants are proved here, by rule induction.

  The machine has five moves. Reconciling replaces entries by what their observation supports. Preparing
  prunes the history and appends one new intent, when nothing is unresolved. Attempting stamps the prepared
  intent; requesting sends the stamped intent; answering records how the request went.
\<close>

record protocol =
  p_time :: time
  p_history :: "dispatchJournal list"
  p_requests :: "dispatchEntry list"

definition unresolvedEntries :: "dispatchJournal \<Rightarrow> dispatchEntry list" where
  "unresolvedEntries j = filter (\<lambda>e. \<not> terminal e) (entries j)"

definition serial :: "dispatchJournal \<Rightarrow> bool" where
  "serial j \<longleftrightarrow> length (unresolvedEntries j) \<le> 1 \<and> distinct (map e_UUID (entries j))"

definition putEntry :: "nat \<Rightarrow> dispatchEntry \<Rightarrow> dispatchJournal \<Rightarrow> dispatchJournal" where
  "putEntry i e j = j\<lparr>Entries := map_option (\<lambda>es. es[i := e]) (Entries j)\<rparr>"

definition addEntry :: "dispatchEntry \<Rightarrow> dispatchJournal \<Rightarrow> dispatchJournal" where
  "addEntry e j = j\<lparr>Entries := Some (entries j @ [e])\<rparr>"

text \<open>An entry keeps its identity, and for good once it is terminal.\<close>

definition evolves :: "dispatchEntry \<Rightarrow> dispatchEntry \<Rightarrow> bool" where
  "evolves e e' \<longleftrightarrow> e_UUID e' = e_UUID e \<and> e_CreatedAt e' = e_CreatedAt e \<and> (terminal e \<longrightarrow> e' = e)"

text \<open>Reconciling may change how an unresolved entry stands, never what was asked for.\<close>

definition restated :: "dispatchEntry \<Rightarrow> dispatchEntry \<Rightarrow> bool" where
  "restated e e' \<longleftrightarrow> e' = e \<or> \<not> terminal e \<and> sameIntent e e'"

text \<open>The intents created in the hour before \<open>t\<close>.\<close>

definition recentUUIDs :: "time \<Rightarrow> dispatchJournal \<Rightarrow> string set" where
  "recentUUIDs t j = {e_UUID e | e. e \<in> set (entries j) \<and> t - e_CreatedAt e \<le> Hour}"

text \<open>A UUID as \<^verbatim>\<open>uuid.NewString\<close> spells it has no slash.\<close>

definition slashless :: "string \<Rightarrow> bool" where
  "slashless u \<longleftrightarrow> CHR ''/'' \<notin> set u"

text \<open>
  \<open>paced\<close> holds for a budget read at \<open>tb\<close>, an intent created at \<open>e_CreatedAt e\<close> and a journal pruned at \<open>tp\<close>: in this
  order, and with fewer than \<open>M\<close> intents in the hour before the budget was read. The budget tells intents apart
  by the owner and the UUID joined with a slash, so the count is exact where the UUIDs have none.
\<close>

definition paced :: "nat \<Rightarrow> protocol \<Rightarrow> dispatchJournal \<Rightarrow> dispatchEntry \<Rightarrow> time \<Rightarrow> time \<Rightarrow> bool" where
  "paced M p j e tb tp \<longleftrightarrow> p_time p \<le> tb \<and> tb \<le> e_CreatedAt e \<and> e_CreatedAt e \<le> tp
     \<and> slashless (e_UUID e) \<and> ((\<forall>e' \<in> set (entries j). slashless (e_UUID e')) \<longrightarrow> card (recentUUIDs tb j) < M)"

text \<open>\<open>strict\<close> tells whether the clock never goes back, new UUIDs have no slash and every configured limit is at most \<open>M\<close>.\<close>

inductive protocol_step :: "bool \<Rightarrow> nat \<Rightarrow> protocol \<Rightarrow> protocol \<Rightarrow> bool" for strict M where
  reconcile: "p_history p = j # js \<Longrightarrow> list_all2 restated (entries j) (entries j')
    \<Longrightarrow> protocol_step strict M p (p\<lparr>p_history := j' # j # js\<rparr>)"
| prepare: "p_history p = j # js \<Longrightarrow> unresolvedEntries j = [] \<Longrightarrow> \<not> terminal e
    \<Longrightarrow> e_UUID e \<notin> e_UUID ` set (entries (pruneDispatchHistory j window tp))
    \<Longrightarrow> (strict \<Longrightarrow> paced M p j e tb tp)
    \<Longrightarrow> protocol_step strict M p (p\<lparr>p_time := (if strict then tp else p_time p),
          p_history := addEntry e (pruneDispatchHistory j window tp) # j # js\<rparr>)"
| attempt: "p_history p = j # js \<Longrightarrow> i < length (entries j) \<Longrightarrow> e_Phase (entries j ! i) = dispatchPrepared
    \<Longrightarrow> protocol_step strict M p (p\<lparr>p_history := putEntry i ((entries j ! i)\<lparr>e_LastAttempt := Some t, e_Reason := r\<rparr>) j # j # js\<rparr>)"
| request: "p_history p = j # js \<Longrightarrow> e \<in> set (entries j) \<Longrightarrow> e_Phase e = dispatchPrepared \<Longrightarrow> e_LastAttempt e \<noteq> None
    \<Longrightarrow> protocol_step strict M p (p\<lparr>p_requests := p_requests p @ [e]\<rparr>)"
| answer: "p_history p = j # js \<Longrightarrow> i < length (entries j) \<Longrightarrow> e_Phase (entries j ! i) = dispatchPrepared
    \<Longrightarrow> ph = dispatchPrepared \<or> ph = dispatchSubmitted
    \<Longrightarrow> protocol_step strict M p (p\<lparr>p_history := putEntry i ((entries j ! i)\<lparr>e_Phase := ph, e_Reason := r\<rparr>) j # j # js\<rparr>)"

text \<open>The intents ever written, the intents ever closed, and the intents created in the hour that ends at \<open>t\<close>.\<close>

definition intents :: "protocol \<Rightarrow> (string \<times> time) set" where
  "intents p = (\<Union>j \<in> set (p_history p). (\<lambda>e. (e_UUID e, e_CreatedAt e)) ` set (entries j))"

definition closed :: "protocol \<Rightarrow> string set" where
  "closed p = (\<Union>j \<in> set (p_history p). e_UUID ` {e \<in> set (entries j). terminal e})"

definition hourOf :: "time \<Rightarrow> (string \<times> time) set \<Rightarrow> string set" where
  "hourOf t I = {u. \<exists>c. (u, c) \<in> I \<and> t - Hour \<le> c \<and> c \<le> t}"

text \<open>Within the limit: no UUID has a slash, no intent lies ahead of the clock, and no hour holds more than \<open>M\<close>.\<close>

definition withinLimit :: "nat \<Rightarrow> protocol \<Rightarrow> bool" where
  "withinLimit M p \<longleftrightarrow> (\<forall>(u, c) \<in> intents p. slashless u \<and> c \<le> p_time p) \<and> (\<forall>t. card (hourOf t (intents p)) \<le> M)"

inductive reachable :: "bool \<Rightarrow> nat \<Rightarrow> protocol \<Rightarrow> bool" for strict M where
  start: "p_history p = [j] \<Longrightarrow> serial j \<Longrightarrow> (strict \<Longrightarrow> withinLimit M p) \<Longrightarrow> p_requests p = [] \<Longrightarrow> reachable strict M p"
| step: "reachable strict M p \<Longrightarrow> protocol_step strict M p p' \<Longrightarrow> reachable strict M p'"

subsection \<open>How entries evolve\<close>

lemma evolves_refl [simp]: "evolves e e"
  by (simp add: evolves_def)

lemma prepared_not_terminal: "e_Phase e = dispatchPrepared \<Longrightarrow> \<not> terminal e"
  by (simp add: terminal_def)

lemma entries_putEntry [simp]: "entries (putEntry i e j) = (entries j)[i := e]"
  by (simp add: putEntry_def entries_def split: option.splits)

lemma entries_addEntry [simp]: "entries (addEntry e j) = entries j @ [e]"
  by (simp add: addEntry_def entries_def)

lemma evolves_putEntry:
  assumes "evolves (entries j ! i) e"
  shows "list_all2 evolves (entries j) (entries (putEntry i e j))"
  using assms by (auto simp: list_all2_conv_all_nth) (metis evolves_refl nth_list_update_eq nth_list_update_neq)

lemma evolves_attempt: "e_Phase e = dispatchPrepared \<Longrightarrow> evolves e (e\<lparr>e_LastAttempt := t, e_Reason := r\<rparr>)"
  "e_Phase e = dispatchPrepared \<Longrightarrow> evolves e (e\<lparr>e_Phase := ph, e_Reason := r\<rparr>)"
  by (simp_all add: evolves_def terminal_def)

lemma evolves_restated: "restated e e' \<Longrightarrow> evolves e e'"
  using sameIntentD [of e e'] by (auto simp: restated_def evolves_def)

lemma evolves_keys:
  assumes "list_all2 evolves es es'"
  shows "map e_UUID es' = map e_UUID es" "map e_CreatedAt es' = map e_CreatedAt es"
  using assms by (induction rule: list_all2_induct) (auto simp: evolves_def)

lemma evolves_unresolved:
  assumes "list_all2 evolves es es'"
  shows "length (filter (\<lambda>e. \<not> terminal e) es') \<le> length (filter (\<lambda>e. \<not> terminal e) es)"
  using assms by (induction rule: list_all2_induct) (auto simp: evolves_def)

lemma evolves_serial: "list_all2 evolves (entries j) (entries j') \<Longrightarrow> serial j \<Longrightarrow> serial j'"
  using evolves_unresolved [of "entries j" "entries j'"] evolves_keys(1) [of "entries j" "entries j'"]
  by (auto simp: serial_def unresolvedEntries_def)

text \<open>The moves that only let entries evolve.\<close>

lemma protocol_step_cases:
  assumes "protocol_step strict M p p'"
  obtains (evolve) j js j' where "p_history p = j # js" "p' = p\<lparr>p_history := j' # j # js\<rparr>" "list_all2 evolves (entries j) (entries j')"
  | (prepare) j js e window tb tp where "p_history p = j # js" "unresolvedEntries j = []" "\<not> terminal e"
      "e_UUID e \<notin> e_UUID ` set (entries (pruneDispatchHistory j window tp))" "strict \<Longrightarrow> paced M p j e tb tp"
      "p' = p\<lparr>p_time := (if strict then tp else p_time p), p_history := addEntry e (pruneDispatchHistory j window tp) # j # js\<rparr>"
  | (request) j js e where "p_history p = j # js" "e \<in> set (entries j)" "e_Phase e = dispatchPrepared" "p' = p\<lparr>p_requests := p_requests p @ [e]\<rparr>"
  using assms
proof cases
  case (reconcile j js j')
  then show ?thesis using evolve list_all2_mono [OF reconcile(3), of evolves] evolves_restated by blast
next
  case (attempt j js i t r)
  then show ?thesis using evolve evolves_putEntry [OF evolves_attempt(1)] by blast
next
  case (answer j js i ph r)
  then show ?thesis using evolve evolves_putEntry [OF evolves_attempt(2)] by blast
qed (blast intro: prepare request)+

subsection \<open>One unresolved intent\<close>

lemma prune_subset: "set (entries (pruneDispatchHistory j w t)) \<subseteq> set (entries j)"
  by (auto simp: entries_prune)

lemma prepare_serial:
  assumes "serial j" "unresolvedEntries j = []" "e_UUID e \<notin> e_UUID ` set (entries (pruneDispatchHistory j w t))"
  shows "serial (addEntry e (pruneDispatchHistory j w t))"
proof -
  have "filter (\<lambda>e. \<not> terminal e) (entries (pruneDispatchHistory j w t)) = []"
    using assms(2) prune_subset [of j w t] by (auto simp: unresolvedEntries_def filter_empty_conv)
  moreover have "distinct (map e_UUID (entries (pruneDispatchHistory j w t)))"
    using assms(1) by (simp add: serial_def entries_prune distinct_map_filter)
  ultimately show ?thesis using assms(3) by (simp add: serial_def unresolvedEntries_def)
qed

definition accounted :: "protocol \<Rightarrow> bool" where
  "accounted p \<longleftrightarrow> p_history p \<noteq> [] \<and> list_all serial (p_history p)
     \<and> (\<forall>e \<in> set (p_requests p). e_UUID e \<in> closed p \<or> e_UUID e \<in> e_UUID ` set (unresolvedEntries (hd (p_history p))))"

lemma closed_Cons: "p_history p' = j # p_history p \<Longrightarrow> closed p' = closed p \<union> e_UUID ` {e \<in> set (entries j). terminal e}"
  by (auto simp: closed_def)

lemma evolves_accounted:
  assumes "list_all2 evolves (entries j) (entries j')" "u \<in> e_UUID ` set (unresolvedEntries j)"
  shows "u \<in> e_UUID ` {e \<in> set (entries j'). terminal e} \<or> u \<in> e_UUID ` set (unresolvedEntries j')"
proof -
  have "u \<in> e_UUID ` set (entries j')"
    using assms(2) evolves_keys(1) [OF assms(1)] by (auto simp: unresolvedEntries_def) (metis image_eqI list.set_map)
  then show ?thesis by (auto simp: unresolvedEntries_def)
qed

lemma step_accounted:
  assumes "protocol_step strict M p p'" "accounted p"
  shows "accounted p'"
  using assms(1)
proof (cases rule: protocol_step_cases)
  case (evolve j js j')
  have "closed p' = closed p \<union> e_UUID ` {e \<in> set (entries j'). terminal e}" using evolve by (intro closed_Cons) simp
  then show ?thesis
    using assms(2) evolve evolves_serial [OF evolve(3)] evolves_accounted [OF evolve(3)] by (fastforce simp: accounted_def)
next
  case (prepare j js e window tb tp)
  let ?j = "addEntry e (pruneDispatchHistory j window tp)"
  have "serial ?j" using assms(2) prepare prepare_serial by (simp add: accounted_def)
  moreover have "closed p' = closed p \<union> e_UUID ` {e \<in> set (entries ?j). terminal e}" using prepare by (intro closed_Cons) simp
  ultimately show ?thesis using assms(2) prepare by (auto simp: accounted_def)
next
  case (request j js e)
  have "closed p' = closed p" using request by (simp add: closed_def)
  moreover have "e \<in> set (unresolvedEntries j)" using request prepared_not_terminal by (simp add: unresolvedEntries_def)
  ultimately show ?thesis using assms(2) request by (auto simp: accounted_def)
qed

lemma reachable_accounted: "reachable strict M p \<Longrightarrow> accounted p"
proof (induction rule: reachable.induct)
  case (start p j)
  then show ?case by (simp add: accounted_def)
qed (rule step_accounted)

lemma reachable_one_open:
  assumes "reachable strict M p"
  shows "card (e_UUID ` set (p_requests p) - closed p) \<le> 1"
proof -
  let ?open = "e_UUID ` set (unresolvedEntries (hd (p_history p)))"
  have acc: "accounted p" by (rule reachable_accounted [OF assms])
  then have "serial (hd (p_history p))" by (cases "p_history p") (auto simp: accounted_def)
  then have "length (unresolvedEntries (hd (p_history p))) \<le> 1" by (simp add: serial_def)
  then have "card ?open \<le> 1" using card_image_le [of "set (unresolvedEntries (hd (p_history p)))" e_UUID] card_length le_trans
    by (metis List.finite_set)
  moreover have "e_UUID ` set (p_requests p) - closed p \<subseteq> ?open" using acc by (auto simp: accounted_def)
  ultimately show ?thesis by (meson card_mono finite_imageI List.finite_set le_trans)
qed

subsection \<open>The rolling hour\<close>

text \<open>The newest journal holds every intent of the last hour.\<close>

definition remembers :: "protocol \<Rightarrow> bool" where
  "remembers p \<longleftrightarrow> (\<forall>(u, c) \<in> intents p. p_time p - Hour \<le> c \<longrightarrow> (\<exists>e \<in> set (entries (hd (p_history p))). e_UUID e = u \<and> e_CreatedAt e = c))"

lemma evolves_intents:
  assumes "list_all2 evolves (entries j) (entries j')"
  shows "(\<lambda>e. (e_UUID e, e_CreatedAt e)) ` set (entries j') = (\<lambda>e. (e_UUID e, e_CreatedAt e)) ` set (entries j)"
proof -
  have "map (\<lambda>e. (e_UUID e, e_CreatedAt e)) es = zip (map e_UUID es) (map e_CreatedAt es)" for es
    by (induction es) auto
  then have "map (\<lambda>e. (e_UUID e, e_CreatedAt e)) (entries j') = map (\<lambda>e. (e_UUID e, e_CreatedAt e)) (entries j)"
    using evolves_keys [OF assms] by metis
  then show ?thesis by (metis list.set_map)
qed

text \<open>Pruning keeps what was created in the last hour.\<close>

lemma prune_keeps_recent:
  assumes "e \<in> set (entries j)" "tp - Hour \<le> e_CreatedAt e"
  shows "e \<in> set (entries (pruneDispatchHistory j w tp))"
proof -
  have "\<not> outlived w tp e"
  proof
    assume "outlived w tp e"
    then obtain t where "e_CreatedAt e \<le> t" "tp - t > max dispatchHistoryTTL w" using outlivedD [of w tp e tp] by (metis order_refl)
    then show False using assms(2) by (simp add: dispatchHistoryTTL_def)
  qed
  then show ?thesis using assms(1) by (simp add: entries_prune)
qed

lemma prepare_limit:
  assumes hist: "p_history p = j # js" and lim: "withinLimit M p" and rem: "remembers p"
    and paced: "paced M p j e tb tp" and p': "p' = p\<lparr>p_time := tp, p_history := addEntry e (pruneDispatchHistory j w tp) # j # js\<rparr>"
  shows "withinLimit M p' \<and> remembers p'"
proof -
  have "\<forall>e \<in> set (entries j). slashless (e_UUID e)"
    using lim hist by (auto simp: withinLimit_def intents_def)
  then have order: "p_time p \<le> tb" "tb \<le> e_CreatedAt e" "e_CreatedAt e \<le> tp" "card (recentUUIDs tb j) < M"
    using paced by (simp_all add: paced_def)
  have I: "intents p' = insert (e_UUID e, e_CreatedAt e) (intents p)"
    using hist p' prune_subset [of j w tp] by (auto simp: intents_def)
  have ahead: "\<forall>(u, c) \<in> intents p'. slashless u \<and> c \<le> p_time p'"
    using I lim order p' paced by (force simp: withinLimit_def paced_def)
  have hour: "card (hourOf t (intents p')) \<le> M" for t
  proof (cases "t - Hour \<le> e_CreatedAt e \<and> e_CreatedAt e \<le> t")
    case False
    then have "hourOf t (intents p') = hourOf t (intents p)" by (auto simp: hourOf_def I)
    then show ?thesis using lim by (simp add: withinLimit_def)
  next
    case True
    have "u \<in> recentUUIDs tb j" if "(u, c) \<in> intents p" "t - Hour \<le> c" for u c
    proof -
      have "p_time p - Hour \<le> c" "tb - c \<le> Hour" using that(2) True order by linarith+
      then show ?thesis using rem that(1) hist by (fastforce simp: remembers_def recentUUIDs_def)
    qed
    then have "hourOf t (intents p') \<subseteq> insert (e_UUID e) (recentUUIDs tb j)" by (auto simp: hourOf_def I)
    moreover have fin: "finite (recentUUIDs tb j)" by (simp add: recentUUIDs_def)
    ultimately have "card (hourOf t (intents p')) \<le> card (insert (e_UUID e) (recentUUIDs tb j))" by (intro card_mono) auto
    also have "\<dots> \<le> M" using order(4) fin by (metis Suc_leI card_insert_le_m1 card_insert_if le_SucI less_imp_le_nat)
    finally show ?thesis .
  qed
  have "remembers p'"
    unfolding remembers_def
  proof (clarify)
    fix u c assume uc: "(u, c) \<in> intents p'" and recent: "p_time p' - Hour \<le> c"
    show "\<exists>e \<in> set (entries (hd (p_history p'))). e_UUID e = u \<and> e_CreatedAt e = c"
    proof (cases "(u, c) \<in> intents p")
      case True
      then obtain e' where "e' \<in> set (entries j)" "e_UUID e' = u" "e_CreatedAt e' = c"
        using rem recent hist order p' by (fastforce simp: remembers_def)
      then show ?thesis using prune_keeps_recent [of e' j tp w] recent p' by auto
    next
      case False
      then show ?thesis using uc I p' by auto
    qed
  qed
  then show ?thesis using ahead hour by (simp add: withinLimit_def)
qed

lemma step_limit:
  assumes "protocol_step strict M p p'" strict "withinLimit M p" "remembers p"
  shows "withinLimit M p' \<and> remembers p'"
  using assms(1)
proof (cases rule: protocol_step_cases)
  case (evolve j js j')
  have I: "intents p' = intents p" using evolve evolves_intents [OF evolve(3)] by (auto simp: intents_def)
  have "\<exists>e \<in> set (entries j'). e_UUID e = u \<and> e_CreatedAt e = c" if uc: "(u, c) \<in> intents p" "p_time p - Hour \<le> c" for u c
  proof -
    obtain e where "e \<in> set (entries j)" "e_UUID e = u" "e_CreatedAt e = c" using assms(4) uc evolve(1) by (fastforce simp: remembers_def)
    then have "(u, c) \<in> (\<lambda>e. (e_UUID e, e_CreatedAt e)) ` set (entries j')" unfolding evolves_intents [OF evolve(3)] by blast
    then show ?thesis by auto
  qed
  then have "remembers p'" using I evolve(2) by (auto simp: remembers_def)
  then show ?thesis using assms(3) I evolve(2) by (simp add: withinLimit_def)
next
  case (prepare j js e window tb tp)
  have "p' = p\<lparr>p_time := tp, p_history := addEntry e (pruneDispatchHistory j window tp) # j # js\<rparr>" using prepare(6) assms(2) by simp
  then show ?thesis by (rule prepare_limit [OF prepare(1) assms(3,4) prepare(5) [OF assms(2)]])
next
  case (request j js e)
  then have "intents p' = intents p" by (simp add: intents_def)
  then show ?thesis using assms(3,4) request by (simp add: withinLimit_def remembers_def)
qed

lemma reachable_limit:
  assumes "reachable strict M p" strict
  shows "withinLimit M p \<and> remembers p"
  using assms(1)
proof (induction rule: reachable.induct)
  case (start p j)
  then show ?case using assms(2) by (auto simp: remembers_def intents_def)
next
  case (step p p')
  then show ?case using step_limit assms(2) by blast
qed

end
