(* ===== verification/Alfred_World.thy ===== *)
theory Alfred_World
  imports Alfred_Protocol "HOL-Library.State_Monad"
begin

section \<open>The surroundings of the dispatcher\<close>

text \<open>
  The dispatcher is a program over a \<open>world\<close>: the ConfigMap that holds the journal, every version of it stored
  so far, the requests that reached the API server, and the arbiter. Everything else it meets is an
  \<open>environment\<close>: the clock, the objects it reads, whether a call succeeds, fresh UUIDs and the scheduler
  simulation. The \<open>n\<close>-th effect asks the environment at \<open>n\<close>, so answers may differ from call to call. A write may
  be applied, be refused, or be reported as failed although it was applied. A leader that dies is an
  environment that refuses every later call: nothing it does afterwards has an effect.

  Functions of other parts of Alfred that the preflight calls (the snapshot builder, building a scheduling
  request, comparing a source with the snapshot, fingerprints, rescoring a defragmentation) are fields of the
  environment as well; nothing is assumed of them. The type variables stand for a scheduling request, a list
  of pods, and a simulation result.
\<close>

subsection \<open>Environment and world\<close>

datatype outcome = Applied | Refused | Lost

record gate_reading =
  g_ConfigurationChanged :: bool
  g_Deadline :: bool
  g_MaintenanceFence :: bool
  g_Guard :: bool

record ('p, 'q, 'r) environment =
  en_now :: "nat \<Rightarrow> time"
  en_outcome :: "nat \<Rightarrow> outcome"
  en_owner :: "nat \<Rightarrow> object_name \<Rightarrow> service option"
  en_replica :: "nat \<Rightarrow> object_name \<Rightarrow> replica option"
  en_gate :: "nat \<Rightarrow> gate_reading"
  en_uuid :: "nat \<Rightarrow> string"
  en_observe :: "nat \<Rightarrow> bool \<Rightarrow> alfred_config \<Rightarrow> cluster_snapshot option"
  en_capture :: "nat \<Rightarrow> bool \<Rightarrow> candidate \<Rightarrow> capture option"
  en_score :: "nat \<Rightarrow> capture \<Rightarrow> alfred_config \<Rightarrow> cluster_snapshot option"
  en_simulate :: "nat \<Rightarrow> 'p \<Rightarrow> 'r option"
  fn_ExecutionSourcePods :: "capture \<Rightarrow> candidate \<Rightarrow> time \<Rightarrow> 'q option"
  fn_BuildExecutionRequest :: "capture \<Rightarrow> candidate \<Rightarrow> alfred_config \<Rightarrow> string \<Rightarrow> name list \<Rightarrow> time \<Rightarrow> 'p option"
  fn_SourcePods :: "'p \<Rightarrow> 'q"
  fn_noRequest :: 'p
  fn_noResult :: 'r
  fn_feasible :: "'p \<Rightarrow> 'r \<Rightarrow> bool"
  fn_Placements :: "'r \<Rightarrow> name list"
  fn_captureValid :: "capture \<Rightarrow> time \<Rightarrow> bool"
  fn_ownersMatch :: "cluster_snapshot \<Rightarrow> capture \<Rightarrow> candidate \<Rightarrow> bool"
  fn_membersMatch :: "cluster_snapshot \<Rightarrow> candidate \<Rightarrow> 'q \<Rightarrow> bool"
  fn_owners :: "cluster_snapshot \<Rightarrow> candidate \<Rightarrow> (service \<times> replica) option"
  fn_fingerprint :: "service \<Rightarrow> replica \<Rightarrow> 'q \<Rightarrow> int \<Rightarrow> bool \<Rightarrow> string option"
  fn_SameSchedulingState :: "capture \<Rightarrow> capture \<Rightarrow> bool"
  fn_SourcePlacementTargets :: "'p \<Rightarrow> 'r \<Rightarrow> (object_name \<times> name) list option"
  fn_RevalidatePlacement :: "cluster_snapshot \<Rightarrow> alfred_config \<Rightarrow> candidate \<Rightarrow> (object_name \<times> name) list \<Rightarrow> candidate option"

text \<open>A request is remembered with the journal that was stored when it was made. The newest stored version heads the history.\<close>

record world =
  w_state :: config_map
  w_history :: "config_map list"
  w_requests :: "(dispatchEntry \<times> config_map) list"
  w_arbiter :: arbiter
  w_tick :: nat

type_synonym 'a io = "(world, 'a) state"

definition tick :: "nat io" where
  "tick = State (\<lambda>w. (w_tick w, w\<lparr>w_tick := w_tick w + 1\<rparr>))"

definition now :: "('p, 'q, 'r) environment \<Rightarrow> time io" where
  "now E = do { n \<leftarrow> tick; State_Monad.return (en_now E n) }"

subsection \<open>Reading and writing\<close>

text \<open>An update with an old resource version is refused.\<close>

definition getState :: "('p, 'q, 'r) environment \<Rightarrow> config_map option io" where
  "getState E = State (\<lambda>w. (if en_outcome E (w_tick w) = Applied then Some (w_state w) else None, w\<lparr>w_tick := w_tick w + 1\<rparr>))"

definition store :: "config_map \<Rightarrow> world \<Rightarrow> world" where
  "store cm w = (let cm' = cm\<lparr>cm_ResourceVersion := cm_ResourceVersion (w_state w) + 1\<rparr> in w\<lparr>w_state := cm', w_history := cm' # w_history w\<rparr>)"

definition putState :: "('p, 'q, 'r) environment \<Rightarrow> config_map \<Rightarrow> bool io" where
  "putState E cm = State (\<lambda>w. let w' = w\<lparr>w_tick := w_tick w + 1\<rparr> in
     if cm_ResourceVersion cm \<noteq> cm_ResourceVersion (w_state w) then (False, w')
     else case en_outcome E (w_tick w) of Applied \<Rightarrow> (True, store cm w') | Refused \<Rightarrow> (False, w') | Lost \<Rightarrow> (False, store cm w'))"

text \<open>Patching the service adds the request annotation if the service still has the UID and the resource version tested.\<close>

definition patchOwner :: "('p, 'q, 'r) environment \<Rightarrow> service \<Rightarrow> dispatchEntry \<Rightarrow> bool io" where
  "patchOwner E owner e = State (\<lambda>w. let w' = w\<lparr>w_tick := w_tick w + 1\<rparr>; w'' = w'\<lparr>w_requests := w_requests w @ [(e, w_state w)]\<rparr> in
     case en_owner E (w_tick w) (e_Workload e) of
       None \<Rightarrow> (False, w')
     | Some current \<Rightarrow>
         if sv_UID current \<noteq> sv_UID owner \<or> sv_ResourceVersion current \<noteq> sv_ResourceVersion owner then (False, w')
         else case en_outcome E (w_tick w) of Applied \<Rightarrow> (True, w'') | Refused \<Rightarrow> (False, w') | Lost \<Rightarrow> (False, w''))"

definition loadS :: "journal_api \<Rightarrow> ('p, 'q, 'r) environment \<Rightarrow> (string + config_map \<times> dispatchJournal) io" where
  "loadS J E = do { got \<leftarrow> getState E; State_Monad.return (loadDispatchJournal J got) }"

definition saveS :: "journal_api \<Rightarrow> ('p, 'q, 'r) environment \<Rightarrow> config_map \<Rightarrow> dispatchJournal \<Rightarrow> bool io" where
  "saveS J E cm j = (case saveDispatchJournal J cm j of Inl _ \<Rightarrow> State_Monad.return False | Inr cm' \<Rightarrow> putState E cm')"

definition admitS :: "('p, 'q, 'r) environment \<Rightarrow> cluster_snapshot \<Rightarrow> candidate list \<Rightarrow> alfred_config \<Rightarrow> decision list io" where
  "admitS E snap cands cfg = do {
     t \<leftarrow> now E;
     State (\<lambda>w. let (ds, a) = Admit (w_arbiter w) snap cands cfg t in (ds, w\<lparr>w_arbiter := a\<rparr>)) }"

subsection \<open>Steps that may refuse\<close>

definition andThen :: "('e + 'a) io \<Rightarrow> ('a \<Rightarrow> ('e + 'b) io) \<Rightarrow> ('e + 'b) io" where
  "andThen m f = do { r \<leftarrow> m; case r of Inl err \<Rightarrow> State_Monad.return (Inl err) | Inr x \<Rightarrow> f x }"

definition check :: "bool \<Rightarrow> string \<Rightarrow> (string + unit) io" where
  "check b reason = State_Monad.return (if b then Inr () else Inl reason)"

definition require :: "'a option \<Rightarrow> string \<Rightarrow> (string + 'a) io" where
  "require x reason = State_Monad.return (case x of None \<Rightarrow> Inl reason | Some y \<Rightarrow> Inr y)"

definition ask :: "(nat \<Rightarrow> 'a option) \<Rightarrow> string \<Rightarrow> (string + 'a) io" where
  "ask q reason = do { n \<leftarrow> tick; require (q n) reason }"

definition refuse :: "string option \<Rightarrow> (string + unit) io" where
  "refuse r = State_Monad.return (case r of None \<Rightarrow> Inr () | Some reason \<Rightarrow> Inl reason)"

definition ok :: "'a io \<Rightarrow> (string + 'a) io" where
  "ok m = do { x \<leftarrow> m; State_Monad.return (Inr x) }"

subsection \<open>Running a step to its end\<close>

named_theorems runs \<open>when a step succeeds, and what it leaves\<close>

lemma run_andThen [runs]: "run_state (andThen m f) w = (Inr y, w') \<longleftrightarrow> (\<exists>x w1. run_state m w = (Inr x, w1) \<and> run_state (f x) w1 = (Inr y, w'))"
  by (auto simp: andThen_def split: prod.splits sum.splits)

lemma run_check [runs]: "run_state (check b reason) w = (Inr x, w') \<longleftrightarrow> b \<and> w' = w"
  by (auto simp: check_def)

lemma run_require [runs]: "run_state (require x reason) w = (Inr y, w') \<longleftrightarrow> x = Some y \<and> w' = w"
  by (auto simp: require_def split: option.splits)

lemma run_ask [runs]: "run_state (ask q reason) w = (Inr y, w') \<longleftrightarrow> q (w_tick w) = Some y \<and> w' = w\<lparr>w_tick := w_tick w + 1\<rparr>"
  by (auto simp: ask_def tick_def require_def split: option.splits)

lemma run_refuse [runs]: "run_state (refuse r) w = (Inr x, w') \<longleftrightarrow> r = None \<and> w' = w"
  by (auto simp: refuse_def split: option.splits)

lemma run_ok [runs]: "run_state (ok m) w = (Inr x, w') \<longleftrightarrow> run_state m w = (x, w')"
  by (auto simp: ok_def split: prod.splits)

lemma run_now [runs]: "run_state (now E) w = (t, w') \<longleftrightarrow> t = en_now E (w_tick w) \<and> w' = w\<lparr>w_tick := w_tick w + 1\<rparr>"
  by (auto simp: now_def tick_def)

lemma run_admitS [runs]: "run_state (admitS E snap cs cfg) w = (ds, w')
   \<longleftrightarrow> (\<exists>a. Admit (w_arbiter w) snap cs cfg (en_now E (w_tick w)) = (ds, a) \<and> w' = w\<lparr>w_tick := w_tick w + 1, w_arbiter := a\<rparr>)"
  by (auto simp: admitS_def now_def tick_def split: prod.splits)

subsection \<open>Quiet steps and refusals\<close>

text \<open>A quiet step only reads: it may consult the arbiter and lets time pass.\<close>

definition quietly :: "world \<Rightarrow> world \<Rightarrow> bool" where
  "quietly w w' \<longleftrightarrow> w_state w' = w_state w \<and> w_history w' = w_history w \<and> w_requests w' = w_requests w \<and> w_tick w \<le> w_tick w'"

definition quiet :: "'a io \<Rightarrow> bool" where
  "quiet m \<longleftrightarrow> (\<forall>w. quietly w (snd (run_state m w)))"

named_theorems quiets \<open>steps that only read\<close>

lemma quietly_refl [simp]: "quietly w w"
  by (simp add: quietly_def)

lemma quietly_trans: "quietly w w1 \<Longrightarrow> quietly w1 w2 \<Longrightarrow> quietly w w2"
  by (simp add: quietly_def)

lemma quietD: "quiet m \<Longrightarrow> run_state m w = (x, w') \<Longrightarrow> quietly w w'"
  by (metis quiet_def snd_conv)

lemma quiet_return [quiets]: "quiet (State_Monad.return x)"
  by (simp add: quiet_def)

lemma quiet_bind [quiets]: "quiet m \<Longrightarrow> (\<And>x. quiet (f x)) \<Longrightarrow> quiet (State_Monad.bind m f)"
  by (auto simp: quiet_def split: prod.splits) (metis quietly_trans snd_conv)

lemma quiet_andThen [quiets]: "quiet m \<Longrightarrow> (\<And>x. quiet (f x)) \<Longrightarrow> quiet (andThen m f)"
  unfolding andThen_def by (rule quiet_bind) (auto intro: quiet_return split: sum.splits)

lemma quiet_tick [quiets]: "quiet tick"
  by (simp add: quiet_def quietly_def tick_def)

lemma quiet_pure [quiets]: "quiet (check b reason)" "quiet (require x reason)" "quiet (refuse r)"
  by (simp_all add: check_def require_def refuse_def quiet_return)

lemma quiet_reads [quiets]: "quiet (ask q reason)" "quiet (now E)" "quiet (getState E)" "quiet (loadS J E)"
proof -
  show "quiet (ask q reason)" by (auto simp: ask_def intro: quiets)
  show "quiet (now E)" by (auto simp: now_def intro: quiets)
  show get: "quiet (getState E)" by (simp add: quiet_def quietly_def getState_def)
  show "quiet (loadS J E)" unfolding loadS_def by (intro quiet_bind get quiet_return)
qed

lemma quiet_ok [quiets]: "quiet m \<Longrightarrow> quiet (ok m)"
  by (auto simp: ok_def intro: quiets)

lemma quiet_admitS [quiets]: "quiet (admitS E snap cs cfg)"
  unfolding admitS_def by (intro quiet_bind quiet_reads) (auto simp: quiet_def quietly_def split: prod.splits)

text \<open>A refusal always has a reason.\<close>

definition reasoned :: "(string + 'a) io \<Rightarrow> bool" where
  "reasoned m \<longleftrightarrow> (\<forall>w reason. fst (run_state m w) = Inl reason \<longrightarrow> reason \<noteq> [])"

named_theorems reasons \<open>steps that give a reason\<close>

lemma reasoned_andThen: "reasoned m \<Longrightarrow> (\<And>x. reasoned (f x)) \<Longrightarrow> reasoned (andThen m f)"
  by (auto simp: reasoned_def andThen_def split: prod.splits sum.splits) (metis fst_conv)+

lemma reasoned_pure [reasons]:
  "reason \<noteq> [] \<Longrightarrow> reasoned (check b reason)" "reason \<noteq> [] \<Longrightarrow> reasoned (require x reason)" "reason \<noteq> [] \<Longrightarrow> reasoned (ask q reason)"
  "r \<noteq> Some [] \<Longrightarrow> reasoned (refuse r)" "reasoned (State_Monad.return (Inr y))"
  by (auto simp: reasoned_def check_def require_def ask_def tick_def refuse_def split: option.splits prod.splits if_splits)

lemma reasoned_then [reasons]:
  "reason \<noteq> [] \<Longrightarrow> (\<And>x. reasoned (f1 x)) \<Longrightarrow> reasoned (andThen (check b reason) f1)"
  "reason \<noteq> [] \<Longrightarrow> (\<And>x. reasoned (f2 x)) \<Longrightarrow> reasoned (andThen (require y reason) f2)"
  "reason \<noteq> [] \<Longrightarrow> (\<And>x. reasoned (f3 x)) \<Longrightarrow> reasoned (andThen (ask q reason) f3)"
  "r \<noteq> Some [] \<Longrightarrow> (\<And>x. reasoned (f4 x)) \<Longrightarrow> reasoned (andThen (refuse r) f4)"
  by (blast intro: reasoned_andThen reasoned_pure)+

lemma reasoned_ok [reasons]: "(\<And>w. reasoned (f (fst (run_state m w)))) \<Longrightarrow> reasoned (andThen (ok m) f)"
  by (auto simp: reasoned_def andThen_def ok_def split: prod.splits) (metis fst_conv)

subsection \<open>Reasoning about steps\<close>

definition triple :: "(world \<Rightarrow> bool) \<Rightarrow> 'a io \<Rightarrow> ('a \<Rightarrow> world \<Rightarrow> bool) \<Rightarrow> bool" where
  "triple P m Q \<longleftrightarrow> (\<forall>w. P w \<longrightarrow> Q (fst (run_state m w)) (snd (run_state m w)))"

lemma tripleD: "triple P m Q \<Longrightarrow> P w \<Longrightarrow> Q (fst (run_state m w)) (snd (run_state m w))"
  by (simp add: triple_def)

lemma triple_bind:
  assumes "triple P m R" "\<And>x. triple (R x) (f x) Q"
  shows "triple P (State_Monad.bind m f) Q"
  using assms by (auto simp: triple_def split: prod.splits)

end
