(* ===== verification/Alfred_Preflight.thy ===== *)
theory Alfred_Preflight
  imports Alfred_World
begin

section \<open>The preflight\<close>

text \<open>
  \<^verbatim>\<open>pkg/alfred/engine/dispatch_preflight.go\<close>: before any write a candidate is checked again against fresh
  reads, first once, then, after the simulation, a second time. Every check is here, in order. The theorem
  collects what an accepted candidate has passed at the end.
\<close>

subsection \<open>Whether execution is enabled\<close>

record Dispatcher =
  dp_Reader :: bool
  dp_Client :: bool
  dp_Namespace :: name
  dp_Simulator :: bool
  dp_Options :: DispatchOptions
  dp_Policies :: "(cluster_snapshot \<Rightarrow> alfred_config \<Rightarrow> candidate list) list"

definition executionEnabled :: "Dispatcher \<Rightarrow> alfred_config \<Rightarrow> gate_reading \<Rightarrow> string option" where
  "executionEnabled d cfg g =
     (if APIVersion (dp_Options d) \<noteq> ''v1'' \<or> Mode cfg \<noteq> ''execute'' \<or> OMENativeMigrationEnabled cfg \<noteq> Some True then Some ''ExecutionDisabled''
      else if AcknowledgementTimeout (dp_Options d) \<le> 0 \<or> AcknowledgementTimeout (dp_Options d) > Hour
        \<or> FailureBackoff (dp_Options d) \<le> 0 \<or> FailureBackoff (dp_Options d) > Hour then Some ''InvalidDispatchOptions''
      else if \<not> dispatchConfigCooldownsValid cfg then Some ''InvalidCooldown''
      else if g_ConfigurationChanged g then Some ''ConfigurationChanged''
      else if dp_Policies d = [] then Some ''PolicyReplayUnavailable''
      else if g_Deadline g then Some ''DispatchDeadline''
      else if g_MaintenanceFence g then Some ''MaintenanceCordonFailed''
      else if g_Guard g then Some ''GuardUnavailable''
      else None)"

definition enabledS :: "('p, 'q, 'r) environment \<Rightarrow> Dispatcher \<Rightarrow> alfred_config \<Rightarrow> string option io" where
  "enabledS E d cfg = do { n \<leftarrow> tick; State_Monad.return (executionEnabled d cfg (en_gate E n)) }"

subsection \<open>What the checks read\<close>

definition predictionMaxAge :: duration where "predictionMaxAge = 30 * Second"

definition observationFresh :: "cluster_snapshot \<Rightarrow> time \<Rightarrow> bool" where
  "observationFresh s t \<longleftrightarrow> Timestamp s \<noteq> 0 \<and> \<not> Timestamp s > t \<and> time_Sub t (Timestamp s) \<le> predictionMaxAge"

definition sameDispatchSource :: "candidate \<Rightarrow> candidate \<Rightarrow> bool" where
  "sameDispatchSource a b \<longleftrightarrow> c_Workload a = c_Workload b \<and> c_Component a = c_Component b \<and> c_Instance a = c_Instance b \<and> c_FromNode a = c_FromNode b"

definition sameDispatchCause :: "candidate \<Rightarrow> candidate \<Rightarrow> bool" where
  "sameDispatchCause a b \<longleftrightarrow> c_Policy a = c_Policy b \<and> c_Reason a = c_Reason b"

definition freshCandidate :: "Dispatcher \<Rightarrow> cluster_snapshot \<Rightarrow> candidate \<Rightarrow> alfred_config \<Rightarrow> candidate option" where
  "freshCandidate d s c cfg = find (\<lambda>fresh. c_Executable fresh \<and> c_Mode fresh = ''OMENative'' \<and> sameDispatchSource fresh c \<and> sameDispatchCause fresh c)
     (concat (map (\<lambda>p. p s cfg) (dp_Policies d)))"

text \<open>The service is the last of its name, the replica the first that fits; \<open>None\<close> if one is missing.\<close>

definition capturedOwners :: "capture \<Rightarrow> candidate \<Rightarrow> (service \<times> replica) option" where
  "capturedOwners s c = (case rev (filter (\<lambda>x. sv_Name x = c_Workload c) (InferenceServices s)) of
       [] \<Rightarrow> None
     | owner # _ \<Rightarrow> map_option (Pair owner) (find (\<lambda>x. fst (ir_Name x) = fst (sv_Name owner)
         \<and> ir_ParentRef x = Some (snd (sv_Name owner)) \<and> ir_Component x = c_Component c) (InferenceReplicas s)))"

fun readyIn :: "name \<Rightarrow> captured_object option list \<Rightarrow> bool" where
  "readyIn node [] = False"
| "readyIn node (None # os) = readyIn node os"
| "readyIn node (Some x # os) =
     (if ob_Kind x \<noteq> ''Node'' \<or> ob_APIVersion x \<noteq> ''v1'' \<or> ob_Name x \<noteq> node then readyIn node os
      else case map_of (ob_Conditions x) ''Ready'' of Some status \<Rightarrow> status = ''True'' | None \<Rightarrow> readyIn node os)"

definition capturedNodeReady :: "capture \<Rightarrow> name \<Rightarrow> bool" where
  "capturedNodeReady s node = readyIn node (Objects s)"

definition semanticFingerprintPrefix :: string where
  "semanticFingerprintPrefix = ''semantic-v1:''"

text \<open>A legacy fingerprint is 32 bytes in hexadecimal.\<close>

definition legacyFingerprint :: "string \<Rightarrow> bool" where
  "legacyFingerprint s \<longleftrightarrow> length s = 64 \<and> list_all (\<lambda>c. c \<in> set ''0123456789abcdefABCDEF'') s"

text \<open>Whether the fingerprint is a semantic one; \<open>None\<close> if the stored one is of neither kind.\<close>

definition fingerprintVersion :: "dispatchEntry option \<Rightarrow> bool option" where
  "fingerprintVersion existing = (case existing of
       None \<Rightarrow> Some True
     | Some e \<Rightarrow> if HasPrefix (e_SourceFingerprint e) semanticFingerprintPrefix then Some True
                  else if legacyFingerprint (e_SourceFingerprint e) then Some False else None)"

definition notAdmitted :: "decision list \<Rightarrow> string option" where
  "notAdmitted ds = (case ds of [d] \<Rightarrow> if d_Admitted d then None else Some (d_Reason d) | _ \<Rightarrow> Some ''NotAdmitted'')"

definition exceeded :: "string \<Rightarrow> string option" where
  "exceeded reason = (if reason = [] then None else Some reason)"

definition hintsFor :: "journal_api \<Rightarrow> candidate \<Rightarrow> dispatchEntry option \<Rightarrow> name list option" where
  "hintsFor J current existing = (case existing of
       None \<Rightarrow> Some (c_HintTargetNodes current)
     | Some e \<Rightarrow> (case requestForEntry J e of Inl _ \<Rightarrow> None | Inr r \<Rightarrow> Some (r_HintTargetNodes r)))"

definition requestIDFor :: "dispatchEntry option \<Rightarrow> string" where
  "requestIDFor existing = (case existing of None \<Rightarrow> ''preflight'' | Some e \<Rightarrow> e_UUID e)"

text \<open>The scheduling request and the pods of the source; a slice move has no request.\<close>

definition sourceOf :: "('p, 'q, 'r) environment \<Rightarrow> bool \<Rightarrow> capture \<Rightarrow> candidate \<Rightarrow> alfred_config \<Rightarrow> string \<Rightarrow> name list \<Rightarrow> time \<Rightarrow> ('p \<times> 'q) option" where
  "sourceOf E slice captured c cfg requestID hints t =
     (if slice then map_option (Pair (fn_noRequest E)) (fn_ExecutionSourcePods E captured c t)
      else map_option (\<lambda>r. (r, fn_SourcePods E r)) (fn_BuildExecutionRequest E captured c cfg requestID hints t))"

definition ownersOf :: "('p, 'q, 'r) environment \<Rightarrow> bool \<Rightarrow> cluster_snapshot \<Rightarrow> capture \<Rightarrow> candidate \<Rightarrow> (service \<times> replica) option" where
  "ownersOf E slice s captured c = (if slice then capturedOwners captured c else fn_owners E s c)"

definition sourceMatches :: "('p, 'q, 'r) environment \<Rightarrow> cluster_snapshot \<Rightarrow> capture \<Rightarrow> candidate \<Rightarrow> 'q \<Rightarrow> bool" where
  "sourceMatches E s captured c pods \<longleftrightarrow> fn_ownersMatch E s captured c \<and> fn_membersMatch E s c pods"

subsection \<open>The first look\<close>

record ('p, 'q) first_look =
  fl_fresh :: cluster_snapshot
  fl_current :: candidate
  fl_captured :: capture
  fl_hints :: "name list"
  fl_request :: 'p
  fl_pods :: 'q
  fl_owner :: service
  fl_ir :: replica

definition firstLook :: "journal_api \<Rightarrow> ('p, 'q, 'r) environment \<Rightarrow> Dispatcher \<Rightarrow> bool \<Rightarrow> cluster_snapshot option \<Rightarrow> candidate \<Rightarrow> alfred_config
    \<Rightarrow> dispatchJournal \<Rightarrow> dispatchEntry option \<Rightarrow> (string + ('p, 'q) first_look) io" where
  "firstLook J E d slice observed c cfg j existing =
     andThen (ask (\<lambda>n. en_observe E n slice cfg) ''ObservationUnavailable'') (\<lambda>fresh.
     andThen (require (freshCandidate d fresh c cfg) ''PolicyNoLongerEligible'') (\<lambda>current.
     andThen (check (c_TPUSlice current = slice) ''PolicyNoLongerEligible'') (\<lambda>_.
     andThen (check (slice \<or> dp_Simulator d) ''SimulationUnavailable'') (\<lambda>_.
     andThen (ok (admitS E fresh [current] cfg)) (\<lambda>ds.
     andThen (refuse (notAdmitted ds)) (\<lambda>_.
     andThen (ask (\<lambda>n. en_capture E n slice current) ''SnapshotUnavailable'') (\<lambda>captured.
     andThen (ok (now E)) (\<lambda>t.
     andThen (refuse (exceeded (dispatchBudget captured j current cfg t existing))) (\<lambda>_.
     andThen (require (hintsFor J current existing) ''JournalPayloadInvalid'') (\<lambda>hints.
     andThen (check (\<not> slice \<or> hints = []) ''SourceUnsupported'') (\<lambda>_.
     andThen (ok (now E)) (\<lambda>t.
     andThen (require (sourceOf E slice captured current cfg (requestIDFor existing) hints t) ''SourceUnsupported'') (\<lambda>source.
     andThen (check (sourceMatches E fresh captured current (snd source)) ''SourceChanged'') (\<lambda>_.
     andThen (check (case observed of None \<Rightarrow> True | Some s \<Rightarrow> sourceMatches E s captured current (snd source)) ''SourceChanged'') (\<lambda>_.
     andThen (require (ownersOf E slice fresh captured current) ''SourceChanged'') (\<lambda>owners.
     State_Monad.return (Inr \<lparr>fl_fresh = fresh, fl_current = current, fl_captured = captured, fl_hints = hints, fl_request = fst source,
       fl_pods = snd source, fl_owner = fst owners, fl_ir = snd owners\<rparr>)))))))))))))))))"

text \<open>The fingerprint of the source, equal to the one of the entry that is retried.\<close>

definition sourceFence :: "('p, 'q, 'r) environment \<Rightarrow> ('p, 'q) first_look \<Rightarrow> bool \<Rightarrow> dispatchEntry option \<Rightarrow> (string + string) io" where
  "sourceFence E l semantic existing =
     andThen (require (fn_fingerprint E (fl_owner l) (fl_ir l) (fl_pods l) (c_Instance (fl_current l)) semantic) ''SourceChanged'') (\<lambda>fingerprint.
     andThen (check (case existing of None \<Rightarrow> True
        | Some e \<Rightarrow> fingerprint = e_SourceFingerprint e \<and> sv_UID (fl_owner l) = e_WorkloadUID e \<and> ir_UID (fl_ir l) = e_IRUID e
            \<and> snd (ir_Name (fl_ir l)) = e_IRName e) ''SourceChanged'') (\<lambda>_.
     State_Monad.return (Inr fingerprint)))"

definition simulateS :: "('p, 'q, 'r) environment \<Rightarrow> bool \<Rightarrow> ('p, 'q) first_look \<Rightarrow> (string + 'r) io" where
  "simulateS E slice l =
     (if slice then State_Monad.return (Inr (fn_noResult E))
      else andThen (ask (\<lambda>n. en_simulate E n (fl_request l)) ''SimulationNotFeasible'') (\<lambda>result.
           andThen (check (fn_feasible E (fl_request l) result) ''SimulationNotFeasible'') (\<lambda>_.
           State_Monad.return (Inr result))))"

definition stillFresh :: "('p, 'q, 'r) environment \<Rightarrow> ('p, 'q) first_look \<Rightarrow> (string + unit) io" where
  "stillFresh E l =
     andThen (ok (now E)) (\<lambda>t.
     andThen (check (observationFresh (fl_fresh l) t) ''SimulationStale'') (\<lambda>_.
     andThen (ok (now E)) (\<lambda>t.
     check (fn_captureValid E (fl_captured l) t) ''SimulationStale'')))"

subsection \<open>The second look\<close>

record final_look =
  nl_final :: cluster_snapshot
  nl_candidate :: candidate
  nl_capture :: capture
  nl_owner :: service
  nl_ir :: replica

definition finalLook :: "('p, 'q, 'r) environment \<Rightarrow> Dispatcher \<Rightarrow> bool \<Rightarrow> alfred_config \<Rightarrow> dispatchEntry option \<Rightarrow> ('p, 'q) first_look
    \<Rightarrow> bool \<Rightarrow> string \<Rightarrow> (string + final_look) io" where
  "finalLook E d slice cfg existing l semantic fingerprint =
     andThen (ask (\<lambda>n. en_observe E n slice cfg) ''ObservationUnavailable'') (\<lambda>final.
     andThen (require (freshCandidate d final (fl_current l) cfg) ''PolicyNoLongerEligible'') (\<lambda>candidate.
     andThen (check (c_TPUSlice candidate = slice) ''PolicyNoLongerEligible'') (\<lambda>_.
     andThen (ask (\<lambda>n. en_capture E n slice (fl_current l)) ''SnapshotUnavailable'') (\<lambda>captured.
     andThen (ok (now E)) (\<lambda>t.
     andThen (require (sourceOf E slice captured (fl_current l) cfg (requestIDFor existing) (fl_hints l) t) ''SourceChanged'') (\<lambda>source.
     andThen (check (sourceMatches E final captured (fl_current l) (snd source)) ''SourceChanged'') (\<lambda>_.
     andThen (require (ownersOf E slice final captured (fl_current l)) ''SourceChanged'') (\<lambda>owners.
     andThen (check (sv_Generation (fst owners) = sv_Generation (fl_owner l) \<and> ir_Generation (snd owners) = ir_Generation (fl_ir l)) ''SourceChanged'') (\<lambda>_.
     andThen (check (fn_fingerprint E (fst owners) (snd owners) (snd source) (c_Instance (fl_current l)) semantic = Some fingerprint) ''SourceChanged'') (\<lambda>_.
     andThen (check (fn_SameSchedulingState E (fl_captured l) captured) ''SchedulingStateChanged'') (\<lambda>_.
     State_Monad.return (Inr \<lparr>nl_final = final, nl_candidate = candidate, nl_capture = captured, nl_owner = fst owners, nl_ir = snd owners\<rparr>))))))))))))"

definition defragPolicyName :: string where "defragPolicyName = ''defragmentation''"

text \<open>A defragmentation is scored again for the simulated placement.\<close>

definition rescore :: "('p, 'q, 'r) environment \<Rightarrow> alfred_config \<Rightarrow> ('p, 'q) first_look \<Rightarrow> 'r \<Rightarrow> final_look \<Rightarrow> (string + candidate) io" where
  "rescore E cfg l result f =
     (if c_Policy (nl_candidate f) \<noteq> defragPolicyName then State_Monad.return (Inr (nl_candidate f))
      else andThen (ask (\<lambda>n. en_score E n (nl_capture f) cfg) ''ObservationUnavailable'') (\<lambda>scoring.
           andThen (require (fn_SourcePlacementTargets E (fl_request l) result) ''SourceChanged'') (\<lambda>placements.
           require (fn_RevalidatePlacement E scoring cfg (nl_candidate f) placements) ''PolicyNoLongerEligible'')))"

subsection \<open>Authorisation\<close>

record dispatchEvidence =
  ev_candidate :: candidate
  ev_owner :: service
  ev_ir :: replica
  ev_fingerprint :: string
  ev_targets :: "name list"
  ev_historyWindow :: duration

definition safeTarget :: "final_look \<Rightarrow> candidate \<Rightarrow> name \<Rightarrow> bool" where
  "safeTarget f c node \<longleftrightarrow> node \<in> set (targetNodes c) \<and> \<not> UnavailableAsTarget (map_of (Nodes (nl_final f)) node)
     \<and> capturedNodeReady (nl_capture f) node"

fun checkTargets :: "('p, 'q, 'r) environment \<Rightarrow> final_look \<Rightarrow> candidate \<Rightarrow> alfred_config \<Rightarrow> dispatchJournal \<Rightarrow> dispatchEntry option \<Rightarrow> name list
    \<Rightarrow> (string + unit) io" where
  "checkTargets E f c cfg j existing [] = State_Monad.return (Inr ())"
| "checkTargets E f c cfg j existing (node # nodes) =
     andThen (check (safeTarget f c node) ''PredictedTargetUnsafe'') (\<lambda>_.
     andThen (ok (now E)) (\<lambda>t.
     andThen (check (\<not> journalNodeCooling j node (PerNodeCooldown cfg) t existing) ''TargetCooldown'') (\<lambda>_.
     checkTargets E f c cfg j existing nodes)))"

definition authorise :: "('p, 'q, 'r) environment \<Rightarrow> Dispatcher \<Rightarrow> alfred_config \<Rightarrow> dispatchJournal \<Rightarrow> dispatchEntry option \<Rightarrow> ('p, 'q) first_look
    \<Rightarrow> string \<Rightarrow> name list \<Rightarrow> final_look \<Rightarrow> candidate \<Rightarrow> (string + dispatchEvidence) io" where
  "authorise E d cfg j existing l fingerprint placements f c =
     andThen (ok (now E)) (\<lambda>t.
     andThen (refuse (exceeded (dispatchBudget (nl_capture f) j c cfg t existing))) (\<lambda>_.
     andThen (ok (admitS E (nl_final f) [c] cfg)) (\<lambda>ds.
     andThen (check (notAdmitted ds = None) ''SafetyStateChanged'') (\<lambda>_.
     andThen (checkTargets E f c cfg j existing placements) (\<lambda>_.
     andThen (ok (enabledS E d cfg)) (\<lambda>gate.
     andThen (refuse gate) (\<lambda>_.
     andThen (require (dispatchHistoryWindow (nl_capture f) cfg) ''InvalidCooldown'') (\<lambda>window.
     State_Monad.return (Inr \<lparr>ev_candidate = c\<lparr>c_HintTargetNodes := fl_hints l\<rparr>, ev_owner = nl_owner f, ev_ir = nl_ir f,
       ev_fingerprint = fingerprint, ev_targets = sort (remdups placements), ev_historyWindow = window\<rparr>)))))))))"

text \<open>A move onto a new TPU slice is not simulated; a retried entry was one if it recorded no target.\<close>

definition sliceMove :: "candidate \<Rightarrow> dispatchEntry option \<Rightarrow> bool" where
  "sliceMove c existing \<longleftrightarrow> c_TPUSlice c \<or> (case existing of None \<Rightarrow> False | Some e \<Rightarrow> e_Targets e = [])"

definition preflight :: "journal_api \<Rightarrow> ('p, 'q, 'r) environment \<Rightarrow> Dispatcher \<Rightarrow> cluster_snapshot option \<Rightarrow> candidate \<Rightarrow> alfred_config
    \<Rightarrow> dispatchJournal \<Rightarrow> dispatchEntry option \<Rightarrow> (string + dispatchEvidence) io" where
  "preflight J E d observed c cfg j existing =
     (let slice = sliceMove c existing in
      andThen (firstLook J E d slice observed c cfg j existing) (\<lambda>l.
      andThen (require (fingerprintVersion existing) ''SourceChanged'') (\<lambda>semantic.
      andThen (sourceFence E l semantic existing) (\<lambda>fingerprint.
      andThen (simulateS E slice l) (\<lambda>result.
      andThen (stillFresh E l) (\<lambda>_.
      andThen (finalLook E d slice cfg existing l semantic fingerprint) (\<lambda>f.
      andThen (rescore E cfg l result f) (\<lambda>c'.
      authorise E d cfg j existing l fingerprint (if slice then [] else fn_Placements E result) f c'))))))))"

subsection \<open>The preflight only reads, and explains itself\<close>

lemma quiet_enabledS [quiets]: "quiet (enabledS E d cfg)"
  by (auto simp: enabledS_def intro: quiets)

lemma quiet_checkTargets [quiets]: "quiet (checkTargets E f c cfg j existing nodes)"
  by (induction nodes) (auto intro!: quiets)

lemma quiet_preflight [quiets]: "quiet (preflight J E d observed c cfg j existing)"
  unfolding preflight_def Let_def firstLook_def sourceFence_def simulateS_def stillFresh_def finalLook_def rescore_def authorise_def
  by (auto intro!: quiets split: if_splits)

lemma executionEnabled_reason: "executionEnabled d cfg g \<noteq> Some []"
  by (simp add: executionEnabled_def)

lemma exceeded_reason [simp]: "exceeded r \<noteq> Some []"
  by (simp add: exceeded_def)

lemma decideAll_reason: "d \<in> set (fst (decideAll st cs)) \<Longrightarrow> \<not> d_Admitted d \<Longrightarrow> d_Reason d \<noteq> []"
proof (induction cs arbitrary: st)
  case (Cons c cs)
  obtain d' st1 where d': "decide st c = (d', st1)" by fastforce
  have "\<not> d_Admitted d' \<Longrightarrow> d_Reason d' \<noteq> []"
    using d' by (cases rule: verdict_cases) (simp_all add: rejected_def admission_def)
  then show ?case using Cons d' by (auto split: prod.splits) (metis fst_conv)
qed simp

lemma notAdmitted_reason [simp]: "notAdmitted (fst (run_state (admitS E snap cs cfg) w)) \<noteq> Some []"
  using decideAll_reason by (auto simp: notAdmitted_def admitS_def now_def tick_def Admit_def Let_def split: list.splits) (metis list.set_intros(1))

lemma enabledS_reason [simp]: "fst (run_state (enabledS E d cfg) w) \<noteq> Some []"
  by (simp add: enabledS_def tick_def executionEnabled_reason)

lemma reasoned_checkTargets: "reasoned (checkTargets E f c cfg j existing nodes)"
  by (induction nodes) (auto intro!: reasons)

lemma reasoned_stages [reasons]:
  "reasoned (firstLook J E d slice observed c cfg j existing)" "reasoned (sourceFence E l semantic existing)"
  "reasoned (simulateS E slice l)" "reasoned (stillFresh E l)" "reasoned (finalLook E d slice cfg existing l semantic fingerprint)"
  "reasoned (rescore E cfg l result f)" "reasoned (authorise E d cfg j existing l fingerprint placements f c)"
proof -
  show "reasoned (firstLook J E d slice observed c cfg j existing)" unfolding firstLook_def by (auto intro!: reasons)
  show "reasoned (sourceFence E l semantic existing)" unfolding sourceFence_def by (auto intro!: reasons)
  show "reasoned (simulateS E slice l)" unfolding simulateS_def by (auto intro!: reasons)
  show "reasoned (stillFresh E l)" unfolding stillFresh_def by (auto intro!: reasons)
  show "reasoned (finalLook E d slice cfg existing l semantic fingerprint)" unfolding finalLook_def by (auto intro!: reasons)
  show "reasoned (rescore E cfg l result f)" unfolding rescore_def by (auto intro!: reasons)
  show "reasoned (authorise E d cfg j existing l fingerprint placements f c)"
    unfolding authorise_def by (auto intro!: reasons reasoned_andThen [OF reasoned_checkTargets])
qed

lemma reasoned_preflight: "reasoned (preflight J E d observed c cfg j existing)"
  unfolding preflight_def Let_def by (intro reasoned_andThen reasons) simp

subsection \<open>What an accepted candidate has passed\<close>

definition during :: "nat \<Rightarrow> nat \<Rightarrow> (nat \<Rightarrow> bool) \<Rightarrow> bool" where
  "during n0 n1 P \<longleftrightarrow> (\<exists>n. n0 \<le> n \<and> n < n1 \<and> P n)"

text \<open>
  The evidence for an accepted candidate, in the order it was gathered. Reads and clock readings are numbered;
  \<open>n0\<close>, \<open>n1\<close> and so on separate the stages, so that a read of a later stage is a new read.

  First: a policy proposes the move in a snapshot read now, the arbiter of the pass admits it, and the budget is
  free in a capture read after that; the captured source is the one of the snapshot and of the pass.
\<close>

definition proposes :: "Dispatcher \<Rightarrow> alfred_config \<Rightarrow> cluster_snapshot \<Rightarrow> candidate \<Rightarrow> candidate \<Rightarrow> bool" where
  "proposes d cfg snap c c' \<longleftrightarrow> (\<exists>policy \<in> set (dp_Policies d). c' \<in> set (policy snap cfg)) \<and> c_Executable c' \<and> c_Mode c' = ''OMENative''
     \<and> sameDispatchSource c' c \<and> sameDispatchCause c' c"

definition admits :: "arbiter \<Rightarrow> cluster_snapshot \<Rightarrow> candidate \<Rightarrow> alfred_config \<Rightarrow> time \<Rightarrow> arbiter \<Rightarrow> bool" where
  "admits a snap c cfg t a' \<longleftrightarrow> (\<exists>dec. Admit a snap [c] cfg t = ([dec], a') \<and> d_Admitted dec)"

definition seenFirst :: "('p, 'q, 'r) environment \<Rightarrow> Dispatcher \<Rightarrow> bool \<Rightarrow> cluster_snapshot option \<Rightarrow> candidate \<Rightarrow> alfred_config \<Rightarrow> dispatchJournal
    \<Rightarrow> dispatchEntry option \<Rightarrow> arbiter \<Rightarrow> nat \<Rightarrow> ('p, 'q) first_look \<Rightarrow> arbiter \<Rightarrow> nat \<Rightarrow> bool" where
  "seenFirst E d slice observed c cfg j existing a n0 l a1 n1 \<longleftrightarrow>
     (\<exists>o1 a2 c3 b4. n0 \<le> o1 \<and> o1 < a2 \<and> a2 < c3 \<and> c3 < b4 \<and> b4 < n1
        \<and> en_observe E o1 slice cfg = Some (fl_fresh l) \<and> proposes d cfg (fl_fresh l) c (fl_current l)
        \<and> admits a (fl_fresh l) (fl_current l) cfg (en_now E a2) a1
        \<and> en_capture E c3 slice (fl_current l) = Some (fl_captured l)
        \<and> dispatchBudget (fl_captured l) j (fl_current l) cfg (en_now E b4) existing = [])
     \<and> sourceMatches E (fl_fresh l) (fl_captured l) (fl_current l) (fl_pods l)
     \<and> (\<forall>s. observed = Some s \<longrightarrow> sourceMatches E s (fl_captured l) (fl_current l) (fl_pods l))"

text \<open>Then the simulation, unless a slice is moved, at the end of which the first look is still fresh.\<close>

definition simulated :: "('p, 'q, 'r) environment \<Rightarrow> bool \<Rightarrow> ('p, 'q) first_look \<Rightarrow> nat \<Rightarrow> 'r \<Rightarrow> nat \<Rightarrow> bool" where
  "simulated E slice l n1 result n2 \<longleftrightarrow> (\<exists>m. n1 \<le> m
     \<and> (\<not> slice \<longrightarrow> during n1 m (\<lambda>n. en_simulate E n (fl_request l) = Some result) \<and> fn_feasible E (fl_request l) result)
     \<and> during m n2 (\<lambda>n. observationFresh (fl_fresh l) (en_now E n)) \<and> during m n2 (\<lambda>n. fn_captureValid E (fl_captured l) (en_now E n)))"

text \<open>Then a second snapshot and a second capture, in which the move is still proposed and the source is unchanged.\<close>

definition seenAgain :: "('p, 'q, 'r) environment \<Rightarrow> Dispatcher \<Rightarrow> bool \<Rightarrow> alfred_config \<Rightarrow> ('p, 'q) first_look \<Rightarrow> nat \<Rightarrow> final_look \<Rightarrow> nat \<Rightarrow> bool" where
  "seenAgain E d slice cfg l n2 f n3 \<longleftrightarrow> (\<exists>o5 c6. n2 \<le> o5 \<and> o5 < c6 \<and> c6 < n3
     \<and> en_observe E o5 slice cfg = Some (nl_final f) \<and> proposes d cfg (nl_final f) (fl_current l) (nl_candidate f)
     \<and> en_capture E c6 slice (fl_current l) = Some (nl_capture f))"

definition unchanged :: "('p, 'q, 'r) environment \<Rightarrow> dispatchEntry option \<Rightarrow> ('p, 'q) first_look \<Rightarrow> final_look \<Rightarrow> string \<Rightarrow> bool" where
  "unchanged E existing l f fingerprint \<longleftrightarrow>
     (\<exists>semantic pods. sourceMatches E (nl_final f) (nl_capture f) (fl_current l) pods
        \<and> fn_fingerprint E (fl_owner l) (fl_ir l) (fl_pods l) (c_Instance (fl_current l)) semantic = Some fingerprint
        \<and> fn_fingerprint E (nl_owner f) (nl_ir f) pods (c_Instance (fl_current l)) semantic = Some fingerprint)
     \<and> sv_Generation (nl_owner f) = sv_Generation (fl_owner l) \<and> ir_Generation (nl_ir f) = ir_Generation (fl_ir l)
     \<and> fn_SameSchedulingState E (fl_captured l) (nl_capture f)
     \<and> (\<forall>e. existing = Some e \<longrightarrow> fingerprint = e_SourceFingerprint e \<and> sv_UID (fl_owner l) = e_WorkloadUID e \<and> ir_UID (fl_ir l) = e_IRUID e)"

text \<open>A defragmentation is scored again on the second capture; any other candidate is the one proposed.\<close>

definition rescored :: "('p, 'q, 'r) environment \<Rightarrow> alfred_config \<Rightarrow> ('p, 'q) first_look \<Rightarrow> 'r \<Rightarrow> final_look \<Rightarrow> nat \<Rightarrow> candidate \<Rightarrow> nat \<Rightarrow> bool" where
  "rescored E cfg l result f n3 c' n4 \<longleftrightarrow>
     (if c_Policy (nl_candidate f) \<noteq> defragPolicyName then c' = nl_candidate f
      else \<exists>scoring placements. during n3 n4 (\<lambda>n. en_score E n (nl_capture f) cfg = Some scoring)
        \<and> fn_SourcePlacementTargets E (fl_request l) result = Some placements
        \<and> fn_RevalidatePlacement E scoring cfg (nl_candidate f) placements = Some c')"

text \<open>
  At last the budget of the second capture, the arbiter as the first admission left it, on the second
  snapshot, the targets, and the gates.
\<close>

definition accepted :: "('p, 'q, 'r) environment \<Rightarrow> Dispatcher \<Rightarrow> alfred_config \<Rightarrow> dispatchJournal \<Rightarrow> dispatchEntry option \<Rightarrow> final_look \<Rightarrow> candidate
    \<Rightarrow> name list \<Rightarrow> arbiter \<Rightarrow> nat \<Rightarrow> arbiter \<Rightarrow> nat \<Rightarrow> bool" where
  "accepted E d cfg j existing f c' nodes a1 n4 a2 n5 \<longleftrightarrow> (\<exists>b7 a8 g9. n4 \<le> b7 \<and> b7 < a8 \<and> a8 < g9 \<and> g9 < n5
     \<and> dispatchBudget (nl_capture f) j c' cfg (en_now E b7) existing = []
     \<and> admits a1 (nl_final f) c' cfg (en_now E a8) a2
     \<and> (\<forall>node \<in> set nodes. safeTarget f c' node
          \<and> during (Suc a8) g9 (\<lambda>n. \<not> journalNodeCooling j node (PerNodeCooldown cfg) (en_now E n) existing))
     \<and> executionEnabled d cfg (en_gate E g9) = None)"

definition authorised :: "('p, 'q, 'r) environment \<Rightarrow> Dispatcher \<Rightarrow> cluster_snapshot option \<Rightarrow> candidate \<Rightarrow> alfred_config \<Rightarrow> dispatchJournal
    \<Rightarrow> dispatchEntry option \<Rightarrow> world \<Rightarrow> dispatchEvidence \<Rightarrow> world \<Rightarrow> bool" where
  "authorised E d observed c cfg j existing w ev w' \<longleftrightarrow> (let slice = sliceMove c existing in
     \<exists>l result f c' a1 n1 n2 n3 n4.
       seenFirst E d slice observed c cfg j existing (w_arbiter w) (w_tick w) l a1 n1
       \<and> simulated E slice l n1 result n2
       \<and> seenAgain E d slice cfg l n2 f n3 \<and> unchanged E existing l f (ev_fingerprint ev)
       \<and> n3 \<le> n4 \<and> rescored E cfg l result f n3 c' n4
       \<and> accepted E d cfg j existing f c' (ev_targets ev) a1 n4 (w_arbiter w') (w_tick w')
       \<and> ev_targets ev = sort (remdups (if slice then [] else fn_Placements E result))
       \<and> ev_candidate ev = c'\<lparr>c_HintTargetNodes := fl_hints l\<rparr> \<and> ev_owner ev = nl_owner f \<and> ev_ir ev = nl_ir f
       \<and> dispatchHistoryWindow (nl_capture f) cfg = Some (ev_historyWindow ev))"

lemma during_mono: "during n0 n1 P \<Longrightarrow> m0 \<le> n0 \<Longrightarrow> n1 \<le> m1 \<Longrightarrow> during m0 m1 P"
  unfolding during_def by (meson le_trans less_le_trans)

lemma duringI: "P n \<Longrightarrow> n0 \<le> n \<Longrightarrow> n < n1 \<Longrightarrow> during n0 n1 P"
  by (auto simp: during_def)

lemma freshCandidate_proposes: "freshCandidate d s c cfg = Some c' \<Longrightarrow> proposes d cfg s c c'"
  unfolding freshCandidate_def proposes_def by (auto simp: find_Some_iff dest!: nth_mem [of _ "concat _"] simp del: nth_mem)

lemma notAdmitted_None: "notAdmitted ds = None \<longleftrightarrow> (\<exists>d. ds = [d] \<and> d_Admitted d)"
  by (auto simp: notAdmitted_def split: list.splits if_splits)

lemma firstLook_seen:
  assumes "run_state (firstLook J E d slice observed c cfg j existing) w = (Inr l, w')"
  shows "seenFirst E d slice observed c cfg j existing (w_arbiter w) (w_tick w) l (w_arbiter w') (w_tick w')"
proof -
  from assms obtain a dec where
    "en_observe E (w_tick w) slice cfg = Some (fl_fresh l)" "freshCandidate d (fl_fresh l) c cfg = Some (fl_current l)"
    "Admit (w_arbiter w) (fl_fresh l) [fl_current l] cfg (en_now E (w_tick w + 1)) = ([dec], a)" "d_Admitted dec"
    "en_capture E (w_tick w + 2) slice (fl_current l) = Some (fl_captured l)"
    "dispatchBudget (fl_captured l) j (fl_current l) cfg (en_now E (w_tick w + 3)) existing = []"
    "sourceMatches E (fl_fresh l) (fl_captured l) (fl_current l) (fl_pods l)"
    "\<forall>s. observed = Some s \<longrightarrow> sourceMatches E s (fl_captured l) (fl_current l) (fl_pods l)"
    "w_arbiter w' = a" "w_tick w' = w_tick w + 5"
    unfolding firstLook_def
    by (auto simp: runs notAdmitted_None exceeded_def numeral_2_eq_2 numeral_3_eq_3 eval_nat_numeral split: if_splits option.splits)
  then show ?thesis unfolding seenFirst_def admits_def
    by (intro conjI exI [of _ "w_tick w"] exI [of _ "w_tick w + 1"] exI [of _ "w_tick w + 2"] exI [of _ "w_tick w + 3"])
      (auto intro: freshCandidate_proposes)
qed

lemma sourceFence_source:
  assumes "run_state (sourceFence E l semantic existing) w = (Inr fingerprint, w')"
  shows "w' = w" "fn_fingerprint E (fl_owner l) (fl_ir l) (fl_pods l) (c_Instance (fl_current l)) semantic = Some fingerprint"
    "existing = Some e \<Longrightarrow> fingerprint = e_SourceFingerprint e \<and> sv_UID (fl_owner l) = e_WorkloadUID e \<and> ir_UID (fl_ir l) = e_IRUID e"
  using assms unfolding sourceFence_def by (auto simp: runs)

lemma simulate_fresh:
  assumes "run_state (simulateS E slice l) w = (Inr result, w1)" "run_state (stillFresh E l) w1 = (Inr x, w')"
  shows "simulated E slice l (w_tick w) result (w_tick w')" "w_arbiter w' = w_arbiter w"
proof -
  have "w_tick w \<le> w_tick w1 \<and> w_arbiter w1 = w_arbiter w
      \<and> (\<not> slice \<longrightarrow> during (w_tick w) (w_tick w1) (\<lambda>n. en_simulate E n (fl_request l) = Some result) \<and> fn_feasible E (fl_request l) result)"
    using assms(1) unfolding simulateS_def by (auto simp: runs intro: duringI split: if_splits)
  moreover have "during (w_tick w1) (w_tick w') (\<lambda>n. observationFresh (fl_fresh l) (en_now E n))"
    "during (w_tick w1) (w_tick w') (\<lambda>n. fn_captureValid E (fl_captured l) (en_now E n))" "w_arbiter w' = w_arbiter w1"
    using assms(2) unfolding stillFresh_def by (auto simp: runs during_def intro: exI [of _ "Suc (w_tick w1)"])
  ultimately show "simulated E slice l (w_tick w) result (w_tick w')" "w_arbiter w' = w_arbiter w"
    unfolding simulated_def by auto
qed

lemma finalLook_seen:
  assumes "run_state (finalLook E d slice cfg existing l semantic fingerprint) w = (Inr f, w')"
  shows "seenAgain E d slice cfg l (w_tick w) f (w_tick w')" "w_arbiter w' = w_arbiter w"
    "\<exists>pods. sourceMatches E (nl_final f) (nl_capture f) (fl_current l) pods
        \<and> fn_fingerprint E (nl_owner f) (nl_ir f) pods (c_Instance (fl_current l)) semantic = Some fingerprint"
    "sv_Generation (nl_owner f) = sv_Generation (fl_owner l)" "ir_Generation (nl_ir f) = ir_Generation (fl_ir l)"
    "fn_SameSchedulingState E (fl_captured l) (nl_capture f)"
proof -
  from assms have "en_observe E (w_tick w) slice cfg = Some (nl_final f)" "freshCandidate d (nl_final f) (fl_current l) cfg = Some (nl_candidate f)"
    "en_capture E (w_tick w + 1) slice (fl_current l) = Some (nl_capture f)" "w_tick w' = w_tick w + 3"
    unfolding finalLook_def by (auto simp: runs)
  then show "seenAgain E d slice cfg l (w_tick w) f (w_tick w')" unfolding seenAgain_def
    by (intro exI [of _ "w_tick w"] exI [of _ "w_tick w + 1"]) (auto intro: freshCandidate_proposes)
  show "w_arbiter w' = w_arbiter w"
    "\<exists>pods. sourceMatches E (nl_final f) (nl_capture f) (fl_current l) pods
        \<and> fn_fingerprint E (nl_owner f) (nl_ir f) pods (c_Instance (fl_current l)) semantic = Some fingerprint"
    "sv_Generation (nl_owner f) = sv_Generation (fl_owner l)" "ir_Generation (nl_ir f) = ir_Generation (fl_ir l)"
    "fn_SameSchedulingState E (fl_captured l) (nl_capture f)"
    using assms unfolding finalLook_def by (auto simp: runs)
qed

lemma rescore_scored:
  assumes "run_state (rescore E cfg l result f) w = (Inr c', w')"
  shows "rescored E cfg l result f (w_tick w) c' (w_tick w')" "w_arbiter w' = w_arbiter w" "w_tick w \<le> w_tick w'"
proof -
  show "w_arbiter w' = w_arbiter w" "w_tick w \<le> w_tick w'" using assms unfolding rescore_def by (auto simp: runs split: if_splits)
  show "rescored E cfg l result f (w_tick w) c' (w_tick w')"
  proof (cases "c_Policy (nl_candidate f) = defragPolicyName")
    case True
    then obtain scoring placements where "en_score E (w_tick w) (nl_capture f) cfg = Some scoring" "w_tick w' = Suc (w_tick w)"
      "fn_SourcePlacementTargets E (fl_request l) result = Some placements" "fn_RevalidatePlacement E scoring cfg (nl_candidate f) placements = Some c'"
      using assms unfolding rescore_def by (auto simp: runs)
    then show ?thesis using True unfolding rescored_def
      by (simp add: exI [of _ scoring] duringI [of _ "w_tick w"])
  qed (use assms in \<open>simp add: rescore_def rescored_def\<close>)
qed

lemma checkTargets_safe:
  assumes "run_state (checkTargets E f c cfg j existing nodes) w = (Inr x, w')" "node \<in> set nodes"
  shows "safeTarget f c node \<and> during (w_tick w) (w_tick w') (\<lambda>n. \<not> journalNodeCooling j node (PerNodeCooldown cfg) (en_now E n) existing)"
  using assms
proof (induction nodes arbitrary: w)
  case (Cons a nodes)
  let ?w1 = "w\<lparr>w_tick := w_tick w + 1\<rparr>"
  have run: "safeTarget f c a" "\<not> journalNodeCooling j a (PerNodeCooldown cfg) (en_now E (w_tick w)) existing"
    "run_state (checkTargets E f c cfg j existing nodes) ?w1 = (Inr x, w')" using Cons.prems(1) by (auto simp: runs)
  have later: "w_tick ?w1 \<le> w_tick w'" using quietD [OF quiet_checkTargets run(3)] by (simp only: quietly_def)
  show ?case
  proof (cases "node = a")
    case True
    then show ?thesis using run(1,2) later by (auto intro!: duringI [of _ "w_tick w"])
  next
    case False
    then have "safeTarget f c node \<and> during (w_tick ?w1) (w_tick w') (\<lambda>n. \<not> journalNodeCooling j node (PerNodeCooldown cfg) (en_now E n) existing)"
      using Cons.IH [OF run(3)] Cons.prems(2) by simp
    then show ?thesis by (auto intro: during_mono)
  qed
qed simp

lemma checkTargets_arbiter: "run_state (checkTargets E f c cfg j existing nodes) w = (Inr x, w') \<Longrightarrow> w_arbiter w' = w_arbiter w"
  by (induction nodes arbitrary: w) (auto simp: runs)

lemma authorise_accepts:
  assumes "run_state (authorise E d cfg j existing l fingerprint placements f c) w = (Inr ev, w')"
  shows "accepted E d cfg j existing f c placements (w_arbiter w) (w_tick w) (w_arbiter w') (w_tick w')"
    "dispatchHistoryWindow (nl_capture f) cfg = Some (ev_historyWindow ev)"
    "ev = \<lparr>ev_candidate = c\<lparr>c_HintTargetNodes := fl_hints l\<rparr>, ev_owner = nl_owner f, ev_ir = nl_ir f,
       ev_fingerprint = fingerprint, ev_targets = sort (remdups placements), ev_historyWindow = ev_historyWindow ev\<rparr>"
proof -
  from assms obtain a dec x w3 window where
    budget: "dispatchBudget (nl_capture f) j c cfg (en_now E (w_tick w)) existing = []"
    and admit: "Admit (w_arbiter w) (nl_final f) [c] cfg (en_now E (w_tick w + 1)) = ([dec], a)" "d_Admitted dec"
    and targets: "run_state (checkTargets E f c cfg j existing placements) (w\<lparr>w_tick := w_tick w + 2, w_arbiter := a\<rparr>) = (Inr x, w3)"
    and gate: "executionEnabled d cfg (en_gate E (w_tick w3)) = None" and w': "w_tick w' = w_tick w3 + 1" "w_arbiter w' = w_arbiter w3"
    and window: "dispatchHistoryWindow (nl_capture f) cfg = Some window"
    and ev: "ev = \<lparr>ev_candidate = c\<lparr>c_HintTargetNodes := fl_hints l\<rparr>, ev_owner = nl_owner f, ev_ir = nl_ir f,
       ev_fingerprint = fingerprint, ev_targets = sort (remdups placements), ev_historyWindow = window\<rparr>"
    unfolding authorise_def
    by (auto simp: runs notAdmitted_None exceeded_def enabledS_def tick_def numeral_2_eq_2 split: if_splits)
  have later: "w_tick w + 2 \<le> w_tick w3" using quietD [OF quiet_checkTargets targets] by (simp add: quietly_def)
  have arbiter: "w_arbiter w' = a" using checkTargets_arbiter [OF targets] w'(2) by simp
  have safe: "\<forall>node \<in> set placements. safeTarget f c node
      \<and> during (Suc (w_tick w + 1)) (w_tick w3) (\<lambda>n. \<not> journalNodeCooling j node (PerNodeCooldown cfg) (en_now E n) existing)"
    using checkTargets_safe [OF targets] by simp
  show "accepted E d cfg j existing f c placements (w_arbiter w) (w_tick w) (w_arbiter w') (w_tick w')"
    unfolding accepted_def admits_def
    by (rule exI [of _ "w_tick w"], rule exI [of _ "w_tick w + 1"], rule exI [of _ "w_tick w3"])
      (use budget admit safe gate later w'(1) arbiter in auto)
  show "dispatchHistoryWindow (nl_capture f) cfg = Some (ev_historyWindow ev)"
    "ev = \<lparr>ev_candidate = c\<lparr>c_HintTargetNodes := fl_hints l\<rparr>, ev_owner = nl_owner f, ev_ir = nl_ir f,
       ev_fingerprint = fingerprint, ev_targets = sort (remdups placements), ev_historyWindow = ev_historyWindow ev\<rparr>"
    using window ev by simp_all
qed

lemma accepted_targets: "accepted E d cfg j existing f c (sort (remdups nodes)) = accepted E d cfg j existing f c nodes"
  by (intro ext) (simp add: accepted_def)

lemma preflight_authorised:
  assumes "run_state (preflight J E d observed c cfg j existing) w = (Inr ev, w')"
  shows "authorised E d observed c cfg j existing w ev w'"
proof -
  let ?slice = "sliceMove c existing"
  from assms obtain l w1 semantic fingerprint w2 result w3 x w4 f w5 c' w6 where
    first: "run_state (firstLook J E d ?slice observed c cfg j existing) w = (Inr l, w1)"
    and fence: "run_state (sourceFence E l semantic existing) w1 = (Inr fingerprint, w2)"
    and sim: "run_state (simulateS E ?slice l) w2 = (Inr result, w3)"
    and fresh: "run_state (stillFresh E l) w3 = (Inr x, w4)"
    and final: "run_state (finalLook E d ?slice cfg existing l semantic fingerprint) w4 = (Inr f, w5)"
    and score: "run_state (rescore E cfg l result f) w5 = (Inr c', w6)"
    and auth: "run_state (authorise E d cfg j existing l fingerprint (if ?slice then [] else fn_Placements E result) f c') w6 = (Inr ev, w')"
    unfolding preflight_def Let_def by (auto simp only: run_andThen run_require)
  note source = sourceFence_source [OF fence] and again = finalLook_seen [OF final] and acc = authorise_accepts [OF auth]
  have arbiter: "w_arbiter w6 = w_arbiter w1"
    using rescore_scored(2) [OF score] again(2) simulate_fresh(2) [OF sim fresh] source(1) by simp
  have ev: "ev_fingerprint ev = fingerprint" "ev_targets ev = sort (remdups (if ?slice then [] else fn_Placements E result))"
    "ev_candidate ev = c'\<lparr>c_HintTargetNodes := fl_hints l\<rparr>" "ev_owner ev = nl_owner f" "ev_ir ev = nl_ir f"
    by (subst acc(3), simp)+
  have "unchanged E existing l f (ev_fingerprint ev)"
    unfolding unchanged_def ev(1) using source(2,3) again(3-6) by blast
  moreover have "accepted E d cfg j existing f c' (ev_targets ev) (w_arbiter w1) (w_tick w6) (w_arbiter w') (w_tick w')"
    using acc(1) unfolding arbiter ev(2) accepted_targets .
  ultimately show ?thesis
    unfolding authorised_def Let_def
    using firstLook_seen [OF first] simulate_fresh(1) [OF sim fresh] source(1) again(1) rescore_scored(1,3) [OF score] ev(2-5) acc(2) by blast
qed


end
