(* ===== verification/Alfred_Dispatcher.thy ===== *)
theory Alfred_Dispatcher
  imports Alfred_Preflight
begin

section \<open>The dispatcher\<close>

text \<open>
  \<^verbatim>\<open>pkg/alfred/engine/dispatcher.go\<close>, with \<^verbatim>\<open>submitDispatch\<close> of \<^verbatim>\<open>dispatch_request.go\<close> and \<^verbatim>\<open>attemptDispatch\<close> of
  \<^verbatim>\<open>dispatch_reconcile.go\<close>. A pass reconciles the journal, then retries the one prepared request or prepares
  and sends one new one. The result is \<open>None\<close> for an index out of range, which would panic.
\<close>

subsection \<open>Reports\<close>

definition withholdDecisions :: "decision list \<Rightarrow> string \<Rightarrow> decision list" where
  "withholdDecisions ds reason = map (\<lambda>d. if d_Admitted d \<and> (d_DispatchStatus d = [] \<or> d_DispatchStatus d = ''withheld'')
     then d\<lparr>d_DispatchStatus := ''withheld'', d_DispatchReason := reason\<rparr> else d) ds"

definition entryCandidate :: "journal_api \<Rightarrow> dispatchEntry \<Rightarrow> candidate" where
  "entryCandidate J e =
     (let c = \<lparr>c_Policy = ''migration-dispatch'', c_Workload = e_Workload e, c_Component = e_Component e, c_Instance = e_Instance e,
               c_Mode = ''OMENative'', c_Reason = [], c_FromNode = e_FromNode e, c_HintTargetNodes = [], c_PlacementTargetNodes = [],
               c_Executable = True, c_SurgeShaped = True, c_TPUSlice = False, c_FootprintGPUs = 0, c_Score = 0\<rparr>
      in case requestForEntry J e of
           Inl _ \<Rightarrow> c
         | Inr r \<Rightarrow> c\<lparr>c_Reason := r_Reason r, c_HintTargetNodes := r_HintTargetNodes r,
             c_Policy := (if r_Reason r = ReasonNodeUnhealthy \<or> r_Reason r = ReasonNodeMaintenance then ''nodehealth''
                          else if r_Reason r = ReasonFragmentation then ''defragmentation'' else c_Policy c)\<rparr>)"

definition sameDispatch :: "candidate \<Rightarrow> candidate \<Rightarrow> bool" where
  "sameDispatch a b \<longleftrightarrow> sameDispatchSource a b \<and> sameDispatchCause a b"

definition dispatchDecision :: "candidate \<Rightarrow> dispatchEntry \<Rightarrow> decision" where
  "dispatchDecision c e = \<lparr>d_Candidate = c, d_Admitted = True,
     d_DispatchStatus = (if e_Phase e = dispatchPrepared then ''withheld'' else e_Phase e), d_RequestUUID = e_UUID e,
     d_DispatchReason = e_Reason e, d_Reason = [], d_Target = [], d_CooldownOverridden = False\<rparr>"

type_synonym report = "candidate list \<times> decision list"

text \<open>The first decision on the same move is replaced; otherwise one is added, on the reported candidate if there is one.\<close>

fun replaceDecision :: "candidate \<Rightarrow> dispatchEntry \<Rightarrow> decision list \<Rightarrow> decision list option" where
  "replaceDecision c e [] = None"
| "replaceDecision c e (d # ds) =
     (if sameDispatch (d_Candidate d) c then Some (dispatchDecision (d_Candidate d) e # ds) else map_option (Cons d) (replaceDecision c e ds))"

definition reportDispatchEntry :: "journal_api \<Rightarrow> report \<Rightarrow> dispatchEntry \<Rightarrow> report" where
  "reportDispatchEntry J out e =
     (let c = entryCandidate J e; (cs, ds) = out
      in case replaceDecision c e ds of
           Some ds' \<Rightarrow> (cs, ds')
         | None \<Rightarrow> (case find (\<lambda>existing. sameDispatch existing c) cs of
               Some existing \<Rightarrow> (cs, ds @ [dispatchDecision existing e])
             | None \<Rightarrow> (cs @ [c], ds @ [dispatchDecision c e])))"

definition recordAcceptedCandidate :: "candidate \<Rightarrow> report \<Rightarrow> report" where
  "recordAcceptedCandidate c out =
     (map (\<lambda>x. if sameDispatch x c then c else x) (fst out),
      map (\<lambda>d. if sameDispatch (d_Candidate d) c then d\<lparr>d_Candidate := c\<rparr> else d) (snd out))"

subsection \<open>Sending one request\<close>

definition submitDispatch :: "journal_api \<Rightarrow> ('p, 'q, 'r) environment \<Rightarrow> service \<Rightarrow> dispatchEntry \<Rightarrow> bool io" where
  "submitDispatch J E owner e =
     (if sv_UID owner = [] \<or> sv_UID owner \<noteq> e_WorkloadUID e \<or> sv_ResourceVersion owner = 0 \<or> sv_Name owner \<noteq> e_Workload e
      then State_Monad.return False
      else case requestForEntry J e of
        Inl _ \<Rightarrow> State_Monad.return False
      | Inr _ \<Rightarrow> (case map_of (sv_Annotations owner) (migrationRequestPrefix @ e_UUID e) of
          Some existing \<Rightarrow> State_Monad.return (existing = e_Payload e)
        | None \<Rightarrow> patchOwner E owner e))"

text \<open>The answer is stored in the journal as it is then, if the entry is still at its place.\<close>

definition recordAnswer :: "journal_api \<Rightarrow> ('p, 'q, 'r) environment \<Rightarrow> nat \<Rightarrow> dispatchEntry \<Rightarrow> dispatchEntry io" where
  "recordAnswer J E i e = do {
     r \<leftarrow> loadS J E;
     case r of
       Inl _ \<Rightarrow> State_Monad.return e
     | Inr (fresh, state) \<Rightarrow>
         if i < length (entries state) \<and> e_UUID (entries state ! i) = e_UUID e
         then do {
           saved \<leftarrow> saveS J E fresh (putEntry i e state);
           State_Monad.return (if saved then e else e\<lparr>e_Reason := ''SubmissionJournalUncertain''\<rparr>) }
         else State_Monad.return e }"

definition submitPrepared :: "journal_api \<Rightarrow> ('p, 'q, 'r) environment \<Rightarrow> Dispatcher \<Rightarrow> alfred_config \<Rightarrow> nat \<Rightarrow> service \<Rightarrow> dispatchEntry \<Rightarrow> dispatchEntry io" where
  "submitPrepared J E d cfg i owner e = do {
     gate \<leftarrow> enabledS E d cfg;
     case gate of
       Some reason \<Rightarrow> State_Monad.return (e\<lparr>e_Reason := reason\<rparr>)
     | None \<Rightarrow> do {
         sent \<leftarrow> submitDispatch J E owner e;
         recordAnswer J E i (if sent then e\<lparr>e_Phase := dispatchSubmitted, e_Reason := ''RequestSubmitted''\<rparr>
                             else e\<lparr>e_Reason := ''SubmissionUncertain''\<rparr>) } }"

text \<open>The service must still be the version the preflight accepted.\<close>

definition acceptedOwner :: "('p, 'q, 'r) environment \<Rightarrow> nat \<Rightarrow> dispatchEntry \<Rightarrow> dispatchEvidence \<Rightarrow> service option" where
  "acceptedOwner E n e ev = (case en_owner E n (e_Workload e) of
       None \<Rightarrow> None
     | Some owner \<Rightarrow> if sv_UID owner \<noteq> sv_UID (ev_owner ev) \<or> sv_ResourceVersion owner \<noteq> sv_ResourceVersion (ev_owner ev) then None else Some owner)"

definition stampEntry :: "journal_api \<Rightarrow> ('p, 'q, 'r) environment \<Rightarrow> Dispatcher \<Rightarrow> config_map \<Rightarrow> dispatchJournal \<Rightarrow> nat \<Rightarrow> alfred_config \<Rightarrow> service
    \<Rightarrow> dispatchEntry \<Rightarrow> dispatchEntry io" where
  "stampEntry J E d cm j i cfg owner e = do {
     t \<leftarrow> now E;
     let e = e\<lparr>e_LastAttempt := Some t, e_Reason := ''SubmissionPrepared''\<rparr>;
     saved \<leftarrow> saveS J E cm (putEntry i e j);
     if \<not> saved then State_Monad.return (e\<lparr>e_Reason := ''JournalUnavailable''\<rparr>)
     else submitPrepared J E d cfg i owner e }"

definition attemptEntry :: "journal_api \<Rightarrow> ('p, 'q, 'r) environment \<Rightarrow> Dispatcher \<Rightarrow> config_map \<Rightarrow> dispatchJournal \<Rightarrow> nat \<Rightarrow> dispatchEvidence \<Rightarrow> alfred_config
    \<Rightarrow> dispatchEntry \<Rightarrow> dispatchEntry io" where
  "attemptEntry J E d cm j i ev cfg e = do {
     gate \<leftarrow> enabledS E d cfg;
     case gate of
       Some reason \<Rightarrow> State_Monad.return (e\<lparr>e_Reason := reason\<rparr>)
     | None \<Rightarrow> do {
         n \<leftarrow> tick;
         case acceptedOwner E n e ev of
           None \<Rightarrow> State_Monad.return (e\<lparr>e_Reason := ''OwnerChanged''\<rparr>)
         | Some owner \<Rightarrow> stampEntry J E d cm j i cfg owner e } }"

definition attemptDispatch :: "journal_api \<Rightarrow> ('p, 'q, 'r) environment \<Rightarrow> Dispatcher \<Rightarrow> config_map \<Rightarrow> dispatchJournal \<Rightarrow> nat \<Rightarrow> dispatchEvidence \<Rightarrow> alfred_config
    \<Rightarrow> dispatchEntry option io" where
  "attemptDispatch J E d cm j i ev cfg =
     (if i < length (entries j) then do { e \<leftarrow> attemptEntry J E d cm j i ev cfg (entries j ! i); State_Monad.return (Some e) }
      else State_Monad.return None)"

subsection \<open>A pass\<close>

text \<open>The effects of reconciling an entry: two reads, then the readings of the clock.\<close>

definition lookAt :: "('p, 'q, 'r) environment \<Rightarrow> nat \<Rightarrow> look" where
  "lookAt E n = (\<lparr>at_match = en_now E (n + 2), at_phase = en_now E (n + 3), at_stall = en_now E (n + 4), at_backoff = en_now E (n + 5)\<rparr>,
     en_owner E n, en_replica E (n + 1))"

definition reconcileS :: "('p, 'q, 'r) environment \<Rightarrow> Dispatcher \<Rightarrow> dispatchJournal \<Rightarrow> (dispatchJournal \<times> dispatchEntry list) io" where
  "reconcileS E d j = State (\<lambda>w. (reconcileDispatches (dp_Options d) (\<lambda>i. lookAt E (w_tick w + 6 * i)) j,
     w\<lparr>w_tick := w_tick w + 6 * length (entries j)\<rparr>))"

definition recordOutcomeS :: "('p, 'q, 'r) environment \<Rightarrow> dispatchEntry \<Rightarrow> unit io" where
  "recordOutcomeS E e = do {
     t \<leftarrow> now E;
     State (\<lambda>w. ((), w\<lparr>w_arbiter := (w_arbiter w)\<lparr>a_Ledger := map_option (RecordOutcome (e_Phase e = dispatchCompleted) t) (a_Ledger (w_arbiter w))\<rparr>\<rparr>)) }"

fun recordOutcomes :: "('p, 'q, 'r) environment \<Rightarrow> dispatchEntry list \<Rightarrow> unit io" where
  "recordOutcomes E [] = State_Monad.return ()"
| "recordOutcomes E (e # es) = do { (if terminal e then recordOutcomeS E e else State_Monad.return ()); recordOutcomes E es }"

text \<open>The indices of the unresolved entries.\<close>

definition pendingOf :: "dispatchJournal \<Rightarrow> nat list" where
  "pendingOf j = filter (\<lambda>i. \<not> terminal (entries j ! i)) [0..<length (entries j)]"

definition withhold :: "report \<Rightarrow> string \<Rightarrow> report option io" where
  "withhold out reason = State_Monad.return (Some (fst out, withholdDecisions (snd out) reason))"

text \<open>An entry that is already pending: only a prepared one is sent again.\<close>

definition retryPending :: "journal_api \<Rightarrow> ('p, 'q, 'r) environment \<Rightarrow> Dispatcher \<Rightarrow> alfred_config \<Rightarrow> config_map \<Rightarrow> dispatchJournal \<Rightarrow> nat \<Rightarrow> report
    \<Rightarrow> report option io" where
  "retryPending J E d cfg cm j i out =
     (let e = entries j ! i; out = reportDispatchEntry J out e
      in if e_Phase e \<noteq> dispatchPrepared then withhold out ''UnresolvedRequest''
         else do {
           gate \<leftarrow> enabledS E d cfg;
           case gate of
             Some reason \<Rightarrow> withhold out reason
           | None \<Rightarrow> (case requestForEntry J e of
               Inl _ \<Rightarrow> withhold out ''JournalPayloadInvalid''
             | Inr req \<Rightarrow> do {
                 evidence \<leftarrow> preflight J E d None ((entryCandidate J e)\<lparr>c_HintTargetNodes := r_HintTargetNodes req\<rparr>) cfg j (Some e);
                 case evidence of
                   Inl reason \<Rightarrow> withhold out reason
                 | Inr ev \<Rightarrow> do {
                     r \<leftarrow> attemptDispatch J E d cm j i ev cfg;
                     State_Monad.return (map_option (reportDispatchEntry J (recordAcceptedCandidate (ev_candidate ev) out)) r) } }) })"

definition setDispatchReason :: "nat \<Rightarrow> string \<Rightarrow> report \<Rightarrow> report" where
  "setDispatchReason i reason out = (fst out, (snd out)[i := (snd out ! i)\<lparr>d_DispatchReason := reason\<rparr>])"

text \<open>A new entry is stored in the journal \<open>j'\<close>, read back and attempted.\<close>

definition sendStored :: "journal_api \<Rightarrow> ('p, 'q, 'r) environment \<Rightarrow> Dispatcher \<Rightarrow> alfred_config \<Rightarrow> dispatchEvidence \<Rightarrow> nat \<Rightarrow> report
    \<Rightarrow> report option io" where
  "sendStored J E d cfg ev i out = do {
     l \<leftarrow> loadS J E;
     case l of
       Inl _ \<Rightarrow> State_Monad.return (Some (setDispatchReason i ''JournalUnavailable'' out))
     | Inr (cm, j) \<Rightarrow>
         if entries j = [] then State_Monad.return None
         else do {
           r \<leftarrow> attemptDispatch J E d cm j (length (entries j) - 1) ev cfg;
           case r of
             None \<Rightarrow> State_Monad.return None
           | Some e \<Rightarrow> withhold (reportDispatchEntry J out e) ''SerialDispatchLimit'' } }"

definition sendNew :: "journal_api \<Rightarrow> ('p, 'q, 'r) environment \<Rightarrow> Dispatcher \<Rightarrow> alfred_config \<Rightarrow> config_map \<Rightarrow> dispatchJournal \<Rightarrow> dispatchEvidence \<Rightarrow> nat \<Rightarrow> report
    \<Rightarrow> report option io" where
  "sendNew J E d cfg cm j' ev i out = do {
     saved \<leftarrow> saveS J E cm j';
     if \<not> saved then State_Monad.return (Some (setDispatchReason i ''JournalUnavailable'' out))
     else sendStored J E d cfg ev i out }"

text \<open>One candidate: \<open>Inl\<close> goes on with the next one, \<open>Inr\<close> ends the pass.\<close>

definition prepareNew :: "journal_api \<Rightarrow> ('p, 'q, 'r) environment \<Rightarrow> Dispatcher \<Rightarrow> alfred_config \<Rightarrow> config_map \<Rightarrow> dispatchJournal \<Rightarrow> dispatchEvidence \<Rightarrow> nat \<Rightarrow> report
    \<Rightarrow> (report + report option) io" where
  "prepareNew J E d cfg cm j ev i out = do {
     t \<leftarrow> now E;
     n \<leftarrow> tick;
     case newDispatchEntry J (en_uuid E n) (ev_candidate ev) (sv_UID (ev_owner ev)) (snd (ir_Name (ev_ir ev))) (ir_UID (ev_ir ev)) (ev_fingerprint ev) t of
       Inl _ \<Rightarrow> State_Monad.return (Inl (setDispatchReason i ''InvalidRequest'' out))
     | Inr e \<Rightarrow> do {
         tp \<leftarrow> now E;
         r \<leftarrow> sendNew J E d cfg cm (addEntry (e\<lparr>e_Targets := ev_targets ev\<rparr>) (pruneDispatchHistory j (ev_historyWindow ev) tp)) ev i out;
         State_Monad.return (Inr r) } }"

definition dispatchNew :: "journal_api \<Rightarrow> ('p, 'q, 'r) environment \<Rightarrow> Dispatcher \<Rightarrow> cluster_snapshot \<Rightarrow> alfred_config \<Rightarrow> config_map \<Rightarrow> dispatchJournal \<Rightarrow> nat \<Rightarrow> report
    \<Rightarrow> (report + report option) io" where
  "dispatchNew J E d observed cfg cm j i out =
     (let dec = snd out ! i
      in if \<not> d_Admitted dec \<or> \<not> c_Executable (d_Candidate dec) \<or> c_Mode (d_Candidate dec) \<noteq> ''OMENative'' then State_Monad.return (Inl out)
         else do {
           evidence \<leftarrow> preflight J E d (Some observed) (d_Candidate dec) cfg j None;
           case evidence of
             Inl reason \<Rightarrow> State_Monad.return (Inl (setDispatchReason i reason out))
           | Inr ev \<Rightarrow> prepareNew J E d cfg cm j ev i (recordAcceptedCandidate (ev_candidate ev) out) })"

fun dispatchLoop :: "journal_api \<Rightarrow> ('p, 'q, 'r) environment \<Rightarrow> Dispatcher \<Rightarrow> cluster_snapshot \<Rightarrow> alfred_config \<Rightarrow> config_map \<Rightarrow> dispatchJournal \<Rightarrow> nat list \<Rightarrow> report
    \<Rightarrow> report option io" where
  "dispatchLoop J E d observed cfg cm j [] out = State_Monad.return (Some out)"
| "dispatchLoop J E d observed cfg cm j (i # is) out = do {
     r \<leftarrow> dispatchNew J E d observed cfg cm j i out;
     case r of Inl out \<Rightarrow> dispatchLoop J E d observed cfg cm j is out | Inr result \<Rightarrow> State_Monad.return result }"

definition dispatchFirst :: "journal_api \<Rightarrow> ('p, 'q, 'r) environment \<Rightarrow> Dispatcher \<Rightarrow> cluster_snapshot \<Rightarrow> alfred_config \<Rightarrow> config_map \<Rightarrow> dispatchJournal \<Rightarrow> report
    \<Rightarrow> report option io" where
  "dispatchFirst J E d observed cfg cm j out = do {
     gate \<leftarrow> enabledS E d cfg;
     case gate of
       Some reason \<Rightarrow> withhold out reason
     | None \<Rightarrow> do {
         t \<leftarrow> now E;
         if \<not> observationFresh observed t then withhold out ''ObservationStale''
         else do {
           t \<leftarrow> now E;
           if (case BackoffUntil j of None \<Rightarrow> False | Some u \<Rightarrow> t < u) then withhold out ''FailureBackoff''
           else dispatchLoop J E d observed cfg cm j [0..<length (snd out)] out } } }"

definition dispatchPending :: "journal_api \<Rightarrow> ('p, 'q, 'r) environment \<Rightarrow> Dispatcher \<Rightarrow> cluster_snapshot \<Rightarrow> alfred_config \<Rightarrow> config_map \<Rightarrow> dispatchJournal \<Rightarrow> report
    \<Rightarrow> report option io" where
  "dispatchPending J E d observed cfg cm j out = (case pendingOf j of
       [] \<Rightarrow> dispatchFirst J E d observed cfg cm j out
     | [i] \<Rightarrow> retryPending J E d cfg cm j i out
     | _ \<Rightarrow> withhold out ''MultipleUnresolvedRequests'')"

definition markWithheld :: "decision \<Rightarrow> decision" where
  "markWithheld d = (if d_Admitted d then d\<lparr>d_DispatchStatus := ''withheld'', d_DispatchReason := ''ExecutionDisabled''\<rparr> else d)"

definition reconcileThen :: "journal_api \<Rightarrow> ('p, 'q, 'r) environment \<Rightarrow> Dispatcher \<Rightarrow> cluster_snapshot \<Rightarrow> alfred_config \<Rightarrow> config_map \<Rightarrow> dispatchJournal \<Rightarrow> report
    \<Rightarrow> report option io" where
  "reconcileThen J E d observed cfg cm j out = do {
     r \<leftarrow> reconcileS E d j;
     if fst r = j then dispatchPending J E d observed cfg cm j (foldl (reportDispatchEntry J) out (snd r))
     else do {
       saved \<leftarrow> saveS J E cm (fst r);
       if \<not> saved then withhold out ''JournalUnavailable''
       else do {
         l \<leftarrow> loadS J E;
         case l of
           Inl _ \<Rightarrow> withhold out ''JournalUnavailable''
         | Inr (cm2, j2) \<Rightarrow> do {
             recordOutcomes E (snd r);
             dispatchPending J E d observed cfg cm2 j2 (foldl (reportDispatchEntry J) out (snd r)) } } } }"

definition Execute :: "journal_api \<Rightarrow> ('p, 'q, 'r) environment \<Rightarrow> Dispatcher \<Rightarrow> cluster_snapshot \<Rightarrow> candidate list \<Rightarrow> alfred_config \<Rightarrow> report option io" where
  "Execute J E d observed candidates cfg = do {
     ds \<leftarrow> admitS E observed candidates cfg;
     let out = (candidates, map markWithheld ds);
     if \<not> dp_Reader d \<or> \<not> dp_Client d \<or> dp_Namespace d = [] then State_Monad.return (Some out)
     else do {
       l \<leftarrow> loadS J E;
       case l of
         Inl _ \<Rightarrow> withhold out ''JournalUnavailable''
       | Inr (cm, j) \<Rightarrow> reconcileThen J E d observed cfg cm j out } }"

end
