(* ===== verification/Alfred_Serial.thy ===== *)
theory Alfred_Serial
  imports Alfred_Dispatcher
begin

section \<open>The dispatcher follows the protocol\<close>

text \<open>
  Every pass of the dispatcher is a sequence of moves of the protocol: the stored journals and the requests are
  those of a reachable state. The proof carries an invariant of the world through the operations. The theorems
  then hold for every sequence of passes, by any leaders, with reads that change and calls that fail or are lost
  at any point: a request is written down before it is sent, no second request is sent before the end of the
  first is recorded, and no rolling hour sees more intents than the limit.
\<close>

subsection \<open>The invariant\<close>

text \<open>Every request was in the journal stored at that moment, prepared and stamped, and nothing else was unresolved there.\<close>

definition justified :: "journal_api \<Rightarrow> dispatchEntry \<times> config_map \<Rightarrow> bool" where
  "justified J r = (case journalOf J (snd r) of None \<Rightarrow> False
     | Some j \<Rightarrow> fst r \<in> set (entries j) \<and> e_Phase (fst r) = dispatchPrepared \<and> e_LastAttempt (fst r) \<noteq> None \<and> serial j)"

definition tracks :: "journal_api \<Rightarrow> bool \<Rightarrow> time \<Rightarrow> world \<Rightarrow> protocol \<Rightarrow> bool" where
  "tracks J strict t w p \<longleftrightarrow> map (journalOf J) (w_history w) = map Some (p_history p) \<and> hd (w_history w) = w_state w
     \<and> map fst (w_requests w) = p_requests p \<and> (strict \<longrightarrow> p_time p \<le> t)"

definition conforms :: "journal_api \<Rightarrow> bool \<Rightarrow> nat \<Rightarrow> time \<Rightarrow> world \<Rightarrow> bool" where
  "conforms J strict M t w \<longleftrightarrow> (\<exists>p. reachable strict M p \<and> tracks J strict t w p)
     \<and> (\<forall>r \<in> set (w_requests w). snd r \<in> set (w_history w) \<and> justified J r)"

definition holds :: "journal_api \<Rightarrow> config_map \<Rightarrow> dispatchJournal \<Rightarrow> world \<Rightarrow> bool" where
  "holds J cm j w \<longleftrightarrow> w_state w = cm \<and> journalOf J cm = Some j"

lemma holds_quietly: "holds J cm j w \<Longrightarrow> quietly w w' \<Longrightarrow> holds J cm j w'"
  by (simp add: holds_def quietly_def)

lemma conforms_quietly: "conforms J strict M t w \<Longrightarrow> quietly w w' \<Longrightarrow> conforms J strict M t w'"
  by (simp add: conforms_def tracks_def quietly_def)

text \<open>The journal in the ConfigMap is the newest one of the protocol.\<close>

lemma tracks_newest:
  assumes "reachable strict M p" "tracks J strict t w p" "holds J cm j w"
  obtains js where "p_history p = j # js" "serial j"
proof -
  have acc: "accounted p" by (rule reachable_accounted [OF assms(1)])
  then obtain j' js where h: "p_history p = j' # js" by (auto simp: accounted_def neq_Nil_conv)
  then obtain cm' h' where w: "w_history w = cm' # h'" "journalOf J cm' = Some j'" using assms(2) by (auto simp: tracks_def)
  then have "j' = j" using assms(2,3) by (simp add: tracks_def holds_def)
  then show ?thesis using that h acc by (simp add: accounted_def)
qed

subsection \<open>Which journals may follow\<close>

definition mayFollow :: "bool \<Rightarrow> nat \<Rightarrow> time \<Rightarrow> time \<Rightarrow> dispatchJournal \<Rightarrow> dispatchJournal \<Rightarrow> bool" where
  "mayFollow strict M t0 t j j' \<longleftrightarrow> (\<forall>p js. p_history p = j # js \<longrightarrow> distinct (map e_UUID (entries j')) \<longrightarrow> (strict \<longrightarrow> p_time p \<le> t0)
     \<longrightarrow> (\<exists>t'. protocol_step strict M p (p\<lparr>p_time := t', p_history := j' # j # js\<rparr>) \<and> (strict \<longrightarrow> t' \<le> t)))"

lemma mayFollow_same:
  assumes "\<And>p :: protocol. \<And>js. p_history p = j # js \<Longrightarrow> protocol_step strict M p (p\<lparr>p_history := j' # j # js\<rparr>)"
  shows "mayFollow strict M t t j j'"
  unfolding mayFollow_def
proof (intro allI impI)
  fix p :: protocol and js assume "p_history p = j # js" "strict \<longrightarrow> p_time p \<le> t"
  then show "\<exists>t'. protocol_step strict M p (p\<lparr>p_time := t', p_history := j' # j # js\<rparr>) \<and> (strict \<longrightarrow> t' \<le> t)"
    using assms [of p js] by (intro exI [of _ "p_time p"]) simp
qed

lemma mayFollow_reconcile: "list_all2 restated (entries j) (entries j') \<Longrightarrow> mayFollow strict M t t j j'"
  by (intro mayFollow_same protocol_step.reconcile)

lemma mayFollow_attempt:
  "i < length (entries j) \<Longrightarrow> e_Phase (entries j ! i) = dispatchPrepared
     \<Longrightarrow> mayFollow strict M t t j (putEntry i ((entries j ! i)\<lparr>e_LastAttempt := Some u, e_Reason := r\<rparr>) j)"
  by (intro mayFollow_same protocol_step.attempt)

lemma mayFollow_answer:
  "i < length (entries j) \<Longrightarrow> e_Phase (entries j ! i) = dispatchPrepared \<Longrightarrow> ph = dispatchPrepared \<or> ph = dispatchSubmitted
     \<Longrightarrow> mayFollow strict M t t j (putEntry i ((entries j ! i)\<lparr>e_Phase := ph, e_Reason := r\<rparr>) j)"
  by (intro mayFollow_same protocol_step.answer)

lemma mayFollow_prepare:
  assumes "unresolvedEntries j = []" "\<not> terminal e"
    and "strict \<Longrightarrow> t0 \<le> tb \<and> tb \<le> e_CreatedAt e \<and> e_CreatedAt e \<le> tp
      \<and> slashless (e_UUID e) \<and> ((\<forall>e' \<in> set (entries j). slashless (e_UUID e')) \<longrightarrow> card (recentUUIDs tb j) < M)"
  shows "mayFollow strict M t0 tp j (addEntry e (pruneDispatchHistory j w tp))"
  unfolding mayFollow_def
proof (intro allI impI)
  fix p :: protocol and js assume h: "p_history p = j # js" and "strict \<longrightarrow> p_time p \<le> t0"
    and "distinct (map e_UUID (entries (addEntry e (pruneDispatchHistory j w tp))))"
  then have "protocol_step strict M p (p\<lparr>p_time := (if strict then tp else p_time p),
      p_history := addEntry e (pruneDispatchHistory j w tp) # j # js\<rparr>)"
    using assms by (intro protocol_step.prepare [OF h, where tb = tb]) (auto simp: paced_def)
  then show "\<exists>t'. protocol_step strict M p (p\<lparr>p_time := t', p_history := addEntry e (pruneDispatchHistory j w tp) # j # js\<rparr>)
      \<and> (strict \<longrightarrow> t' \<le> tp)"
    by (intro exI [of _ "if strict then tp else p_time p"]) simp
qed

subsection \<open>Writing and sending\<close>

lemma conforms_store:
  assumes inv: "conforms J strict M t0 w" "holds J cm j w" and valid: "journalOf J cm' = Some j'" and may: "mayFollow strict M t0 t j j'"
  shows "conforms J strict M t (store cm' w)" "\<exists>cm2. holds J cm2 j' (store cm' w)"
proof -
  obtain p where p: "reachable strict M p" "tracks J strict t0 w p" using inv(1) by (auto simp: conforms_def)
  obtain js where js: "p_history p = j # js" using tracks_newest [OF p inv(2)] by blast
  have "distinct (map e_UUID (entries j'))" using valid_entries(2) [OF journalOf_valid [OF valid]] .
  then obtain t' where step: "protocol_step strict M p (p\<lparr>p_time := t', p_history := j' # j # js\<rparr>)" "strict \<longrightarrow> t' \<le> t"
    using may js p(2) unfolding mayFollow_def tracks_def by meson
  have "tracks J strict t (store cm' w) (p\<lparr>p_time := t', p_history := j' # j # js\<rparr>)"
    using p(2) js valid step(2) by (simp add: tracks_def store_def Let_def)
  moreover have "\<forall>r \<in> set (w_requests (store cm' w)). snd r \<in> set (w_history (store cm' w)) \<and> justified J r"
    using inv(1) by (auto simp: conforms_def store_def Let_def)
  ultimately show "conforms J strict M t (store cm' w)"
    unfolding conforms_def using reachable.step [OF p(1) step(1)] by blast
  show "\<exists>cm2. holds J cm2 j' (store cm' w)" using valid by (simp add: holds_def store_def Let_def)
qed

text \<open>A write leaves the old world or the new one, and the new one for certain if it is reported as applied.\<close>

lemma saveS_conforms:
  assumes law: "decodes J" and inv: "conforms J strict M t0 w" "holds J cm j w" and may: "mayFollow strict M t0 t j j'"
    and run: "run_state (saveS J E cm j') w = (saved, w')"
  shows "conforms J strict M t0 w' \<or> conforms J strict M t w'" "saved \<Longrightarrow> conforms J strict M t w'" "saved \<Longrightarrow> \<exists>cm2. holds J cm2 j' w'"
    "w_tick w \<le> w_tick w'"
proof -
  let ?w = "w\<lparr>w_tick := w_tick w + 1\<rparr>"
  have quietly: "quietly w ?w" by (simp add: quietly_def)
  have "w' = w \<and> \<not> saved \<or> w' = ?w \<and> \<not> saved
      \<or> (\<exists>cm'. saveDispatchJournal J cm j' = Inr cm' \<and> w' = store cm' ?w)"
    using run by (auto simp: saveS_def putState_def Let_def split: sum.splits if_splits outcome.splits)
  then consider (same) "w' = w \<or> w' = ?w" "\<not> saved" | (new) cm' where "saveDispatchJournal J cm j' = Inr cm'" "w' = store cm' ?w"
    by blast
  note ways = this
  have "(conforms J strict M t0 w' \<and> \<not> saved \<or> conforms J strict M t w' \<and> (\<exists>cm2. holds J cm2 j' w')) \<and> w_tick w \<le> w_tick w'"
  proof (cases rule: ways)
    case same
    then show ?thesis using conforms_quietly [OF inv(1) quietly] inv(1) by auto
  next
    case (new cm')
    show ?thesis
      using conforms_store [OF conforms_quietly [OF inv(1) quietly] holds_quietly [OF inv(2) quietly] save_journal(1) [OF law new(1)] may] new(2)
      by (simp add: store_def Let_def)
  qed
  then show "conforms J strict M t0 w' \<or> conforms J strict M t w'" "saved \<Longrightarrow> conforms J strict M t w'" "saved \<Longrightarrow> \<exists>cm2. holds J cm2 j' w'"
    "w_tick w \<le> w_tick w'" by blast+
qed

lemma loadS_holds:
  assumes "run_state (loadS J E) w = (Inr (cm, j), w')"
  shows "holds J cm j w'" "quietly w w'"
proof -
  show "quietly w w'" using quietD [OF quiet_reads(4) assms] .
  have "cm = w_state w \<and> journalOf J cm = Some j" and "w_state w' = w_state w"
    using assms by (auto simp: loadS_def getState_def load_Inr load_None split: if_splits)
  then show "holds J cm j w'" by (auto simp: holds_def)
qed

text \<open>Reading back gives what is stored.\<close>

lemma loadS_same:
  assumes "holds J cm j w" "run_state (loadS J E) w = (Inr (cm2, j2), w')"
  shows "j2 = j" "holds J cm2 j w'"
  using loadS_holds [OF assms(2)] assms(1) by (auto simp: holds_def quietly_def)

lemma patchOwner_conforms:
  assumes inv: "conforms J strict M t w" "holds J cm j w"
    and e: "e \<in> set (entries j)" "e_Phase e = dispatchPrepared" "e_LastAttempt e \<noteq> None"
    and run: "run_state (patchOwner E owner e) w = (sent, w')"
  shows "conforms J strict M t w'" "holds J cm j w'" "w_tick w \<le> w_tick w'"
proof -
  let ?w = "w\<lparr>w_tick := w_tick w + 1\<rparr>"
  let ?w' = "w\<lparr>w_tick := w_tick w + 1, w_requests := w_requests w @ [(e, w_state w)]\<rparr>"
  have quietly: "quietly w ?w" by (simp add: quietly_def)
  obtain p where p: "reachable strict M p" "tracks J strict t w p" using inv(1) by (auto simp: conforms_def)
  obtain js where js: "p_history p = j # js" "serial j" using tracks_newest [OF p inv(2)] by blast
  have "reachable strict M (p\<lparr>p_requests := p_requests p @ [e]\<rparr>)"
    using reachable.step [OF p(1) protocol_step.request [OF js(1) e]] .
  moreover have "tracks J strict t ?w' (p\<lparr>p_requests := p_requests p @ [e]\<rparr>)" using p(2) by (simp add: tracks_def)
  moreover have "w_state w \<in> set (w_history w)" using p(2) js(1) by (cases "w_history w") (auto simp: tracks_def)
  moreover have "justified J (e, w_state w)" using inv(2) e js(2) by (simp add: justified_def holds_def)
  ultimately have sent: "conforms J strict M t ?w'" using inv(1) unfolding conforms_def by fastforce
  have "w' \<in> {?w, ?w'}" using run by (auto simp: patchOwner_def Let_def split: option.splits outcome.splits if_splits)
  then show "conforms J strict M t w'" "holds J cm j w'" "w_tick w \<le> w_tick w'"
    using sent conforms_quietly [OF inv(1) quietly] inv(2) by (auto simp: holds_def)
qed

subsection \<open>Triples\<close>

text \<open>\<open>fine\<close>: the world conforms and time has reached \<open>n\<close>; \<open>stands\<close>: besides, the ConfigMap holds the journal \<open>j\<close>.\<close>

definition fine :: "journal_api \<Rightarrow> bool \<Rightarrow> nat \<Rightarrow> time \<Rightarrow> nat \<Rightarrow> world \<Rightarrow> bool" where
  "fine J strict M t n w \<longleftrightarrow> conforms J strict M t w \<and> n \<le> w_tick w"

definition stands :: "journal_api \<Rightarrow> bool \<Rightarrow> nat \<Rightarrow> time \<Rightarrow> nat \<Rightarrow> config_map \<Rightarrow> dispatchJournal \<Rightarrow> world \<Rightarrow> bool" where
  "stands J strict M t n cm j w \<longleftrightarrow> fine J strict M t n w \<and> holds J cm j w"

lemma stands_fine: "stands J strict M t n cm j w \<Longrightarrow> fine J strict M t n w"
  by (simp add: stands_def)

lemma triple_quiet: "quiet m \<Longrightarrow> triple (stands J strict M t n cm j) m (\<lambda>_. stands J strict M t n cm j)"
  unfolding triple_def stands_def fine_def quiet_def by (metis conforms_quietly holds_quietly le_trans quietly_def)

lemma triple_ret: "(\<And>w. P w \<Longrightarrow> Q x w) \<Longrightarrow> triple P (State_Monad.return x) Q"
  by (simp add: triple_def)

lemma triple_if: "(b \<Longrightarrow> triple P m Q) \<Longrightarrow> (\<not> b \<Longrightarrow> triple P m' Q) \<Longrightarrow> triple P (if b then m else m') Q"
  by simp

lemma triple_pre: "triple P m Q \<Longrightarrow> (\<And>w. P' w \<Longrightarrow> P w) \<Longrightarrow> triple P' m Q"
  by (simp add: triple_def)

lemma triple_save:
  assumes "decodes J" "mayFollow strict M t0 t j j'"
  shows "triple (stands J strict M t0 n cm j) (saveS J E cm j')
    (\<lambda>saved w. if saved then \<exists>cm2. stands J strict M t n cm2 j' w else fine J strict M t0 n w \<or> fine J strict M t n w)"
  unfolding triple_def
proof (intro allI impI)
  fix w assume w: "stands J strict M t0 n cm j w"
  obtain saved w' where run: "run_state (saveS J E cm j') w = (saved, w')" by fastforce
  note save = saveS_conforms [OF assms(1) _ _ assms(2) run]
  show "if fst (run_state (saveS J E cm j') w) then \<exists>cm2. stands J strict M t n cm2 j' (snd (run_state (saveS J E cm j') w))
      else fine J strict M t0 n (snd (run_state (saveS J E cm j') w)) \<or> fine J strict M t n (snd (run_state (saveS J E cm j') w))"
    using w save unfolding run by (auto simp: stands_def fine_def)
qed

lemma triple_load:
  "triple (stands J strict M t n cm j) (loadS J E) (\<lambda>r w. case r of Inl _ \<Rightarrow> fine J strict M t n w | Inr (cm2, j2) \<Rightarrow> j2 = j \<and> stands J strict M t n cm2 j w)"
  unfolding triple_def
proof (intro allI impI)
  fix w assume w: "stands J strict M t n cm j w"
  obtain r w' where run: "run_state (loadS J E) w = (r, w')" by fastforce
  have "quietly w w'" by (rule quietD [OF quiet_reads(4) run])
  then have "fine J strict M t n w'" using w conforms_quietly [of J strict M t w w'] by (auto simp: stands_def fine_def quietly_def)
  moreover have "j2 = j \<and> holds J cm2 j w'" if "r = Inr (cm2, j2)" for cm2 j2
    using loadS_same [of J cm j w E cm2 j2 w'] w run that by (simp add: stands_def)
  ultimately show "case fst (run_state (loadS J E) w) of Inl _ \<Rightarrow> fine J strict M t n (snd (run_state (loadS J E) w))
      | Inr (cm2, j2) \<Rightarrow> j2 = j \<and> stands J strict M t n cm2 j (snd (run_state (loadS J E) w))"
    unfolding run by (auto simp: stands_def split: sum.splits)
qed

text \<open>The shapes in which the dispatcher uses a load, a save and the gates.\<close>

lemma triple_load_then:
  assumes "triple (fine J strict M t n) m Q" "\<And>cm2. triple (stands J strict M t n cm2 j) (f (cm2, j)) Q"
  shows "triple (stands J strict M t n cm j) (State_Monad.bind (loadS J E) (\<lambda>r. case r of Inl err \<Rightarrow> m | Inr l \<Rightarrow> f l)) Q"
proof (rule triple_bind [OF triple_load])
  show "triple (\<lambda>w. case r of Inl _ \<Rightarrow> fine J strict M t n w | Inr (cm2, j2) \<Rightarrow> j2 = j \<and> stands J strict M t n cm2 j w)
     (case r of Inl err \<Rightarrow> m | Inr l \<Rightarrow> f l) Q" for r
    using assms by (cases r) (auto simp: triple_def split: prod.splits)
qed

lemma triple_save_then:
  assumes "decodes J" "mayFollow strict M t0 t j j'" "triple (\<lambda>w. fine J strict M t0 n w \<or> fine J strict M t n w) m Q"
    "\<And>cm2. triple (stands J strict M t n cm2 j') m' Q"
  shows "triple (stands J strict M t0 n cm j) (State_Monad.bind (saveS J E cm j') (\<lambda>saved. if \<not> saved then m else m')) Q"
proof (rule triple_bind [OF triple_save [OF assms(1,2)]])
  show "triple (\<lambda>w. if saved then \<exists>cm2. stands J strict M t n cm2 j' w else fine J strict M t0 n w \<or> fine J strict M t n w)
     (if \<not> saved then m else m') Q" for saved
    using assms(3,4) by (cases saved) (auto simp: triple_def)
qed

lemma triple_gate:
  assumes "\<And>reason. triple (stands J strict M t n cm j) (f reason) Q" "triple (stands J strict M t n cm j) m Q"
  shows "triple (stands J strict M t n cm j) (State_Monad.bind (enabledS E d cfg) (\<lambda>gate. case gate of None \<Rightarrow> m | Some reason \<Rightarrow> f reason)) Q"
  using assms by (intro triple_bind [OF triple_quiet [OF quiet_enabledS]]) (auto split: option.splits)

lemma triple_reads:
  assumes "quiet m" "\<And>x. triple (stands J strict M t n cm j) (f x) Q"
  shows "triple (stands J strict M t n cm j) (State_Monad.bind m f) Q"
  by (rule triple_bind [OF triple_quiet [OF assms(1)] assms(2)])

subsection \<open>One request\<close>

lemma triple_submit:
  assumes "e \<in> set (entries j)" "e_Phase e = dispatchPrepared" "e_LastAttempt e \<noteq> None"
  shows "triple (stands J strict M t n cm j) (submitDispatch J E owner e) (\<lambda>_. stands J strict M t n cm j)"
proof -
  have "triple (stands J strict M t n cm j) (patchOwner E owner e) (\<lambda>_. stands J strict M t n cm j)"
    unfolding triple_def stands_def fine_def
    using patchOwner_conforms [OF _ _ assms, of J strict M t _ cm E owner] by (metis le_trans prod.collapse)
  then show ?thesis unfolding submitDispatch_def by (auto intro!: triple_ret split: sum.splits option.splits)
qed

lemma triple_answer:
  assumes "decodes J" "i < length (entries j)" "e_Phase (entries j ! i) = dispatchPrepared"
    and "e = (entries j ! i)\<lparr>e_Phase := ph, e_Reason := r\<rparr>" "ph = dispatchPrepared \<or> ph = dispatchSubmitted"
  shows "triple (stands J strict M t n cm j) (recordAnswer J E i e) (\<lambda>_. fine J strict M t n)"
proof -
  have store: "triple (stands J strict M t n cm2 j)
      (do { saved \<leftarrow> saveS J E cm2 (putEntry i e j); State_Monad.return (if saved then e else e\<lparr>e_Reason := ''SubmissionJournalUncertain''\<rparr>) })
      (\<lambda>_. fine J strict M t n)" for cm2
    using mayFollow_answer [OF assms(2,3,5)] unfolding assms(4)
    by (intro triple_bind [OF triple_save [OF assms(1)]] triple_ret) (auto dest: stands_fine split: if_splits)
  show ?thesis
    unfolding recordAnswer_def using store by (intro triple_load_then) (auto intro!: triple_ret stands_fine)
qed

lemma triple_submitPrepared:
  assumes "decodes J" "i < length (entries j)" "entries j ! i = e" "e_Phase e = dispatchPrepared" "e_LastAttempt e \<noteq> None"
  shows "triple (stands J strict M t n cm j) (submitPrepared J E d cfg i owner e) (\<lambda>_. fine J strict M t n)"
proof -
  have "e \<in> set (entries j)" using assms(2,3) by auto
  note submit = triple_submit [OF this assms(4,5)]
  have same: "e\<lparr>e_Reason := r\<rparr> = (entries j ! i)\<lparr>e_Phase := dispatchPrepared, e_Reason := r\<rparr>" for r
    using assms(3,4) by (cases e) simp
  have "triple (stands J strict M t n cm j) (recordAnswer J E i (if sent then e\<lparr>e_Phase := dispatchSubmitted, e_Reason := r\<rparr>
      else e\<lparr>e_Reason := r'\<rparr>)) (\<lambda>_. fine J strict M t n)" for sent r r'
    using assms(3,4) unfolding same by (cases sent) (auto intro!: triple_answer [OF assms(1,2) _ refl])
  then show ?thesis
    unfolding submitPrepared_def by (intro triple_gate triple_ret triple_bind [OF submit]) (rule stands_fine)
qed

lemma triple_attempt:
  assumes "decodes J" "i < length (entries j)" "entries j ! i = e" "e_Phase e = dispatchPrepared"
  shows "triple (stands J strict M t n cm j) (attemptEntry J E d cm j i ev cfg e) (\<lambda>_. fine J strict M t n)"
proof -
  have stamp: "triple (stands J strict M t n cm j) (stampEntry J E d cm j i cfg owner e) (\<lambda>_. fine J strict M t n)" for owner
    unfolding stampEntry_def Let_def using assms mayFollow_attempt [OF assms(2)]
    by (intro triple_reads [OF quiet_reads(2)] triple_save_then triple_ret) (auto intro!: triple_submitPrepared)
  then show ?thesis
    unfolding attemptEntry_def by (intro triple_gate triple_reads quiets triple_ret) (auto intro!: triple_ret stands_fine split: option.splits)
qed

lemma triple_attemptDispatch:
  assumes "decodes J" "i < length (entries j)" "e_Phase (entries j ! i) = dispatchPrepared"
  shows "triple (stands J strict M t n cm j) (attemptDispatch J E d cm j i ev cfg) (\<lambda>r w. r \<noteq> None \<and> fine J strict M t n w)"
  unfolding attemptDispatch_def using assms(2)
  by (auto intro!: triple_bind [OF triple_attempt [OF assms(1,2) refl assms(3)]] triple_ret)

subsection \<open>One pass\<close>

definition settled :: "journal_api \<Rightarrow> bool \<Rightarrow> nat \<Rightarrow> (nat \<Rightarrow> time) \<Rightarrow> world \<Rightarrow> bool" where
  "settled J strict M clk w \<longleftrightarrow> (\<exists>t. conforms J strict M t w \<and> (strict \<longrightarrow> t \<le> clk (w_tick w)))"

text \<open>
  What a pass relies on: JSON. If the rolling hour matters, also that the clock of the pass is \<open>clk\<close> and never goes
  back, that a new UUID has no slash, and that the configured limit is at most \<open>M\<close>.
\<close>

definition pacing :: "journal_api \<Rightarrow> bool \<Rightarrow> nat \<Rightarrow> (nat \<Rightarrow> time) \<Rightarrow> ('p, 'q, 'r) environment \<Rightarrow> alfred_config \<Rightarrow> bool" where
  "pacing J strict M clk E cfg \<longleftrightarrow> decodes J
     \<and> (strict \<longrightarrow> mono clk \<and> en_now E = clk \<and> (\<forall>n. slashless (en_uuid E n)) \<and> MaxMigrationsPerHour cfg \<le> int M)"

definition well :: "journal_api \<Rightarrow> bool \<Rightarrow> nat \<Rightarrow> (nat \<Rightarrow> time) \<Rightarrow> 'a option \<Rightarrow> world \<Rightarrow> bool" where
  "well J strict M clk r w \<longleftrightarrow> r \<noteq> None \<and> settled J strict M clk w"

lemma fine_settled:
  assumes "pacing J strict M clk E cfg" "strict \<longrightarrow> t \<le> clk n" "fine J strict M t n w"
  shows "settled J strict M clk w"
proof -
  have "strict \<longrightarrow> clk n \<le> clk (w_tick w)" using assms(1,3) by (auto simp: pacing_def fine_def mono_def)
  then have "strict \<longrightarrow> t \<le> clk (w_tick w)" using assms(2) by auto
  then show ?thesis using assms(3) unfolding settled_def fine_def by blast
qed

lemma triple_well:
  assumes "pacing J strict M clk E cfg" "strict \<longrightarrow> t \<le> clk n"
  shows "triple (fine J strict M t n) (State_Monad.return (Some x)) (well J strict M clk)"
    "triple (stands J strict M t n cm j) (State_Monad.return (Some x)) (well J strict M clk)"
    "triple (stands J strict M t n cm j) (withhold out reason) (well J strict M clk)"
    "triple (fine J strict M t n) (withhold out reason) (well J strict M clk)"
  unfolding withhold_def using fine_settled [OF assms] stands_fine by (auto intro!: triple_ret simp: well_def)

lemma triple_sendStored:
  assumes pace: "pacing J strict M clk E cfg" and times: "strict \<longrightarrow> t \<le> clk n"
    and last: "j = addEntry e j0" "e_Phase e = dispatchPrepared"
  shows "triple (stands J strict M t n cm j) (sendStored J E d cfg ev i out) (well J strict M clk)"
proof -
  have law: "decodes J" using pace by (simp add: pacing_def)
  have attempt: "triple (stands J strict M t n cm2 j) (attemptDispatch J E d cm2 j (length (entries j) - 1) ev cfg)
      (\<lambda>r w. r \<noteq> None \<and> fine J strict M t n w)" for cm2
    using last by (intro triple_attemptDispatch law) (simp_all add: nth_append)
  have "triple (\<lambda>w. r \<noteq> None \<and> fine J strict M t n w)
     (case r of None \<Rightarrow> State_Monad.return None | Some e \<Rightarrow> withhold (reportDispatchEntry J out e) ''SerialDispatchLimit'') (well J strict M clk)" for r
    using triple_well(4) [OF pace times] by (cases r) (auto simp: triple_def)
  note report = triple_bind [OF attempt this]
  have "entries j \<noteq> []" using last by simp
  then show ?thesis
    unfolding sendStored_def using report by (intro triple_load_then triple_well [OF pace times]) simp
qed

lemma triple_sendNew:
  assumes pace: "pacing J strict M clk E cfg" and times: "strict \<longrightarrow> t0 \<le> clk n" "strict \<longrightarrow> tp \<le> clk n"
    and may: "mayFollow strict M t0 tp j j'" and last: "j' = addEntry e j0" "e_Phase e = dispatchPrepared"
  shows "triple (stands J strict M t0 n cm j) (sendNew J E d cfg cm j' ev i out) (well J strict M clk)"
proof -
  have "decodes J" using pace by (simp add: pacing_def)
  moreover have "triple (\<lambda>w. fine J strict M t0 n w \<or> fine J strict M tp n w) (State_Monad.return (Some r)) (well J strict M clk)" for r :: report
    using triple_well(1) [OF pace times(1), of r] triple_well(1) [OF pace times(2), of r] by (auto simp: triple_def)
  ultimately show ?thesis
    unfolding sendNew_def by (intro triple_save_then [OF _ may] triple_sendStored [OF pace times(2) last])
qed

text \<open>A new intent keeps the pace: the budget was read before it was created, and left room.\<close>

lemma newDispatchEntry_fields:
  assumes "newDispatchEntry J uuid c owner irName irUID fingerprint t = Inr e"
  shows "e_Phase e = dispatchPrepared" "e_CreatedAt e = t" "\<not> terminal e" "e_UUID e = uuid"
  using assms by (auto simp: newDispatchEntry_def Let_def terminal_def split: option.splits if_splits)

lemma room_recent:
  assumes "\<forall>e \<in> set (entries j). slashless (e_UUID e)" "dispatchBudget s j c cfg t None = []" "MaxMigrationsPerHour cfg \<le> int M"
  shows "card (recentUUIDs t j) < M"
  using dispatchBudget_room [OF assms(2)] assms(1,3) by (simp add: recentUUIDs_def slashless_def)

lemma authorised_budget:
  assumes "authorised E d observed c cfg j existing w ev w'"
  obtains s c' n where "w_tick w \<le> n" "n < w_tick w'" "dispatchBudget s j c' cfg (en_now E n) existing = []"
proof -
  from assms obtain l result f c' a1 n1 n2 n3 n4 where
    stages: "seenFirst E d (sliceMove c existing) observed c cfg j existing (w_arbiter w) (w_tick w) l a1 n1"
      "simulated E (sliceMove c existing) l n1 result n2" "seenAgain E d (sliceMove c existing) cfg l n2 f n3" "n3 \<le> n4"
    and acc: "accepted E d cfg j existing f c' (ev_targets ev) a1 n4 (w_arbiter w') (w_tick w')"
    unfolding authorised_def Let_def by blast
  have "w_tick w \<le> n1" using stages(1) by (auto simp: seenFirst_def)
  moreover have "n1 \<le> n2" using stages(2) by (auto simp: simulated_def during_def)
  moreover have "n2 \<le> n3" using stages(3) by (auto simp: seenAgain_def)
  ultimately have "w_tick w \<le> n4" using stages(4) by linarith
  then show ?thesis using acc that unfolding accepted_def by (meson le_trans less_trans)
qed

lemma pending_none: "pendingOf j = [] \<longleftrightarrow> unresolvedEntries j = []"
  by (auto simp: pendingOf_def unresolvedEntries_def filter_empty_conv all_set_conv_all_nth)

lemma mayFollow_new:
  assumes pace: "pacing J strict M clk E cfg" and t0: "strict \<longrightarrow> t0 \<le> clk (w_tick w)" and j: "unresolvedEntries j = []"
    and pre: "run_state (preflight J E d observed c cfg j None) w = (Inr ev, w1)"
    and e: "newDispatchEntry J (en_uuid E m) c' owner irName irUID fingerprint (en_now E (w_tick w1)) = Inr e"
  shows "mayFollow strict M t0 (en_now E (w_tick w1 + 2)) j
    (addEntry (e\<lparr>e_Targets := targets\<rparr>) (pruneDispatchHistory j window (en_now E (w_tick w1 + 2))))"
proof -
  obtain s c'' n where n: "w_tick w \<le> n" "n < w_tick w1" "dispatchBudget s j c'' cfg (en_now E n) None = []"
    using authorised_budget [OF preflight_authorised [OF pre]] .
  note new = newDispatchEntry_fields [OF e]
  have "t0 \<le> en_now E n \<and> en_now E n \<le> e_CreatedAt e \<and> e_CreatedAt e \<le> en_now E (w_tick w1 + 2) \<and> slashless (e_UUID e)
      \<and> ((\<forall>e' \<in> set (entries j). slashless (e_UUID e')) \<longrightarrow> card (recentUUIDs (en_now E n) j) < M)" if strict
  proof -
    have clk: "mono clk" "en_now E = clk" "slashless (en_uuid E m)" "MaxMigrationsPerHour cfg \<le> int M" using pace that by (simp_all add: pacing_def)
    have "clk (w_tick w) \<le> clk n" "clk n \<le> clk (w_tick w1)" "clk (w_tick w1) \<le> clk (w_tick w1 + 2)"
      using n(1,2) by (simp_all add: monoD [OF clk(1)])
    moreover have "e_CreatedAt e = clk (w_tick w1)" using new(2) clk(2) by simp
    ultimately show ?thesis using t0 that room_recent [OF _ n(3) clk(4)] clk(3) new(4) unfolding clk(2) by simp
  qed
  moreover have "\<not> terminal (e\<lparr>e_Targets := targets\<rparr>)" using new(1) by (simp add: terminal_def)
  ultimately show ?thesis using j by (intro mayFollow_prepare [where tb = "en_now E n"]) simp_all
qed

text \<open>The outcome of one candidate: go on with the journal as it was, or end well.\<close>

definition goesOn :: "journal_api \<Rightarrow> bool \<Rightarrow> nat \<Rightarrow> (nat \<Rightarrow> time) \<Rightarrow> time \<Rightarrow> nat \<Rightarrow> config_map \<Rightarrow> dispatchJournal
    \<Rightarrow> 'b + 'a option \<Rightarrow> world \<Rightarrow> bool" where
  "goesOn J strict M clk t n cm j r w = (case r of Inl _ \<Rightarrow> stands J strict M t n cm j w | Inr res \<Rightarrow> well J strict M clk res w)"

lemma triple_sendPrepared:
  assumes pace: "pacing J strict M clk E cfg" and t0: "strict \<longrightarrow> t0 \<le> clk n"
    and w: "stands J strict M t0 n cm j w" "unresolvedEntries j = []"
    and pre: "run_state (preflight J E d observed c cfg j None) w = (Inr ev, w1)"
  shows "goesOn J strict M clk t0 n cm j (fst (run_state (prepareNew J E d cfg cm j ev i out) w1)) (snd (run_state (prepareNew J E d cfg cm j ev i out) w1))"
proof -
  let ?w2 = "w1\<lparr>w_tick := w_tick w1 + 2\<rparr>" and ?w3 = "w1\<lparr>w_tick := w_tick w1 + 3\<rparr>"
  let ?tp = "en_now E (w_tick w1 + 2)"
  have q: "quietly w w1" by (rule quietD [OF quiet_preflight pre])
  have n: "n \<le> w_tick w" using w(1) by (simp add: stands_def fine_def)
  have quietly: "quietly w1 ?w2" "quietly w1 ?w3" by (simp_all add: quietly_def)
  have stay: "stands J strict M t0 n' cm j w'" if "quietly w1 w'" "n' \<le> w_tick w'" for w' n'
    using w(1) conforms_quietly [OF _ quietly_trans [OF q that(1)]] holds_quietly [OF _ quietly_trans [OF q that(1)]] that(2)
    unfolding stands_def fine_def by blast
  show ?thesis
  proof (cases "newDispatchEntry J (en_uuid E (w_tick w1 + 1)) (ev_candidate ev) (sv_UID (ev_owner ev)) (snd (ir_Name (ev_ir ev))) (ir_UID (ev_ir ev))
      (ev_fingerprint ev) (en_now E (w_tick w1))")
    case (Inl err)
    then have "run_state (prepareNew J E d cfg cm j ev i out) w1 = (Inl (setDispatchReason i ''InvalidRequest'' out), ?w2)"
      by (simp add: prepareNew_def now_def tick_def)
    then show ?thesis using stay [OF quietly(1), of n] n q by (simp add: goesOn_def quietly_def)
  next
    case (Inr e)
    let ?j' = "addEntry (e\<lparr>e_Targets := ev_targets ev\<rparr>) (pruneDispatchHistory j (ev_historyWindow ev) ?tp)"
    have run: "run_state (prepareNew J E d cfg cm j ev i out) w1 = (\<lambda>(r, w'). (Inr r, w')) (run_state (sendNew J E d cfg cm ?j' ev i out) ?w3)"
      using Inr by (simp add: prepareNew_def now_def tick_def numeral_2_eq_2 numeral_3_eq_3 split: prod.splits)
    have clk: "strict \<longrightarrow> mono clk \<and> en_now E = clk" using pace by (simp add: pacing_def)
    have times: "strict \<longrightarrow> t0 \<le> clk (w_tick w)" "strict \<longrightarrow> t0 \<le> clk (w_tick w1 + 3)" "strict \<longrightarrow> ?tp \<le> clk (w_tick w1 + 3)"
      using t0 clk n q monoD [of clk n "w_tick w"] monoD [of clk n "w_tick w1 + 3"] monoD [of clk "w_tick w1 + 2" "w_tick w1 + 3"]
      by (auto simp: quietly_def)
    note may = mayFollow_new [OF pace times(1) w(2) pre Inr, of "ev_targets ev" "ev_historyWindow ev"]
    have "e_Phase (e\<lparr>e_Targets := ev_targets ev\<rparr>) = dispatchPrepared" using newDispatchEntry_fields(1) [OF Inr] by simp
    from tripleD [OF triple_sendNew [OF pace times(2,3) may refl this] stay [OF quietly(2)], of d ev i out]
    show ?thesis unfolding run goesOn_def by (simp add: split_beta)
  qed
qed

lemma triple_dispatchNew:
  assumes pace: "pacing J strict M clk E cfg" and t0: "strict \<longrightarrow> t \<le> clk n" and none: "unresolvedEntries j = []"
  shows "triple (stands J strict M t n cm j) (dispatchNew J E d observed cfg cm j i out) (goesOn J strict M clk t n cm j)"
  unfolding triple_def
proof (intro allI impI)
  fix w assume w: "stands J strict M t n cm j w"
  let ?c = "d_Candidate (snd out ! i)"
  obtain r w1 where pre: "run_state (preflight J E d (Some observed) ?c cfg j None) w = (r, w1)" by fastforce
  have w1: "stands J strict M t n cm j w1" using tripleD [OF triple_quiet [OF quiet_preflight] w] pre by (metis snd_conv)
  show "goesOn J strict M clk t n cm j (fst (run_state (dispatchNew J E d observed cfg cm j i out) w))
      (snd (run_state (dispatchNew J E d observed cfg cm j i out) w))"
  proof (cases r)
    case (Inl reason)
    then show ?thesis using w w1 pre by (simp add: dispatchNew_def Let_def goesOn_def)
  next
    case (Inr ev)
    let ?out = "recordAcceptedCandidate (ev_candidate ev) out"
    have "run_state (dispatchNew J E d observed cfg cm j i out) w = (Inl out, w)
        \<or> run_state (dispatchNew J E d observed cfg cm j i out) w = run_state (prepareNew J E d cfg cm j ev i ?out) w1"
      using pre Inr by (simp add: dispatchNew_def Let_def)
    moreover have "goesOn J strict M clk t n cm j (fst (run_state (prepareNew J E d cfg cm j ev i ?out) w1))
        (snd (run_state (prepareNew J E d cfg cm j ev i ?out) w1))"
      using triple_sendPrepared [OF pace t0 w none] pre Inr by blast
    moreover have "goesOn J strict M clk t n cm j (Inl out) w" using w by (simp add: goesOn_def)
    ultimately show ?thesis by (elim disjE) simp_all
  qed
qed

lemma triple_dispatchLoop:
  assumes pace: "pacing J strict M clk E cfg" and t0: "strict \<longrightarrow> t \<le> clk n" and none: "unresolvedEntries j = []"
  shows "triple (stands J strict M t n cm j) (dispatchLoop J E d observed cfg cm j is out) (well J strict M clk)"
proof (induction "is" arbitrary: out)
  case Nil
  show ?case using triple_well(2) [OF pace t0] by simp
next
  case (Cons i "is")
  have "triple (goesOn J strict M clk t n cm j r) (case r of Inl out \<Rightarrow> dispatchLoop J E d observed cfg cm j is out
     | Inr result \<Rightarrow> State_Monad.return result) (well J strict M clk)" for r
    using Cons.IH by (cases r) (auto simp: goesOn_def triple_def)
  from triple_bind [OF triple_dispatchNew [OF assms] this] show ?case by simp
qed

lemma triple_dispatchFirst:
  assumes "pacing J strict M clk E cfg" "strict \<longrightarrow> t \<le> clk n" "unresolvedEntries j = []"
  shows "triple (stands J strict M t n cm j) (dispatchFirst J E d observed cfg cm j out) (well J strict M clk)"
  unfolding dispatchFirst_def
  by (intro triple_gate triple_reads [OF quiet_reads(2)] triple_if triple_well(3) [OF assms(1,2)] triple_dispatchLoop [OF assms])

lemma triple_retryPending:
  assumes pace: "pacing J strict M clk E cfg" and t0: "strict \<longrightarrow> t \<le> clk n" and i: "i < length (entries j)"
  shows "triple (stands J strict M t n cm j) (retryPending J E d cfg cm j i out) (well J strict M clk)"
proof (cases "e_Phase (entries j ! i) = dispatchPrepared")
  case False
  then show ?thesis unfolding retryPending_def Let_def using triple_well(3) [OF pace t0] by simp
next
  case True
  note withheld = triple_well(3) [OF pace t0]
  have "decodes J" using pace by (simp add: pacing_def)
  note attempt = triple_attemptDispatch [OF this i True]
  have "triple (stands J strict M t n cm j) (do { r \<leftarrow> attemptDispatch J E d cm j i ev cfg;
      State_Monad.return (map_option f r) }) (well J strict M clk)" for ev and f :: "dispatchEntry \<Rightarrow> report"
    using fine_settled [OF pace t0] by (intro triple_bind [OF attempt] triple_ret) (simp add: well_def)
  then have "triple (stands J strict M t n cm j) (case evidence of Inl reason \<Rightarrow> withhold out' reason
      | Inr ev \<Rightarrow> do { r \<leftarrow> attemptDispatch J E d cm j i ev cfg; State_Monad.return (map_option (f ev) r) }) (well J strict M clk)"
    for evidence out' and f :: "dispatchEvidence \<Rightarrow> dispatchEntry \<Rightarrow> report"
    using withheld by (cases evidence) simp_all
  note resend = triple_reads [OF quiet_preflight this]
  show ?thesis
  proof (cases "requestForEntry J (entries j ! i)")
    case (Inl err)
    then show ?thesis unfolding retryPending_def Let_def using True by simp (intro triple_gate withheld)
  next
    case (Inr req)
    then show ?thesis unfolding retryPending_def Let_def using True by simp (intro triple_gate withheld resend)
  qed
qed

lemma triple_dispatchPending:
  assumes "pacing J strict M clk E cfg" "strict \<longrightarrow> t \<le> clk n"
  shows "triple (stands J strict M t n cm j) (dispatchPending J E d observed cfg cm j out) (well J strict M clk)"
proof (cases "pendingOf j")
  case Nil
  then have "unresolvedEntries j = []" by (simp add: pending_none [symmetric])
  then show ?thesis using Nil triple_dispatchFirst [OF assms] by (simp add: dispatchPending_def)
next
  case (Cons i "is")
  then have "i \<in> set (pendingOf j)" by simp
  then have "i < length (entries j)" by (simp add: pendingOf_def)
  then show ?thesis
    using Cons triple_retryPending [OF assms, of i j] triple_well(3) [OF assms] by (auto simp: dispatchPending_def split: list.splits)
qed

text \<open>Reconciling restates entries, one by one.\<close>

lemma reconciled_restated:
  assumes "validateDispatchJournal J j = None"
  shows "list_all2 restated (entries j) (entries (fst (reconcileDispatches opts look j)))"
proof -
  have "restated e (reconcileEntry opts l e)" if "e \<in> set (entries j)" for e l
    using that valid_entries(1) [OF assms] reconcileEntry_valid unfolding restated_def by metis
  then have "list_all2 restated (entries j) (map (\<lambda>k. reconcileEntry opts (look k) (entries j ! k)) [0..<length (entries j)])"
    by (simp add: list_all2_conv_all_nth)
  moreover have "entries (fst (reconcileDispatches opts look j)) = map (\<lambda>k. reconcileEntry opts (look k) (entries j ! k)) [0..<length (entries j)]"
    using valid_entries(3) [OF assms] by (auto simp: reconcileDispatches_def Let_def entries_def reconcileEntries_list)
  ultimately show ?thesis by simp
qed

lemma quiet_recordOutcomes [quiets]: "quiet (recordOutcomes E es)"
proof (induction es)
  case (Cons e es)
  have "quiet (recordOutcomeS E e)"
    unfolding recordOutcomeS_def by (intro quiets) (simp add: quiet_def quietly_def)
  then show ?case using Cons by (auto intro!: quiets)
qed (simp add: quiets)

lemma triple_reconcileThen:
  assumes pace: "pacing J strict M clk E cfg" and t0: "strict \<longrightarrow> t \<le> clk n"
  shows "triple (stands J strict M t n cm j) (reconcileThen J E d observed cfg cm j out) (well J strict M clk)"
  unfolding reconcileThen_def
proof (rule triple_bind)
  show "triple (stands J strict M t n cm j) (reconcileS E d j)
      (\<lambda>r w. stands J strict M t n cm j w \<and> list_all2 restated (entries j) (entries (fst r)))"
  proof -
    have "quiet (reconcileS E d j)" by (simp add: quiet_def quietly_def reconcileS_def)
    then show ?thesis
      using triple_quiet [of "reconcileS E d j" J strict M t n cm j]
      by (auto simp: triple_def reconcileS_def stands_def holds_def intro: reconciled_restated [OF journalOf_valid])
  qed
  fix r
  have law: "decodes J" using pace by (simp add: pacing_def)
  note pending = triple_dispatchPending [OF pace t0]
  have unavailable: "triple (\<lambda>w. fine J strict M t n w \<or> fine J strict M t n w) (withhold out ''JournalUnavailable'') (well J strict M clk)"
    using triple_well(4) [OF pace t0] by simp
  have after: "triple (stands J strict M t n cm2 (fst r)) (do { l \<leftarrow> loadS J E; case l of
      Inl _ \<Rightarrow> withhold out ''JournalUnavailable''
    | Inr (cm2, j2) \<Rightarrow> do { recordOutcomes E (snd r); dispatchPending J E d observed cfg cm2 j2 (foldl (reportDispatchEntry J) out (snd r)) } })
     (well J strict M clk)" for cm2
    by (intro triple_load_then triple_well [OF pace t0]) (simp, intro triple_reads [OF quiet_recordOutcomes] pending)
  show "triple (\<lambda>w. stands J strict M t n cm j w \<and> list_all2 restated (entries j) (entries (fst r)))
     (if fst r = j then dispatchPending J E d observed cfg cm j (foldl (reportDispatchEntry J) out (snd r))
      else do { saved \<leftarrow> saveS J E cm (fst r); if \<not> saved then withhold out ''JournalUnavailable'' else do { l \<leftarrow> loadS J E; case l of
      Inl _ \<Rightarrow> withhold out ''JournalUnavailable''
    | Inr (cm2, j2) \<Rightarrow> do { recordOutcomes E (snd r); dispatchPending J E d observed cfg cm2 j2 (foldl (reportDispatchEntry J) out (snd r)) } } })
     (well J strict M clk)"
  proof (cases "list_all2 restated (entries j) (entries (fst r))")
    case True
    then show ?thesis
      using pending triple_save_then [OF law mayFollow_reconcile unavailable after] by (auto intro: triple_pre)
  qed (simp add: triple_def)
qed

text \<open>The world a pass starts from has a journal that can be loaded.\<close>

lemma conforms_stands:
  assumes "conforms J strict M t w"
  shows "\<exists>j. stands J strict M t (w_tick w) (w_state w) j w"
proof -
  obtain p where p: "reachable strict M p" "tracks J strict t w p" using assms by (auto simp: conforms_def)
  have "p_history p \<noteq> []" using reachable_accounted [OF p(1)] by (simp add: accounted_def)
  then obtain j js where "p_history p = j # js" by (auto simp: neq_Nil_conv)
  then have "journalOf J (w_state w) = Some j" using p(2) by (auto simp: tracks_def)
  then show ?thesis using assms by (auto simp: stands_def fine_def holds_def)
qed

lemma triple_Execute:
  assumes pace: "pacing J strict M clk E cfg"
  shows "triple (settled J strict M clk) (Execute J E d observed candidates cfg) (well J strict M clk)"
  unfolding triple_def
proof (intro allI impI)
  fix w assume "settled J strict M clk w"
  then obtain t j where t: "strict \<longrightarrow> t \<le> clk (w_tick w)" and w: "stands J strict M t (w_tick w) (w_state w) j w"
    using conforms_stands unfolding settled_def by blast
  note ends = triple_well [OF pace t] and go = triple_reconcileThen [OF pace t]
  have "triple (stands J strict M t (w_tick w) (w_state w) j) (Execute J E d observed candidates cfg) (well J strict M clk)"
    unfolding Execute_def Let_def
    by (intro triple_reads [OF quiet_admitS] triple_if ends triple_load_then) (simp add: go)
  from tripleD [OF this w]
  show "well J strict M clk (fst (run_state (Execute J E d observed candidates cfg) w)) (snd (run_state (Execute J E d observed candidates cfg) w))" .
qed

subsection \<open>Any number of passes\<close>

text \<open>
  A pass is run by some leader, with its own memory (the arbiter), its own view of the cluster and its own
  configuration. \<open>None\<close> if a pass panics. Passes follow one another: leader election keeps two from overlapping.
\<close>

record ('p, 'q, 'r) pass =
  ps_arbiter :: arbiter
  ps_environment :: "('p, 'q, 'r) environment"
  ps_dispatcher :: Dispatcher
  ps_observed :: cluster_snapshot
  ps_candidates :: "candidate list"
  ps_config :: alfred_config

fun runPasses :: "journal_api \<Rightarrow> ('p, 'q, 'r) pass list \<Rightarrow> world \<Rightarrow> world option" where
  "runPasses J [] w = Some w"
| "runPasses J (p # ps) w =
     (case run_state (Execute J (ps_environment p) (ps_dispatcher p) (ps_observed p) (ps_candidates p) (ps_config p)) (w\<lparr>w_arbiter := ps_arbiter p\<rparr>) of
        (None, w') \<Rightarrow> None
      | (Some _, w') \<Rightarrow> runPasses J ps w')"

text \<open>The start: one stored journal with at most one unresolved entry, and no request.\<close>

definition begins :: "journal_api \<Rightarrow> dispatchJournal \<Rightarrow> world \<Rightarrow> bool" where
  "begins J j w \<longleftrightarrow> journalOf J (w_state w) = Some j \<and> w_history w = [w_state w] \<and> w_requests w = [] \<and> length (unresolvedEntries j) \<le> 1"

lemma begins_settled:
  assumes "begins J j w" "strict \<longrightarrow> withinLimit M \<lparr>p_time = clk (w_tick w), p_history = [j], p_requests = []\<rparr>"
  shows "settled J strict M clk w"
proof -
  let ?p = "\<lparr>p_time = clk (w_tick w), p_history = [j], p_requests = []\<rparr>"
  have "serial j" using assms(1) valid_entries(2) [OF journalOf_valid] by (auto simp: begins_def serial_def)
  then have "reachable strict M ?p" using assms(2) by (intro reachable.start) auto
  moreover have "tracks J strict (clk (w_tick w)) w ?p" using assms(1) by (simp add: begins_def tracks_def)
  ultimately have "conforms J strict M (clk (w_tick w)) w" using assms(1) by (auto simp: conforms_def begins_def)
  then show ?thesis unfolding settled_def by blast
qed

lemma runPasses_settled:
  assumes "\<forall>p \<in> set ps. pacing J strict M clk (ps_environment p) (ps_config p)" "settled J strict M clk w"
  shows "\<exists>w'. runPasses J ps w = Some w' \<and> settled J strict M clk w'"
  using assms
proof (induction ps arbitrary: w)
  case (Cons p ps)
  let ?w = "w\<lparr>w_arbiter := ps_arbiter p\<rparr>"
  obtain r w1 where run: "run_state (Execute J (ps_environment p) (ps_dispatcher p) (ps_observed p) (ps_candidates p) (ps_config p)) ?w = (r, w1)"
    by fastforce
  have "settled J strict M clk ?w" using Cons.prems(2) by (simp add: settled_def conforms_def tracks_def)
  moreover have "pacing J strict M clk (ps_environment p) (ps_config p)" using Cons.prems(1) by simp
  ultimately have "well J strict M clk r w1" using tripleD [OF triple_Execute, of J strict M clk] run by (metis fst_conv snd_conv)
  then show ?case using Cons.IH Cons.prems(1) run by (auto simp: well_def)
qed auto

lemma pacing_lax: "decodes J \<Longrightarrow> pacing J False M clk E cfg"
  by (simp add: pacing_def)

lemma settled_reachable:
  assumes "settled J strict M clk w"
  obtains p where "reachable strict M p" "map (journalOf J) (w_history w) = map Some (p_history p)" "map fst (w_requests w) = p_requests p"
    "\<forall>r \<in> set (w_requests w). snd r \<in> set (w_history w) \<and> justified J r"
  using assms unfolding settled_def conforms_def tracks_def by blast

text \<open>The stored journals.\<close>

definition journals :: "journal_api \<Rightarrow> world \<Rightarrow> dispatchJournal set" where
  "journals J w = {j. \<exists>cm \<in> set (w_history w). journalOf J cm = Some j}"

lemma journals_history: "map (journalOf J) (w_history w) = map Some js \<Longrightarrow> journals J w = set js"
proof -
  assume "map (journalOf J) (w_history w) = map Some js"
  then have "journalOf J ` set (w_history w) = Some ` set js" by (metis list.set_map)
  then show ?thesis unfolding journals_def by (auto simp: image_iff) (metis imageE imageI option.inject)+
qed

lemma justified_alone:
  assumes "justified J (e, cm)"
  shows "\<exists>j. journalOf J cm = Some j \<and> unresolvedEntries j = [e] \<and> e_Phase e = dispatchPrepared \<and> e_LastAttempt e \<noteq> None"
proof -
  obtain j where j: "journalOf J cm = Some j" "e \<in> set (entries j)" "e_Phase e = dispatchPrepared" "e_LastAttempt e \<noteq> None" "serial j"
    using assms by (auto simp: justified_def split: option.splits)
  then have "e \<in> set (unresolvedEntries j)" "length (unresolvedEntries j) \<le> 1"
    using prepared_not_terminal by (auto simp: unresolvedEntries_def serial_def)
  then have "unresolvedEntries j = [e]" by (cases "unresolvedEntries j") auto
  then show ?thesis using j by blast
qed

end
