(* ===== verification/Alfred_Passes.thy ===== *)
theory Alfred_Passes
  imports Alfred_Serial
begin

section \<open>What every sequence of passes keeps\<close>

text \<open>
  The theorems about the dispatcher, for every list of passes and every behaviour of the API server, and a
  worked pass that sends one request.
\<close>

definition finishedUUIDs :: "journal_api \<Rightarrow> world \<Rightarrow> string set" where
  "finishedUUIDs J w = (\<Union>j \<in> journals J w. e_UUID ` {e \<in> set (entries j). terminal e})"

definition intentsWithin :: "journal_api \<Rightarrow> world \<Rightarrow> time \<Rightarrow> string set" where
  "intentsWithin J w t = (\<Union>j \<in> journals J w. e_UUID ` {e \<in> set (entries j). t - Hour \<le> e_CreatedAt e \<and> e_CreatedAt e \<le> t})"

lemma intentsWithin_hourOf: "journals J w = set (p_history p) \<Longrightarrow> intentsWithin J w t = hourOf t (intents p)"
  by (auto simp: intentsWithin_def hourOf_def intents_def image_iff)

subsection \<open>The theorems\<close>

lemma passes_return:
  assumes "decodes J" "begins J j w"
  shows "\<exists>w'. runPasses J ps w = Some w'"
proof -
  have "settled J False 0 (\<lambda>_. 0) w" by (rule begins_settled [OF assms(2)]) simp
  then show ?thesis using runPasses_settled [of ps J False 0 "\<lambda>_. 0" w] pacing_lax [OF assms(1)] by blast
qed

text \<open>
  C7: Write-ahead. No pass panics, whatever the API server answers, and every request that ever reached it was
  at that moment in a stored journal, prepared, stamped with an attempt, and the only unresolved entry there. The
  one assumption is that decoding a stored journal gives back what was encoded.
\<close>

theorem requests_written_ahead:
  assumes "decodes J" "begins J j w"
  shows "\<exists>w'. runPasses J ps w = Some w' \<and> (\<forall>(e, cm) \<in> set (w_requests w'). cm \<in> set (w_history w')
     \<and> (\<exists>j. journalOf J cm = Some j \<and> unresolvedEntries j = [e] \<and> e_Phase e = dispatchPrepared \<and> e_LastAttempt e \<noteq> None))"
proof -
  have "settled J False 0 (\<lambda>_. 0) w" by (rule begins_settled [OF assms(2)]) simp
  then obtain w' where w': "runPasses J ps w = Some w'" "settled J False 0 (\<lambda>_. 0) w'"
    using runPasses_settled [of ps J False 0 "\<lambda>_. 0" w] pacing_lax [OF assms(1)] by blast
  from w'(2) show ?thesis
  proof (rule settled_reachable)
    assume "\<forall>r \<in> set (w_requests w'). snd r \<in> set (w_history w') \<and> justified J r"
    then have "\<forall>(e, cm) \<in> set (w_requests w'). cm \<in> set (w_history w') \<and> (\<exists>j. journalOf J cm = Some j \<and> unresolvedEntries j = [e]
        \<and> e_Phase e = dispatchPrepared \<and> e_LastAttempt e \<noteq> None)"
      using justified_alone [of J] by (auto simp del: not_None_eq)
    then show ?thesis using w'(1) by blast
  qed
qed

text \<open>
  C6: Serial dispatch. Of all the migrations ever requested, by any number of passes and leaders, at most one is
  without a recorded end: every other one is completed or failed in some stored journal.
\<close>

theorem one_open_request:
  assumes "decodes J" "begins J j w"
  shows "\<exists>w'. runPasses J ps w = Some w' \<and> card (e_UUID ` fst ` set (w_requests w') - finishedUUIDs J w') \<le> 1"
proof -
  have "settled J False 0 (\<lambda>_. 0) w" by (rule begins_settled [OF assms(2)]) simp
  then obtain w' where w': "runPasses J ps w = Some w'" "settled J False 0 (\<lambda>_. 0) w'"
    using runPasses_settled [of ps J False 0 "\<lambda>_. 0" w] pacing_lax [OF assms(1)] by blast
  obtain p where p: "reachable False 0 p" "map (journalOf J) (w_history w') = map Some (p_history p)" "map fst (w_requests w') = p_requests p"
    by (rule settled_reachable [OF w'(2)])
  have "finishedUUIDs J w' = closed p" using journals_history [OF p(2)] by (simp add: finishedUUIDs_def closed_def)
  moreover have "fst ` set (w_requests w') = set (p_requests p)" using p(3) by (metis list.set_map)
  ultimately show ?thesis using w'(1) reachable_one_open [OF p(1)] by auto
qed

text \<open>
  C8: The rolling hour. All passes read one clock that never goes back, their configured limits are at most \<open>M\<close>, and
  new UUIDs have no slash, as \<^verbatim>\<open>uuid.NewString\<close> spells them. The journal at the start has no slash in its UUIDs, no entry
  ahead of the clock and no hour with more than \<open>M\<close> intents. Then no hour ever contains more than \<open>M\<close> intents, counted over
  every journal ever stored, although finished entries are pruned.
\<close>

theorem hourly_limit:
  assumes "decodes J" "mono clk" "begins J j w"
    and passes: "\<forall>p \<in> set ps. en_now (ps_environment p) = clk \<and> (\<forall>n. slashless (en_uuid (ps_environment p) n))
      \<and> MaxMigrationsPerHour (ps_config p) \<le> int M"
    and past: "\<forall>e \<in> set (entries j). slashless (e_UUID e) \<and> e_CreatedAt e \<le> clk (w_tick w)"
    and start: "\<forall>t. card (intentsWithin J w t) \<le> M"
  shows "\<exists>w'. runPasses J ps w = Some w' \<and> (\<forall>t. card (intentsWithin J w' t) \<le> M)"
proof -
  let ?p = "\<lparr>p_time = clk (w_tick w), p_history = [j], p_requests = []\<rparr>"
  have "journals J w = set (p_history ?p)" using assms(3) by (auto simp: journals_def begins_def)
  then have "withinLimit M ?p" using past start intentsWithin_hourOf [of J w ?p] by (auto simp: withinLimit_def intents_def)
  then have "settled J True M clk w" by (intro begins_settled [OF assms(3)]) simp
  moreover have "\<forall>p \<in> set ps. pacing J True M clk (ps_environment p) (ps_config p)" using assms(1,2) passes by (simp add: pacing_def)
  ultimately obtain w' where w': "runPasses J ps w = Some w'" "settled J True M clk w'" using runPasses_settled by blast
  obtain p where p: "reachable True M p" "map (journalOf J) (w_history w') = map Some (p_history p)" by (rule settled_reachable [OF w'(2)])
  have "withinLimit M p" using reachable_limit [OF p(1)] by simp
  then show ?thesis using w'(1) intentsWithin_hourOf [OF journals_history [OF p(2)]] by (simp add: withinLimit_def)
qed

subsection \<open>A pass that sends one request\<close>

text \<open>Four journals and their encodings: empty, with the intent, with the attempt, with the answer.\<close>

definition sentEntry :: "time option \<Rightarrow> string \<Rightarrow> string \<Rightarrow> dispatchEntry" where
  "sentEntry attempt phase reason = (demoEntry ''u9'' (100 * Hour) phase None)
     \<lparr>e_SourceFingerprint := ''semantic-v1:f'', e_LastAttempt := attempt, e_Reason := reason\<rparr>"

definition sentJournal :: "dispatchEntry list \<Rightarrow> dispatchJournal" where
  "sentJournal es = \<lparr>Version = ''v1'', Entries = Some es, BackoffUntil = None\<rparr>"

definition sentJournals :: "(string \<times> dispatchJournal) list" where
  "sentJournals = [(''0'', sentJournal []), (''1'', sentJournal [sentEntry None dispatchPrepared []]),
     (''2'', sentJournal [sentEntry (Some (100 * Hour)) dispatchPrepared ''SubmissionPrepared'']),
     (''3'', sentJournal [sentEntry (Some (100 * Hour)) dispatchSubmitted ''RequestSubmitted''])]"

definition sentRequest :: migrationRequest where
  "sentRequest = \<lparr>r_SchemaVersion = ''v1'', r_Component = ''engine'', r_Instance = 0, r_FromNode = ''n1'', r_HintTargetNodes = [''n2''],
     r_Reason = ReasonNodeUnhealthy, r_RequestedAt = ''t'', r_RequestedBy = ''alfred''\<rparr>"

definition tableAPI :: journal_api where
  "tableAPI = demoAPI\<lparr>DecodeRequest := (\<lambda>raw. if raw = ''r'' then Some sentRequest else None),
     MarshalJournal := (\<lambda>j. map_option fst (find (\<lambda>x. snd x = j) sentJournals)), DecodeJournal := map_of sentJournals\<rparr>"

definition demoMove :: candidate where
  "demoMove = (demoCandidate ''w1'' ReasonNodeUnhealthy 6)\<lparr>c_HintTargetNodes := [''n2'']\<rparr>"

definition newArbiter :: arbiter where
  "newArbiter = \<lparr>a_Ledger = None, a_AutoscalerIntent = None\<rparr>"

definition readyCapture :: capture where
  "readyCapture = demoCapture\<lparr>InferenceReplicas := [demoReplica []],
     Objects := [Some \<lparr>ob_Kind = ''Node'', ob_APIVersion = ''v1'', ob_Name = ''n2'', ob_Conditions = [(''Ready'', ''True'')]\<rparr>]\<rparr>"

definition calmEnvironment :: "(unit, unit, unit) environment" where
  "calmEnvironment = \<lparr>en_now = (\<lambda>_. 100 * Hour), en_outcome = (\<lambda>_. Applied), en_owner = (\<lambda>_ _. Some demoService),
     en_replica = (\<lambda>_ _. Some (demoReplica [])),
     en_gate = (\<lambda>_. \<lparr>g_ConfigurationChanged = False, g_Deadline = False, g_MaintenanceFence = False, g_Guard = False\<rparr>),
     en_uuid = (\<lambda>_. ''u9''), en_observe = (\<lambda>_ _ _. Some demoSnapshot), en_capture = (\<lambda>_ _ _. Some readyCapture),
     en_score = (\<lambda>_ _ _. None), en_simulate = (\<lambda>_ _. Some ()), fn_ExecutionSourcePods = (\<lambda>_ _ _. Some ()),
     fn_BuildExecutionRequest = (\<lambda>_ _ _ _ _ _. Some ()), fn_SourcePods = (\<lambda>_. ()), fn_noRequest = (), fn_noResult = (),
     fn_feasible = (\<lambda>_ _. True), fn_Placements = (\<lambda>_. [''n2'']), fn_captureValid = (\<lambda>_ _. True), fn_ownersMatch = (\<lambda>_ _ _. True),
     fn_membersMatch = (\<lambda>_ _ _. True), fn_owners = (\<lambda>_ _. Some (demoService, demoReplica [])),
     fn_fingerprint = (\<lambda>_ _ _ _ _. Some ''semantic-v1:f''), fn_SameSchedulingState = (\<lambda>_ _. True),
     fn_SourcePlacementTargets = (\<lambda>_ _. None), fn_RevalidatePlacement = (\<lambda>_ _ _ _. None)\<rparr>"

definition calmDispatcher :: Dispatcher where
  "calmDispatcher = \<lparr>dp_Reader = True, dp_Client = True, dp_Namespace = ''alfred'', dp_Simulator = True, dp_Options = demoOptions,
     dp_Policies = [\<lambda>_ _. [demoMove]]\<rparr>"

definition calmPass :: "(unit, unit, unit) pass" where
  "calmPass = \<lparr>ps_arbiter = newArbiter, ps_environment = calmEnvironment,
     ps_dispatcher = calmDispatcher,
     ps_observed = demoSnapshot, ps_candidates = [demoMove], ps_config = demoConfig\<rparr>"

definition stateMap :: "nat \<Rightarrow> string \<Rightarrow> config_map" where
  "stateMap v raw = \<lparr>cm_Namespace = ''alfred'', cm_Name = dispatchStateName, cm_ResourceVersion = v, cm_Data = [(dispatchStateKey, raw)]\<rparr>"

definition freshWorld :: world where
  "freshWorld = \<lparr>w_state = stateMap 5 ''0'', w_history = [stateMap 5 ''0''], w_requests = [], w_arbiter = newArbiter, w_tick = 0\<rparr>"

lemma tableAPI_decodes: "decodes tableAPI"
proof -
  have "distinct (map fst sentJournals)" by (simp add: sentJournals_def)
  then have "map_of sentJournals raw = Some j" if found: "map_option fst (find (\<lambda>x. snd x = j) sentJournals) = Some raw" for j raw
  proof -
    obtain x where x: "find (\<lambda>x. snd x = j) sentJournals = Some x" "fst x = raw" using found by auto
    then have "(raw, j) \<in> set sentJournals" unfolding find_Some_iff by (metis nth_mem prod.collapse)
    then show ?thesis using \<open>distinct (map fst sentJournals)\<close> by (simp add: map_of_eq_Some_iff)
  qed
  then show ?thesis by (simp add: decodes_def tableAPI_def)
qed

lemma freshWorld_begins: "begins tableAPI (sentJournal []) freshWorld"
  by (simp add: begins_def freshWorld_def stateMap_def journalOf_def loadDispatchJournal_def tableAPI_def sentJournals_def dispatchStateMaxBytes_def
      validateDispatchJournal_def sentJournal_def dispatchMaxEntries_def unresolvedEntries_def entries_def)

text \<open>The pass, stage by stage.\<close>

lemma Admit_newArbiter:
  "Admit newArbiter demoSnapshot [demoMove] demoConfig (100 * Hour) = ([admission demoMove ''n2'' False], newArbiter)"
proof -
  have "fst (Admit newArbiter demoSnapshot [demoMove] demoConfig (100 * Hour)) = [admission demoMove ''n2'' False]" by code_simp
  moreover have "snd (Admit newArbiter demoSnapshot [demoMove] demoConfig (100 * Hour)) = newArbiter"
    by (simp add: Admit_def Let_def newAdmitState_def newArbiter_def split: prod.splits)
  ultimately show ?thesis by (simp add: prod_eq_iff)
qed

definition calmEvidence :: dispatchEvidence where
  "calmEvidence = \<lparr>ev_candidate = demoMove, ev_owner = demoService, ev_ir = demoReplica [], ev_fingerprint = ''semantic-v1:f'',
     ev_targets = [''n2''], ev_historyWindow = 2 * Hour\<rparr>"

lemma run_andThen_eq: "run_state (andThen m f) w = (case run_state m w of (Inl err, w') \<Rightarrow> (Inl err, w') | (Inr x, w') \<Rightarrow> run_state (f x) w')"
  by (simp add: andThen_def split: prod.splits sum.splits)

lemma calm_facts:
  "dispatchBudget readyCapture (sentJournal []) demoMove demoConfig (100 * Hour) None = []"
  "dispatchHistoryWindow readyCapture demoConfig = Some (2 * Hour)"
  "observationFresh demoSnapshot (100 * Hour)"
  "freshCandidate calmDispatcher demoSnapshot demoMove demoConfig = Some demoMove"
  "executionEnabled calmDispatcher demoConfig \<lparr>g_ConfigurationChanged = False, g_Deadline = False, g_MaintenanceFence = False, g_Guard = False\<rparr> = None"
  "\<not> UnavailableAsTarget (map_of (Nodes demoSnapshot) ''n2'')" "capturedNodeReady readyCapture ''n2''"
  "\<not> journalNodeCooling (sentJournal []) ''n2'' (PerNodeCooldown demoConfig) (100 * Hour) None"
  "\<not> c_TPUSlice demoMove" "dp_Simulator calmDispatcher" "targetNodes demoMove = [''n2'']" "c_HintTargetNodes demoMove = [''n2'']"
  "c_Policy demoMove \<noteq> defragPolicyName" "d_Admitted (admission demoMove ''n2'' False)"
  by code_simp+

lemmas calm_steps = run_andThen_eq check_def require_def refuse_def ask_def ok_def tick_def now_def admitS_def enabledS_def

text \<open>What the calm environment answers.\<close>

lemma calm_answers [simp]:
  "en_now calmEnvironment n = 100 * Hour" "en_outcome calmEnvironment n = Applied" "en_owner calmEnvironment n k = Some demoService"
  "en_gate calmEnvironment n = \<lparr>g_ConfigurationChanged = False, g_Deadline = False, g_MaintenanceFence = False, g_Guard = False\<rparr>"
  "en_uuid calmEnvironment n = ''u9''" "en_observe calmEnvironment n b cfg = Some demoSnapshot" "en_capture calmEnvironment n b c = Some readyCapture"
  "en_simulate calmEnvironment n u = Some ()" "sourceOf calmEnvironment b s c cfg i hints t = Some ((), ())"
  "sourceMatches calmEnvironment snap s c u" "ownersOf calmEnvironment False snap s c = Some (demoService, demoReplica [])"
  "fn_fingerprint calmEnvironment o' ir u x b = Some ''semantic-v1:f''" "fn_feasible calmEnvironment u v" "fn_captureValid calmEnvironment s t"
  "fn_SameSchedulingState calmEnvironment s s'" "fn_Placements calmEnvironment v = [''n2'']"
  by (simp_all add: calmEnvironment_def sourceOf_def sourceMatches_def ownersOf_def)

definition calmLook :: "(unit, unit) first_look" where
  "calmLook = \<lparr>fl_fresh = demoSnapshot, fl_current = demoMove, fl_captured = readyCapture, fl_hints = [''n2''], fl_request = (), fl_pods = (),
     fl_owner = demoService, fl_ir = demoReplica []\<rparr>"

definition calmFinal :: final_look where
  "calmFinal = \<lparr>nl_final = demoSnapshot, nl_candidate = demoMove, nl_capture = readyCapture, nl_owner = demoService, nl_ir = demoReplica []\<rparr>"

lemma calm_firstLook:
  assumes "w_arbiter w = newArbiter"
  shows "\<exists>k. run_state (firstLook tableAPI calmEnvironment calmDispatcher False (Some demoSnapshot) demoMove demoConfig (sentJournal []) None) w
     = (Inr calmLook, w\<lparr>w_tick := k\<rparr>)"
  using assms by (simp add: firstLook_def calmLook_def calm_steps calm_facts Admit_newArbiter notAdmitted_def exceeded_def hintsFor_def)
    (metis (no_types) world.surjective world.update_convs(4,5))

lemma calm_finalLook:
  "\<exists>k. run_state (finalLook calmEnvironment calmDispatcher False demoConfig None calmLook True ''semantic-v1:f'') w = (Inr calmFinal, w\<lparr>w_tick := k\<rparr>)"
  by (simp add: finalLook_def calmLook_def calmFinal_def calm_steps calm_facts) blast

lemma calm_authorise:
  assumes "w_arbiter w = newArbiter"
  shows "\<exists>k. run_state (authorise calmEnvironment calmDispatcher demoConfig (sentJournal []) None calmLook ''semantic-v1:f'' [''n2''] calmFinal demoMove) w
     = (Inr calmEvidence, w\<lparr>w_tick := k\<rparr>)"
proof -
  have "demoMove\<lparr>c_HintTargetNodes := [''n2'']\<rparr> = demoMove" by (simp add: demoMove_def demoCandidate_def)
  then show ?thesis
    using assms by (simp add: authorise_def calmLook_def calmFinal_def calmEvidence_def calm_steps calm_facts Admit_newArbiter notAdmitted_def exceeded_def
        safeTarget_def) (metis (no_types) world.surjective world.update_convs(4,5))
qed

lemma calm_preflight:
  assumes w: "w_arbiter w = newArbiter"
  shows "\<exists>k. run_state (preflight tableAPI calmEnvironment calmDispatcher (Some demoSnapshot) demoMove demoConfig (sentJournal []) None) w
     = (Inr calmEvidence, w\<lparr>w_tick := k\<rparr>)"
proof -
  have slice: "\<not> sliceMove demoMove None" by (simp add: sliceMove_def calm_facts)
  obtain k1 where first: "run_state (firstLook tableAPI calmEnvironment calmDispatcher False (Some demoSnapshot) demoMove demoConfig (sentJournal []) None) w
     = (Inr calmLook, w\<lparr>w_tick := k1\<rparr>)" using calm_firstLook [OF w] by blast
  have fence: "run_state (sourceFence calmEnvironment calmLook True None) v = (Inr ''semantic-v1:f'', v)" for v
    by (simp add: sourceFence_def calm_steps)
  have sim: "run_state (simulateS calmEnvironment False calmLook) v = (Inr (), v\<lparr>w_tick := w_tick v + 1\<rparr>)" for v
    by (simp add: simulateS_def calm_steps)
  have still: "run_state (stillFresh calmEnvironment calmLook) v = (Inr (), v\<lparr>w_tick := w_tick v + 2\<rparr>)" for v
    by (simp add: stillFresh_def calm_steps calmLook_def calm_facts)
  obtain k2 where final: "run_state (finalLook calmEnvironment calmDispatcher False demoConfig None calmLook True ''semantic-v1:f'') (w\<lparr>w_tick := Suc (Suc (Suc k1))\<rparr>)
     = (Inr calmFinal, w\<lparr>w_tick := k2\<rparr>)" using calm_finalLook [of "w\<lparr>w_tick := Suc (Suc (Suc k1))\<rparr>"] by auto
  have score: "run_state (rescore calmEnvironment demoConfig calmLook () calmFinal) v = (Inr demoMove, v)" for v
    by (simp add: rescore_def calmFinal_def calm_facts)
  obtain k3 where auth: "run_state (authorise calmEnvironment calmDispatcher demoConfig (sentJournal []) None calmLook ''semantic-v1:f'' [''n2''] calmFinal demoMove)
     (w\<lparr>w_tick := k2\<rparr>) = (Inr calmEvidence, w\<lparr>w_tick := k3\<rparr>)" using calm_authorise [of "w\<lparr>w_tick := k2\<rparr>"] w by auto
  have "run_state (preflight tableAPI calmEnvironment calmDispatcher (Some demoSnapshot) demoMove demoConfig (sentJournal []) None) w
     = (Inr calmEvidence, w\<lparr>w_tick := k3\<rparr>)"
    unfolding preflight_def Let_def using final
    by (simp add: slice run_andThen_eq first require_def fingerprintVersion_def fence sim still score auth add.assoc)
  then show ?thesis by blast
qed

lemma table_valid:
  "validateDispatchJournal tableAPI (sentJournal []) = None"
  "p = dispatchPrepared \<Longrightarrow> a \<in> {None, Some (100 * Hour)} \<Longrightarrow> validateDispatchJournal tableAPI (sentJournal [sentEntry a p r]) = None"
  by (auto simp: validateDispatchJournal_def sentJournal_def dispatchMaxEntries_def validateDispatchEntry_def validateIntent_def tableAPI_def demoAPI_def
      sentEntry_def demoEntry_def supportedComponents_def dispatchPayloadMax_def Hour_def)

lemma table_codec:
  "MarshalJournal tableAPI (sentJournal [sentEntry None dispatchPrepared []]) = Some ''1''"
  "MarshalJournal tableAPI (sentJournal [sentEntry (Some (100 * Hour)) dispatchPrepared ''SubmissionPrepared'']) = Some ''2''"
  "DecodeJournal tableAPI ''0'' = Some (sentJournal [])"
  "DecodeJournal tableAPI ''1'' = Some (sentJournal [sentEntry None dispatchPrepared []])"
  by (simp_all add: tableAPI_def sentJournals_def) (simp_all add: sentJournal_def sentEntry_def demoEntry_def)

lemma calm_journal:
  "saveDispatchJournal tableAPI (stateMap 5 ''0'') (sentJournal [sentEntry None dispatchPrepared []]) = Inr (stateMap 5 ''1'')"
  "loadDispatchJournal tableAPI (Some (stateMap 5 ''0'')) = Inr (stateMap 5 ''0'', sentJournal [])"
  "loadDispatchJournal tableAPI (Some (stateMap 6 ''1'')) = Inr (stateMap 6 ''1'', sentJournal [sentEntry None dispatchPrepared []])"
  "saveDispatchJournal tableAPI (stateMap 6 ''1'') (sentJournal [sentEntry (Some (100 * Hour)) dispatchPrepared ''SubmissionPrepared''])
     = Inr (stateMap 6 ''2'')"
  by (simp_all add: saveDispatchJournal_def loadDispatchJournal_def stateMap_def table_valid table_codec dispatchStateMaxBytes_def)

lemma calm_entry:
  "newDispatchEntry tableAPI ''u9'' demoMove (sv_UID demoService) (snd (ir_Name (demoReplica []))) (ir_UID (demoReplica [])) ''semantic-v1:f'' (100 * Hour)
     = Inr ((sentEntry None dispatchPrepared [])\<lparr>e_Targets := []\<rparr>)"
  "addEntry ((sentEntry None dispatchPrepared [])\<lparr>e_Targets := [''n2'']\<rparr>) (pruneDispatchHistory (sentJournal []) (2 * Hour) (100 * Hour))
     = sentJournal [sentEntry None dispatchPrepared []]"
  "putEntry 0 ((sentEntry None dispatchPrepared [])\<lparr>e_LastAttempt := Some (100 * Hour), e_Reason := ''SubmissionPrepared''\<rparr>)
       (sentJournal [sentEntry None dispatchPrepared []])
     = sentJournal [sentEntry (Some (100 * Hour)) dispatchPrepared ''SubmissionPrepared'']"
  by code_simp+

lemma saveS_requests: "w_requests (snd (run_state (saveS J E cm j) w)) = w_requests w"
  by (simp add: saveS_def putState_def store_def Let_def split: sum.splits outcome.splits)

lemma recordAnswer_requests: "w_requests (snd (run_state (recordAnswer J E i e) w)) = w_requests w"
proof -
  obtain r w1 where load: "run_state (loadS J E) w = (r, w1)" by fastforce
  have w1: "w_requests w1 = w_requests w" using quietD [OF quiet_reads(4) load] by (simp add: quietly_def)
  show ?thesis
    using w1 saveS_requests [of J E _ _ w1] by (auto simp: recordAnswer_def load split: sum.splits prod.splits) (metis snd_conv)
qed

abbreviation stamped :: dispatchEntry where
  "stamped \<equiv> sentEntry (Some (100 * Hour)) dispatchPrepared ''SubmissionPrepared''"

lemma stamped_facts [simp]:
  "requestForEntry tableAPI stamped = Inr sentRequest" "map_of (sv_Annotations demoService) (migrationRequestPrefix @ e_UUID stamped) = None"
  "e_WorkloadUID stamped = ''o''" "sv_UID demoService = ''o''" "sv_ResourceVersion demoService = 7" "sv_Name demoService = e_Workload stamped"
  by code_simp+

lemma calm_submit:
  assumes "w_requests w = []"
  shows "map fst (w_requests (snd (run_state (submitPrepared tableAPI calmEnvironment calmDispatcher demoConfig i demoService stamped) w))) = [stamped]"
  using assms
  by (simp add: submitPrepared_def enabledS_def tick_def calm_facts submitDispatch_def patchOwner_def Let_def recordAnswer_requests split: prod.splits)

lemma stateMap_version [simp]: "cm_ResourceVersion (stateMap v raw) = v" "(stateMap v raw)\<lparr>cm_ResourceVersion := v'\<rparr> = stateMap v' raw"
  by (simp_all add: stateMap_def)

lemma calm_attempt:
  assumes "w_state w = stateMap 6 ''1''" "w_requests w = []"
  shows "map fst (w_requests (snd (run_state (attemptEntry tableAPI calmEnvironment calmDispatcher (stateMap 6 ''1'')
    (sentJournal [sentEntry None dispatchPrepared []]) 0 calmEvidence demoConfig (sentEntry None dispatchPrepared [])) w))) = [stamped]"
proof -
  have stamp: "(sentEntry None dispatchPrepared [])\<lparr>e_LastAttempt := Some (100 * Hour), e_Reason := ''SubmissionPrepared''\<rparr> = stamped"
    by (simp add: sentEntry_def demoEntry_def)
  have store: "putEntry 0 stamped (sentJournal [sentEntry None dispatchPrepared []]) = sentJournal [stamped]"
    by (simp add: putEntry_def sentJournal_def)
  show ?thesis
    using assms
    by (simp add: attemptEntry_def enabledS_def tick_def calm_facts acceptedOwner_def calmEvidence_def stampEntry_def now_def stamp store
        saveS_def calm_journal putState_def store_def Let_def calm_submit)
qed

lemma calm_send:
  assumes "w_state w = stateMap 5 ''0''" "w_requests w = []"
  shows "map fst (w_requests (snd (run_state (sendNew tableAPI calmEnvironment calmDispatcher demoConfig (stateMap 5 ''0'')
    (sentJournal [sentEntry None dispatchPrepared []]) calmEvidence i out) w))) = [stamped]"
proof -
  have one: "entries (sentJournal [e]) = [e]" for e by (simp add: sentJournal_def entries_def)
  have attempt: "map fst (w_requests (snd (run_state (attemptDispatch tableAPI calmEnvironment calmDispatcher (stateMap 6 ''1'')
      (sentJournal [sentEntry None dispatchPrepared []]) 0 calmEvidence demoConfig) v))) = [stamped]"
    if "w_state v = stateMap 6 ''1''" "w_requests v = []" for v
    using calm_attempt [OF that] by (simp add: attemptDispatch_def one split_beta)
  have report: "w_requests (snd (run_state (case r of None \<Rightarrow> State_Monad.return None | Some e \<Rightarrow> withhold (f e) reason) v)) = w_requests v"
    for r f reason v by (simp add: withhold_def split: option.splits)
  show ?thesis
    using assms
    by (simp add: sendNew_def saveS_def calm_journal putState_def store_def Let_def sendStored_def loadS_def getState_def one report attempt
        split_beta)
qed

lemma calm_new:
  assumes "w_state w = stateMap 5 ''0''" "w_requests w = []" "w_arbiter w = newArbiter" "snd out ! i = markWithheld (admission demoMove ''n2'' False)"
  shows "map fst (w_requests (snd (run_state (dispatchNew tableAPI calmEnvironment calmDispatcher demoSnapshot demoConfig (stateMap 5 ''0'') (sentJournal []) i out) w)))
     = [stamped]"
    "\<exists>r. fst (run_state (dispatchNew tableAPI calmEnvironment calmDispatcher demoSnapshot demoConfig (stateMap 5 ''0'') (sentJournal []) i out) w) = Inr r"
proof -
  obtain k where pre: "run_state (preflight tableAPI calmEnvironment calmDispatcher (Some demoSnapshot) demoMove demoConfig (sentJournal []) None) w
     = (Inr calmEvidence, w\<lparr>w_tick := k\<rparr>)" using calm_preflight [OF assms(3)] by blast
  have dec: "d_Candidate (markWithheld (admission demoMove ''n2'' False)) = demoMove" "d_Admitted (markWithheld (admission demoMove ''n2'' False))"
    "c_Executable demoMove" "c_Mode demoMove = ''OMENative''" by code_simp+
  have ev: "ev_candidate calmEvidence = demoMove" "ev_owner calmEvidence = demoService" "ev_ir calmEvidence = demoReplica []"
    "ev_fingerprint calmEvidence = ''semantic-v1:f''" "ev_targets calmEvidence = [''n2'']" "ev_historyWindow calmEvidence = 2 * Hour"
    by (simp_all add: calmEvidence_def)
  note run = dispatchNew_def Let_def assms(4) dec pre prepareNew_def now_def tick_def ev calm_entry [unfolded stamped_facts]
  show "map fst (w_requests (snd (run_state (dispatchNew tableAPI calmEnvironment calmDispatcher demoSnapshot demoConfig (stateMap 5 ''0'') (sentJournal []) i out) w)))
     = [stamped]"
    using assms(1,2) by (simp add: run calm_send split_beta)
  show "\<exists>r. fst (run_state (dispatchNew tableAPI calmEnvironment calmDispatcher demoSnapshot demoConfig (stateMap 5 ''0'') (sentJournal []) i out) w) = Inr r"
    using assms(1,2) by (simp add: run split_beta)
qed

lemma calm_run: "\<exists>w. runPasses tableAPI [calmPass] freshWorld = Some w \<and> map fst (w_requests w) = [stamped]"
proof -
  let ?out = "([demoMove], [markWithheld (admission demoMove ''n2'' False)])"
  obtain w' where w': "runPasses tableAPI [calmPass] freshWorld = Some w'"
    using passes_return tableAPI_decodes freshWorld_begins by blast
  have none: "reconcileDispatches opts look (sentJournal []) = (sentJournal [], [])" for opts look
    by (simp add: reconcileDispatches_def sentJournal_def entries_def)
  have pending: "pendingOf (sentJournal []) = []" by (simp add: pendingOf_def sentJournal_def entries_def)
  have calm: "BackoffUntil (sentJournal []) = None" by (simp add: sentJournal_def)
  have pass: "ps_arbiter calmPass = newArbiter" "ps_environment calmPass = calmEnvironment" "ps_dispatcher calmPass = calmDispatcher"
    "ps_observed calmPass = demoSnapshot" "ps_candidates calmPass = [demoMove]" "ps_config calmPass = demoConfig"
    "dp_Reader calmDispatcher" "dp_Client calmDispatcher" "dp_Namespace calmDispatcher \<noteq> []"
    by (simp_all add: calmPass_def calmDispatcher_def)
  have fresh: "w_state freshWorld = stateMap 5 ''0''" "w_requests freshWorld = []" "w_arbiter freshWorld = newArbiter" "w_tick freshWorld = 0"
    by (simp_all add: freshWorld_def)
  have loop: "map fst (w_requests (snd (run_state (dispatchLoop tableAPI calmEnvironment calmDispatcher demoSnapshot demoConfig (stateMap 5 ''0'') (sentJournal [])
      [0] ?out) v))) = [stamped]" if "w_state v = stateMap 5 ''0''" "w_requests v = []" "w_arbiter v = newArbiter" for v
    using calm_new [OF that, of ?out 0] by (auto simp: split_beta)
  have "map fst (w_requests (snd (run_state (Execute tableAPI calmEnvironment calmDispatcher demoSnapshot [demoMove] demoConfig) (freshWorld\<lparr>w_arbiter := newArbiter\<rparr>)))) = [stamped]"
    by (simp add: Execute_def Let_def admitS_def now_def tick_def Admit_newArbiter pass fresh loadS_def getState_def calm_journal reconcileThen_def reconcileS_def
        none dispatchPending_def pending dispatchFirst_def enabledS_def calm_facts calm loop del: dispatchLoop.simps)
  then show ?thesis using w' by (auto simp: pass split: option.splits prod.splits)
qed

theorem requests_written_ahead_witness:
  "\<exists>w'. runPasses tableAPI [calmPass] freshWorld = Some w' \<and> map fst (w_requests w') = [stamped]
     \<and> (\<forall>(e, cm) \<in> set (w_requests w'). cm \<in> set (w_history w')
       \<and> (\<exists>j. journalOf tableAPI cm = Some j \<and> unresolvedEntries j = [e] \<and> e_Phase e = dispatchPrepared \<and> e_LastAttempt e \<noteq> None))"
  using requests_written_ahead [OF tableAPI_decodes freshWorld_begins, of "[calmPass]"] calm_run by (metis (no_types, lifting) option.inject)

theorem one_open_request_witness:
  "\<exists>w'. runPasses tableAPI [calmPass, calmPass] freshWorld = Some w' \<and> card (e_UUID ` fst ` set (w_requests w') - finishedUUIDs tableAPI w') \<le> 1"
  by (rule one_open_request [OF tableAPI_decodes freshWorld_begins])

theorem hourly_limit_witness:
  "\<exists>w'. runPasses tableAPI [calmPass] freshWorld = Some w' \<and> map fst (w_requests w') = [stamped] \<and> (\<forall>t. card (intentsWithin tableAPI w' t) \<le> 4)"
proof -
  have "journals tableAPI freshWorld = {sentJournal []}" using freshWorld_begins by (auto simp: journals_def begins_def)
  then have start: "\<forall>t. card (intentsWithin tableAPI freshWorld t) \<le> 4" by (simp add: intentsWithin_def sentJournal_def entries_def)
  have past: "\<forall>e \<in> set (entries (sentJournal [])). slashless (e_UUID e) \<and> e_CreatedAt e \<le> 100 * Hour" by (simp add: sentJournal_def entries_def)
  have clock: "mono (\<lambda>_ :: nat. 100 * Hour)" by (simp add: mono_def)
  have passes: "\<forall>p \<in> set [calmPass]. en_now (ps_environment p) = (\<lambda>_. 100 * Hour) \<and> (\<forall>n. slashless (en_uuid (ps_environment p) n))
      \<and> MaxMigrationsPerHour (ps_config p) \<le> int 4"
    by (simp add: calmPass_def calmEnvironment_def demoConfig_def slashless_def)
  show ?thesis
    using hourly_limit [OF tableAPI_decodes clock freshWorld_begins passes past start] calm_run by (metis (no_types, lifting) option.inject)
qed

end
