(* ===== verification/Spec2Isabelle.thy ===== *)
theory Spec2Isabelle
  imports Quota_Shares Quota_Admission Quota_Highwater Quota_Fleet Quota_Usage Placement_Progress IR_Status TPU_Slice Model_Version Runtime_Descendants Alfred_Placement Alfred_Passes
begin

text \<open>
  \<^bold>\<open>Verification of OME.\<close> OME runs model servers on Kubernetes clusters. This library models the parts
  of it that decide something by computation alone, and proves what those decisions guarantee. All
  paths below are under \<^verbatim>\<open>src/\<close>.

  \<^bold>\<open>The parts and how they interact.\<close> Accelerators are budgeted by a tree of AcceleratorQuota objects. A
  webhook judges every write to the tree; the quota controller counts the hardware of the clusters,
  splits each leaf's budget over them, renders a copy of the tree for each cluster, and sums the usage
  that comes back. The placement controller splits the replicas of a service over clusters and moves it
  from one split to another step by step. On a cluster, serving runtimes inherit from each other, TPU
  pods fill slices, and the state of every instance of a service is stored in a compact columnar status.
  Alfred watches the nodes and moves instances off bad ones, within global limits.

  \<^bold>\<open>Shared theories.\<close>

  \<^item> \<open>Prelude\<close>: Go strings, maps, slices and machine integers; fallible steps; binary search. \<open>Go_Strings\<close>:
    numerals, splitting and joining, and the interface \<open>codec\<close> of a printer and a parser. \<open>Go_Time\<close>:
    instants and durations. \<open>Quantity\<close>: the interface \<open>quantity\<close> of \<^verbatim>\<open>resource.Quantity\<close>.
    \<open>Parent_Chain\<close>: chains of parent references. \<open>Largest_Remainder\<close>: the interface
    \<open>largest_remainder\<close> that both splits below implement, with its consequences proved once.

  \<^bold>\<open>Quota.\<close>

  \<^item> \<open>Quota_Shares\<close> (\<^verbatim>\<open>pkg/quota/shares/shares.go\<close>): \<open>Proportional\<close> divides a total by weights; it is exact,
    near the exact proportion, independent of the order, and fails only for the documented reasons.
  \<^item> \<open>Quota_Violation\<close>, \<open>Quota_Tree\<close> (\<^verbatim>\<open>pkg/quota/tree/violation.go\<close>, \<^verbatim>\<open>tree.go\<close>): the tree with parents,
    depths and every check of \<open>Build\<close>. \<open>Quota_Tree_Build\<close> gives the result in closed form,
    \<open>Quota_Tree_Spec\<close> the contract of a sound tree and the theorem that \<open>Build\<close> decides it,
    \<open>Quota_Tree_Walk\<close> the positions of nodes, \<open>Subtree\<close> and \<open>Frozen\<close> on broken trees.
  \<^item> \<open>Quota_Admission\<close> (\<^verbatim>\<open>pkg/webhook/admission/acceleratorquota/validator.go\<close>): \<open>Handle\<close>, and runs of
    admitted writes as a step relation.
  \<^item> \<open>Quota_Capacity\<close>, \<open>Quota_Highwater\<close> (\<^verbatim>\<open>pkg/quota/capacity\<close>): \<open>Sum\<close> attributes the accelerators of the
    nodes to flavors and loses none; \<open>Track\<close> follows a capacity with a band.
  \<^item> \<open>Quota_Allowances\<close>, \<open>Quota_Projection\<close> (\<^verbatim>\<open>pkg/quota/projection\<close>): \<open>Resolve\<close> splits the leaves over the
    clusters and \<open>For\<close> renders one cluster's copy. \<open>Quota_Fleet\<close> composes the two: over all clusters
    the copies carry exactly the authored budget.
  \<^item> \<open>Quota_Usage\<close> (\<^verbatim>\<open>pkg/quota/usage/usage.go\<close>): \<open>Roll\<close> sums readings upwards.

  \<^bold>\<open>Placement\<close> (\<^verbatim>\<open>pkg/controller/v1beta1/placement/allocation\<close>). \<open>Placement_Apportion\<close>: \<open>Apportion\<close> on
  machine integers. \<open>Placement_Transition\<close>: one step of \<open>Advance\<close> and \<open>AdvanceWholeMembers\<close>; it keeps the
  serving capacity, the surge limit and undrained members. \<open>Placement_Progress\<close>: when a step is
  complete, and that a step makes progress where nothing outside holds it back.

  \<^bold>\<open>Status of an InferenceReplica\<close> (\<^verbatim>\<open>pkg/controller/v1beta1/irstatus\<close>). \<open>Index_Set\<close>, \<open>Index_Set_Codec\<close>,
  \<open>Index_Set_Query\<close>: interval sets, their spelling and their queries against plain sets. \<open>IR_Columns\<close>,
  \<open>IR_Columns_Write\<close>, \<open>IR_Columns_Roundtrip\<close>: the columns, the laws of one column (\<open>column_laws\<close>, interpreted
  for each of the seven), and the round trip of the rows. \<open>IR_Status\<close>: the choice between the two forms.

  \<^bold>\<open>Runtimes, slices, versions.\<close> \<open>Runtime_Inheritance\<close>, \<open>Runtime_Descendants\<close>
  (\<^verbatim>\<open>pkg/runtimeinheritance\<close>): \<open>Resolve\<close> and \<open>Descendants\<close>, with the case in which the second misses what the
  first uses. \<open>TPU_Slice\<close> (\<^verbatim>\<open>pkg/tpuslice/shape.go\<close>) and \<open>Model_Version\<close> (\<^verbatim>\<open>pkg/modelver/util.go\<close>).

  \<^bold>\<open>Alfred\<close> (\<^verbatim>\<open>pkg/alfred/engine\<close>). \<open>Alfred_Ledger\<close> (\<^verbatim>\<open>state.go\<close>): dispatches, claims and the circuit
  breaker, whose state is a function of the history. \<open>Alfred_Arbiter\<close> (\<^verbatim>\<open>arbiter.go\<close>): the gates, the
  choice of targets and the caps; a pass stays within its budget and serves the urgent first.
  \<open>Alfred_Placement\<close>: the target each decision names and the placement it claims fit; over a pass no node is promised more
  GPUs than it has.

  The dispatcher asks for the migrations. It keeps a journal in a ConfigMap, so that a new leader knows what
  may already have been asked for.

  \<^item> \<open>Alfred_Journal\<close> (\<^verbatim>\<open>dispatch_journal.go\<close>, \<^verbatim>\<open>dispatch_request.go\<close>): entries, requests, validation, loading and
    saving. \<open>Alfred_Budget\<close> (\<^verbatim>\<open>dispatch_budget.go\<close>): the budget and the pruning of the history, which never
    changes a verdict. \<open>Alfred_Reconcile\<close> (\<^verbatim>\<open>dispatch_reconcile.go\<close>): what an entry may conclude from the cluster.
  \<^item> \<open>Alfred_Protocol\<close>: the abstract contract, a step relation over stored journals and requests, with its
    invariants: one unresolved intent, and at most so many intents in any hour.
  \<^item> \<open>Alfred_World\<close>: the world the dispatcher acts on, as a state monad, and rules for its steps.
    \<open>Alfred_Preflight\<close> (\<^verbatim>\<open>dispatch_preflight.go\<close>): every check before a write, and the order of the reads an acceptance rests on. \<open>Alfred_Dispatcher\<close>
    (\<^verbatim>\<open>dispatcher.go\<close>): \<open>Execute\<close>.
  \<^item> \<open>Alfred_Serial\<close>: every operation of the dispatcher refines the protocol. \<open>Alfred_Passes\<close>: the consequences for
    any sequence of passes, and a worked pass.

  \<^bold>\<open>How state and operations correspond.\<close> A struct is a \<open>record\<close> with the fields the code reads, an enum a
  \<open>datatype\<close> or its string, a map an association list, a set of keys a set. A method that changes its
  receiver returns the new record. An error return is \<open>Inl\<close> of a sum; a panic is \<open>None\<close>. Integers are
  unbounded with \<open>wrap32\<close> and \<open>wrap64\<close> where the code could overflow. The clock is an argument.

  \<^bold>\<open>Termination and bounds.\<close> No fuel is used. Loops that follow references (\<open>walk\<close>, \<open>cycleFrom\<close>,
  \<open>assignDepthLoop\<close>, \<open>walkChain\<close>, \<open>descend\<close>) terminate because they visit each object once; hand-out loops
  (\<open>distribute\<close>, \<open>handOut\<close>) by the amount left. \<open>is_gpu\<close> bounds GPU counts so that two of them add up
  within \<^verbatim>\<open>int64\<close>.

  \<^bold>\<open>Parameters and hypotheses.\<close> Code outside the repository is an argument: \<open>quantity_api\<close> with the laws of
  the locale \<open>quantity\<close> (exact decimal arithmetic, interpreted by \<open>exact_api\<close>), the digest of a mapping,
  JSON and the strategic merge patch of runtimes, the Kubernetes reads, the decoding of a request, the
  size of a serialised status, the autoscaler's signal. For the dispatcher, \<open>journal_api\<close> collects JSON, UUIDs and
  the name rules of Kubernetes, and \<open>environment\<close> the clock, the objects read, the outcome of every call and
  the results of the snapshot builder, the simulation, the fingerprint and the rescoring, which are Alfred's own
  but not modelled. Of JSON it is assumed that a stored journal decodes to what was encoded. Nothing is assumed of the
  environment except for the hourly limit: all passes read one clock that never goes back, and a new UUID, as
  \<^verbatim>\<open>uuid.NewString\<close> spells it, has no slash; the journal it starts from is within the limit, with no slash in its UUIDs and
  no entry ahead of the clock. Passes do not overlap, which leader election provides. In \<open>fleet_projection_exact\<close> the root is not a leaf,
  which the validation rule of the API type enforces (a ClusterQueue node must set \<^verbatim>\<open>parentRef\<close>). Scores
  of Alfred's candidates are finite floats, modelled as rationals.

  \<^bold>\<open>Not modelled.\<close> The reconcilers (inference services, replicas, workload engine, placement, routing,
  quota backend), because they read and write API servers and their state is the cluster's; the policies
  and the snapshot builder of Alfred, which feed the arbiter, and its scheduler simulation; the remaining webhooks
  and validations, which are field rules over the API types; the model agent, downloads, credentials and
  the command line, which are input and output; generated code.
\<close>

end
